(* ===== verification/Prelude.thy ===== *)
theory Prelude
  imports Main "HOL-Library.Word" "HOL-Library.Monad_Syntax" "HOL-Library.Multiset"
begin

text \<open>
  Shared vocabulary of the development: machine integer types, the sizing constants of
  core/include/embediq_config.h, the error codes of core/include/embediq_osal.h, the message
  envelope of core/include/embediq_msg.h, calls to the Observatory as values, little-endian
  byte encodings, and the generic lemmas on lists and words that the components use.
\<close>

unbundle bit_operations_syntax

section \<open>Machine integers\<close>

type_synonym u8 = "8 word"
type_synonym u16 = "16 word"
type_synonym u32 = "32 word"
type_synonym u64 = "64 word"
type_synonym bytes = "u8 list"

named_theorems embediq_const \<open>sizing constants and message identifiers\<close>
named_theorems le_simps \<open>little-endian encodings\<close>

section \<open>Sizing constants (embediq_config.h)\<close>

definition EMBEDIQ_MAX_ENDPOINTS :: nat where [embediq_const]: "EMBEDIQ_MAX_ENDPOINTS = 64"
definition EMBEDIQ_MSG_MAX_PAYLOAD :: nat where [embediq_const]: "EMBEDIQ_MSG_MAX_PAYLOAD = 64"
definition EMBEDIQ_HIGH_QUEUE_DEPTH :: u16 where [embediq_const]: "EMBEDIQ_HIGH_QUEUE_DEPTH = 16"
definition EMBEDIQ_NORMAL_QUEUE_DEPTH :: u16 where
  [embediq_const]: "EMBEDIQ_NORMAL_QUEUE_DEPTH = 32"
definition EMBEDIQ_LOW_QUEUE_DEPTH :: u16 where [embediq_const]: "EMBEDIQ_LOW_QUEUE_DEPTH = 16"
definition EMBEDIQ_QUEUE_WARN_THRESHOLD :: u8 where
  [embediq_const]: "EMBEDIQ_QUEUE_WARN_THRESHOLD = 75"
definition EMBEDIQ_MAX_SUBFNS_PER_FB :: nat where
  [embediq_const]: "EMBEDIQ_MAX_SUBFNS_PER_FB = 16"
definition EMBEDIQ_OBS_RING_DEPTH :: nat where [embediq_const]: "EMBEDIQ_OBS_RING_DEPTH = 256"
definition EMBEDIQ_MAX_SUBSCRIPTIONS :: nat where
  [embediq_const]: "EMBEDIQ_MAX_SUBSCRIPTIONS = 512"
definition EMBEDIQ_NVM_KEY_SIZE :: nat where [embediq_const]: "EMBEDIQ_NVM_KEY_SIZE = 64"
definition EMBEDIQ_NVM_VAL_SIZE :: nat where [embediq_const]: "EMBEDIQ_NVM_VAL_SIZE = 64"
definition EMBEDIQ_NVM_MAX_KEYS :: nat where [embediq_const]: "EMBEDIQ_NVM_MAX_KEYS = 64"
definition EMBEDIQ_TELEMETRY_WINDOW_SEC :: u32 where
  [embediq_const]: "EMBEDIQ_TELEMETRY_WINDOW_SEC = 30"
definition EMBEDIQ_TELEMETRY_MAX_METRICS :: nat where
  [embediq_const]: "EMBEDIQ_TELEMETRY_MAX_METRICS = 32"
definition EMBEDIQ_TELEMETRY_MAX_TAGS :: nat where
  [embediq_const]: "EMBEDIQ_TELEMETRY_MAX_TAGS = 4"
definition EMBEDIQ_TELEMETRY_TAG_LEN :: nat where
  [embediq_const]: "EMBEDIQ_TELEMETRY_TAG_LEN = 16"
definition EMBEDIQ_MAX_LIB_INITS :: nat where [embediq_const]: "EMBEDIQ_MAX_LIB_INITS = 16"

definition EMBEDIQ_TRACE_LEVEL :: nat where [embediq_const]: "EMBEDIQ_TRACE_LEVEL = 1"

section \<open>Error codes (embediq_osal.h)\<close>

datatype embediq_err =
    EMBEDIQ_OK | EMBEDIQ_ERR | EMBEDIQ_ERR_TIMEOUT | EMBEDIQ_ERR_NOMEM | EMBEDIQ_ERR_INVALID

abbreviation UINT32_MAX :: u32 where "UINT32_MAX \<equiv> 0xFFFFFFFF"

section \<open>Message envelope (embediq_msg.h)\<close>

text \<open>
  \<open>EmbedIQ_Msg_t\<close>: a packed struct of 84 bytes. The three padding bytes and the payload are
  byte lists of lengths 3 and 64 (\<open>wf_msg\<close>).
\<close>

record embediq_msg =
  msg_id :: u16
  source_endpoint_id :: u8
  target_endpoint_id :: u8
  schema_id :: u16
  payload_len :: u16
  correlation_id :: u32
  timestamp_us :: u32
  priority :: u8
  reserved :: bytes
  payload :: bytes

definition EMBEDIQ_MSG_PRIORITY_HIGH :: u8 where
  [embediq_const]: "EMBEDIQ_MSG_PRIORITY_HIGH = 0"
definition EMBEDIQ_MSG_PRIORITY_NORMAL :: u8 where
  [embediq_const]: "EMBEDIQ_MSG_PRIORITY_NORMAL = 1"
definition EMBEDIQ_MSG_PRIORITY_LOW :: u8 where
  [embediq_const]: "EMBEDIQ_MSG_PRIORITY_LOW = 2"

definition wf_msg :: "embediq_msg \<Rightarrow> bool" where
  "wf_msg m \<longleftrightarrow> length (reserved m) = 3 \<and> length (payload m) = EMBEDIQ_MSG_MAX_PAYLOAD"

text \<open>A message cleared with \<open>memset\<close>, as every publisher starts from.\<close>

definition zero_msg :: embediq_msg where
  "zero_msg = \<lparr>msg_id = 0, source_endpoint_id = 0, target_endpoint_id = 0, schema_id = 0,
     payload_len = 0, correlation_id = 0, timestamp_us = 0, priority = 0,
     reserved = replicate 3 0, payload = replicate 64 0\<rparr>"

lemma wf_zero_msg: "wf_msg zero_msg"
  by (simp add: wf_msg_def zero_msg_def embediq_const)

section \<open>Calls to the Observatory\<close>

text \<open>
  \<open>embediq_obs_emit\<close> returns nothing and shares no state with its callers, so the components
  that emit events record the calls they make, in order; theory Obs says what the Observatory
  does with such a list of calls.
\<close>

datatype obs_call =
  Obs_Call (oc_type: u8) (oc_source: u8) (oc_target: u8) (oc_state: u8) (oc_msg_id: u16)

section \<open>Event types and sources (embediq_obs.h)\<close>

definition EMBEDIQ_OSAL_SRC_TASKS :: u8 where [embediq_const]: "EMBEDIQ_OSAL_SRC_TASKS = 0xC0"
definition EMBEDIQ_OSAL_SRC_QUEUES :: u8 where [embediq_const]: "EMBEDIQ_OSAL_SRC_QUEUES = 0xC1"
definition EMBEDIQ_OSAL_SRC_MUTEXES :: u8 where [embediq_const]: "EMBEDIQ_OSAL_SRC_MUTEXES = 0xC2"
definition EMBEDIQ_OSAL_SRC_SIGNALS :: u8 where [embediq_const]: "EMBEDIQ_OSAL_SRC_SIGNALS = 0xC3"
definition EMBEDIQ_OSAL_SRC_SEMS :: u8 where [embediq_const]: "EMBEDIQ_OSAL_SRC_SEMS = 0xC4"
definition EMBEDIQ_HAL_SRC_UART :: u8 where [embediq_const]: "EMBEDIQ_HAL_SRC_UART = 0xD0"
definition EMBEDIQ_HAL_SRC_I2C :: u8 where [embediq_const]: "EMBEDIQ_HAL_SRC_I2C = 0xD1"
definition EMBEDIQ_HAL_SRC_SPI :: u8 where [embediq_const]: "EMBEDIQ_HAL_SRC_SPI = 0xD2"
definition EMBEDIQ_HAL_SRC_GPIO :: u8 where [embediq_const]: "EMBEDIQ_HAL_SRC_GPIO = 0xD3"
definition EMBEDIQ_HAL_SRC_FLASH :: u8 where [embediq_const]: "EMBEDIQ_HAL_SRC_FLASH = 0xD4"
definition EMBEDIQ_HAL_SRC_TIMER :: u8 where [embediq_const]: "EMBEDIQ_HAL_SRC_TIMER = 0xD5"
definition EMBEDIQ_HAL_SRC_WDG :: u8 where [embediq_const]: "EMBEDIQ_HAL_SRC_WDG = 0xD6"
definition EMBEDIQ_HAL_SRC_OBS_STREAM :: u8 where
  [embediq_const]: "EMBEDIQ_HAL_SRC_OBS_STREAM = 0xD7"
definition EMBEDIQ_LIB_SRC_BASE :: u8 where [embediq_const]: "EMBEDIQ_LIB_SRC_BASE = 0xE0"
definition EMBEDIQ_LIB_SRC_MAX :: u8 where [embediq_const]: "EMBEDIQ_LIB_SRC_MAX = 0xEF"
definition EMBEDIQ_OBS_EVT_OVERFLOW :: u8 where [embediq_const]: "EMBEDIQ_OBS_EVT_OVERFLOW = 0x10"
definition EMBEDIQ_OBS_EVT_BOOT :: u8 where [embediq_const]: "EMBEDIQ_OBS_EVT_BOOT = 0x11"
definition EMBEDIQ_OBS_EVT_SHUTDOWN :: u8 where [embediq_const]: "EMBEDIQ_OBS_EVT_SHUTDOWN = 0x12"
definition EMBEDIQ_OBS_EVT_WATCHDOG_RST :: u8 where
  [embediq_const]: "EMBEDIQ_OBS_EVT_WATCHDOG_RST = 0x13"
definition EMBEDIQ_OBS_EVT_HEARTBEAT :: u8 where
  [embediq_const]: "EMBEDIQ_OBS_EVT_HEARTBEAT = 0x14"
definition EMBEDIQ_OBS_EVT_OTA_UPDATE :: u8 where
  [embediq_const]: "EMBEDIQ_OBS_EVT_OTA_UPDATE = 0x15"
definition EMBEDIQ_OBS_EVT_CONFIG_CHANGE :: u8 where
  [embediq_const]: "EMBEDIQ_OBS_EVT_CONFIG_CHANGE = 0x16"
definition EMBEDIQ_OBS_EVT_AI_INFERENCE_START :: u8 where
  [embediq_const]: "EMBEDIQ_OBS_EVT_AI_INFERENCE_START = 0x17"
definition EMBEDIQ_OBS_EVT_AI_INFERENCE_END :: u8 where
  [embediq_const]: "EMBEDIQ_OBS_EVT_AI_INFERENCE_END = 0x18"
definition EMBEDIQ_OBS_EVT_AI_MODEL_LOAD :: u8 where
  [embediq_const]: "EMBEDIQ_OBS_EVT_AI_MODEL_LOAD = 0x19"
definition EMBEDIQ_OBS_EVT_AI_CONFIDENCE_THRESHOLD :: u8 where
  [embediq_const]: "EMBEDIQ_OBS_EVT_AI_CONFIDENCE_THRESHOLD = 0x1A"
definition EMBEDIQ_OBS_EVT_MAINTENANCE_MODE :: u8 where
  [embediq_const]: "EMBEDIQ_OBS_EVT_MAINTENANCE_MODE = 0x1B"
definition EMBEDIQ_OBS_EVT_FW_START :: u8 where [embediq_const]: "EMBEDIQ_OBS_EVT_FW_START = 0x1C"
definition EMBEDIQ_OBS_EVT_CONFIG_LOAD :: u8 where
  [embediq_const]: "EMBEDIQ_OBS_EVT_CONFIG_LOAD = 0x1D"
definition EMBEDIQ_OBS_EVT_MSG_TX :: u8 where [embediq_const]: "EMBEDIQ_OBS_EVT_MSG_TX = 0x20"
definition EMBEDIQ_OBS_EVT_MSG_RX :: u8 where [embediq_const]: "EMBEDIQ_OBS_EVT_MSG_RX = 0x21"
definition EMBEDIQ_OBS_EVT_QUEUE_DROP :: u8 where
  [embediq_const]: "EMBEDIQ_OBS_EVT_QUEUE_DROP = 0x22"
definition EMBEDIQ_OBS_EVT_LIFECYCLE :: u8 where
  [embediq_const]: "EMBEDIQ_OBS_EVT_LIFECYCLE = 0x30"
definition EMBEDIQ_OBS_EVT_FSM_TRANS :: u8 where
  [embediq_const]: "EMBEDIQ_OBS_EVT_FSM_TRANS = 0x31"
definition EMBEDIQ_OBS_EVT_EXTFB_CONNECTED :: u8 where
  [embediq_const]: "EMBEDIQ_OBS_EVT_EXTFB_CONNECTED = 0x32"
definition EMBEDIQ_OBS_EVT_EXTFB_DISCONNECTED :: u8 where
  [embediq_const]: "EMBEDIQ_OBS_EVT_EXTFB_DISCONNECTED = 0x33"
definition EMBEDIQ_OBS_EVT_LIB_INIT :: u8 where [embediq_const]: "EMBEDIQ_OBS_EVT_LIB_INIT = 0x40"
definition EMBEDIQ_OBS_EVT_LIB_DEINIT :: u8 where
  [embediq_const]: "EMBEDIQ_OBS_EVT_LIB_DEINIT = 0x41"
definition EMBEDIQ_OBS_EVT_BUS_QUEUE_DEPTH :: u8 where
  [embediq_const]: "EMBEDIQ_OBS_EVT_BUS_QUEUE_DEPTH = 0x42"
definition EMBEDIQ_OBS_EVT_WDG_CHECKIN :: u8 where
  [embediq_const]: "EMBEDIQ_OBS_EVT_WDG_CHECKIN = 0x50"
definition EMBEDIQ_OBS_EVT_FAULT :: u8 where [embediq_const]: "EMBEDIQ_OBS_EVT_FAULT = 0x60"
definition EMBEDIQ_OBS_EVT_SECURITY_INCIDENT :: u8 where
  [embediq_const]: "EMBEDIQ_OBS_EVT_SECURITY_INCIDENT = 0x61"
definition EMBEDIQ_OBS_EVT_AUTH_EVENT :: u8 where
  [embediq_const]: "EMBEDIQ_OBS_EVT_AUTH_EVENT = 0x62"
definition EMBEDIQ_OBS_EVT_FAULT_CLEARED :: u8 where
  [embediq_const]: "EMBEDIQ_OBS_EVT_FAULT_CLEARED = 0x63"
definition EMBEDIQ_OBS_EVT_OSAL_FAULT :: u8 where
  [embediq_const]: "EMBEDIQ_OBS_EVT_OSAL_FAULT = 0x66"
definition EMBEDIQ_OBS_EVT_HAL_FAULT :: u8 where
  [embediq_const]: "EMBEDIQ_OBS_EVT_HAL_FAULT = 0x67"
definition EMBEDIQ_OBS_EVT_CFG_BLOB_INVALID :: u8 where
  [embediq_const]: "EMBEDIQ_OBS_EVT_CFG_BLOB_INVALID = 0x68"
definition EMBEDIQ_OBS_EVT_CFG_MUTABILITY_REJECT :: u8 where
  [embediq_const]: "EMBEDIQ_OBS_EVT_CFG_MUTABILITY_REJECT = 0x69"
definition EMBEDIQ_OBS_EVT_TEST_START :: u8 where
  [embediq_const]: "EMBEDIQ_OBS_EVT_TEST_START = 0x70"
definition EMBEDIQ_OBS_EVT_TEST_END :: u8 where [embediq_const]: "EMBEDIQ_OBS_EVT_TEST_END = 0x71"

text \<open>HAL return codes and the event every failing HAL function emits (hal/hal_defs.h).\<close>

definition HAL_OK :: int where [embediq_const]: "HAL_OK = 0"
definition HAL_ERR_INVALID :: int where [embediq_const]: "HAL_ERR_INVALID = -1"
definition HAL_ERR_BUSY :: int where [embediq_const]: "HAL_ERR_BUSY = -2"
definition HAL_ERR_TIMEOUT :: int where [embediq_const]: "HAL_ERR_TIMEOUT = -3"
definition HAL_ERR_IO :: int where [embediq_const]: "HAL_ERR_IO = -4"

definition EMBEDIQ_HAL_OBS_EMIT_ERROR :: "u8 \<Rightarrow> int \<Rightarrow> obs_call" where
  "EMBEDIQ_HAL_OBS_EMIT_ERROR src_id err_code =
     Obs_Call EMBEDIQ_OBS_EVT_HAL_FAULT src_id 0 (word_of_int (- err_code)) 0"

section \<open>Little-endian encodings\<close>

definition le16 :: "u16 \<Rightarrow> bytes" where
  "le16 w = [ucast w, ucast (drop_bit 8 w)]"

definition le32 :: "u32 \<Rightarrow> bytes" where
  "le32 w = [ucast w, ucast (drop_bit 8 w), ucast (drop_bit 16 w), ucast (drop_bit 24 w)]"

definition of_le16 :: "bytes \<Rightarrow> u16" where
  "of_le16 bs = ucast (bs ! 0) OR push_bit 8 (ucast (bs ! 1))"

definition of_le32 :: "bytes \<Rightarrow> u32" where
  "of_le32 bs = ucast (bs ! 0) OR push_bit 8 (ucast (bs ! 1)) OR
     push_bit 16 (ucast (bs ! 2)) OR push_bit 24 (ucast (bs ! 3))"

lemma length_le16 [simp, le_simps]: "length (le16 w) = 2"
  by (simp add: le16_def)

lemma length_le32 [simp, le_simps]: "length (le32 w) = 4"
  by (simp add: le32_def)

lemma of_le16_le16 [simp, le_simps]: "of_le16 (le16 w @ xs) = w"
proof -
  have "ucast (ucast w :: u8) OR push_bit 8 (ucast (ucast (drop_bit 8 w) :: u8)) = w"
    by (rule bit_eqI) (auto simp: bit_simps)
  then show ?thesis by (simp add: of_le16_def le16_def)
qed

lemma of_le32_le32 [simp, le_simps]: "of_le32 (le32 w @ xs) = w"
proof -
  let ?b = "\<lambda>k. ucast (drop_bit k w) :: u8"
  have "ucast (?b 0) OR push_bit 8 (ucast (?b 8)) OR push_bit 16 (ucast (?b 16)) OR
    push_bit 24 (ucast (?b 24)) = w" (is "?l = w")
  proof (rule bit_eqI)
    fix n :: nat
    assume "possible_bit TYPE(u32) n"
    then consider "n < 8" | "8 \<le> n \<and> n < 16" | "16 \<le> n \<and> n < 24" | "24 \<le> n \<and> n < 32"
      by fastforce
    then show "bit ?l n = bit w n"
      by cases (auto simp: bit_simps)
  qed
  then show ?thesis by (simp add: of_le32_def le32_def numeral_2_eq_2 numeral_3_eq_3)
qed

lemma of_le16_le16_Nil [simp, le_simps]: "of_le16 (le16 w) = w"
  using of_le16_le16 [of w "[]"] by simp

lemma of_le32_le32_Nil [simp, le_simps]: "of_le32 (le32 w) = w"
  using of_le32_le32 [of w "[]"] by simp

section \<open>Ring indices and bounded histories\<close>

lemma ring_index_inj:
  fixes h i j d :: nat
  assumes "i < d" and "j < d" and "(h + i) mod d = (h + j) mod d"
  shows "i = j"
proof -
  have aux: "a = b" if "a \<le> b" "b < d" "(h + a) mod d = (h + b) mod d" for a b
  proof -
    from that have "d dvd (h + b) - (h + a)"
      by (metis mod_eq_dvd_iff_nat nat_add_left_cancel_le)
    with that show ?thesis by (auto dest: dvd_imp_le)
  qed
  show ?thesis
    using aux [of i j] aux [of j i] assms by (cases "i \<le> j") auto
qed

text \<open>The newest \<open>n\<close> elements of a history.\<close>

definition keep_newest :: "nat \<Rightarrow> 'a list \<Rightarrow> 'a list" where
  "keep_newest n xs = drop (length xs - n) xs"

lemma length_keep_newest [simp]: "length (keep_newest n xs) = min n (length xs)"
  by (simp add: keep_newest_def)

lemma keep_newest_short: "length xs \<le> n \<Longrightarrow> keep_newest n xs = xs"
  by (simp add: keep_newest_def)

lemma keep_newest_snoc:
  "0 < n \<Longrightarrow> keep_newest n (xs @ [x]) =
     (if length xs < n then xs @ [x] else tl (keep_newest n xs) @ [x])"
proof (cases "length xs < n")
  case True
  then show ?thesis by (simp add: keep_newest_def)
next
  case False
  assume "0 < n"
  with False have "length xs + 1 - n = Suc (length xs - n)" and "Suc (length xs - n) \<le> length xs"
    by simp_all
  with False show ?thesis by (simp add: keep_newest_def tl_drop drop_Suc)
qed

lemma keep_newest_append_keep:
  "keep_newest n (keep_newest n xs @ ys) = keep_newest n (xs @ ys)"
proof (cases "length xs \<le> n")
  case True
  then show ?thesis by (simp add: keep_newest_short)
next
  case False
  then have "length xs - n + (n + length ys - n) = length xs + length ys - n" by simp
  with False show ?thesis
    by (cases "length ys \<le> n") (auto simp: keep_newest_def add.commute)
qed

lemma unat_of_nat_small: "n < 2 ^ LENGTH('a::len) \<Longrightarrow> unat (word_of_nat n :: 'a word) = n"
  by (simp add: unat_of_nat take_bit_nat_eq_self)

lemma unat_ucast_up:
  fixes w :: "'a::len word"
  assumes "LENGTH('a) \<le> LENGTH('b)"
  shows "unat (ucast w :: 'b::len word) = unat w"
proof -
  have "unat w < 2 ^ LENGTH('a)" by (rule unsigned_less)
  also have "\<dots> \<le> 2 ^ LENGTH('b)" using assms by (intro power_increasing) simp_all
  finally show ?thesis by (simp add: unsigned_ucast_eq take_bit_nat_eq_self)
qed

lemma unat_plus_one_bounded:
  "unat (a :: 'a::len word) < unat (b :: 'a word) \<Longrightarrow> unat (a + 1) = unat a + 1"
proof -
  assume "unat a < unat b"
  then have "unat a + 1 < 2 ^ LENGTH('a)"
    using unsigned_less [of b] by (metis Suc_eq_plus1 Suc_leI le_less_trans)
  then show ?thesis by (simp add: unat_word_ariths)
qed

section \<open>Insertion by shifting\<close>

text \<open>The inner loop of an insertion sort: \<open>x\<close> is to go to position \<open>pos\<close>; larger elements move
  up by one cell first.\<close>

fun shift_insert :: "('a \<Rightarrow> 'k::linorder) \<Rightarrow> 'a list \<Rightarrow> nat \<Rightarrow> 'a \<Rightarrow> 'a list" where
  "shift_insert key arr pos x =
     (if 0 < pos \<and> key (arr ! (pos - 1)) > key x
      then shift_insert key (arr[pos := arr ! (pos - 1)]) (pos - 1) x
      else arr[pos := x])"

declare shift_insert.simps [simp del]

text \<open>The list it produces: \<open>x\<close> stands behind all elements that are not larger.\<close>

primrec insert_after :: "('a \<Rightarrow> 'k::linorder) \<Rightarrow> 'a \<Rightarrow> 'a list \<Rightarrow> 'a list" where
  "insert_after key x [] = [x]"
| "insert_after key x (y # ys) =
     (if key y \<le> key x then y # insert_after key x ys else x # y # ys)"

lemma set_insert_after [simp]: "set (insert_after key x ys) = insert x (set ys)"
  by (induction ys) auto

lemma length_insert_after [simp]: "length (insert_after key x ys) = Suc (length ys)"
  by (induction ys) auto

lemma sorted_insert_after: "sorted (map key ys) \<Longrightarrow> sorted (map key (insert_after key x ys))"
  by (induction ys) (auto intro: order_less_imp_le order_trans)

lemma insert_after_larger:
  "key x < key z \<Longrightarrow> insert_after key x (ys @ [z]) = insert_after key x ys @ [z]"
  by (induction ys) auto

lemma insert_after_all: "\<forall>y \<in> set ys. key y \<le> key x \<Longrightarrow> insert_after key x ys = ys @ [x]"
  by (induction ys) auto

text \<open>Insertion is stable.\<close>

lemma filter_insert_after:
  "sorted (map key ys) \<Longrightarrow> filter (\<lambda>y. key y = k) (insert_after key x ys) =
     filter (\<lambda>y. key y = k) ys @ (if key x = k then [x] else [])"
proof (induction ys)
  case (Cons a ys)
  show ?case
  proof (cases "key a \<le> key x")
    case False
    then have "\<forall>y \<in> set (a # ys). key y \<noteq> key x" using Cons.prems by fastforce
    then have "filter (\<lambda>y. key y = key x) (a # ys) = []" by (simp add: filter_empty_conv)
    with False show ?thesis by auto
  qed (use Cons in auto)
qed simp

lemma shift_insert_correct:
  assumes "pos < length arr" and "sorted (map key (take pos arr))"
  shows "shift_insert key arr pos x = insert_after key x (take pos arr) @ drop (Suc pos) arr"
  using assms
proof (induction pos arbitrary: arr)
  case 0
  then show ?case
    by (simp add: shift_insert.simps upd_conv_take_nth_drop)
next
  case (Suc n)
  have tk: "take (Suc n) arr = take n arr @ [arr ! n]" using Suc.prems(1) by (simp add: take_Suc_conv_app_nth)
  have srt: "sorted (map key (take n arr))" and le: "\<forall>y \<in> set (take n arr). key y \<le> key (arr ! n)"
    using Suc.prems(2) unfolding tk by (auto simp: sorted_append)
  show ?case
  proof (cases "key (arr ! n) > key x")
    case True
    let ?arr = "arr[Suc n := arr ! n]"
    have "shift_insert key arr (Suc n) x = shift_insert key ?arr n x"
      using True by (subst shift_insert.simps) simp
    also have "\<dots> = insert_after key x (take n arr) @ drop (Suc n) ?arr"
      using Suc.IH [of ?arr] Suc.prems(1) srt by simp
    also have "drop (Suc n) ?arr = arr ! n # drop (Suc (Suc n)) arr"
      using Suc.prems(1) by (simp add: Cons_nth_drop_Suc [symmetric] drop_update_swap)
    finally show ?thesis
      using True by (simp add: tk insert_after_larger)
  next
    case False
    then have "\<forall>y \<in> set (take (Suc n) arr). key y \<le> key x"
      using le unfolding tk by (auto intro: order_trans)
    then have "insert_after key x (take (Suc n) arr) = take (Suc n) arr @ [x]"
      by (rule insert_after_all)
    moreover have "shift_insert key arr (Suc n) x = arr[Suc n := x]"
      using False by (subst shift_insert.simps) simp
    ultimately show ?thesis
      using Suc.prems(1) by (simp add: upd_conv_take_nth_drop)
  qed
qed

section \<open>Partial correctness of fallible state steps\<close>

text \<open>Every state a step can return satisfies a predicate; one rule for each construct the
  handlers are written in.\<close>

definition returns :: "('r \<times> 's) option \<Rightarrow> ('s \<Rightarrow> bool) \<Rightarrow> bool" where
  "returns m P \<longleftrightarrow> (\<forall>r s. m = Some (r, s) \<longrightarrow> P s)"

named_theorems returns_rules \<open>introduction rules for returns\<close>

lemma returns_Some [returns_rules]: "P s \<Longrightarrow> returns (Some (r, s)) P"
  by (simp add: returns_def)

lemma returns_None [returns_rules]: "returns None P"
  by (simp add: returns_def)

lemma returns_bind [returns_rules]:
  "returns m P \<Longrightarrow> (\<And>r s. P s \<Longrightarrow> returns (f r s) Q) \<Longrightarrow> returns (m \<bind> (\<lambda>(r, s). f r s)) Q"
  by (force simp: returns_def bind_eq_Some_conv)

lemma returns_if [returns_rules]:
  "(b \<Longrightarrow> returns m P) \<Longrightarrow> (\<not> b \<Longrightarrow> returns n P) \<Longrightarrow> returns (if b then m else n) P"
  by simp

lemma returns_case_option [returns_rules]:
  "returns m P \<Longrightarrow> (\<And>x. returns (f x) P) \<Longrightarrow> returns (case a of None \<Rightarrow> m | Some x \<Rightarrow> f x) P"
  by (cases a) simp_all

lemma returns_case_prod [returns_rules]:
  "(\<And>x y. returns (f x y) P) \<Longrightarrow> returns (case a of (x, y) \<Rightarrow> f x y) P"
  by (cases a) simp

lemma returnsD: "returns m P \<Longrightarrow> m = Some (r, s) \<Longrightarrow> P s"
  by (simp add: returns_def)

section \<open>Strings\<close>

text \<open>\<open>snprintf\<close> into a buffer of \<open>n\<close> bytes keeps \<open>n - 1\<close> characters.\<close>

definition snprintf_n :: "nat \<Rightarrow> string \<Rightarrow> string" where
  "snprintf_n n s = take (n - 1) s"

end
