(* ===== verification/Osal.thy ===== *)
theory Osal
  imports Prelude
begin

text \<open>
  osal/posix/embediq_osal_posix.c: the copy-by-value message queue (a ring buffer over a
  malloc'ed array) and the counting semaphore. The buffer's cells are \<open>'a option\<close>: \<open>None\<close> is
  malloc'ed memory no send has written yet. The functions describe one caller on one queue;
  \<open>None\<close> as the result of a blocking call means that the caller waits for another thread.
  Contents: the operations, the validity invariant, the refinement of the ring to a list of
  items (locale \<open>bounded_fifo\<close>, interpreted on the ring), and the overflow policies the
  message bus builds from the operations, proved once in the locale.
\<close>

section \<open>The queue's data and operations\<close>

record 'a osal_queue =
  q_depth :: u16
  q_count :: u16
  q_head :: u16
  q_tail :: u16
  q_buf :: "'a option list"

text \<open>\<open>embediq_osal_queue_create\<close>; \<open>mem\<close> says whether both mallocs succeed.\<close>

definition embediq_osal_queue_create :: "bool \<Rightarrow> u16 \<Rightarrow> 'a osal_queue option" where
  "embediq_osal_queue_create mem depth =
     (if \<not> mem then None
      else Some \<lparr>q_depth = depth, q_count = 0, q_head = 0, q_tail = 0,
                 q_buf = replicate (unat depth) None\<rparr>)"

text \<open>The event of the macro \<open>EMBEDIQ_OSAL_OBS_QUEUE_FULL(0)\<close>.\<close>

definition EMBEDIQ_OSAL_OBS_QUEUE_FULL :: obs_call where
  "EMBEDIQ_OSAL_OBS_QUEUE_FULL =
     Obs_Call EMBEDIQ_OBS_EVT_OSAL_FAULT EMBEDIQ_OSAL_SRC_QUEUES 0 2 0"

text \<open>
  \<open>embediq_osal_queue_send\<close>. On a full queue a zero timeout fails at once, a finite one fails
  at its deadline (no other thread makes room meanwhile), and \<open>UINT32_MAX\<close> waits: \<open>None\<close>.
  The result is the error code, the queue and the Observatory calls made.
\<close>

definition queue_put :: "'a osal_queue \<Rightarrow> 'a \<Rightarrow> 'a osal_queue" where
  "queue_put q x = q\<lparr>
     q_buf := (q_buf q)[unat (q_tail q) := Some x],
     q_tail := word_of_nat ((unat (q_tail q) + 1) mod unat (q_depth q)),
     q_count := q_count q + 1\<rparr>"

definition embediq_osal_queue_send ::
  "'a osal_queue \<Rightarrow> 'a \<Rightarrow> u32 \<Rightarrow> (embediq_err \<times> 'a osal_queue \<times> obs_call list) option" where
  "embediq_osal_queue_send q x timeout_ms =
     (if q_count q \<ge> q_depth q
      then (if timeout_ms = UINT32_MAX then None
            else Some (EMBEDIQ_ERR_TIMEOUT, q, [EMBEDIQ_OSAL_OBS_QUEUE_FULL]))
      else Some (EMBEDIQ_OK, queue_put q x, []))"

text \<open>
  \<open>embediq_osal_queue_recv\<close>: the second component is what is copied to \<open>*item\<close>.
\<close>

definition queue_take :: "'a osal_queue \<Rightarrow> 'a osal_queue" where
  "queue_take q = q\<lparr>
     q_head := word_of_nat ((unat (q_head q) + 1) mod unat (q_depth q)),
     q_count := q_count q - 1\<rparr>"

definition embediq_osal_queue_recv ::
  "'a osal_queue \<Rightarrow> u32 \<Rightarrow> (embediq_err \<times> 'a option \<times> 'a osal_queue) option" where
  "embediq_osal_queue_recv q timeout_ms =
     (if q_count q = 0
      then (if timeout_ms = UINT32_MAX then None else Some (EMBEDIQ_ERR_TIMEOUT, None, q))
      else Some (EMBEDIQ_OK, q_buf q ! unat (q_head q), queue_take q))"

definition embediq_osal_queue_count :: "'a osal_queue \<Rightarrow> u16" where
  "embediq_osal_queue_count q = q_count q"

section \<open>Validity and the items held\<close>

definition queue_inv :: "'a osal_queue \<Rightarrow> bool" where
  "queue_inv q \<longleftrightarrow>
     0 < unat (q_depth q) \<and> length (q_buf q) = unat (q_depth q) \<and>
     unat (q_count q) \<le> unat (q_depth q) \<and> unat (q_head q) < unat (q_depth q) \<and>
     unat (q_tail q) = (unat (q_head q) + unat (q_count q)) mod unat (q_depth q) \<and>
     (\<forall>i < unat (q_count q).
        q_buf q ! ((unat (q_head q) + i) mod unat (q_depth q)) \<noteq> None)"

definition queue_items :: "'a osal_queue \<Rightarrow> 'a list" where
  "queue_items q = map (\<lambda>i. the (q_buf q ! ((unat (q_head q) + i) mod unat (q_depth q))))
     [0..<unat (q_count q)]"

definition queue_cap :: "'a osal_queue \<Rightarrow> nat" where
  "queue_cap q = unat (q_depth q)"

lemma queue_inv_cell:
  "queue_inv q \<Longrightarrow> i < unat (q_count q) \<Longrightarrow>
   q_buf q ! ((unat (q_head q) + i) mod unat (q_depth q)) \<noteq> None"
  by (simp add: queue_inv_def)

lemma length_queue_items [simp]: "length (queue_items q) = unat (q_count q)"
  by (simp add: queue_items_def)

lemma queue_create_inv:
  "embediq_osal_queue_create mem depth = Some q \<Longrightarrow> 0 < unat depth \<Longrightarrow>
   queue_inv q \<and> queue_items q = [] \<and> queue_cap q = unat depth"
  by (auto simp: embediq_osal_queue_create_def queue_inv_def queue_items_def queue_cap_def
      split: if_splits)

lemma queue_items_nth:
  "i < unat (q_count q) \<Longrightarrow>
   queue_items q ! i = the (q_buf q ! ((unat (q_head q) + i) mod unat (q_depth q)))"
  by (simp add: queue_items_def)

text \<open>The next index of the ring, computed at the width of the code.\<close>

lemma unat_ring_next:
  fixes d :: u16
  assumes "0 < unat d"
  shows "unat (word_of_nat ((n + 1) mod unat d) :: u16) = (n + 1) mod unat d"
proof (rule unat_of_nat_small)
  have "(n + 1) mod unat d < unat d" using assms by simp
  also have "\<dots> < 2 ^ LENGTH(16)" by (rule unsigned_less)
  finally show "(n + 1) mod unat d < 2 ^ LENGTH(16)" .
qed

lemma queue_put_fields:
  assumes inv: "queue_inv q" and room: "unat (q_count q) < unat (q_depth q)"
  shows "unat (q_count (queue_put q x)) = unat (q_count q) + 1"
    and "unat (q_tail (queue_put q x)) = (unat (q_tail q) + 1) mod unat (q_depth q)"
    and "q_head (queue_put q x) = q_head q" and "q_depth (queue_put q x) = q_depth q"
  using unat_plus_one_bounded [OF room] unat_ring_next [of "q_depth q"] inv
  by (simp_all add: queue_put_def queue_inv_def)

lemma queue_put_cell:
  assumes inv: "queue_inv q" and room: "unat (q_count q) < unat (q_depth q)"
    and i: "i \<le> unat (q_count q)"
  shows "q_buf (queue_put q x) ! ((unat (q_head q) + i) mod unat (q_depth q)) =
     (if i = unat (q_count q) then Some x
      else q_buf q ! ((unat (q_head q) + i) mod unat (q_depth q)))"
proof -
  let ?d = "unat (q_depth q)" and ?h = "unat (q_head q)"
  have tail: "unat (q_tail q) = (?h + unat (q_count q)) mod ?d" and len: "length (q_buf q) = ?d"
    and d: "0 < ?d" using inv by (simp_all add: queue_inv_def)
  have "(?h + i) mod ?d = unat (q_tail q) \<longleftrightarrow> i = unat (q_count q)"
    unfolding tail using i room ring_index_inj [of i ?d "unat (q_count q)" ?h] by auto
  moreover have "unat (q_tail q) < ?d" unfolding tail using d by simp
  ultimately show ?thesis
    using len by (cases "i = unat (q_count q)") (simp_all add: queue_put_def flip: tail)
qed

lemma queue_put_inv:
  assumes inv: "queue_inv q" and room: "unat (q_count q) < unat (q_depth q)"
  shows "queue_inv (queue_put q x)"
proof -
  note f = queue_put_fields [OF inv room, of x]
  have len: "length (q_buf (queue_put q x)) = unat (q_depth q)"
    using inv by (simp add: queue_put_def queue_inv_def)
  have tl: "unat (q_tail (queue_put q x)) =
      (unat (q_head q) + (unat (q_count q) + 1)) mod unat (q_depth q)"
    using inv by (simp add: f queue_inv_def mod_simps add.assoc)
  have "q_buf (queue_put q x) ! ((unat (q_head q) + i) mod unat (q_depth q)) \<noteq> None"
    if "i < unat (q_count q) + 1" for i
    using that inv queue_put_cell [OF inv room, of i x] by (auto simp: queue_inv_def)
  then show ?thesis
    using inv room tl len unfolding queue_inv_def [of "queue_put q x"] f
    by (simp add: queue_inv_def)
qed

lemma queue_put_items:
  assumes inv: "queue_inv q" and room: "unat (q_count q) < unat (q_depth q)"
  shows "queue_items (queue_put q x) = queue_items q @ [x]"
proof (rule nth_equalityI)
  note f = queue_put_fields [OF inv room, of x]
  show "length (queue_items (queue_put q x)) = length (queue_items q @ [x])" by (simp add: f)
  fix i
  assume "i < length (queue_items (queue_put q x))"
  then have i: "i < unat (q_count q) + 1" by (simp add: f)
  then show "queue_items (queue_put q x) ! i = (queue_items q @ [x]) ! i"
    using queue_put_cell [OF inv room, of i x]
    by (auto simp: queue_items_nth f nth_append less_Suc_eq)
qed

lemma queue_take_fields:
  assumes inv: "queue_inv q" and some: "0 < unat (q_count q)"
  shows "unat (q_count (queue_take q)) = unat (q_count q) - 1"
    and "unat (q_head (queue_take q)) = (unat (q_head q) + 1) mod unat (q_depth q)"
    and "q_tail (queue_take q) = q_tail q" and "q_depth (queue_take q) = q_depth q"
    and "q_buf (queue_take q) = q_buf q"
proof -
  have "q_count q \<noteq> 0" using some by auto
  then show "unat (q_count (queue_take q)) = unat (q_count q) - 1"
    by (simp add: queue_take_def unat_minus_one)
qed (use unat_ring_next [of "q_depth q"] inv in \<open>simp_all add: queue_take_def queue_inv_def\<close>)

lemma ring_step: "((h + 1) mod d + i) mod d = (h + Suc i) mod (d::nat)"
  by (simp add: mod_simps)

lemma queue_take_inv:
  assumes inv: "queue_inv q" and some: "0 < unat (q_count q)"
  shows "queue_inv (queue_take q)"
proof -
  note f = queue_take_fields [OF inv some]
  have tl: "unat (q_tail q) =
      ((unat (q_head q) + 1) mod unat (q_depth q) + (unat (q_count q) - 1)) mod unat (q_depth q)"
    unfolding ring_step using inv some by (simp add: queue_inv_def)
  have "q_buf q ! ((unat (q_head q) + Suc i) mod unat (q_depth q)) \<noteq> None"
    if "i < unat (q_count q) - 1" for i
    using that inv less_diff_conv [of i "unat (q_count q)" 1]
    by (intro queue_inv_cell) simp_all
  then show ?thesis
    using inv some tl unfolding queue_inv_def [of "queue_take q"] f ring_step
    by (auto simp: queue_inv_def)
qed

lemma queue_take_items:
  assumes inv: "queue_inv q" and some: "0 < unat (q_count q)"
  shows "queue_items (queue_take q) = tl (queue_items q)"
proof (rule nth_equalityI)
  note f = queue_take_fields [OF inv some]
  show "length (queue_items (queue_take q)) = length (tl (queue_items q))" by (simp add: f)
  fix i
  assume "i < length (queue_items (queue_take q))"
  then show "queue_items (queue_take q) ! i = tl (queue_items q) ! i"
    using some ring_step [of "unat (q_head q)" "unat (q_depth q)" i]
    by (simp add: queue_items_nth f nth_tl)
qed

lemma queue_front:
  "queue_inv q \<Longrightarrow> 0 < unat (q_count q) \<Longrightarrow>
   q_buf q ! unat (q_head q) = Some (hd (queue_items q))"
  by (auto simp: queue_inv_def hd_conv_nth queue_items_nth simp flip: length_0_conv
      dest: spec [of _ 0])

section \<open>The queue contract\<close>

text \<open>
  What the message bus relies on: a bounded first-in first-out buffer with non-blocking
  operations. \<open>keep_newest\<close> and \<open>take\<close> describe the two overflow policies.
\<close>

locale bounded_fifo =
  fixes inv :: "'q \<Rightarrow> bool" and items :: "'q \<Rightarrow> 'a list" and cap :: "'q \<Rightarrow> nat"
    and send :: "'q \<Rightarrow> 'a \<Rightarrow> 'q option" and recv :: "'q \<Rightarrow> ('a \<times> 'q) option"
  assumes cap_pos: "inv q \<Longrightarrow> 0 < cap q"
    and items_bounded: "inv q \<Longrightarrow> length (items q) \<le> cap q"
    and send_room: "inv q \<Longrightarrow> length (items q) < cap q \<Longrightarrow>
      \<exists>q'. send q x = Some q' \<and> inv q' \<and> items q' = items q @ [x] \<and> cap q' = cap q"
    and send_full: "inv q \<Longrightarrow> length (items q) = cap q \<Longrightarrow> send q x = None"
    and recv_empty: "inv q \<Longrightarrow> items q = [] \<Longrightarrow> recv q = None"
    and recv_front: "inv q \<Longrightarrow> items q = x # xs \<Longrightarrow>
      \<exists>q'. recv q = Some (x, q') \<and> inv q' \<and> items q' = xs \<and> cap q' = cap q"
begin

lemma send_cases:
  assumes "inv q"
  obtains (room) q' where "length (items q) < cap q" and "send q x = Some q'" and "inv q'"
      and "items q' = items q @ [x]" and "cap q' = cap q"
    | (full) "length (items q) = cap q" and "send q x = None"
  using assms items_bounded [of q] send_room [of q x] send_full [of q x]
  by (cases "length (items q) < cap q") auto

lemma drop_oldest:
  assumes "inv q" and "send q x = None"
  shows "\<exists>y q1 q2. recv q = Some (y, q1) \<and> send q1 x = Some q2 \<and> inv q2 \<and>
    cap q2 = cap q \<and> items q2 = keep_newest (cap q) (items q @ [x]) \<and> y = hd (items q)"
proof -
  from assms have full: "length (items q) = cap q"
    using send_cases [of q x] by (metis option.distinct(1))
  with assms(1) obtain y ys where it: "items q = y # ys"
    using cap_pos [of q] by (cases "items q") auto
  with assms(1) obtain q1 where r: "recv q = Some (y, q1)" "inv q1" "items q1 = ys" "cap q1 = cap q"
    using recv_front by blast
  moreover from this full it obtain q2 where
    "send q1 x = Some q2" "inv q2" "items q2 = ys @ [x]" "cap q2 = cap q"
    using send_room [of q1 x] by auto
  moreover have "cap q = Suc (length ys)" using full it by simp
  then have "keep_newest (cap q) (items q @ [x]) = ys @ [x]"
    by (simp add: it keep_newest_def)
  ultimately show ?thesis using it by auto
qed

lemma recv_None_iff: "inv q \<Longrightarrow> recv q = None \<longleftrightarrow> items q = []"
  using recv_empty [of q] recv_front [of q "hd (items q)" "tl (items q)"]
  by (cases "items q") auto

lemma recv_Some_iff:
  "inv q \<Longrightarrow> recv q = Some (x, q') \<Longrightarrow> items q = x # items q' \<and> inv q' \<and> cap q' = cap q"
  using recv_empty [of q] recv_front [of q "hd (items q)" "tl (items q)"]
  by (cases "items q") auto

end

text \<open>The POSIX queue with a zero timeout, as the message bus calls it.\<close>

definition queue_try_send :: "'a osal_queue \<Rightarrow> 'a \<Rightarrow> 'a osal_queue option" where
  "queue_try_send q x = (case embediq_osal_queue_send q x 0 of
     Some (e, q', _) \<Rightarrow> if e = EMBEDIQ_OK then Some q' else None | None \<Rightarrow> None)"

definition queue_try_recv :: "'a osal_queue \<Rightarrow> ('a \<times> 'a osal_queue) option" where
  "queue_try_recv q = (case embediq_osal_queue_recv q 0 of
     Some (e, item, q') \<Rightarrow> if e = EMBEDIQ_OK then Some (the item, q') else None | None \<Rightarrow> None)"

lemma queue_full_iff:
  "queue_inv q \<Longrightarrow> q_count q \<ge> q_depth q \<longleftrightarrow> length (queue_items q) = queue_cap q"
  by (auto simp: queue_inv_def queue_cap_def word_le_nat_alt)

lemma queue_not_empty_iff: "q_count q = 0 \<longleftrightarrow> queue_items q = []"
  by (simp add: unat_eq_zero flip: length_0_conv)

lemma queue_try_send_room:
  assumes "queue_inv q" and "length (queue_items q) < queue_cap q"
  shows "queue_try_send q x = Some (queue_put q x) \<and> queue_inv (queue_put q x) \<and>
     queue_items (queue_put q x) = queue_items q @ [x] \<and> queue_cap (queue_put q x) = queue_cap q"
  using assms queue_put_inv [of q x] queue_put_items [of q x]
  by (simp add: queue_try_send_def embediq_osal_queue_send_def queue_full_iff queue_cap_def
      queue_put_fields)

lemma queue_try_recv_front:
  assumes "queue_inv q" and it: "queue_items q = x # xs"
  shows "queue_try_recv q = Some (x, queue_take q) \<and> queue_inv (queue_take q) \<and>
     queue_items (queue_take q) = xs \<and> queue_cap (queue_take q) = queue_cap q"
proof -
  have "0 < length (queue_items q)" using it by simp
  then have "0 < unat (q_count q)" by simp
  with assms show ?thesis
    using queue_take_inv [of q] queue_take_items [of q] queue_front [of q]
    by (simp add: queue_try_recv_def embediq_osal_queue_recv_def queue_not_empty_iff
        queue_cap_def queue_take_fields)
qed

interpretation posix_queue: bounded_fifo queue_inv queue_items queue_cap queue_try_send
  queue_try_recv
proof unfold_locales
  fix q :: "'a osal_queue" and x :: 'a and xs
  show "queue_inv q \<Longrightarrow> 0 < queue_cap q" by (simp add: queue_inv_def queue_cap_def)
  show "queue_inv q \<Longrightarrow> length (queue_items q) \<le> queue_cap q"
    by (simp add: queue_inv_def queue_cap_def)
  show "queue_inv q \<Longrightarrow> length (queue_items q) < queue_cap q \<Longrightarrow>
      \<exists>q'. queue_try_send q x = Some q' \<and> queue_inv q' \<and> queue_items q' = queue_items q @ [x] \<and>
        queue_cap q' = queue_cap q"
    using queue_try_send_room [of q x] by blast
  show "queue_inv q \<Longrightarrow> length (queue_items q) = queue_cap q \<Longrightarrow> queue_try_send q x = None"
    by (simp add: queue_try_send_def embediq_osal_queue_send_def queue_full_iff)
  show "queue_inv q \<Longrightarrow> queue_items q = [] \<Longrightarrow> queue_try_recv q = None"
    by (simp add: queue_try_recv_def embediq_osal_queue_recv_def queue_not_empty_iff)
  show "queue_inv q \<Longrightarrow> queue_items q = x # xs \<Longrightarrow>
      \<exists>q'. queue_try_recv q = Some (x, q') \<and> queue_inv q' \<and> queue_items q' = xs \<and>
        queue_cap q' = queue_cap q"
    using queue_try_recv_front [of q x xs] by blast
qed

text \<open>The operations themselves, in terms of the items.\<close>

lemma queue_send_room:
  assumes "queue_inv q" and "length (queue_items q) < queue_cap q"
  shows "embediq_osal_queue_send q x t = Some (EMBEDIQ_OK, queue_put q x, [])"
    and "queue_inv (queue_put q x)" and "queue_items (queue_put q x) = queue_items q @ [x]"
    and "queue_cap (queue_put q x) = queue_cap q"
  using queue_try_send_room [OF assms, of x] assms
  by (simp_all add: embediq_osal_queue_send_def queue_full_iff)

lemma queue_send_full:
  "queue_inv q \<Longrightarrow> length (queue_items q) = queue_cap q \<Longrightarrow> embediq_osal_queue_send q x t =
     (if t = UINT32_MAX then None else Some (EMBEDIQ_ERR_TIMEOUT, q, [EMBEDIQ_OSAL_OBS_QUEUE_FULL]))"
  by (simp add: embediq_osal_queue_send_def queue_full_iff)

lemma queue_recv_front:
  assumes "queue_inv q" and "queue_items q = x # xs"
  shows "embediq_osal_queue_recv q t = Some (EMBEDIQ_OK, Some x, queue_take q)"
    and "queue_inv (queue_take q)" and "queue_items (queue_take q) = xs"
    and "queue_cap (queue_take q) = queue_cap q"
proof -
  have "0 < unat (q_count q)"
    using assms(2) length_queue_items [of q] by (metis length_Cons zero_less_Suc)
  then show "embediq_osal_queue_recv q t = Some (EMBEDIQ_OK, Some x, queue_take q)"
    using assms queue_front [of q] by (simp add: embediq_osal_queue_recv_def queue_not_empty_iff)
qed (use queue_try_recv_front [OF assms] in auto)

lemma queue_recv_empty:
  "queue_items q = [] \<Longrightarrow> t \<noteq> UINT32_MAX \<Longrightarrow>
   embediq_osal_queue_recv q t = Some (EMBEDIQ_ERR_TIMEOUT, None, q)"
  by (simp add: embediq_osal_queue_recv_def queue_not_empty_iff)

section \<open>The counting semaphore\<close>

record osal_sem =
  s_count :: u32
  s_max_count :: u32

definition embediq_sem_create :: "u32 \<Rightarrow> u32 \<Rightarrow> osal_sem" where
  "embediq_sem_create initial max_count =
     \<lparr>s_count = initial, s_max_count = (if max_count = 0 then UINT32_MAX else max_count)\<rparr>"

text \<open>\<open>embediq_sem_wait\<close>: \<open>None\<close> while the count is zero, that is, the caller waits.\<close>

definition embediq_sem_wait :: "osal_sem \<Rightarrow> osal_sem option" where
  "embediq_sem_wait s = (if s_count s = 0 then None else Some (s\<lparr>s_count := s_count s - 1\<rparr>))"

definition embediq_sem_trywait :: "osal_sem option \<Rightarrow> bool \<times> osal_sem option" where
  "embediq_sem_trywait sem = (case sem of
     None \<Rightarrow> (False, None)
   | Some s \<Rightarrow> if s_count s = 0 then (False, Some s)
              else (True, Some (s\<lparr>s_count := s_count s - 1\<rparr>)))"

definition embediq_sem_post :: "osal_sem \<Rightarrow> osal_sem" where
  "embediq_sem_post s = (if s_count s < s_max_count s then s\<lparr>s_count := s_count s + 1\<rparr> else s)"

definition embediq_sem_post_from_isr :: "osal_sem \<Rightarrow> osal_sem" where
  "embediq_sem_post_from_isr s = embediq_sem_post s"

lemma sem_post_positive: "0 < s_max_count s \<Longrightarrow> 0 < s_count (embediq_sem_post s)"
proof (cases "s_count s < s_max_count s")
  case True
  then have "unat (s_count s + 1) = unat (s_count s) + 1"
    by (simp add: unat_plus_one_bounded word_less_nat_alt)
  with True show ?thesis by (simp add: embediq_sem_post_def word_less_nat_alt)
next
  case False
  assume "0 < s_max_count s"
  with False show ?thesis by (simp add: embediq_sem_post_def)
qed

lemma sem_post_max [simp]: "s_max_count (embediq_sem_post s) = s_max_count s"
  by (simp add: embediq_sem_post_def)

lemma sem_wait_Some: "0 < s_count s \<Longrightarrow> \<exists>s'. embediq_sem_wait s = Some s'"
  by (auto simp: embediq_sem_wait_def)

end
