(* ===== verification/OsalTime.thy ===== *)
theory OsalTime
  imports Osal
begin

text \<open>
  The rest of osal/posix/embediq_osal_posix.c: clocks and deadlines, the polling mutex, the
  counting signal and tasks. Clock readings, the outcomes of \<open>malloc\<close>, \<open>pthread_create\<close> and
  \<open>pthread_mutex_trylock\<close> are arguments. \<open>None\<close> as the result of a blocking call means that
  the caller waits.
\<close>

section \<open>Clocks and deadlines\<close>

text \<open>\<open>struct timespec\<close>: seconds and nanoseconds.\<close>

type_synonym timespec = "int \<times> int"

definition total_ns :: "timespec \<Rightarrow> int" where
  "total_ns t = fst t * 1000000000 + snd t"

definition timespec_ok :: "timespec \<Rightarrow> bool" where
  "timespec_ok t \<longleftrightarrow> 0 \<le> fst t \<and> 0 \<le> snd t \<and> snd t < 1000000000"

text \<open>\<open>_time_us_64\<close>, given the reading of \<open>CLOCK_MONOTONIC\<close>.\<close>

definition time_us_64 :: "timespec \<Rightarrow> u64" where
  "time_us_64 ts = word_of_int (fst ts) * 1000000 + word_of_int (snd ts div 1000)"

definition embediq_osal_time_us :: "timespec \<Rightarrow> u32" where
  "embediq_osal_time_us ts = ucast (time_us_64 ts)"

definition embediq_osal_time_ms :: "timespec \<Rightarrow> u32" where
  "embediq_osal_time_ms ts = ucast (time_us_64 ts div 1000)"

text \<open>\<open>_abs_deadline\<close>, given the reading of \<open>CLOCK_REALTIME\<close>.\<close>

definition abs_deadline :: "timespec \<Rightarrow> u32 \<Rightarrow> timespec" where
  "abs_deadline now timeout_ms =
     (let ns = word_of_int (snd now) + ucast timeout_ms * 1000000 :: u64
      in (fst now + uint (ns div 1000000000), uint (ns mod 1000000000)))"

text \<open>The argument of \<open>nanosleep\<close> in \<open>embediq_osal_delay_ms\<close>.\<close>

definition embediq_osal_delay_ms :: "u32 \<Rightarrow> timespec" where
  "embediq_osal_delay_ms ms = (uint (ms div 1000), uint (ms mod 1000) * 1000000)"

lemma word_of_int_nat_small:
  "0 \<le> i \<Longrightarrow> i < 2 ^ 64 \<Longrightarrow> uint (word_of_int i :: u64) = i"
  by (simp add: uint_word_of_int)

lemma abs_deadline_sum:
  assumes "0 \<le> ns" and "ns < 1000000000"
  shows "uint (word_of_int ns + ucast (ms :: u32) * 1000000 :: u64) = ns + uint ms * 1000000"
proof -
  have b: "uint ms < 4294967296" using uint_lt2p [of ms] by simp
  have "word_of_int ns + ucast ms * 1000000 = (word_of_int (ns + uint ms * 1000000) :: u64)"
    unfolding ucast_eq by (simp only: of_int_add of_int_mult of_int_numeral)
  moreover have "uint (word_of_int (ns + uint ms * 1000000) :: u64) = ns + uint ms * 1000000"
    using assms b by (intro word_of_int_nat_small) simp_all
  ultimately show ?thesis by (simp only:)
qed

text \<open>
  C0: The deadline of a timed wait lies exactly the timeout behind now, for every 32-bit
  timeout, in normal form.
\<close>

theorem abs_deadline_exact:
  assumes "timespec_ok now"
  shows "total_ns (abs_deadline now timeout_ms) = total_ns now + uint timeout_ms * 1000000 \<and>
     timespec_ok (abs_deadline now timeout_ms)"
proof -
  let ?ns = "word_of_int (snd now) + ucast timeout_ms * 1000000 :: u64"
  have ns: "uint ?ns = snd now + uint timeout_ms * 1000000"
    using assms abs_deadline_sum by (simp add: timespec_ok_def)
  have d: "uint (?ns div 1000000000) = uint ?ns div 1000000000"
    "uint (?ns mod 1000000000) = uint ?ns mod 1000000000"
    by (simp_all add: uint_div uint_mod)
  show ?thesis
    using assms div_mult_mod_eq [of "uint ?ns" 1000000000]
    by (simp add: abs_deadline_def Let_def total_ns_def timespec_ok_def d ns algebra_simps
      pos_imp_zdiv_nonneg_iff)
qed

lemma abs_deadline_exact_witness:
  "total_ns (abs_deadline (7, 999999999) 4294967295) = 4294975294999999"
  using abs_deadline_exact [of "(7, 999999999)" 4294967295]
  by (simp add: timespec_ok_def total_ns_def)

lemma delay_ms_exact:
  "total_ns (embediq_osal_delay_ms ms) = uint ms * 1000000 \<and> timespec_ok (embediq_osal_delay_ms ms)"
proof -
  have "uint (ms div 1000) = uint ms div 1000" "uint (ms mod 1000) = uint ms mod 1000"
    by (simp_all add: uint_div uint_mod)
  moreover have "uint ms div 1000 * 1000000000 + uint ms mod 1000 * 1000000 = uint ms * 1000000"
    using div_mult_mod_eq [of "uint ms" 1000] by linarith
  ultimately show ?thesis
    by (simp add: embediq_osal_delay_ms_def total_ns_def timespec_ok_def pos_imp_zdiv_nonneg_iff)
qed

text \<open>The clock in whole microseconds.\<close>

definition usecs :: "timespec \<Rightarrow> int" where
  "usecs ts = fst ts * 1000000 + snd ts div 1000"

lemma time_us_64_eq: "time_us_64 ts = word_of_int (usecs ts)"
  unfolding time_us_64_def usecs_def by (simp only: of_int_add of_int_mult of_int_numeral)

lemma usecs_bounds:
  assumes "timespec_ok ts" and "fst ts < 2 ^ 44"
  shows "0 \<le> usecs ts" and "usecs ts < 2 ^ 64"
proof -
  show "0 \<le> usecs ts" using assms by (simp add: timespec_ok_def usecs_def pos_imp_zdiv_nonneg_iff)
  have "snd ts div 1000 < 1000000" "fst ts \<le> 2 ^ 44 - 1" using assms by (auto simp: timespec_ok_def)
  then show "usecs ts < 2 ^ 64" by (simp add: usecs_def)
qed

lemma time_us_eq: "embediq_osal_time_us ts = word_of_int (usecs ts)"
  unfolding embediq_osal_time_us_def time_us_64_eq by transfer (simp add: take_bit_take_bit)

lemma time_ms_eq:
  assumes "timespec_ok ts" and "fst ts < 2 ^ 44"
  shows "embediq_osal_time_ms ts = word_of_int (usecs ts div 1000)"
proof -
  have "uint (word_of_int (usecs ts) :: u64) = usecs ts"
    using usecs_bounds [OF assms] by (simp add: uint_word_of_int)
  then have "uint (time_us_64 ts div 1000) = usecs ts div 1000"
    by (simp add: uint_div time_us_64_eq)
  then show ?thesis by (simp add: embediq_osal_time_ms_def ucast_eq)
qed

text \<open>C35: 
  C0: The 32-bit clocks wrap, but the difference of two readings is the elapsed time modulo
  2^32, so a timeout computed by subtraction is right for intervals below the wrap, wherever
  the clock stands.
\<close>

theorem clock_difference_exact:
  assumes "timespec_ok a" and "timespec_ok b" and "fst a < 2 ^ 44" and "fst b < 2 ^ 44"
  shows "uint (embediq_osal_time_us b - embediq_osal_time_us a) = (usecs b - usecs a) mod 2 ^ 32 \<and>
     uint (embediq_osal_time_ms b - embediq_osal_time_ms a) =
       (usecs b div 1000 - usecs a div 1000) mod 2 ^ 32"
proof -
  have "embediq_osal_time_us b - embediq_osal_time_us a = word_of_int (usecs b - usecs a)"
    by (simp add: time_us_eq)
  moreover have "embediq_osal_time_ms b - embediq_osal_time_ms a =
      word_of_int (usecs b div 1000 - usecs a div 1000)"
    using assms by (simp add: time_ms_eq)
  moreover have "uint (word_of_int x :: u32) = x mod 2 ^ 32" for x by (simp add: uint_word_of_int)
  ultimately show ?thesis by (simp only:)
qed

text \<open>Ten milliseconds across the wrap of the microsecond clock.\<close>

lemma clock_difference_exact_witness:
  "uint (embediq_osal_time_us (4294, 972296000) - embediq_osal_time_us (4294, 962296000)) = 10000"
  using clock_difference_exact [of "(4294, 962296000)" "(4294, 972296000)"]
  by (simp add: timespec_ok_def usecs_def)

section \<open>The polling mutex\<close>

text \<open>The event of the macro \<open>EMBEDIQ_OSAL_OBS_MUTEX_TIMEOUT(0)\<close>.\<close>

definition EMBEDIQ_OSAL_OBS_MUTEX_TIMEOUT :: obs_call where
  "EMBEDIQ_OSAL_OBS_MUTEX_TIMEOUT =
     Obs_Call EMBEDIQ_OBS_EVT_OSAL_FAULT EMBEDIQ_OSAL_SRC_MUTEXES 0 1 0"

text \<open>
  The loop of \<open>embediq_osal_mutex_lock\<close>: \<open>try i\<close> is the outcome of the \<open>i\<close>-th
  \<open>pthread_mutex_trylock\<close>, \<open>clk i\<close> the \<open>i\<close>-th reading of \<open>embediq_osal_time_ms\<close>; reading 0
  is \<open>start\<close>. The fuel is the number of rounds; \<open>None\<close> means that it is used up.
\<close>

fun mutex_poll ::
  "nat \<Rightarrow> (nat \<Rightarrow> bool) \<Rightarrow> (nat \<Rightarrow> u32) \<Rightarrow> u32 \<Rightarrow> nat \<Rightarrow> (embediq_err \<times> obs_call list) option"
where
  "mutex_poll 0 try clk timeout_ms i = None"
| "mutex_poll (Suc fuel) try clk timeout_ms i =
     (if try i then Some (EMBEDIQ_OK, [])
      else if clk (i + 1) - clk 0 \<ge> timeout_ms
      then Some (if try (i + 1) then (EMBEDIQ_OK, [])
                 else (EMBEDIQ_ERR_TIMEOUT, [EMBEDIQ_OSAL_OBS_MUTEX_TIMEOUT]))
      else mutex_poll fuel try clk timeout_ms (i + 1))"

text \<open>\<open>rc\<close> is the result of \<open>pthread_mutex_lock\<close>, when it returns.\<close>

definition embediq_osal_mutex_lock ::
  "nat \<Rightarrow> int \<Rightarrow> (nat \<Rightarrow> bool) \<Rightarrow> (nat \<Rightarrow> u32) \<Rightarrow> u32 \<Rightarrow> (embediq_err \<times> obs_call list) option" where
  "embediq_osal_mutex_lock fuel rc try clk timeout_ms =
     (if timeout_ms = UINT32_MAX
      then Some (if rc = 0 then EMBEDIQ_OK else EMBEDIQ_ERR_TIMEOUT, [])
      else if timeout_ms = 0
      then Some (if try 0 then (EMBEDIQ_OK, [])
                 else (EMBEDIQ_ERR_TIMEOUT, [EMBEDIQ_OSAL_OBS_MUTEX_TIMEOUT]))
      else mutex_poll fuel try clk timeout_ms 0)"

definition poll_stops :: "(nat \<Rightarrow> bool) \<Rightarrow> (nat \<Rightarrow> u32) \<Rightarrow> u32 \<Rightarrow> nat \<Rightarrow> bool" where
  "poll_stops try clk timeout_ms i \<longleftrightarrow> try i \<or> clk (i + 1) - clk 0 \<ge> timeout_ms"

lemma mutex_poll_result:
  assumes "poll_stops try clk timeout_ms k" and "\<forall>j. i \<le> j \<and> j < k \<longrightarrow> \<not> poll_stops try clk timeout_ms j"
    and "i \<le> k" and "k - i < fuel"
  shows "mutex_poll fuel try clk timeout_ms i =
     Some (if try k \<or> try (k + 1) then (EMBEDIQ_OK, [])
           else (EMBEDIQ_ERR_TIMEOUT, [EMBEDIQ_OSAL_OBS_MUTEX_TIMEOUT]))"
  using assms(2-)
proof (induction fuel arbitrary: i)
  case (Suc fuel)
  show ?case
  proof (cases "i = k")
    case True
    with assms(1) show ?thesis by (auto simp: poll_stops_def)
  next
    case False
    with Suc.prems have "\<not> poll_stops try clk timeout_ms i" by auto
    moreover have "mutex_poll fuel try clk timeout_ms (i + 1) =
        Some (if try k \<or> try (k + 1) then (EMBEDIQ_OK, [])
              else (EMBEDIQ_ERR_TIMEOUT, [EMBEDIQ_OSAL_OBS_MUTEX_TIMEOUT]))"
      using False Suc.prems by (intro Suc.IH) auto
    ultimately show ?thesis by (simp add: poll_stops_def)
  qed
qed simp

text \<open>C19: 
  C0: A timed lock always returns: when every round sleeps at least a millisecond, within
  timeout plus one rounds. It has the mutex exactly when the attempt of the last round or the
  one final attempt succeeded; a time-out is reported no earlier than the timeout asks for.
\<close>

theorem mutex_lock_returns:
  assumes "timeout_ms \<noteq> 0" and "timeout_ms \<noteq> UINT32_MAX" and "unat timeout_ms < fuel"
    and "\<forall>i \<le> unat timeout_ms. i \<le> unat (clk (i + 1) - clk 0)"
  shows "\<exists>k \<le> unat timeout_ms. (\<forall>j < k. \<not> try j) \<and> (try k \<or> clk (k + 1) - clk 0 \<ge> timeout_ms) \<and>
     embediq_osal_mutex_lock fuel rc try clk timeout_ms =
       Some (if try k \<or> try (k + 1) then (EMBEDIQ_OK, [])
             else (EMBEDIQ_ERR_TIMEOUT, [EMBEDIQ_OSAL_OBS_MUTEX_TIMEOUT]))"
proof -
  let ?P = "poll_stops try clk timeout_ms" and ?n = "unat timeout_ms"
  have stop: "?P ?n" using assms(4) by (simp add: poll_stops_def word_le_nat_alt)
  then obtain k where k: "k \<le> ?n" "\<forall>j < k. \<not> ?P j" "?P k"
    using ex_least_nat_le [of ?P ?n] by blast
  then have "mutex_poll fuel try clk timeout_ms 0 =
      Some (if try k \<or> try (k + 1) then (EMBEDIQ_OK, [])
            else (EMBEDIQ_ERR_TIMEOUT, [EMBEDIQ_OSAL_OBS_MUTEX_TIMEOUT]))"
    using assms(3) by (intro mutex_poll_result) auto
  then have "embediq_osal_mutex_lock fuel rc try clk timeout_ms =
      Some (if try k \<or> try (k + 1) then (EMBEDIQ_OK, [])
            else (EMBEDIQ_ERR_TIMEOUT, [EMBEDIQ_OSAL_OBS_MUTEX_TIMEOUT]))"
    using assms(1,2) by (simp only: embediq_osal_mutex_lock_def if_False)
  with k show ?thesis unfolding poll_stops_def by blast
qed

text \<open>A lock that is never free, polled for three milliseconds.\<close>

lemma mutex_lock_returns_witness:
  "embediq_osal_mutex_lock 4 0 (\<lambda>i. False) (\<lambda>i. word_of_nat i) 3 =
     Some (EMBEDIQ_ERR_TIMEOUT, [EMBEDIQ_OSAL_OBS_MUTEX_TIMEOUT])"
proof -
  have "i \<le> unat (word_of_nat (i + 1) - word_of_nat 0 :: u32)" if "i \<le> unat (3 :: u32)" for i
  proof -
    have "i = 0 \<or> i = 1 \<or> i = 2 \<or> i = 3" using that by (simp, linarith)
    then show ?thesis by auto
  qed
  with mutex_lock_returns [of 3 4 "\<lambda>i. word_of_nat i" "\<lambda>i. False" 0] show ?thesis by auto
qed

section \<open>The counting signal\<close>

text \<open>The count is a C \<open>int\<close>: raising it beyond \<open>INT_MAX\<close> is undefined, the result is \<open>None\<close>.\<close>

record osal_signal =
  sig_count :: int

definition INT_MAX :: int where "INT_MAX = 2147483647"

text \<open>The event of the macro \<open>EMBEDIQ_OSAL_OBS_SIGNAL_TIMEOUT(0)\<close>.\<close>

definition EMBEDIQ_OSAL_OBS_SIGNAL_TIMEOUT :: obs_call where
  "EMBEDIQ_OSAL_OBS_SIGNAL_TIMEOUT =
     Obs_Call EMBEDIQ_OBS_EVT_OSAL_FAULT EMBEDIQ_OSAL_SRC_SIGNALS 0 3 0"

definition embediq_osal_signal_create :: "bool \<Rightarrow> osal_signal option" where
  "embediq_osal_signal_create mem = (if mem then Some \<lparr>sig_count = 0\<rparr> else None)"

definition embediq_osal_signal_wait :: "osal_signal \<Rightarrow> osal_signal option" where
  "embediq_osal_signal_wait s =
     (if sig_count s = 0 then None else Some (s\<lparr>sig_count := sig_count s - 1\<rparr>))"

text \<open>On a lowered signal that nobody raises before the deadline, the call times out.\<close>

definition embediq_osal_signal_wait_timeout ::
  "osal_signal \<Rightarrow> embediq_err \<times> osal_signal \<times> obs_call list" where
  "embediq_osal_signal_wait_timeout s =
     (if sig_count s = 0 then (EMBEDIQ_ERR_TIMEOUT, s, [EMBEDIQ_OSAL_OBS_SIGNAL_TIMEOUT])
      else (EMBEDIQ_OK, s\<lparr>sig_count := sig_count s - 1\<rparr>, []))"

definition embediq_osal_signal_from_isr :: "osal_signal \<Rightarrow> osal_signal option" where
  "embediq_osal_signal_from_isr s =
     (if sig_count s = INT_MAX then None else Some (s\<lparr>sig_count := sig_count s + 1\<rparr>))"

fun raise_times :: "nat \<Rightarrow> osal_signal \<Rightarrow> osal_signal option" where
  "raise_times 0 s = Some s"
| "raise_times (Suc n) s = Option.bind (raise_times n s) embediq_osal_signal_from_isr"

fun wait_times :: "nat \<Rightarrow> osal_signal \<Rightarrow> osal_signal option" where
  "wait_times 0 s = Some s"
| "wait_times (Suc n) s = Option.bind (wait_times n s) embediq_osal_signal_wait"

lemma raise_times_count:
  "int n \<le> INT_MAX \<Longrightarrow> raise_times n \<lparr>sig_count = 0\<rparr> = Some \<lparr>sig_count = int n\<rparr>"
  by (induction n) (simp_all add: embediq_osal_signal_from_isr_def)

lemma wait_times_count:
  "k \<le> n \<Longrightarrow> wait_times k \<lparr>sig_count = int n\<rparr> = Some \<lparr>sig_count = int n - int k\<rparr>"
  by (induction k) (auto simp: embediq_osal_signal_wait_def)

text \<open>
  The header calls the signal binary; it counts. After n raises exactly n waits return.
\<close>

theorem signal_counts:
  assumes "int n \<le> INT_MAX"
  shows "\<exists>s. raise_times n \<lparr>sig_count = 0\<rparr> = Some s \<and> wait_times n s \<noteq> None \<and>
    wait_times (Suc n) s = None"
  using raise_times_count [OF assms] wait_times_count [of n n]
  by (auto simp: embediq_osal_signal_wait_def)

lemma signal_counts_witness:
  "\<exists>s. raise_times 3 \<lparr>sig_count = 0\<rparr> = Some s \<and> wait_times 3 s \<noteq> None \<and> wait_times 4 s = None"
  using signal_counts [of 3] by (simp add: INT_MAX_def)

section \<open>Tasks\<close>

text \<open>
  The heap blocks of tasks: the argument wrapper of \<open>_task_wrapper_t\<close> and the handle. The
  thread frees the wrapper before it calls the task's function; join and delete free the
  handle.
\<close>

record task_heap =
  th_wrappers :: nat
  th_handles :: nat

definition EMBEDIQ_OSAL_OBS_TASK_FAIL :: obs_call where
  "EMBEDIQ_OSAL_OBS_TASK_FAIL =
     Obs_Call EMBEDIQ_OBS_EVT_OSAL_FAULT EMBEDIQ_OSAL_SRC_TASKS 0 0 0"

definition embediq_osal_task_create ::
  "bool \<Rightarrow> bool \<Rightarrow> bool \<Rightarrow> task_heap \<Rightarrow> bool \<times> task_heap \<times> obs_call list" where
  "embediq_osal_task_create mem_wrapper mem_task create h =
     (if \<not> mem_wrapper then (False, h, [])
      else let h = h\<lparr>th_wrappers := th_wrappers h + 1\<rparr>
        in if \<not> mem_task then (False, h\<lparr>th_wrappers := th_wrappers h - 1\<rparr>, [])
        else let h = h\<lparr>th_handles := th_handles h + 1\<rparr>
          in if \<not> create
          then (False, h\<lparr>th_wrappers := th_wrappers h - 1, th_handles := th_handles h - 1\<rparr>,
            [EMBEDIQ_OSAL_OBS_TASK_FAIL])
          else (True, h, []))"

definition task_entry :: "task_heap \<Rightarrow> task_heap" where
  "task_entry h = h\<lparr>th_wrappers := th_wrappers h - 1\<rparr>"

definition embediq_osal_task_join :: "bool \<Rightarrow> task_heap \<Rightarrow> task_heap" where
  "embediq_osal_task_join task h = (if \<not> task then h else h\<lparr>th_handles := th_handles h - 1\<rparr>)"

definition embediq_osal_task_delete :: "bool \<Rightarrow> task_heap \<Rightarrow> task_heap" where
  "embediq_osal_task_delete task h = (if \<not> task then h else h\<lparr>th_handles := th_handles h - 1\<rparr>)"

lemma task_no_leak:
  "(case embediq_osal_task_create mw mt cr h of (started, h1, obs) \<Rightarrow>
      started = (mw \<and> mt \<and> cr) \<and> obs = (if mw \<and> mt \<and> \<not> cr then [EMBEDIQ_OSAL_OBS_TASK_FAIL] else []) \<and>
      (if started
       then embediq_osal_task_join True (task_entry h1) = h \<and>
            embediq_osal_task_delete True (task_entry h1) = h
       else h1 = h))"
  by (cases h) (simp add: embediq_osal_task_create_def embediq_osal_task_join_def
    embediq_osal_task_delete_def task_entry_def Let_def)

end
