(* ===== verification/Monitor.thy ===== *)
theory Monitor
  imports Osal
begin

text \<open>
  Threads inside the blocking calls of osal/posix/embediq_osal_posix.c. Every such call has
  one shape: lock the object's mutex, wait on a condition variable while the object is not
  ready, change it, signal the other side, unlock. \<open>monitor_step\<close> is that shape as a step
  relation over any number of threads, with one record of functions for what differs
  between the calls; \<open>monitor_env\<close> is what POSIX allows to happen from outside.
  Contents: mutual exclusion, termination of the internal steps, the locale \<open>token_monitor\<close>
  with the proof that no wakeup is lost, and its interpretations on the queue (two condition
  variables) and on the counting semaphore (one).
\<close>

section \<open>Threads on a mutex and its condition variables\<close>

text \<open>
  How a call behaves when the object is not ready: it gives up at once (timeout 0), waits
  with a deadline (\<open>pthread_cond_timedwait\<close>), or waits without one (\<open>pthread_cond_wait\<close>).
\<close>

datatype wait_mode = No_Wait | Timed | For_Ever

record ('c, 'r, 'v) monitor_ops =
  op_can :: "'c \<Rightarrow> 'r \<Rightarrow> bool"
  op_act :: "'c \<Rightarrow> 'r \<Rightarrow> 'v \<times> 'r"
  op_mode :: "'c \<Rightarrow> wait_mode"
  op_cond :: "'c \<Rightarrow> nat option"
  op_signal :: "'c \<Rightarrow> 'r \<Rightarrow> nat option"

text \<open>
  Where a thread is: outside any call, at \<open>pthread_mutex_lock\<close>, at the test of the loop
  with the mutex held, inside the wait, or unblocked and about to get the mutex back, from
  a wait that returns 0 (\<open>Woken\<close>) or \<open>ETIMEDOUT\<close> (\<open>Expired\<close>).
\<close>

datatype 'c thread_pc = Outside | Locking 'c | Holding 'c | Asleep 'c | Woken 'c | Expired 'c

record ('c, 'r, 'v) monitor =
  m_res :: 'r
  m_owner :: "nat option"
  m_threads :: "'c thread_pc list"
  m_log :: "('c \<times> 'v option) list"

definition thread_at :: "('c, 'r, 'v) monitor \<Rightarrow> nat \<Rightarrow> 'c thread_pc \<Rightarrow> bool" where
  "thread_at m t pc \<longleftrightarrow> t < length (m_threads m) \<and> m_threads m ! t = pc"

definition set_pc :: "nat \<Rightarrow> 'c thread_pc \<Rightarrow> ('c, 'r, 'v) monitor \<Rightarrow> ('c, 'r, 'v) monitor" where
  "set_pc t pc m = m\<lparr>m_threads := (m_threads m)[t := pc]\<rparr>"

definition log_call :: "'c \<Rightarrow> 'v option \<Rightarrow> ('c, 'r, 'v) monitor \<Rightarrow> ('c, 'r, 'v) monitor" where
  "log_call c v m = m\<lparr>m_log := m_log m @ [(c, v)]\<rparr>"

text \<open>
  Under the mutex: the change of the object, the unlock and the return, without the signal.
\<close>

definition complete ::
  "('c, 'r, 'v) monitor_ops \<Rightarrow> nat \<Rightarrow> 'c \<Rightarrow> ('c, 'r, 'v) monitor \<Rightarrow> ('c, 'r, 'v) monitor" where
  "complete ops t c m =
     (let (v, r) = op_act ops c (m_res m)
      in log_call c (Some v) (set_pc t Outside (m\<lparr>m_res := r, m_owner := None\<rparr>)))"

text \<open>The wait of an unfinished call: somebody sleeps on condition variable \<open>k\<close>.\<close>

definition sleeps_on :: "('c, 'r, 'v) monitor_ops \<Rightarrow> nat \<Rightarrow> 'c thread_pc \<Rightarrow> bool" where
  "sleeps_on ops k pc \<longleftrightarrow> (case pc of Asleep c \<Rightarrow> op_cond ops c = Some k | _ \<Rightarrow> False)"

inductive monitor_step ::
  "('c, 'r, 'v) monitor_ops \<Rightarrow> ('c, 'r, 'v) monitor \<Rightarrow> ('c, 'r, 'v) monitor \<Rightarrow> bool"
  for ops where
  lock: "thread_at m t (Locking c) \<Longrightarrow> m_owner m = None \<Longrightarrow>
    monitor_step ops m (set_pc t (Holding c) (m\<lparr>m_owner := Some t\<rparr>))"
| relock: "thread_at m t (Woken c) \<Longrightarrow> m_owner m = None \<Longrightarrow>
    monitor_step ops m (set_pc t (Holding c) (m\<lparr>m_owner := Some t\<rparr>))"
| timed_out: "thread_at m t (Expired c) \<Longrightarrow> m_owner m = None \<Longrightarrow>
    monitor_step ops m (log_call c None (set_pc t Outside m))"
| refuse: "thread_at m t (Holding c) \<Longrightarrow> \<not> op_can ops c (m_res m) \<Longrightarrow> op_mode ops c = No_Wait \<Longrightarrow>
    monitor_step ops m (log_call c None (set_pc t Outside (m\<lparr>m_owner := None\<rparr>)))"
| sleep: "thread_at m t (Holding c) \<Longrightarrow> \<not> op_can ops c (m_res m) \<Longrightarrow> op_mode ops c \<noteq> No_Wait \<Longrightarrow>
    monitor_step ops m (set_pc t (Asleep c) (m\<lparr>m_owner := None\<rparr>))"
| finish: "thread_at m t (Holding c) \<Longrightarrow> op_can ops c (m_res m) \<Longrightarrow>
    (\<forall>k. op_signal ops c (m_res m) = Some k \<longrightarrow> \<not> list_ex (sleeps_on ops k) (m_threads m)) \<Longrightarrow>
    monitor_step ops m (complete ops t c m)"
| finish_wake: "thread_at m t (Holding c) \<Longrightarrow> op_can ops c (m_res m) \<Longrightarrow>
    op_signal ops c (m_res m) = Some k \<Longrightarrow> thread_at m u (Asleep d) \<Longrightarrow> op_cond ops d = Some k \<Longrightarrow>
    monitor_step ops m (set_pc u (Woken d) (complete ops t c m))"

text \<open>
  From outside: a spurious wakeup, the deadline of a timed wait, and a timed wait that
  returns \<open>ETIMEDOUT\<close> although a signal was directed at it (POSIX: the wait may consume
  a signal directed at it concurrently).
\<close>

inductive monitor_env ::
  "('c, 'r, 'v) monitor_ops \<Rightarrow> ('c, 'r, 'v) monitor \<Rightarrow> ('c, 'r, 'v) monitor \<Rightarrow> bool"
  for ops where
  spurious: "thread_at m t (Asleep c) \<Longrightarrow> monitor_env ops m (set_pc t (Woken c) m)"
| deadline: "thread_at m t (Asleep c) \<Longrightarrow> op_mode ops c = Timed \<Longrightarrow>
    monitor_env ops m (set_pc t (Expired c) m)"
| consume: "thread_at m t (Woken c) \<Longrightarrow> op_mode ops c = Timed \<Longrightarrow>
    monitor_env ops m (set_pc t (Expired c) m)"

definition monitor_initial :: "'r \<Rightarrow> nat \<Rightarrow> ('c, 'r, 'v) monitor" where
  "monitor_initial r n =
     \<lparr>m_res = r, m_owner = None, m_threads = replicate n Outside, m_log = []\<rparr>"

text \<open>What \<open>n\<close> threads can reach that only make calls allowed by \<open>A\<close>.\<close>

inductive monitor_reach ::
  "('c, 'r, 'v) monitor_ops \<Rightarrow> ('c \<Rightarrow> bool) \<Rightarrow> 'r \<Rightarrow> nat \<Rightarrow> ('c, 'r, 'v) monitor \<Rightarrow> bool"
  for ops A r n where
  start: "monitor_reach ops A r n (monitor_initial r n)"
| call: "monitor_reach ops A r n m \<Longrightarrow> thread_at m t Outside \<Longrightarrow> A c \<Longrightarrow>
    monitor_reach ops A r n (set_pc t (Locking c) m)"
| step: "monitor_reach ops A r n m \<Longrightarrow> monitor_step ops m m' \<Longrightarrow> monitor_reach ops A r n m'"
| env: "monitor_reach ops A r n m \<Longrightarrow> monitor_env ops m m' \<Longrightarrow> monitor_reach ops A r n m'"

section \<open>Mutual exclusion\<close>

definition pc_ok :: "('c, 'r, 'v) monitor_ops \<Rightarrow> ('c \<Rightarrow> bool) \<Rightarrow> 'c thread_pc \<Rightarrow> bool" where
  "pc_ok ops A pc \<longleftrightarrow> (case pc of
     Outside \<Rightarrow> True
   | Locking c \<Rightarrow> A c
   | Holding c \<Rightarrow> A c
   | Asleep c \<Rightarrow> A c \<and> op_mode ops c \<noteq> No_Wait
   | Woken c \<Rightarrow> A c \<and> op_mode ops c \<noteq> No_Wait
   | Expired c \<Rightarrow> A c \<and> op_mode ops c = Timed)"

definition holds_mutex :: "'c thread_pc \<Rightarrow> bool" where
  "holds_mutex pc \<longleftrightarrow> (case pc of Holding c \<Rightarrow> True | _ \<Rightarrow> False)"

definition monitor_inv ::
  "('c, 'r, 'v) monitor_ops \<Rightarrow> ('c \<Rightarrow> bool) \<Rightarrow> nat \<Rightarrow> ('c, 'r, 'v) monitor \<Rightarrow> bool" where
  "monitor_inv ops A n m \<longleftrightarrow> length (m_threads m) = n \<and>
     (\<forall>t < n. pc_ok ops A (m_threads m ! t) \<and>
        (holds_mutex (m_threads m ! t) \<longleftrightarrow> m_owner m = Some t)) \<and>
     (\<forall>t. m_owner m = Some t \<longrightarrow> t < n)"

lemma monitor_inv_fields [simp]:
  "monitor_inv ops A n (m\<lparr>m_res := r\<rparr>) = monitor_inv ops A n m"
  "monitor_inv ops A n (log_call c v m) = monitor_inv ops A n m"
  by (simp_all add: monitor_inv_def log_call_def)

lemma monitor_inv_move:
  assumes "monitor_inv ops A n m" and "thread_at m t pc" and "pc_ok ops A pc'"
    and "holds_mutex pc' = holds_mutex pc"
  shows "monitor_inv ops A n (set_pc t pc' m)"
  using assms by (auto simp: monitor_inv_def thread_at_def set_pc_def nth_list_update)

lemma monitor_inv_acquire:
  assumes "monitor_inv ops A n m" and "thread_at m t pc" and "m_owner m = None"
    and "pc_ok ops A pc'" and "holds_mutex pc'"
  shows "monitor_inv ops A n (set_pc t pc' (m\<lparr>m_owner := Some t\<rparr>))"
  using assms by (auto simp: monitor_inv_def thread_at_def set_pc_def nth_list_update)

lemma monitor_inv_release:
  assumes "monitor_inv ops A n m" and "thread_at m t pc" and "holds_mutex pc"
    and "pc_ok ops A pc'" and "\<not> holds_mutex pc'"
  shows "monitor_inv ops A n (set_pc t pc' (m\<lparr>m_owner := None\<rparr>))"
proof -
  have "m_owner m = Some t" using assms by (auto simp: monitor_inv_def thread_at_def)
  with assms show ?thesis
    by (auto simp: monitor_inv_def thread_at_def set_pc_def nth_list_update)
qed

lemma monitor_inv_pc: "monitor_inv ops A n m \<Longrightarrow> thread_at m t pc \<Longrightarrow> pc_ok ops A pc"
  by (auto simp: monitor_inv_def thread_at_def)

lemma monitor_inv_holder:
  "monitor_inv ops A n m \<Longrightarrow> thread_at m t (Holding c) \<Longrightarrow> m_owner m = Some t"
  by (auto simp: monitor_inv_def thread_at_def holds_mutex_def)

lemma pc_ok_simps [simp]:
  "pc_ok ops A Outside" "pc_ok ops A (Locking c) = A c" "pc_ok ops A (Holding c) = A c"
  "pc_ok ops A (Asleep c) = (A c \<and> op_mode ops c \<noteq> No_Wait)"
  "pc_ok ops A (Woken c) = (A c \<and> op_mode ops c \<noteq> No_Wait)"
  "pc_ok ops A (Expired c) = (A c \<and> op_mode ops c = Timed)"
  by (simp_all add: pc_ok_def)

lemma holds_mutex_simps [simp]:
  "\<not> holds_mutex Outside" "\<not> holds_mutex (Locking c)" "holds_mutex (Holding c)"
  "\<not> holds_mutex (Asleep c)" "\<not> holds_mutex (Woken c)" "\<not> holds_mutex (Expired c)"
  by (simp_all add: holds_mutex_def)

lemma complete_eq:
  "complete ops t c m = log_call c (Some (fst (op_act ops c (m_res m))))
     (set_pc t Outside (m\<lparr>m_owner := None\<rparr>)\<lparr>m_res := snd (op_act ops c (m_res m))\<rparr>)"
  by (cases m) (simp add: complete_def Let_def case_prod_beta set_pc_def)

lemma thread_at_fields [simp]:
  "thread_at (m\<lparr>m_owner := ow\<rparr>) = thread_at m"
  "thread_at (m\<lparr>m_res := r\<rparr>) = thread_at m"
  "thread_at (log_call c v m) = thread_at m"
  by (auto simp: thread_at_def log_call_def fun_eq_iff)

lemma thread_at_set_pc:
  "thread_at (set_pc t pc m) u pc' \<longleftrightarrow>
     (if u = t then t < length (m_threads m) \<and> pc' = pc else thread_at m u pc')"
  by (auto simp: thread_at_def set_pc_def)

lemma thread_at_complete:
  "thread_at (complete ops t c m) u pc \<longleftrightarrow>
     (if u = t then t < length (m_threads m) \<and> pc = Outside else thread_at m u pc)"
  by (auto simp: complete_eq thread_at_set_pc)

lemma length_threads [simp]:
  "length (m_threads (set_pc t pc m)) = length (m_threads m)"
  "length (m_threads (log_call c v m)) = length (m_threads m)"
  "length (m_threads (complete ops t c m)) = length (m_threads m)"
  by (simp_all add: complete_eq set_pc_def log_call_def)

lemma monitor_inv_complete:
  "monitor_inv ops A n m \<Longrightarrow> thread_at m t (Holding c) \<Longrightarrow> monitor_inv ops A n (complete ops t c m)"
  by (simp add: complete_eq monitor_inv_release)

lemma monitor_inv_step:
  assumes "monitor_step ops m m'" and inv: "monitor_inv ops A n m"
  shows "monitor_inv ops A n m'"
  using assms(1)
proof cases
  case (lock t c)
  then show ?thesis
    using monitor_inv_acquire [OF inv lock(2,3)] monitor_inv_pc [OF inv lock(2)] by simp
next
  case (relock t c)
  then show ?thesis
    using monitor_inv_acquire [OF inv relock(2,3)] monitor_inv_pc [OF inv relock(2)] by simp
next
  case (timed_out t c)
  then show ?thesis using monitor_inv_move [OF inv timed_out(2)] by simp
next
  case (refuse t c)
  then show ?thesis using monitor_inv_release [OF inv refuse(2)] by simp
next
  case (sleep t c)
  then show ?thesis
    using monitor_inv_release [OF inv sleep(2)] monitor_inv_pc [OF inv sleep(2)] by simp
next
  case (finish t c)
  then show ?thesis using monitor_inv_complete [OF inv finish(2)] by simp
next
  case (finish_wake t c k u d)
  from finish_wake have "u \<noteq> t" by (auto simp: thread_at_def)
  with finish_wake have "thread_at (complete ops t c m) u (Asleep d)"
    by (simp add: thread_at_complete)
  from monitor_inv_move [OF monitor_inv_complete [OF inv finish_wake(2)] this, of "Woken d"]
  show ?thesis using finish_wake(1) monitor_inv_pc [OF inv finish_wake(5)] by simp
qed

lemma monitor_inv_env:
  assumes "monitor_env ops m m'" and inv: "monitor_inv ops A n m"
  shows "monitor_inv ops A n m'"
  using assms(1)
  by cases (auto dest: monitor_inv_pc [OF inv] intro!: monitor_inv_move [OF inv])

lemma monitor_reach_inv:
  assumes "monitor_reach ops A r n m"
  shows "monitor_inv ops A n m"
  using assms
proof induction
  case start
  then show ?case
    by (simp add: monitor_inv_def monitor_initial_def)
next
  case (call m t c)
  then show ?case using monitor_inv_move [OF call(4,2)] by simp
qed (auto intro: monitor_inv_step monitor_inv_env)

lemma monitor_exclusive:
  assumes "monitor_reach ops A r n m" and "thread_at m t (Holding c)" and "thread_at m u (Holding d)"
  shows "t = u"
  using monitor_inv_holder [OF monitor_reach_inv [OF assms(1)] assms(2)]
    monitor_inv_holder [OF monitor_reach_inv [OF assms(1)] assms(3)] by simp

section \<open>Whole calls of an undisturbed thread\<close>

lemma reach_holding:
  assumes "monitor_reach ops A r n m" and "thread_at m t Outside" and "m_owner m = None" and "A c"
  shows "monitor_reach ops A r n (set_pc t (Holding c) (m\<lparr>m_owner := Some t\<rparr>))"
proof -
  let ?m = "set_pc t (Locking c) m"
  have "thread_at ?m t (Locking c)" "m_owner ?m = None"
    using assms by (simp_all add: thread_at_set_pc thread_at_def set_pc_def)
  from monitor_reach.step [OF monitor_reach.call [OF assms(1,2,4)] monitor_step.lock [OF this]]
  show ?thesis by (simp add: set_pc_def)
qed

lemma reach_sleep:
  assumes "monitor_reach ops A r n m" and "thread_at m t Outside" and "m_owner m = None" and "A c"
    and "\<not> op_can ops c (m_res m)" and "op_mode ops c \<noteq> No_Wait"
  shows "monitor_reach ops A r n (set_pc t (Asleep c) m)"
proof -
  let ?m = "set_pc t (Holding c) (m\<lparr>m_owner := Some t\<rparr>)"
  have "thread_at ?m t (Holding c)" "\<not> op_can ops c (m_res ?m)"
    using assms by (simp_all add: thread_at_set_pc thread_at_def set_pc_def)
  from monitor_reach.step [OF reach_holding [OF assms(1-4)] monitor_step.sleep [OF this assms(6)]]
  moreover have "set_pc t (Asleep c) (?m\<lparr>m_owner := None\<rparr>) = set_pc t (Asleep c) m"
    using assms(3) by (cases m) (simp add: set_pc_def)
  ultimately show ?thesis by simp
qed

lemma complete_holding:
  "thread_at m t pc \<Longrightarrow>
   complete ops t c (set_pc t (Holding c) (m\<lparr>m_owner := Some t\<rparr>)) = complete ops t c m"
  by (cases m) (simp add: complete_def Let_def case_prod_beta set_pc_def log_call_def)

lemma reach_finish:
  assumes "monitor_reach ops A r n m" and "thread_at m t Outside" and "m_owner m = None" and "A c"
    and "op_can ops c (m_res m)"
    and "\<forall>k. op_signal ops c (m_res m) = Some k \<longrightarrow> \<not> list_ex (sleeps_on ops k) (m_threads m)"
  shows "monitor_reach ops A r n (complete ops t c m)"
proof -
  let ?m = "set_pc t (Holding c) (m\<lparr>m_owner := Some t\<rparr>)"
  have h: "thread_at ?m t (Holding c)" "op_can ops c (m_res ?m)"
    using assms by (simp_all add: thread_at_set_pc thread_at_def set_pc_def)
  have "\<not> list_ex (sleeps_on ops k) (m_threads ?m)" if "op_signal ops c (m_res ?m) = Some k" for k
    using assms(2,6) that
    by (auto simp: set_pc_def list_ex_length nth_list_update sleeps_on_def thread_at_def)
  with h have "monitor_step ops ?m (complete ops t c ?m)" by (blast intro: monitor_step.finish)
  from monitor_reach.step [OF reach_holding [OF assms(1-4)] this] show ?thesis
    by (simp add: complete_holding [OF assms(2)])
qed

lemma reach_finish_wake:
  assumes "monitor_reach ops A r n m" and "thread_at m t Outside" and "m_owner m = None" and "A c"
    and "op_can ops c (m_res m)" and "op_signal ops c (m_res m) = Some k"
    and "thread_at m u (Asleep d)" and "op_cond ops d = Some k"
  shows "monitor_reach ops A r n (set_pc u (Woken d) (complete ops t c m))"
proof -
  let ?m = "set_pc t (Holding c) (m\<lparr>m_owner := Some t\<rparr>)"
  have "u \<noteq> t" using assms(2,7) by (auto simp: thread_at_def)
  then have "thread_at ?m t (Holding c)" "op_can ops c (m_res ?m)"
    "op_signal ops c (m_res ?m) = Some k" "thread_at ?m u (Asleep d)"
    using assms by (simp_all add: thread_at_set_pc thread_at_def set_pc_def)
  from monitor_reach.step [OF reach_holding [OF assms(1-4)] monitor_step.finish_wake [OF this assms(8)]]
  show ?thesis by (simp add: complete_holding [OF assms(2)])
qed

section \<open>The internal steps come to an end\<close>

lemma sum_list_map_update:
  fixes f :: "'a \<Rightarrow> nat"
  assumes "t < length xs"
  shows "sum_list (map f (xs[t := x])) + f (xs ! t) = sum_list (map f xs) + f x"
proof -
  have "f (xs ! t) \<le> sum_list (map f xs)"
    using assms by (intro member_le_sum_list) simp_all
  then show ?thesis using assms by (simp add: map_update sum_list_update)
qed

fun pc_weight :: "'c thread_pc \<Rightarrow> nat" where
  "pc_weight Outside = 0"
| "pc_weight (Expired c) = 1"
| "pc_weight (Asleep c) = 2"
| "pc_weight (Holding c) = 3"
| "pc_weight (Woken c) = 4"
| "pc_weight (Locking c) = 4"

definition monitor_weight :: "('c, 'r, 'v) monitor \<Rightarrow> nat" where
  "monitor_weight m = sum_list (map pc_weight (m_threads m))"

lemma monitor_weight_set_pc:
  "thread_at m t pc \<Longrightarrow> monitor_weight (set_pc t pc' m) + pc_weight pc = monitor_weight m + pc_weight pc'"
  using sum_list_map_update [of t "m_threads m" pc_weight pc']
  by (simp add: monitor_weight_def thread_at_def set_pc_def)

lemma sleeps_onE:
  assumes "sleeps_on ops k (m_threads m ! u)" and "u < length (m_threads m)"
  obtains d where "thread_at m u (Asleep d)" and "op_cond ops d = Some k"
  using assms by (auto simp: sleeps_on_def thread_at_def split: thread_pc.splits)

lemma monitor_weight_fields [simp]:
  "monitor_weight (m\<lparr>m_owner := ow\<rparr>) = monitor_weight m"
  "monitor_weight (m\<lparr>m_res := r\<rparr>) = monitor_weight m"
  "monitor_weight (log_call c v m) = monitor_weight m"
  by (simp_all add: monitor_weight_def log_call_def)

lemma monitor_weight_complete:
  "thread_at m t (Holding c) \<Longrightarrow> monitor_weight (complete ops t c m) + 3 = monitor_weight m"
  using monitor_weight_set_pc [of m t "Holding c" Outside]
  by (simp add: complete_eq monitor_weight_def set_pc_def log_call_def)

lemma monitor_step_weight:
  assumes "monitor_step ops m m'"
  shows "monitor_weight m' < monitor_weight m"
  using assms
proof cases
  case (finish_wake t c k u d)
  then have ne: "u \<noteq> t" by (auto simp: thread_at_def)
  with finish_wake have "thread_at (complete ops t c m) u (Asleep d)"
    by (simp add: thread_at_complete)
  from monitor_weight_set_pc [OF this, of "Woken d"] monitor_weight_complete [OF finish_wake(2), of ops]
  show ?thesis unfolding finish_wake(1) by simp
next
  case (finish t c)
  then show ?thesis using monitor_weight_complete [of m t c ops] by simp
next
  case (lock t c)
  then show ?thesis
    using monitor_weight_set_pc [of "m\<lparr>m_owner := Some t\<rparr>" t "Locking c" "Holding c"] by simp
next
  case (relock t c)
  then show ?thesis
    using monitor_weight_set_pc [of "m\<lparr>m_owner := Some t\<rparr>" t "Woken c" "Holding c"] by simp
next
  case (timed_out t c)
  then show ?thesis using monitor_weight_set_pc [of m t "Expired c" Outside] by simp
next
  case (refuse t c)
  then show ?thesis
    using monitor_weight_set_pc [of "m\<lparr>m_owner := None\<rparr>" t "Holding c" Outside] by simp
next
  case (sleep t c)
  then show ?thesis
    using monitor_weight_set_pc [of "m\<lparr>m_owner := None\<rparr>" t "Holding c" "Asleep c"] by simp
qed

lemma monitor_steps_weight:
  "(monitor_step ops ^^ k) m m' \<Longrightarrow> monitor_weight m' + k \<le> monitor_weight m"
proof (induction k arbitrary: m')
  case (Suc k)
  then obtain m1 where "(monitor_step ops ^^ k) m m1" "monitor_step ops m1 m'" by auto
  with Suc.IH [of m1] monitor_step_weight [of ops m1 m'] show ?case by simp
qed simp

lemma monitor_weight_bound: "monitor_weight m \<le> 4 * length (m_threads m)"
proof -
  have "pc_weight pc \<le> 4" for pc :: "'a thread_pc" by (cases pc) simp_all
  then have "sum_list (map pc_weight ts) \<le> 4 * length ts" for ts :: "'a thread_pc list"
    by (induction ts) (simp_all add: add_mono)
  then show ?thesis unfolding monitor_weight_def .
qed

text \<open>At most four internal steps per thread: a call takes the mutex twice at most for itself.\<close>

lemma monitor_steps_bounded:
  "(monitor_step ops ^^ k) m m' \<Longrightarrow> k \<le> 4 * length (m_threads m)"
  using monitor_steps_weight [of k ops m m'] monitor_weight_bound [of m] by simp

text \<open>When no internal step is left, every thread is outside or asleep.\<close>

lemma monitor_quiet:
  assumes inv: "monitor_inv ops A n m" and no: "\<And>m'. \<not> monitor_step ops m m'" and t: "t < n"
  shows "m_threads m ! t = Outside \<or> (\<exists>c. m_threads m ! t = Asleep c)"
proof -
  have at: "thread_at m u (m_threads m ! u)" if "u < n" for u
    using inv that by (simp add: thread_at_def monitor_inv_def)
  have nohold: "\<not> thread_at m u (Holding c)" for u c
  proof
    assume h: "thread_at m u (Holding c)"
    show False
    proof (cases "op_can ops c (m_res m)")
      case False
      with h no show False by (cases "op_mode ops c = No_Wait") (blast intro: monitor_step.intros)+
    next
      case True
      show False
      proof (cases "\<exists>k. op_signal ops c (m_res m) = Some k \<and> list_ex (sleeps_on ops k) (m_threads m)")
        case False
        with h True no show False by (blast intro: monitor_step.finish)
      next
        case True': True
        then obtain k d u' where k: "op_signal ops c (m_res m) = Some k"
          "thread_at m u' (Asleep d)" "op_cond ops d = Some k"
          by (auto simp: list_ex_length elim: sleeps_onE)
        with h True no show False by (blast intro: monitor_step.finish_wake)
      qed
    qed
  qed
  have own: "m_owner m = None"
  proof (rule ccontr)
    assume "m_owner m \<noteq> None"
    then obtain u where u: "m_owner m = Some u" by blast
    show False
    proof -
      have "u < n" "holds_mutex (m_threads m ! u)" using inv u by (auto simp: monitor_inv_def)
      moreover from this(2) obtain c where "m_threads m ! u = Holding c"
        by (auto simp: holds_mutex_def split: thread_pc.splits)
      ultimately show False using nohold [of u c] at [of u] by simp
    qed
  qed
  show ?thesis
    using at [OF t] nohold [of t] own no by (cases "m_threads m ! t") (auto intro: monitor_step.intros)
qed

section \<open>No wakeup is lost\<close>

text \<open>
  The contract between an object and its condition variables: \<open>tokens k\<close> counts how many
  calls that wait on condition variable \<open>k\<close> could go ahead. A call takes one token of its
  own condition and may only produce a token where it signals.
\<close>

definition awake_on :: "('c, 'r, 'v) monitor_ops \<Rightarrow> nat \<Rightarrow> 'c thread_pc \<Rightarrow> nat" where
  "awake_on ops k pc = (case pc of
     Holding c \<Rightarrow> if op_cond ops c = Some k then 1 else 0
   | Woken c \<Rightarrow> if op_cond ops c = Some k then 1 else 0
   | _ \<Rightarrow> 0)"

definition awake :: "('c, 'r, 'v) monitor_ops \<Rightarrow> nat \<Rightarrow> ('c, 'r, 'v) monitor \<Rightarrow> nat" where
  "awake ops k m = sum_list (map (awake_on ops k) (m_threads m))"

lemma awake_set_pc:
  "thread_at m t pc \<Longrightarrow>
   awake ops k (set_pc t pc' m) + awake_on ops k pc = awake ops k m + awake_on ops k pc'"
  using sum_list_map_update [of t "m_threads m" "awake_on ops k" pc']
  by (simp add: awake_def thread_at_def set_pc_def)

lemma thread_at_initial: "thread_at (monitor_initial r n) t pc \<longleftrightarrow> t < n \<and> pc = Outside"
  by (auto simp: thread_at_def monitor_initial_def)

lemma awake_fields [simp]:
  "awake ops k (m\<lparr>m_owner := ow\<rparr>) = awake ops k m"
  "awake ops k (m\<lparr>m_res := r\<rparr>) = awake ops k m"
  "awake ops k (log_call c v m) = awake ops k m"
  by (simp_all add: awake_def log_call_def)

lemma awake_on_simps [simp]:
  "awake_on ops k Outside = 0" "awake_on ops k (Locking c) = 0"
  "awake_on ops k (Holding c) = (if op_cond ops c = Some k then 1 else 0)"
  "awake_on ops k (Asleep c) = 0"
  "awake_on ops k (Woken c) = (if op_cond ops c = Some k then 1 else 0)"
  "awake_on ops k (Expired c) = 0"
  by (simp_all add: awake_on_def)

definition some_asleep :: "('c, 'r, 'v) monitor_ops \<Rightarrow> nat \<Rightarrow> ('c, 'r, 'v) monitor \<Rightarrow> bool" where
  "some_asleep ops k m \<longleftrightarrow> (\<exists>t c. thread_at m t (Asleep c) \<and> op_cond ops c = Some k)"

lemma some_asleep_fields [simp]:
  "some_asleep ops k (m\<lparr>m_owner := ow\<rparr>) = some_asleep ops k m"
  "some_asleep ops k (m\<lparr>m_res := r\<rparr>) = some_asleep ops k m"
  "some_asleep ops k (log_call c v m) = some_asleep ops k m"
  by (simp_all add: some_asleep_def)

lemma some_asleep_set_pc:
  "some_asleep ops k (set_pc t pc m) \<Longrightarrow> (\<And>c. pc = Asleep c \<Longrightarrow> op_cond ops c \<noteq> Some k) \<Longrightarrow>
   some_asleep ops k m"
  by (auto simp: some_asleep_def thread_at_set_pc split: if_splits)

lemma sleeps_on_iff: "sleeps_on ops k pc \<longleftrightarrow> (\<exists>c. pc = Asleep c \<and> op_cond ops c = Some k)"
  by (cases pc) (simp_all add: sleeps_on_def)

lemma some_asleep_iff: "some_asleep ops k m \<longleftrightarrow> list_ex (sleeps_on ops k) (m_threads m)"
  by (auto simp: some_asleep_def thread_at_def list_ex_length sleeps_on_iff)

lemma complete_fields [simp]:
  "m_res (complete ops t c m) = snd (op_act ops c (m_res m))"
  "m_log (complete ops t c m) = m_log m @ [(c, Some (fst (op_act ops c (m_res m))))]"
  "m_res (set_pc t pc m) = m_res m" "m_log (set_pc t pc m) = m_log m"
  "m_res (log_call c v m) = m_res m" "m_log (log_call c v m) = m_log m @ [(c, v)]"
  by (simp_all add: complete_eq set_pc_def log_call_def)

lemma awake_complete:
  "thread_at m t (Holding c) \<Longrightarrow>
   awake ops k (complete ops t c m) + (if op_cond ops c = Some k then 1 else 0) = awake ops k m"
  using awake_set_pc [of m t "Holding c" ops k Outside]
  by (simp add: complete_eq awake_def set_pc_def log_call_def)

lemma some_asleep_complete: "some_asleep ops k (complete ops t c m) \<Longrightarrow> some_asleep ops k m"
  by (auto simp: some_asleep_def thread_at_complete split: if_splits)

locale token_monitor =
  fixes ops :: "('c, 'r, 'v) monitor_ops" and good :: "'r \<Rightarrow> bool" and tokens :: "nat \<Rightarrow> 'r \<Rightarrow> nat"
  assumes can_tokens: "good r \<Longrightarrow> op_cond ops c = Some k \<Longrightarrow> op_can ops c r \<longleftrightarrow> 0 < tokens k r"
    and can_always: "good r \<Longrightarrow> op_cond ops c = None \<Longrightarrow> op_can ops c r"
    and waits_on: "op_mode ops c \<noteq> No_Wait \<Longrightarrow> op_cond ops c \<noteq> None"
    and act_good: "good r \<Longrightarrow> op_can ops c r \<Longrightarrow> good (snd (op_act ops c r))"
    and act_tokens: "good r \<Longrightarrow> op_can ops c r \<Longrightarrow>
      tokens k (snd (op_act ops c r)) + (if op_cond ops c = Some k then 1 else 0)
        \<le> tokens k r + (if op_signal ops c r = Some k then 1 else 0)"
begin

definition no_lost_wakeup :: "('c, 'r, 'v) monitor \<Rightarrow> bool" where
  "no_lost_wakeup m \<longleftrightarrow> (\<forall>k. some_asleep ops k m \<longrightarrow> tokens k (m_res m) \<le> awake ops k m)"

lemma good_step: "monitor_step ops m m' \<Longrightarrow> good (m_res m) \<Longrightarrow> good (m_res m')"
  by (cases rule: monitor_step.cases) (auto simp: act_good)

lemma good_env: "monitor_env ops m m' \<Longrightarrow> good (m_res m) \<Longrightarrow> good (m_res m')"
  by (cases rule: monitor_env.cases) auto

lemma reach_good: "monitor_reach ops A r n m \<Longrightarrow> good r \<Longrightarrow> good (m_res m)"
  by (induction rule: monitor_reach.induct)
    (auto simp: monitor_initial_def intro: good_step good_env)

lemma wakeup_mono:
  assumes "no_lost_wakeup m" and "\<And>k. some_asleep ops k m' \<Longrightarrow> some_asleep ops k m"
    and "m_res m' = m_res m" and "\<And>k. awake ops k m \<le> awake ops k m'"
  shows "no_lost_wakeup m'"
  using assms unfolding no_lost_wakeup_def by (metis order_trans)

lemma wakeup_move:
  assumes "no_lost_wakeup m" and "thread_at m t pc" and "\<And>c. pc' \<noteq> Asleep c"
    and "\<And>k. awake_on ops k pc \<le> awake_on ops k pc'"
  shows "no_lost_wakeup (set_pc t pc' m)"
proof (rule wakeup_mono [OF assms(1)])
  fix k
  show "some_asleep ops k (set_pc t pc' m) \<Longrightarrow> some_asleep ops k m"
    using some_asleep_set_pc [of ops k t pc' m] assms(3) by blast
  show "awake ops k m \<le> awake ops k (set_pc t pc' m)"
    using awake_set_pc [OF assms(2), of ops k pc'] assms(4) [of k] by linarith
qed simp

lemma wakeup_fields [simp]:
  "no_lost_wakeup (m\<lparr>m_owner := ow\<rparr>) = no_lost_wakeup m"
  "no_lost_wakeup (log_call c v m) = no_lost_wakeup m"
  by (simp_all add: no_lost_wakeup_def)

text \<open>A call that does not go ahead leaves no token, so its own condition needs nobody awake.\<close>

lemma wakeup_blocked:
  assumes "no_lost_wakeup m" and "good (m_res m)" and at: "thread_at m t (Holding c)"
    and no: "\<not> op_can ops c (m_res m)" and pc: "pc = Asleep c \<or> pc = Outside"
  shows "no_lost_wakeup (set_pc t pc m)"
  unfolding no_lost_wakeup_def
proof (intro allI impI)
  fix k
  assume sleeps: "some_asleep ops k (set_pc t pc m)"
  show "tokens k (m_res (set_pc t pc m)) \<le> awake ops k (set_pc t pc m)"
  proof (cases "op_cond ops c = Some k")
    case True
    with no assms(2) show ?thesis by (simp add: can_tokens)
  next
    case False
    with sleeps pc have "some_asleep ops k m" using some_asleep_set_pc [of ops k t pc m] by auto
    moreover have "awake ops k (set_pc t pc m) = awake ops k m"
      using awake_set_pc [OF at, of ops k pc] False pc by auto
    ultimately show ?thesis using assms(1) by (simp add: no_lost_wakeup_def)
  qed
qed

lemma wakeup_finish:
  assumes "no_lost_wakeup m" and "good (m_res m)" and at: "thread_at m t (Holding c)"
    and can: "op_can ops c (m_res m)"
    and quiet: "\<And>k. op_signal ops c (m_res m) = Some k \<Longrightarrow> \<not> some_asleep ops k m"
  shows "no_lost_wakeup (complete ops t c m)"
  unfolding no_lost_wakeup_def
proof (intro allI impI)
  fix k
  assume "some_asleep ops k (complete ops t c m)"
  then have k: "some_asleep ops k m" by (rule some_asleep_complete)
  with quiet have "op_signal ops c (m_res m) \<noteq> Some k" by blast
  with act_tokens [OF assms(2) can, of k] awake_complete [OF at, of ops k] k assms(1)
  show "tokens k (m_res (complete ops t c m)) \<le> awake ops k (complete ops t c m)"
    by (fastforce simp: no_lost_wakeup_def split: if_splits)
qed

lemma wakeup_finish_wake:
  assumes "no_lost_wakeup m" and "good (m_res m)" and at: "thread_at m t (Holding c)"
    and can: "op_can ops c (m_res m)" and sig: "op_signal ops c (m_res m) = Some k"
    and u: "thread_at m u (Asleep d)" "op_cond ops d = Some k"
  shows "no_lost_wakeup (set_pc u (Woken d) (complete ops t c m))"
  unfolding no_lost_wakeup_def
proof (intro allI impI)
  fix j
  let ?m = "complete ops t c m"
  assume "some_asleep ops j (set_pc u (Woken d) ?m)"
  then have "some_asleep ops j ?m" by (rule some_asleep_set_pc) simp
  then have "some_asleep ops j m" by (rule some_asleep_complete)
  with assms(1) have j: "tokens j (m_res m) \<le> awake ops j m" by (simp add: no_lost_wakeup_def)
  have "u \<noteq> t" using at u(1) by (auto simp: thread_at_def)
  with u(1) have "thread_at ?m u (Asleep d)" by (simp add: thread_at_complete)
  from awake_set_pc [OF this, of ops j "Woken d"] act_tokens [OF assms(2) can, of j]
    awake_complete [OF at, of ops j] j sig u(2)
  show "tokens j (m_res (set_pc u (Woken d) ?m)) \<le> awake ops j (set_pc u (Woken d) ?m)"
    by (auto split: if_splits)
qed

lemma wakeup_step:
  assumes "monitor_step ops m m'" and wk: "no_lost_wakeup m" and good: "good (m_res m)"
  shows "no_lost_wakeup m'"
  using assms(1)
proof cases
  case (lock t c)
  then show ?thesis
    using wakeup_move [of "m\<lparr>m_owner := Some t\<rparr>" t "Locking c" "Holding c"] wk by simp
next
  case (relock t c)
  then show ?thesis
    using wakeup_move [of "m\<lparr>m_owner := Some t\<rparr>" t "Woken c" "Holding c"] wk by simp
next
  case (timed_out t c)
  then show ?thesis using wakeup_move [of m t "Expired c" Outside] wk by simp
next
  case (refuse t c)
  then show ?thesis
    using wakeup_blocked [of "m\<lparr>m_owner := None\<rparr>" t c Outside] wk good by simp
next
  case (sleep t c)
  then show ?thesis
    using wakeup_blocked [of "m\<lparr>m_owner := None\<rparr>" t c "Asleep c"] wk good by simp
next
  case (finish t c)
  then show ?thesis using wakeup_finish [OF wk good finish(2,3)] by (simp add: some_asleep_iff)
next
  case (finish_wake t c k u d)
  then show ?thesis using wakeup_finish_wake [OF wk good finish_wake(2-6)] by simp
qed

text \<open>From outside, only the deadline of a timed wait can take a wakeup away.\<close>

lemma wakeup_env:
  assumes "monitor_env ops m m'" and "no_lost_wakeup m" and inv: "monitor_inv ops A n m"
    and untimed: "\<And>c. A c \<Longrightarrow> op_mode ops c \<noteq> Timed"
  shows "no_lost_wakeup m'"
  using assms(1)
proof cases
  case (spurious t c)
  then show ?thesis using wakeup_move [of m t "Asleep c" "Woken c"] assms(2) by simp
next
  case (deadline t c)
  then show ?thesis using monitor_inv_pc [OF inv deadline(2)] untimed by simp
next
  case (consume t c)
  then show ?thesis using monitor_inv_pc [OF inv consume(2)] untimed by simp
qed

lemma reach_wakeup:
  assumes "monitor_reach ops A r n m" and "good r" and "\<And>c. A c \<Longrightarrow> op_mode ops c \<noteq> Timed"
  shows "no_lost_wakeup m"
  using assms(1)
proof induction
  case start
  show ?case by (simp add: no_lost_wakeup_def some_asleep_def thread_at_initial)
next
  case (call m t c)
  then show ?case using wakeup_move [of m t Outside "Locking c"] by simp
next
  case (step m m')
  show ?case by (rule wakeup_step [OF step(2,3) reach_good [OF step(1) assms(2)]])
next
  case (env m m')
  show ?case by (rule wakeup_env [OF env(2,3) monitor_reach_inv [OF env(1)] assms(3)])
qed

text \<open>
  A run of untimed calls comes to rest only with every unfinished call asleep on a condition
  that has no token left.
\<close>

lemma quiet_no_tokens:
  assumes reach: "monitor_reach ops A r n m" and "good r"
    and untimed: "\<And>c. A c \<Longrightarrow> op_mode ops c \<noteq> Timed"
    and no: "\<And>m'. \<not> monitor_step ops m m'" and t: "t < n" and c: "m_threads m ! t \<noteq> Outside"
  shows "\<exists>c k. m_threads m ! t = Asleep c \<and> A c \<and> op_cond ops c = Some k \<and>
     tokens k (m_res m) = 0 \<and> \<not> op_can ops c (m_res m)"
proof -
  note inv = monitor_reach_inv [OF reach]
  note quiet = monitor_quiet [OF inv no]
  obtain d where d: "m_threads m ! t = Asleep d" using quiet [OF t] c by blast
  have at: "thread_at m t (Asleep d)" using d t inv by (simp add: thread_at_def monitor_inv_def)
  have zero: "awake ops k m = 0" for k
  proof -
    have "awake_on ops k pc = 0" if "pc \<in> set (m_threads m)" for pc
      using that quiet inv by (fastforce simp: in_set_conv_nth monitor_inv_def)
    then show ?thesis by (simp add: awake_def)
  qed
  have ok: "A d" "op_mode ops d \<noteq> No_Wait" using monitor_inv_pc [OF inv at] by simp_all
  then obtain k where k: "op_cond ops d = Some k" using waits_on by blast
  with at have "some_asleep ops k m" by (auto simp: some_asleep_def)
  with reach_wakeup [OF reach assms(2) untimed] zero [of k] have "tokens k (m_res m) = 0"
    by (auto simp: no_lost_wakeup_def)
  with d ok(1) k reach_good [OF reach assms(2)] show ?thesis by (auto simp: can_tokens)
qed

end

section \<open>The log is a sequential run\<close>

text \<open>
  \<open>hist\<close> runs a log of completed calls one after the other. When it agrees with the monitor
  on single calls, every log of the threads is such a run.
\<close>

locale call_history =
  fixes ops :: "('c, 'r, 'v) monitor_ops" and hist :: "('c \<times> 'v option) list \<Rightarrow> 'r \<Rightarrow> 'r option"
  assumes hist_nil: "hist [] r = Some r"
    and hist_append: "hist (l @ l') r = Option.bind (hist l r) (hist l')"
    and hist_act: "op_can ops c r \<Longrightarrow>
      hist [(c, Some (fst (op_act ops c r)))] r = Some (snd (op_act ops c r))"
    and hist_timeout: "op_mode ops c = Timed \<Longrightarrow> hist [(c, None)] r = Some r"
    and hist_refuse: "op_mode ops c = No_Wait \<Longrightarrow> \<not> op_can ops c r \<Longrightarrow> hist [(c, None)] r = Some r"
begin

lemma step_history:
  assumes "monitor_step ops m m'" and h: "hist (m_log m) r = Some (m_res m)"
    and inv: "monitor_inv ops A n m"
  shows "hist (m_log m') r = Some (m_res m')"
  using assms(1)
proof cases
  case (timed_out t c)
  then show ?thesis
    using h monitor_inv_pc [OF inv timed_out(2)] by (simp add: hist_append hist_timeout)
next
  case (refuse t c)
  then show ?thesis using h by (simp add: hist_append hist_refuse)
next
  case (finish t c)
  then show ?thesis using h by (simp add: hist_append hist_act)
next
  case (finish_wake t c k u d)
  then show ?thesis using h by (simp add: hist_append hist_act)
qed (use h in simp_all)

lemma reach_history:
  assumes "monitor_reach ops A r n m"
  shows "hist (m_log m) r = Some (m_res m)"
  using assms
proof induction
  case (step m m')
  show ?case by (rule step_history [OF step(2,3) monitor_reach_inv [OF step(1)]])
next
  case (env m m')
  from env(2,3) show ?case by (cases rule: monitor_env.cases) simp_all
qed (simp_all add: monitor_initial_def hist_nil)

end

end
