(* ===== verification/OsalThreads.thy ===== *)
theory OsalThreads
  imports Monitor
begin

text \<open>
  Any number of threads inside the blocking calls on one queue or one semaphore of
  osal/posix/embediq_osal_posix.c. The records \<open>queue_ops\<close> and \<open>sem_ops\<close> give the monitor
  of theory Monitor the loop condition, the change, the timeout and the condition variables
  of each call. The theorems justify the sequential functions of theory Osal: what the
  threads do is, call by call, a run of those functions, and no thread sleeps on while it
  could go ahead.
\<close>

section \<open>The queue under threads\<close>

datatype 'a queue_call = Queue_Send 'a u32 | Queue_Recv u32

definition NOT_EMPTY :: nat where "NOT_EMPTY = 0"

definition NOT_FULL :: nat where "NOT_FULL = 1"

definition timeout_mode :: "u32 \<Rightarrow> wait_mode" where
  "timeout_mode timeout_ms =
     (if timeout_ms = 0 then No_Wait else if timeout_ms = UINT32_MAX then For_Ever else Timed)"

definition queue_ops :: "('a queue_call, 'a osal_queue, 'a option) monitor_ops" where
  "queue_ops = \<lparr>
     op_can = (\<lambda>c q. case c of Queue_Send x t \<Rightarrow> \<not> q_count q \<ge> q_depth q | Queue_Recv t \<Rightarrow> q_count q \<noteq> 0),
     op_act = (\<lambda>c q. case c of Queue_Send x t \<Rightarrow> (None, queue_put q x)
                              | Queue_Recv t \<Rightarrow> (q_buf q ! unat (q_head q), queue_take q)),
     op_mode = (\<lambda>c. case c of Queue_Send x t \<Rightarrow> timeout_mode t | Queue_Recv t \<Rightarrow> timeout_mode t),
     op_cond = (\<lambda>c. Some (case c of Queue_Send x t \<Rightarrow> NOT_FULL | Queue_Recv t \<Rightarrow> NOT_EMPTY)),
     op_signal = (\<lambda>c q. Some (case c of Queue_Send x t \<Rightarrow> NOT_EMPTY | Queue_Recv t \<Rightarrow> NOT_FULL))\<rparr>"

lemma queue_ops_simps [simp]:
  "op_can queue_ops (Queue_Send x t) q \<longleftrightarrow> q_count q < q_depth q"
  "op_can queue_ops (Queue_Recv t) q \<longleftrightarrow> q_count q \<noteq> 0"
  "op_act queue_ops (Queue_Send x t) q = (None, queue_put q x)"
  "op_act queue_ops (Queue_Recv t) q = (q_buf q ! unat (q_head q), queue_take q)"
  "op_mode queue_ops (Queue_Send x t) = timeout_mode t"
  "op_mode queue_ops (Queue_Recv t) = timeout_mode t"
  "op_cond queue_ops (Queue_Send x t) = Some NOT_FULL"
  "op_cond queue_ops (Queue_Recv t) = Some NOT_EMPTY"
  "op_signal queue_ops (Queue_Send x t) q = Some NOT_EMPTY"
  "op_signal queue_ops (Queue_Recv t) q = Some NOT_FULL"
  by (simp_all add: queue_ops_def not_le)

definition queue_tokens :: "nat \<Rightarrow> 'a osal_queue \<Rightarrow> nat" where
  "queue_tokens k q =
     (if k = NOT_EMPTY then unat (q_count q) else if k = NOT_FULL then unat (q_depth q) - unat (q_count q) else 0)"

lemma queue_conds [simp]: "NOT_EMPTY \<noteq> NOT_FULL" "NOT_FULL \<noteq> NOT_EMPTY"
  by (simp_all add: NOT_EMPTY_def NOT_FULL_def)

lemma queue_can_room: "q_count q < q_depth q \<longleftrightarrow> unat (q_count q) < unat (q_depth q)"
  by (simp add: word_less_nat_alt)

lemma queue_can_some: "q_count q \<noteq> 0 \<longleftrightarrow> 0 < unat (q_count q)"
  by (simp add: unat_gt_0)

lemma queue_act_inv:
  assumes "queue_inv q" and "op_can queue_ops c q"
  shows "queue_inv (snd (op_act queue_ops c q))"
  using assms queue_put_inv queue_take_inv
  by (cases c) (auto simp: queue_can_room queue_can_some)

lemma queue_act_tokens:
  assumes "queue_inv q" and "op_can queue_ops c q"
  shows "queue_tokens k (snd (op_act queue_ops c q)) + (if op_cond queue_ops c = Some k then 1 else 0)
     \<le> queue_tokens k q + (if op_signal queue_ops c q = Some k then 1 else 0)"
proof (cases c)
  case (Queue_Send x t)
  with assms queue_put_fields [of q x] show ?thesis
    by (auto simp: queue_tokens_def queue_can_room)
next
  case (Queue_Recv t)
  with assms queue_take_fields [of q] show ?thesis
    by (auto simp: queue_tokens_def queue_can_some queue_inv_def)
qed

interpretation queue_monitor: token_monitor queue_ops queue_inv queue_tokens
proof unfold_locales
  fix q :: "'a osal_queue" and c k
  show "queue_inv q \<Longrightarrow> op_cond queue_ops c = Some k \<Longrightarrow> op_can queue_ops c q \<longleftrightarrow> 0 < queue_tokens k q"
    by (cases c) (auto simp: queue_tokens_def queue_can_room queue_can_some)
  show "queue_inv q \<Longrightarrow> op_cond queue_ops c = None \<Longrightarrow> op_can queue_ops c q" by (cases c) simp_all
  show "op_mode queue_ops c \<noteq> No_Wait \<Longrightarrow> op_cond queue_ops c \<noteq> None" by (cases c) simp_all
qed (simp_all only: queue_act_inv queue_act_tokens)

text \<open>
  The log of completed calls, read as a sequential run of the functions of theory Osal. A
  timed-out call leaves the queue alone; a call without a deadline never times out.
\<close>

fun queue_history ::
  "('a queue_call \<times> 'a option option) list \<Rightarrow> 'a osal_queue \<Rightarrow> 'a osal_queue option" where
  "queue_history [] q = Some q"
| "queue_history ((c, None) # l) q =
     (if op_mode (queue_ops :: ('a queue_call, 'a osal_queue, 'a option) monitor_ops) c = For_Ever
      then None else queue_history l q)"
| "queue_history ((Queue_Send x t, Some v) # l) q =
     (case embediq_osal_queue_send q x t of
        Some (e, q', _) \<Rightarrow> if e = EMBEDIQ_OK then queue_history l q' else None
      | None \<Rightarrow> None)"
| "queue_history ((Queue_Recv t, Some v) # l) q =
     (case embediq_osal_queue_recv q t of
        Some (e, item, q') \<Rightarrow> if e = EMBEDIQ_OK \<and> item = v then queue_history l q' else None
      | None \<Rightarrow> None)"

fun items_sent :: "('a queue_call \<times> 'a option option) list \<Rightarrow> 'a list" where
  "items_sent [] = []"
| "items_sent ((Queue_Send x t, Some v) # l) = x # items_sent l"
| "items_sent (_ # l) = items_sent l"

fun items_received :: "('a queue_call \<times> 'a option option) list \<Rightarrow> 'a list" where
  "items_received [] = []"
| "items_received ((Queue_Recv t, Some (Some x)) # l) = x # items_received l"
| "items_received (_ # l) = items_received l"

lemma queue_history_append:
  "queue_history (l @ l') q = Option.bind (queue_history l q) (queue_history l')"
  by (induction l q rule: queue_history.induct) (auto split: option.splits prod.splits)

lemma queue_history_act:
  assumes "op_can queue_ops c q"
  shows "queue_history [(c, Some (fst (op_act queue_ops c q)))] q = Some (snd (op_act queue_ops c q))"
  using assms
  by (cases c) (simp_all add: embediq_osal_queue_send_def embediq_osal_queue_recv_def not_le [symmetric])

lemma queue_history_fifo:
  "queue_history l q = Some q' \<Longrightarrow> queue_inv q \<Longrightarrow>
   queue_inv q' \<and> queue_cap q' = queue_cap q \<and>
   items_received l @ queue_items q' = queue_items q @ items_sent l"
proof (induction l q rule: queue_history.induct)
  case (2 c l q)
  then show ?case by (cases c) (simp_all split: if_splits)
next
  case (3 x t v l q)
  then have room: "length (queue_items q) < queue_cap q"
    using queue_send_full [of q x t] posix_queue.items_bounded [of q]
    by (cases "length (queue_items q) = queue_cap q") (auto split: if_splits)
  with 3 queue_send_room(1) [of q x t] queue_send_room(2-) [of q x] show ?case by (simp add: queue_cap_def)
next
  case (4 t v l q)
  obtain x xs where it: "queue_items q = x # xs"
    using 4 by (cases "queue_items q")
      (auto simp: embediq_osal_queue_recv_def simp flip: queue_not_empty_iff split: if_splits)
  with 4 queue_recv_front(1) [of q x xs t] queue_recv_front(2-) [of q x xs] show ?case by (auto split: if_splits)
qed simp

interpretation queue_log: call_history queue_ops queue_history
proof unfold_locales
  fix c :: "'a queue_call" and q :: "'a osal_queue" and l l'
  show "queue_history (l @ l') q = Option.bind (queue_history l q) (queue_history l')"
    by (rule queue_history_append)
  show "op_can queue_ops c q \<Longrightarrow>
      queue_history [(c, Some (fst (op_act queue_ops c q)))] q = Some (snd (op_act queue_ops c q))"
    by (rule queue_history_act)
qed simp_all

text \<open>A receiver asleep on an empty queue; a sender comes and wakes it.\<close>

definition demo_ring :: "nat osal_queue" where
  "demo_ring = \<lparr>q_depth = 2, q_count = 0, q_head = 0, q_tail = 0, q_buf = [None, None]\<rparr>"

definition demo_waiting :: "(nat queue_call, nat osal_queue, nat option) monitor" where
  "demo_waiting = set_pc 0 (Asleep (Queue_Recv UINT32_MAX)) (monitor_initial demo_ring 2)"

lemma demo_ring_inv: "queue_inv demo_ring" "queue_items demo_ring = []"
  by (simp_all add: demo_ring_def queue_inv_def queue_items_def)

lemma demo_waiting_reach:
  "monitor_reach queue_ops (\<lambda>c. op_mode queue_ops c \<noteq> Timed) demo_ring 2 demo_waiting"
  unfolding demo_waiting_def
  by (rule reach_sleep [OF monitor_reach.start])
    (simp_all add: thread_at_initial timeout_mode_def demo_ring_def,
     simp_all add: monitor_initial_def)

definition demo_woken :: "(nat queue_call, nat osal_queue, nat option) monitor" where
  "demo_woken = set_pc 0 (Woken (Queue_Recv UINT32_MAX)) (complete queue_ops 1 (Queue_Send 7 0) demo_waiting)"

lemma demo_waiting_simps:
  "m_res demo_waiting = demo_ring" "m_owner demo_waiting = None" "m_log demo_waiting = []"
  "m_threads demo_waiting = [Asleep (Queue_Recv UINT32_MAX), Outside]"
  by (simp_all add: demo_waiting_def set_pc_def monitor_initial_def numeral_2_eq_2)

lemma demo_woken_reach:
  "monitor_reach queue_ops (\<lambda>c. op_mode queue_ops c \<noteq> Timed) demo_ring 2 demo_woken"
  unfolding demo_woken_def
  by (rule reach_finish_wake [OF demo_waiting_reach, where k = NOT_EMPTY])
    (simp_all add: thread_at_def demo_waiting_simps timeout_mode_def demo_ring_def)

lemma demo_waiting_quiet: "\<not> monitor_step queue_ops demo_waiting m'"
proof
  have pcs: "pc = Asleep (Queue_Recv UINT32_MAX) \<or> pc = Outside" if "thread_at demo_waiting t pc" for t pc
    using that by (auto simp: thread_at_def demo_waiting_simps less_Suc_eq)
  assume "monitor_step queue_ops demo_waiting m'"
  then show False by cases (auto dest: pcs)
qed

text \<open>C16: 
  C0: Whatever n threads do to a queue with send and receive calls of any timeouts, in any
  interleaving and with spurious wakeups, the completed calls are, in the order of their
  completion, a run of the sequential functions; what has been received followed by what is
  queued is exactly what has been sent, in order; the capacity is respected; and no two
  threads are inside the critical section at once.
\<close>

theorem queue_threads_linearizable:
  assumes "monitor_reach queue_ops A q n m" and "queue_inv q" and "queue_items q = []"
  shows "queue_history (m_log m) q = Some (m_res m) \<and>
     items_received (m_log m) @ queue_items (m_res m) = items_sent (m_log m) \<and>
     length (queue_items (m_res m)) \<le> queue_cap q \<and>
     (\<forall>t u c d. thread_at m t (Holding c) \<and> thread_at m u (Holding d) \<longrightarrow> t = u)"
proof -
  have h: "queue_history (m_log m) q = Some (m_res m)" by (rule queue_log.reach_history [OF assms(1)])
  with h queue_history_fifo [OF h assms(2)] assms(3) show ?thesis
    using posix_queue.items_bounded [of "m_res m"] monitor_exclusive [OF assms(1)] by auto
qed

lemma queue_threads_linearizable_witness:
  "queue_history [(Queue_Send 7 0, Some None)] demo_ring = Some (queue_put demo_ring 7)"
  using queue_threads_linearizable [OF demo_woken_reach demo_ring_inv]
  by (simp add: demo_woken_def demo_waiting_simps)

lemma queue_blocked:
  assumes "queue_inv q" and "op_mode queue_ops c \<noteq> Timed" and "op_mode queue_ops c \<noteq> No_Wait"
    and "\<not> op_can queue_ops c q"
  shows "c = Queue_Recv UINT32_MAX \<and> queue_items q = [] \<or>
     (\<exists>x. c = Queue_Send x UINT32_MAX) \<and> length (queue_items q) = queue_cap q"
  using assms queue_full_iff [OF assms(1)] queue_not_empty_iff [of q]
  by (cases c) (auto simp: timeout_mode_def not_less split: if_splits)

text \<open>C17: 
  C0: When no call has a finite timeout, no wakeup is lost: from every reachable state at most
  four internal steps per thread are possible, and when none is left, every thread is either
  outside or asleep, a receiver only on an empty queue and a sender only on a full one.
\<close>

theorem queue_threads_no_lost_wakeup:
  assumes "monitor_reach queue_ops (\<lambda>c. op_mode queue_ops c \<noteq> Timed) q n m" and "queue_inv q"
  shows "(\<forall>k m'. (monitor_step queue_ops ^^ k) m m' \<longrightarrow> k \<le> 4 * n) \<and>
     ((\<forall>m'. \<not> monitor_step queue_ops m m') \<longrightarrow>
        (\<forall>t < n. m_threads m ! t = Outside \<or>
           m_threads m ! t = Asleep (Queue_Recv UINT32_MAX) \<and> queue_items (m_res m) = [] \<or>
           (\<exists>x. m_threads m ! t = Asleep (Queue_Send x UINT32_MAX)) \<and>
              length (queue_items (m_res m)) = queue_cap (m_res m)))"
proof (intro conjI allI impI)
  note inv = monitor_reach_inv [OF assms(1)]
  then have n: "length (m_threads m) = n" by (simp add: monitor_inv_def)
  fix k m'
  assume "(monitor_step queue_ops ^^ k) m m'"
  then show "k \<le> 4 * n" using monitor_steps_bounded [of k queue_ops m m'] n by simp
next
  fix t
  assume no: "\<forall>m'. \<not> monitor_step queue_ops m m'" and t: "t < n"
  have good: "queue_inv (m_res m)" by (rule queue_monitor.reach_good [OF assms])
  have "\<exists>c k. m_threads m ! t = Asleep c \<and> op_mode queue_ops c \<noteq> Timed \<and>
      op_cond queue_ops c = Some k \<and> queue_tokens k (m_res m) = 0 \<and> \<not> op_can queue_ops c (m_res m)"
    if "m_threads m ! t \<noteq> Outside"
    by (rule queue_monitor.quiet_no_tokens [OF assms _ _ t that]) (use no in auto)
  moreover have "pc_ok queue_ops (\<lambda>c. op_mode queue_ops c \<noteq> Timed) (m_threads m ! t)"
    using monitor_reach_inv [OF assms(1)] t by (simp add: monitor_inv_def)
  ultimately show "m_threads m ! t = Outside \<or>
      m_threads m ! t = Asleep (Queue_Recv UINT32_MAX) \<and> queue_items (m_res m) = [] \<or>
      (\<exists>x. m_threads m ! t = Asleep (Queue_Send x UINT32_MAX)) \<and>
         length (queue_items (m_res m)) = queue_cap (m_res m)"
    using queue_blocked [OF good] by fastforce
qed

lemma queue_threads_no_lost_wakeup_witness:
  "m_threads demo_waiting ! 0 = Asleep (Queue_Recv UINT32_MAX) \<and> queue_items (m_res demo_waiting) = []"
  using queue_threads_no_lost_wakeup [OF demo_waiting_reach demo_ring_inv(1)] demo_waiting_quiet
  by (auto simp: demo_waiting_simps dest: spec [of _ 0])

text \<open>
  A thread that waits with a deadline can be chosen by the signal of a send, return with a
  time-out all the same, and never pass the wakeup on: the item stays in the queue and the
  other receiver sleeps on, with no internal step left. The code returns from
  \<open>pthread_cond_timedwait\<close> with \<open>ETIMEDOUT\<close> without testing the queue again.
\<close>

definition demo_two_waiting :: "(nat queue_call, nat osal_queue, nat option) monitor" where
  "demo_two_waiting = set_pc 1 (Asleep (Queue_Recv 10))
     (set_pc 0 (Asleep (Queue_Recv UINT32_MAX)) (monitor_initial demo_ring 3))"

lemma demo_two_waiting_reach: "monitor_reach queue_ops (\<lambda>c. True) demo_ring 3 demo_two_waiting"
  unfolding demo_two_waiting_def
  apply (rule reach_sleep [OF reach_sleep [OF monitor_reach.start]])
  apply (simp_all add: thread_at_initial thread_at_set_pc timeout_mode_def)
  apply (simp_all add: monitor_initial_def set_pc_def demo_ring_def)
  done

definition demo_stolen :: "(nat queue_call, nat osal_queue, nat option) monitor" where
  "demo_stolen = \<lparr>m_res = queue_put demo_ring 7, m_owner = None,
     m_threads = [Asleep (Queue_Recv UINT32_MAX), Outside, Outside],
     m_log = [(Queue_Send 7 0, Some None), (Queue_Recv 10, None)]\<rparr>"

lemma demo_stolen_reach: "monitor_reach queue_ops (\<lambda>c. True) demo_ring 3 demo_stolen"
proof -
  let ?m3 = "set_pc 1 (Woken (Queue_Recv 10)) (complete queue_ops 2 (Queue_Send 7 0) demo_two_waiting)"
  let ?m4 = "set_pc 1 (Expired (Queue_Recv 10)) ?m3"
  let ?m5 = "log_call (Queue_Recv 10) None (set_pc 1 Outside ?m4)"
  have two: "m_res demo_two_waiting = demo_ring" "m_owner demo_two_waiting = None"
    "m_threads demo_two_waiting = [Asleep (Queue_Recv UINT32_MAX), Asleep (Queue_Recv 10), Outside]"
    "m_log demo_two_waiting = []"
    by (simp_all add: demo_two_waiting_def set_pc_def monitor_initial_def numeral_3_eq_3)
  have "monitor_reach queue_ops (\<lambda>c. True) demo_ring 3 ?m3"
    by (rule reach_finish_wake [OF demo_two_waiting_reach, where k = NOT_EMPTY])
      (simp_all add: thread_at_def two demo_ring_def)
  then have "monitor_reach queue_ops (\<lambda>c. True) demo_ring 3 ?m4"
    by (rule monitor_reach.env)
      (rule monitor_env.consume, simp_all add: thread_at_set_pc thread_at_complete two timeout_mode_def)
  then have "monitor_reach queue_ops (\<lambda>c. True) demo_ring 3 ?m5"
    by (rule monitor_reach.step)
      (rule monitor_step.timed_out, simp_all add: thread_at_def two complete_eq set_pc_def log_call_def)
  moreover have "?m5 = demo_stolen"
    by (cases demo_two_waiting)
      (use two in \<open>simp add: complete_eq demo_stolen_def set_pc_def log_call_def\<close>)
  ultimately show ?thesis by simp
qed

theorem queue_timed_wait_loses_wakeup:
  "monitor_reach queue_ops (\<lambda>c. True) demo_ring 3 demo_stolen \<and>
   \<not> monitor_step queue_ops demo_stolen m' \<and> queue_items (m_res demo_stolen) = [7] \<and>
   thread_at demo_stolen 0 (Asleep (Queue_Recv UINT32_MAX)) \<and>
   m_log demo_stolen = [(Queue_Send 7 0, Some None), (Queue_Recv 10, None)]"
proof (intro conjI)
  have pcs: "pc = Asleep (Queue_Recv UINT32_MAX) \<or> pc = Outside" if "thread_at demo_stolen t pc" for t pc
    using that by (auto simp: thread_at_def demo_stolen_def less_Suc_eq)
  show "\<not> monitor_step queue_ops demo_stolen m'"
  proof
    assume "monitor_step queue_ops demo_stolen m'"
    then show False by cases (auto dest: pcs)
  qed
  show "queue_items (m_res demo_stolen) = [7]"
    using queue_put_items [of demo_ring 7] demo_ring_inv by (simp add: demo_stolen_def demo_ring_def)
qed (simp_all add: demo_stolen_reach, simp_all add: demo_stolen_def thread_at_def)

section \<open>The counting semaphore under threads\<close>

datatype sem_call = Sem_Wait | Sem_Trywait | Sem_Post

definition sem_ops :: "(sem_call, osal_sem, unit) monitor_ops" where
  "sem_ops = \<lparr>
     op_can = (\<lambda>c s. c = Sem_Post \<or> s_count s \<noteq> 0),
     op_act = (\<lambda>c s. ((), case c of
        Sem_Wait \<Rightarrow> the (embediq_sem_wait s)
      | Sem_Trywait \<Rightarrow> the (snd (embediq_sem_trywait (Some s)))
      | Sem_Post \<Rightarrow> embediq_sem_post s)),
     op_mode = (\<lambda>c. if c = Sem_Wait then For_Ever else No_Wait),
     op_cond = (\<lambda>c. if c = Sem_Post then None else Some 0),
     op_signal = (\<lambda>c s. if c = Sem_Post \<and> s_count s < s_max_count s then Some 0 else None)\<rparr>"

definition sem_tokens :: "nat \<Rightarrow> osal_sem \<Rightarrow> nat" where
  "sem_tokens k s = (if k = 0 then unat (s_count s) else 0)"

lemma sem_ops_simps [simp]:
  "op_can sem_ops c s \<longleftrightarrow> c = Sem_Post \<or> s_count s \<noteq> 0"
  "op_act sem_ops Sem_Post s = ((), embediq_sem_post s)"
  "op_mode sem_ops c = (if c = Sem_Wait then For_Ever else No_Wait)"
  "op_cond sem_ops c = (if c = Sem_Post then None else Some 0)"
  "op_signal sem_ops c s = (if c = Sem_Post \<and> s_count s < s_max_count s then Some 0 else None)"
  by (simp_all add: sem_ops_def)

lemma sem_take [simp]:
  "s_count s \<noteq> 0 \<Longrightarrow> c \<noteq> Sem_Post \<Longrightarrow> op_act sem_ops c s = ((), s\<lparr>s_count := s_count s - 1\<rparr>)"
  by (cases c) (simp_all add: sem_ops_def embediq_sem_wait_def embediq_sem_trywait_def)

lemma sem_post_count:
  "unat (s_count (embediq_sem_post s)) =
     (if s_count s < s_max_count s then unat (s_count s) + 1 else unat (s_count s))"
  by (auto simp: embediq_sem_post_def unat_plus_one_bounded word_less_nat_alt)

interpretation sem_monitor: token_monitor sem_ops "\<lambda>s. True" sem_tokens
proof unfold_locales
  fix s :: osal_sem and c k
  assume can: "op_can sem_ops c s"
  show "sem_tokens k (snd (op_act sem_ops c s)) + (if op_cond sem_ops c = Some k then 1 else 0)
      \<le> sem_tokens k s + (if op_signal sem_ops c s = Some k then 1 else 0)"
  proof (cases "c = Sem_Post")
    case True
    then show ?thesis by (simp add: sem_tokens_def sem_post_count)
  next
    case False
    with can have "0 < unat (s_count s)" by (simp add: unat_gt_0)
    with can False show ?thesis by (simp add: sem_tokens_def unat_minus_one)
  qed
qed (auto simp: sem_tokens_def unat_gt_0 split: if_splits)

text \<open>The completed calls as a sequential run of the functions of theory Osal.\<close>

fun sem_history :: "(sem_call \<times> unit option) list \<Rightarrow> osal_sem \<Rightarrow> osal_sem option" where
  "sem_history [] s = Some s"
| "sem_history ((Sem_Wait, None) # l) s = None"
| "sem_history ((Sem_Wait, Some v) # l) s = Option.bind (embediq_sem_wait s) (sem_history l)"
| "sem_history ((Sem_Trywait, v) # l) s =
     (case embediq_sem_trywait (Some s) of
        (True, Some s') \<Rightarrow> if v = None then None else sem_history l s'
      | _ \<Rightarrow> if v = None then sem_history l s else None)"
| "sem_history ((Sem_Post, None) # l) s = None"
| "sem_history ((Sem_Post, Some v) # l) s = sem_history l (embediq_sem_post s)"

lemma sem_history_append:
  "sem_history (l @ l') s = Option.bind (sem_history l s) (sem_history l')"
  by (induction l s rule: sem_history.induct)
    (auto split: Option.bind_split option.splits prod.splits bool.splits)

lemma sem_history_act:
  assumes "op_can sem_ops c s"
  shows "sem_history [(c, Some (fst (op_act sem_ops c s)))] s = Some (snd (op_act sem_ops c s))"
  using assms
  by (cases c) (auto simp: sem_ops_def embediq_sem_wait_def embediq_sem_trywait_def)

interpretation sem_log: call_history sem_ops sem_history
proof unfold_locales
  fix c :: sem_call and s :: osal_sem and l l'
  show "sem_history (l @ l') s = Option.bind (sem_history l s) (sem_history l')"
    by (rule sem_history_append)
  show "op_can sem_ops c s \<Longrightarrow>
      sem_history [(c, Some (fst (op_act sem_ops c s)))] s = Some (snd (op_act sem_ops c s))"
    by (rule sem_history_act)
  show "op_mode sem_ops c = No_Wait \<Longrightarrow> \<not> op_can sem_ops c s \<Longrightarrow> sem_history [(c, None)] s = Some s"
    by (cases c) (simp_all add: embediq_sem_trywait_def)
qed (simp_all split: if_splits)

text \<open>C18: 
  C0: The semaphore under any number of threads: the completed calls are a run of the
  sequential functions, so a wait is one atomic step of the count; from every reachable state
  at most four internal steps per thread are possible; and when none is left, a thread is
  outside, or it waits and the count is zero.
\<close>

theorem sem_threads_correct:
  assumes "monitor_reach sem_ops (\<lambda>c. True) s n m"
  shows "sem_history (m_log m) s = Some (m_res m) \<and>
     (\<forall>k m'. (monitor_step sem_ops ^^ k) m m' \<longrightarrow> k \<le> 4 * n) \<and>
     ((\<forall>m'. \<not> monitor_step sem_ops m m') \<longrightarrow>
        (\<forall>t < n. m_threads m ! t = Outside \<or>
           m_threads m ! t = Asleep Sem_Wait \<and> s_count (m_res m) = 0))"
proof (intro conjI allI impI)
  show "sem_history (m_log m) s = Some (m_res m)" by (rule sem_log.reach_history [OF assms])
  have n: "length (m_threads m) = n" using monitor_reach_inv [OF assms] by (simp add: monitor_inv_def)
  show "k \<le> 4 * n" if "(monitor_step sem_ops ^^ k) m m'" for k m'
    using monitor_steps_bounded [OF that] n by simp
next
  fix t
  assume no: "\<forall>m'. \<not> monitor_step sem_ops m m'" and t: "t < n"
  have "\<exists>c k. m_threads m ! t = Asleep c \<and> True \<and> op_cond sem_ops c = Some k \<and>
      sem_tokens k (m_res m) = 0 \<and> \<not> op_can sem_ops c (m_res m)"
    if "m_threads m ! t \<noteq> Outside"
    by (rule sem_monitor.quiet_no_tokens [OF assms _ _ _ t that]) (use no in auto)
  moreover have "pc_ok sem_ops (\<lambda>c. True) (m_threads m ! t)"
    using monitor_reach_inv [OF assms] t by (simp add: monitor_inv_def)
  ultimately show "m_threads m ! t = Outside \<or>
      m_threads m ! t = Asleep Sem_Wait \<and> s_count (m_res m) = 0"
    by (auto split: if_splits)
qed

text \<open>One thread waits on an empty semaphore, another one posts.\<close>

lemma sem_threads_correct_witness:
  "\<exists>m :: (sem_call, osal_sem, unit) monitor. m_threads m = [Woken Sem_Wait, Outside] \<and>
     sem_history [(Sem_Post, Some ())] \<lparr>s_count = 0, s_max_count = 5\<rparr> = Some (m_res m)"
proof -
  let ?s = "\<lparr>s_count = 0, s_max_count = 5\<rparr>"
  let ?m1 = "set_pc 0 (Asleep Sem_Wait) (monitor_initial ?s 2) :: (sem_call, osal_sem, unit) monitor"
  have "monitor_reach sem_ops (\<lambda>c. True) ?s 2 ?m1"
    by (rule reach_sleep [OF monitor_reach.start])
      (simp_all add: thread_at_initial, simp_all add: monitor_initial_def)
  then have "monitor_reach sem_ops (\<lambda>c. True) ?s 2
      (set_pc 0 (Woken Sem_Wait) (complete sem_ops 1 Sem_Post ?m1))"
    by (rule reach_finish_wake [where k = 0])
      (simp_all add: thread_at_def set_pc_def monitor_initial_def)
  from conjunct1 [OF sem_threads_correct [OF this]] show ?thesis
    by - (rule exI [of _ "set_pc 0 (Woken Sem_Wait) (complete sem_ops 1 Sem_Post ?m1)"],
      simp add: complete_eq set_pc_def log_call_def monitor_initial_def numeral_2_eq_2)
qed

end
