(* ===== verification/Fsm.thy ===== *)
theory Fsm
  imports Prelude
begin

text \<open>
  core/src/fsm/fsm_engine.c with core/include/embediq_sm.h: the table-driven state machine.
  Guards and actions are functions of the message and the owner's data, as the callback types
  of the header say; \<open>None\<close> is the NULL pointer. A table is a list of rows, and reading past
  its last row (no sentinel) is \<open>None\<close>, undefined behaviour of the code.
\<close>

section \<open>Tables and instances\<close>

record ('m, 'd) sm_row =
  row_current_state :: u8
  event_msg_id :: u16
  guard_fn :: "('m \<Rightarrow> 'd \<Rightarrow> bool) option"
  action_fn :: "('m \<Rightarrow> 'd \<Rightarrow> 'd) option"
  next_state :: u8

definition EMBEDIQ_SM_TABLE_END :: "('m, 'd) sm_row" where
  "EMBEDIQ_SM_TABLE_END = \<lparr>row_current_state = 0xFF, event_msg_id = 0xFFFF,
     guard_fn = None, action_fn = None, next_state = 0xFF\<rparr>"

record ('m, 'd) embediq_sm =
  sm_current_state :: u8
  sm_table :: "('m, 'd) sm_row list option"
  sm_name :: string

section \<open>The processor\<close>

definition guard_passes :: "('m, 'd) sm_row \<Rightarrow> 'm \<Rightarrow> 'd \<Rightarrow> bool" where
  "guard_passes row msg fb_data =
     (case guard_fn row of None \<Rightarrow> True | Some g \<Rightarrow> g msg fb_data)"

definition run_action :: "('m, 'd) sm_row \<Rightarrow> 'm \<Rightarrow> 'd \<Rightarrow> 'd" where
  "run_action row msg fb_data =
     (case action_fn row of None \<Rightarrow> fb_data | Some a \<Rightarrow> a msg fb_data)"

text \<open>The \<open>while\<close> loop of \<open>embediq_sm_process\<close> from a row on.\<close>

fun sm_scan :: "('m, 'd) sm_row list \<Rightarrow> ('m, 'd) embediq_sm \<Rightarrow> 'm \<Rightarrow> u16 \<Rightarrow> 'd \<Rightarrow>
    (('m, 'd) embediq_sm \<times> 'd \<times> obs_call list) option" where
  "sm_scan [] sm msg mid fb_data = None"
| "sm_scan (row # rows) sm msg mid fb_data =
     (if row_current_state row = 0xFF then Some (sm, fb_data, [])
      else if row_current_state row = sm_current_state sm \<and> event_msg_id row = mid \<and>
              guard_passes row msg fb_data
      then Some (sm\<lparr>sm_current_state := next_state row\<rparr>, run_action row msg fb_data,
             [Obs_Call EMBEDIQ_OBS_EVT_FSM_TRANS (sm_current_state sm) (next_state row)
                (next_state row) mid])
      else sm_scan rows sm msg mid fb_data)"

definition embediq_sm_process :: "('m, 'd) embediq_sm option \<Rightarrow> 'm \<Rightarrow> u16 \<Rightarrow> 'd \<Rightarrow>
    (('m, 'd) embediq_sm option \<times> 'd \<times> obs_call list) option" where
  "embediq_sm_process sm msg mid fb_data = (case sm of
     None \<Rightarrow> Some (None, fb_data, [])
   | Some s \<Rightarrow> (case sm_table s of
       None \<Rightarrow> Some (Some s, fb_data, [])
     | Some table \<Rightarrow> (case sm_scan table s msg mid fb_data of
         None \<Rightarrow> None
       | Some (s', d', evs) \<Rightarrow> Some (Some s', d', evs))))"

section \<open>What the scan finds\<close>

text \<open>The rows before the sentinel, and the rows enabled for an event.\<close>

definition sm_rows :: "('m, 'd) sm_row list \<Rightarrow> ('m, 'd) sm_row list" where
  "sm_rows = takeWhile (\<lambda>r. row_current_state r \<noteq> 0xFF)"

definition row_enabled :: "u8 \<Rightarrow> 'm \<Rightarrow> u16 \<Rightarrow> 'd \<Rightarrow> ('m, 'd) sm_row \<Rightarrow> bool" where
  "row_enabled st msg mid d r \<longleftrightarrow>
     row_current_state r = st \<and> event_msg_id r = mid \<and> guard_passes r msg d"

definition has_sentinel :: "('m, 'd) sm_row list \<Rightarrow> bool" where
  "has_sentinel t \<longleftrightarrow> (\<exists>r \<in> set t. row_current_state r = 0xFF)"

definition sm_fire :: "('m, 'd) embediq_sm \<Rightarrow> 'm \<Rightarrow> u16 \<Rightarrow> 'd \<Rightarrow> ('m, 'd) sm_row \<Rightarrow>
    ('m, 'd) embediq_sm \<times> 'd \<times> obs_call list" where
  "sm_fire sm msg mid d r =
     (sm\<lparr>sm_current_state := next_state r\<rparr>, run_action r msg d,
      [Obs_Call EMBEDIQ_OBS_EVT_FSM_TRANS (sm_current_state sm) (next_state r) (next_state r)
         mid])"

lemma sm_scan_find:
  "has_sentinel t \<Longrightarrow> sm_scan t sm msg mid d =
     Some (case find (row_enabled (sm_current_state sm) msg mid d) (sm_rows t) of
             None \<Rightarrow> (sm, d, []) | Some r \<Rightarrow> sm_fire sm msg mid d r)"
  by (induction t) (auto simp: has_sentinel_def sm_rows_def row_enabled_def sm_fire_def)

lemma sm_scan_no_sentinel:
  "\<not> has_sentinel t \<Longrightarrow> sm_scan t sm msg mid d =
     map_option (sm_fire sm msg mid d) (find (row_enabled (sm_current_state sm) msg mid d) t)"
  by (induction t) (auto simp: has_sentinel_def row_enabled_def sm_fire_def)

text \<open>C20: with a sentinel in the table, one call commits exactly the first
  enabled row before the sentinel (its action, its next state and one FSM_TRANS event carrying
  the old and the new state) and changes nothing when no row is enabled.\<close>

theorem sm_process_first_match:
  assumes "sm_table s = Some t" and "has_sentinel t"
  shows "embediq_sm_process (Some s) msg mid d = Some
    (case find (row_enabled (sm_current_state s) msg mid d) (sm_rows t) of
       None \<Rightarrow> (Some s, d, [])
     | Some r \<Rightarrow> (Some (s\<lparr>sm_current_state := next_state r\<rparr>), run_action r msg d,
         [Obs_Call 0x31 (sm_current_state s) (next_state r) (next_state r) mid]))"
  using assms
  by (simp add: embediq_sm_process_def sm_scan_find sm_fire_def embediq_const split: option.splits)

definition demo_table :: "(nat, nat) sm_row list" where
  "demo_table =
     [\<lparr>row_current_state = 0, event_msg_id = 7, guard_fn = Some (\<lambda>m d. d < m),
        action_fn = Some (\<lambda>m d. d + 1), next_state = 1\<rparr>,
      \<lparr>row_current_state = 0, event_msg_id = 7, guard_fn = None, action_fn = None,
        next_state = 2\<rparr>,
      EMBEDIQ_SM_TABLE_END]"

lemma demo_table_sentinel: "has_sentinel demo_table"
  by (simp add: demo_table_def has_sentinel_def EMBEDIQ_SM_TABLE_END_def)

lemma sm_process_first_match_witness:
  "embediq_sm_process (Some \<lparr>sm_current_state = 0, sm_table = Some demo_table, sm_name = ''d''\<rparr>)
     5 7 5 = Some (Some \<lparr>sm_current_state = 2, sm_table = Some demo_table, sm_name = ''d''\<rparr>, 5,
       [Obs_Call 0x31 0 2 2 7])"
  using sm_process_first_match
    [of "\<lparr>sm_current_state = 0, sm_table = Some demo_table, sm_name = ''d''\<rparr>" demo_table
        "5::nat" 7 "5::nat"] demo_table_sentinel
  by (simp add: demo_table_def sm_rows_def row_enabled_def guard_passes_def run_action_def
      EMBEDIQ_SM_TABLE_END_def)

section \<open>Reachable states of a machine\<close>

text \<open>A run of the machine on a sequence of messages, as a sub-function's handler makes it.\<close>

fun sm_run :: "('m, 'd) embediq_sm \<Rightarrow> 'd \<Rightarrow> (u16 \<times> 'm) list \<Rightarrow>
    (('m, 'd) embediq_sm \<times> 'd \<times> obs_call list) option" where
  "sm_run sm d [] = Some (sm, d, [])"
| "sm_run sm d ((i, m) # es) = (case embediq_sm_process (Some sm) m i d of
     Some (Some sm', d', evs) \<Rightarrow> map_option (\<lambda>(s, x, e). (s, x, evs @ e)) (sm_run sm' d' es)
   | _ \<Rightarrow> None)"

text \<open>The events of a run chain: each transition leaves the state the previous one entered.\<close>

fun chained :: "u8 \<Rightarrow> obs_call list \<Rightarrow> u8 \<Rightarrow> bool" where
  "chained s [] t \<longleftrightarrow> s = t"
| "chained s (e # es) t \<longleftrightarrow>
     oc_type e = EMBEDIQ_OBS_EVT_FSM_TRANS \<and> oc_source e = s \<and> oc_target e = oc_state e \<and>
     chained (oc_target e) es t"

lemma chained_append: "chained s es t \<Longrightarrow> chained t fs u \<Longrightarrow> chained s (es @ fs) u"
  by (induction es arbitrary: s) auto

lemma sm_process_step:
  assumes "sm_table s = Some t" and "has_sentinel t"
  obtains s' d' evs where "embediq_sm_process (Some s) m i d = Some (Some s', d', evs)"
    and "sm_table s' = Some t" and "chained (sm_current_state s) evs (sm_current_state s')"
    and "sm_current_state s' = sm_current_state s \<or> sm_current_state s' \<in> next_state ` set (sm_rows t)"
proof -
  show ?thesis
    using assms that
    by (cases "find (row_enabled (sm_current_state s) m i d) (sm_rows t)")
      (fastforce simp: embediq_sm_process_def sm_scan_find sm_fire_def find_Some_iff)+
qed

text \<open>A table with a sentinel makes every run of the machine on every
  sequence of messages return, its FSM_TRANS events form an unbroken chain from the initial to
  the final state, and it only ever enters states named as next states of the table.\<close>

theorem sm_run_trace:
  assumes "sm_table s = Some t" and "has_sentinel t"
  shows "\<exists>s' d' evs. sm_run s d es = Some (s', d', evs) \<and>
    chained (sm_current_state s) evs (sm_current_state s') \<and> length evs \<le> length es \<and>
    sm_current_state s' \<in> insert (sm_current_state s) (next_state ` set (sm_rows t))"
  using assms(1)
proof (induction es arbitrary: s d)
  case (Cons e es)
  obtain i m where e: "e = (i, m)" by (cases e)
  obtain s1 d1 ev1 where p: "embediq_sm_process (Some s) m i d = Some (Some s1, d1, ev1)"
    and t: "sm_table s1 = Some t" and c: "chained (sm_current_state s) ev1 (sm_current_state s1)"
    and n: "sm_current_state s1 = sm_current_state s \<or>
       sm_current_state s1 \<in> next_state ` set (sm_rows t)"
    using sm_process_step [OF Cons.prems assms(2)] by metis
  have l: "length ev1 \<le> 1"
    using p Cons.prems assms(2)
    by (auto simp: embediq_sm_process_def sm_scan_find sm_fire_def split: option.splits)
  from Cons.IH [OF t] show ?case
    using p c n l e by (fastforce intro: chained_append)
qed auto

lemma sm_run_trace_witness:
  "\<exists>s' d' evs. sm_run \<lparr>sm_current_state = 0, sm_table = Some demo_table, sm_name = ''d''\<rparr> 0
     [(7, 5), (7, 5)] = Some (s', d', evs) \<and>
    chained 0 evs (sm_current_state s') \<and> length evs \<le> 2"
  using sm_run_trace
    [of "\<lparr>sm_current_state = 0, sm_table = Some demo_table, sm_name = ''d''\<rparr>" demo_table
        "0::nat" "[(7, 5::nat), (7, 5)]"] demo_table_sentinel
  by auto

end
