(* ===== verification/Obs.thy ===== *)
theory Obs
  imports Prelude
begin

text \<open>
  The Observatory: core/src/observatory/obs.c, core/include/embediq_obs.h and the binary stream
  hal/posix/peripherals/hal_obs_stream_posix.c, as compiled for the host. The two files call
  each other (an emit writes to the stream, a failing stream operation emits a fault), so the
  emit takes fuel, one unit for each nested emit; the section on termination says when two units
  are enough and when no amount is. Contents: event families and the level filter, the ring
  buffer and its refinement to the newest part of the event history, sequence numbers and drop
  counting, line formatting, the capture file and its decoding.
\<close>

section \<open>Events and families (embediq_obs.h)\<close>

datatype obs_family = FAMILY_SYSTEM | FAMILY_MESSAGE | FAMILY_STATE | FAMILY_RESOURCE
  | FAMILY_TIMING | FAMILY_FAULT | FAMILY_FUNCTION | FAMILY_AI | FAMILY_VENDOR | FAMILY_UNKNOWN

definition embediq_obs_event_family :: "u8 \<Rightarrow> obs_family" where
  "embediq_obs_event_family et =
     (if et < 0x20 then FAMILY_SYSTEM
      else if et < 0x30 then FAMILY_MESSAGE
      else if et < 0x40 then FAMILY_STATE
      else if et < 0x50 then FAMILY_RESOURCE
      else if et < 0x60 then FAMILY_TIMING
      else if et < 0x70 then FAMILY_FAULT
      else if et \<ge> 0x90 then FAMILY_VENDOR
      else if et \<ge> 0x80 then FAMILY_AI
      else FAMILY_FUNCTION)"

text \<open>\<open>EmbedIQ_Event_t\<close>: a packed struct of 14 bytes.\<close>

record obs_event =
  ev_type :: u8
  ev_source :: u8
  ev_target :: u8
  ev_state :: u8
  ev_msg_id :: u16
  ev_timestamp_us :: u32
  ev_sequence :: u32

definition event_bytes :: "obs_event \<Rightarrow> bytes" where
  "event_bytes e = [ev_type e, ev_source e, ev_target e, ev_state e] @ le16 (ev_msg_id e) @
     le32 (ev_timestamp_us e) @ le32 (ev_sequence e)"

definition zero_event :: obs_event where
  "zero_event = \<lparr>ev_type = 0, ev_source = 0, ev_target = 0, ev_state = 0, ev_msg_id = 0,
     ev_timestamp_us = 0, ev_sequence = 0\<rparr>"

text \<open>\<open>EmbedIQ_Obs_Session_t\<close>: 40 bytes in the layout the static assertion fixes.\<close>

record obs_session =
  ses_device_id :: u32
  ses_fw_version :: u32
  ses_timestamp_base_us :: u64
  ses_session_id :: u32
  ses_platform_id :: u8
  ses_trace_level :: u8
  ses_pad :: bytes
  ses_build_id :: bytes

definition session_bytes :: "obs_session \<Rightarrow> bytes" where
  "session_bytes s = le32 (ses_device_id s) @ le32 (ses_fw_version s) @
     le32 (ucast (ses_timestamp_base_us s)) @ le32 (ucast (drop_bit 32 (ses_timestamp_base_us s))) @
     le32 (ses_session_id s) @ [ses_platform_id s, ses_trace_level s] @ ses_pad s @ ses_build_id s"

definition wf_session :: "obs_session \<Rightarrow> bool" where
  "wf_session s \<longleftrightarrow> length (ses_pad s) = 2 \<and> length (ses_build_id s) = 16"

definition zero_session :: obs_session where
  "zero_session = \<lparr>ses_device_id = 0, ses_fw_version = 0, ses_timestamp_base_us = 0,
     ses_session_id = 0, ses_platform_id = 0, ses_trace_level = 0, ses_pad = [0, 0],
     ses_build_id = replicate 16 0\<rparr>"

definition EMBEDIQ_OBS_FW_VERSION :: "u32 \<Rightarrow> u32 \<Rightarrow> u32 \<Rightarrow> u32" where
  "EMBEDIQ_OBS_FW_VERSION maj mnr pat = push_bit 16 maj OR push_bit 8 mnr OR pat"

datatype obs_transport = TRANSPORT_NULL | TRANSPORT_STDOUT | TRANSPORT_TCP | TRANSPORT_FILE

section \<open>State and environment (obs.c)\<close>

text \<open>
  What the code asks its environment: the monotonic clock at each read, how many bytes each
  file operation accepts (none: it fails), the endpoint names of \<open>embediq_bus_resolve_id\<close>, the
  environment variable with the capture path, and the order in which the compiler evaluates
  the arguments of a call.
\<close>

record obs_env =
  env_clock :: "nat \<Rightarrow> u64 \<times> u64"
  env_io :: "nat \<Rightarrow> nat"
  env_name :: "u8 \<Rightarrow> string option"
  env_path :: "string option"
  env_left_to_right :: bool

record obs_state =
  g_ring :: "obs_event list"
  g_ring_head :: u32
  g_ring_count :: u32
  g_sequence :: u32
  g_total :: u32
  g_overflow :: u32
  g_transport :: obs_transport
  g_level :: u8
  g_session :: obs_session
  g_session_valid :: bool
  fb_name_fallback :: string
  s_stream_ops :: bool \<comment> \<open>the ops table of hal_obs_stream_posix.c is registered\<close>
  g_stream :: "(string \<times> bytes) option" \<comment> \<open>the open file and what was written to it\<close>
  s_write_error :: bool
  obs_stdout :: "string list"
  obs_files :: "(string \<times> bytes) list" \<comment> \<open>closed capture files\<close>
  clock_reads :: nat
  io_ops :: nat

definition RING_MASK :: u32 where "RING_MASK = word_of_nat EMBEDIQ_OBS_RING_DEPTH - 1"

definition ring_push :: "obs_event \<Rightarrow> bool \<Rightarrow> obs_state \<Rightarrow> obs_state" where
  "ring_push evt count_overflow st =
     (let st1 = (if g_ring_count st = word_of_nat EMBEDIQ_OBS_RING_DEPTH
                 then st\<lparr>g_ring_head := (g_ring_head st + 1) AND RING_MASK,
                         g_overflow := (if count_overflow then g_overflow st + 1
                                        else g_overflow st)\<rparr>
                 else st\<lparr>g_ring_count := g_ring_count st + 1\<rparr>);
          slot = (g_ring_head st1 + g_ring_count st1 - 1) AND RING_MASK
      in st1\<lparr>g_ring := (g_ring st1)[unat slot := evt]\<rparr>)"

definition passes_level :: "obs_state \<Rightarrow> u8 \<Rightarrow> bool" where
  "passes_level st et =
     (if g_level st \<ge> 2 then True
      else let fam = embediq_obs_event_family et in
        if g_level st \<ge> 1
        then fam = FAMILY_FAULT \<or> fam = FAMILY_SYSTEM \<or> fam = FAMILY_MESSAGE \<or>
             fam = FAMILY_STATE
        else fam = FAMILY_FAULT \<or> fam = FAMILY_SYSTEM)"

section \<open>Formatting (obs.c)\<close>

definition event_tag :: "u8 \<Rightarrow> string" where
  "event_tag et =
     (if et = EMBEDIQ_OBS_EVT_LIFECYCLE then ''LC ''
      else if et = EMBEDIQ_OBS_EVT_MSG_TX then ''TX ''
      else if et = EMBEDIQ_OBS_EVT_MSG_RX then ''RX ''
      else if et = EMBEDIQ_OBS_EVT_FSM_TRANS then ''FSM''
      else if et = EMBEDIQ_OBS_EVT_FAULT then ''FLT''
      else if et = EMBEDIQ_OBS_EVT_QUEUE_DROP then ''DRP''
      else if et = EMBEDIQ_OBS_EVT_OVERFLOW then ''OVF''
      else ''???'')"

definition lifecycle_state :: "u8 \<Rightarrow> string" where
  "lifecycle_state s =
     (if s = 0 then ''IDLE'' else if s = 1 then ''INITIALISING'' else if s = 2 then ''RUNNING''
      else if s = 3 then ''FAULT'' else if s = 4 then ''STOPPING'' else if s = 5 then ''STOPPED''
      else ''?'')"

text \<open>The conversions \<open>%u\<close>, \<open>%10u\<close> and \<open>%04x\<close> of printf.\<close>

fun fmt_base :: "nat \<Rightarrow> nat \<Rightarrow> string" where
  "fmt_base b n = (if b < 2 \<or> n < b then [''0123456789abcdef'' ! n]
                   else fmt_base b (n div b) @ [''0123456789abcdef'' ! (n mod b)])"

declare fmt_base.simps [simp del]

definition fmt_u :: "nat \<Rightarrow> string" where "fmt_u n = fmt_base 10 n"

definition fmt_10u :: "nat \<Rightarrow> string" where
  "fmt_10u n = replicate (10 - length (fmt_u n)) (CHR '' '') @ fmt_u n"

definition fmt_04x :: "nat \<Rightarrow> string" where
  "fmt_04x n = replicate (4 - length (fmt_base 16 n)) (CHR ''0'') @ fmt_base 16 n"

definition fmt_arrow :: string where "fmt_arrow = [CHR '' '', CHR 0xE2, CHR 0x86, CHR 0x92, CHR '' '']"

text \<open>
  \<open>fb_name\<close> returns a pointer: to a literal, to a name of the registry, or to the one static
  fallback buffer, whose contents are those of the last fallback written.
\<close>

datatype name_ptr = Name string | Fallback

definition fb_name :: "obs_env \<Rightarrow> u8 \<Rightarrow> string \<Rightarrow> name_ptr \<times> string" where
  "fb_name env fid buf =
     (if fid = 0xFF then (Name ''N/A'', buf)
      else case env_name env fid of
        Some n \<Rightarrow> (Name n, buf)
      | None \<Rightarrow> (Fallback, snprintf_n 12 (''ep_'' @ fmt_u (unat fid))))"

fun deref_name :: "name_ptr \<Rightarrow> string \<Rightarrow> string" where
  "deref_name (Name n) buf = n"
| "deref_name Fallback buf = buf"

text \<open>The names of source and target as arguments of one \<open>snprintf\<close> call.\<close>

definition fb_names :: "obs_env \<Rightarrow> u8 \<Rightarrow> u8 \<Rightarrow> string \<Rightarrow> string \<times> string \<times> string" where
  "fb_names env src tgt buf =
     (if env_left_to_right env
      then let (p, buf1) = fb_name env src buf; (q, buf2) = fb_name env tgt buf1
           in (deref_name p buf2, deref_name q buf2, buf2)
      else let (q, buf1) = fb_name env tgt buf; (p, buf2) = fb_name env src buf1
           in (deref_name p buf2, deref_name q buf2, buf2))"

definition format_event_internal ::
  "obs_env \<Rightarrow> obs_event \<Rightarrow> nat \<Rightarrow> string \<Rightarrow> string \<times> string" where
  "format_event_internal env evt n buf =
     (let ts = ''['' @ fmt_10u (unat (ev_timestamp_us evt)) @ ''] '';
          tag = event_tag (ev_type evt);
          seq = ''  seq='' @ fmt_u (unat (ev_sequence evt));
          (s, t, buf') = fb_names env (ev_source evt) (ev_target evt) buf
      in if ev_type evt = EMBEDIQ_OBS_EVT_LIFECYCLE
         then (snprintf_n n (ts @ tag @ '' '' @ s @ fmt_arrow @ t @ ''  '' @
                 lifecycle_state (ev_state evt) @ seq), buf')
         else if ev_type evt = EMBEDIQ_OBS_EVT_FSM_TRANS
         then (snprintf_n n (ts @ tag @ '' state_'' @ fmt_u (unat (ev_source evt)) @ fmt_arrow @
                 ''state_'' @ fmt_u (unat (ev_target evt)) @ ''  msg=0x'' @
                 fmt_04x (unat (ev_msg_id evt)) @ seq), buf)
         else if ev_type evt = EMBEDIQ_OBS_EVT_OVERFLOW
         then (snprintf_n n (ts @ tag @ '' dropped='' @ fmt_u (unat (ev_msg_id evt)) @ seq), buf)
         else (snprintf_n n (ts @ tag @ '' '' @ s @ fmt_arrow @ t @ ''  msg=0x'' @
                 fmt_04x (unat (ev_msg_id evt)) @ seq), buf'))"

definition OBS_LINE_BUF_SIZE :: nat where [embediq_const]: "OBS_LINE_BUF_SIZE = 160"

definition obs_print :: "obs_env \<Rightarrow> obs_event \<Rightarrow> obs_state \<Rightarrow> obs_state" where
  "obs_print env evt st =
     (if g_transport st = TRANSPORT_STDOUT
      then let (line, buf) = format_event_internal env evt OBS_LINE_BUF_SIZE (fb_name_fallback st)
           in st\<lparr>obs_stdout := obs_stdout st @ [line], fb_name_fallback := buf\<rparr>
      else st)"

text \<open>\<open>obs_timestamp_us\<close>: microseconds of the monotonic clock, truncated to 32 bits.\<close>

definition obs_timestamp_us :: "obs_env \<Rightarrow> obs_state \<Rightarrow> u32 \<times> obs_state" where
  "obs_timestamp_us env st =
     (let (sec, nsec) = env_clock env (clock_reads st)
      in (ucast (sec * 1000000 + nsec div 1000), st\<lparr>clock_reads := clock_reads st + 1\<rparr>))"

section \<open>The binary stream (hal_obs_stream_posix.c)\<close>

text \<open>Each operation takes the emit it calls on an error.\<close>

type_synonym emit_fn = "obs_call \<Rightarrow> obs_state \<Rightarrow> obs_state option"

definition stream_error :: "emit_fn \<Rightarrow> obs_state \<Rightarrow> (int \<times> obs_state) option" where
  "stream_error emit st = do {
     st' \<leftarrow> emit (EMBEDIQ_HAL_OBS_EMIT_ERROR EMBEDIQ_HAL_SRC_OBS_STREAM HAL_ERR_IO) st;
     Some (HAL_ERR_IO, st') }"

definition file_close :: "obs_state \<Rightarrow> obs_state" where
  "file_close st = st\<lparr>obs_files := obs_files st @ (case g_stream st of None \<Rightarrow> [] | Some f \<Rightarrow> [f]),
     g_stream := None, io_ops := io_ops st + 1\<rparr>"

definition hal_obs_stream_open ::
  "emit_fn \<Rightarrow> obs_env \<Rightarrow> string option \<Rightarrow> obs_state \<Rightarrow> (int \<times> obs_state) option" where
  "hal_obs_stream_open emit env path st = (case path of
     None \<Rightarrow> stream_error emit st
   | Some p \<Rightarrow>
       let st1 = (if g_stream st \<noteq> None then file_close st else st);
           ok = 0 < env_io env (io_ops st1);
           st2 = st1\<lparr>io_ops := io_ops st1 + 1\<rparr>
       in if \<not> ok then stream_error emit st2
          else Some (HAL_OK, st2\<lparr>g_stream := Some (p, []), s_write_error := False\<rparr>))"

definition hal_obs_stream_write ::
  "emit_fn \<Rightarrow> obs_env \<Rightarrow> bytes \<Rightarrow> obs_state \<Rightarrow> (int \<times> obs_state) option" where
  "hal_obs_stream_write emit env data st = (case g_stream st of
     None \<Rightarrow> stream_error emit st
   | Some (p, bs) \<Rightarrow>
       if data = [] then Some (HAL_OK, st)
       else if s_write_error st then Some (HAL_ERR_IO, st)
       else let written = min (env_io env (io_ops st)) (length data);
                st1 = st\<lparr>g_stream := Some (p, bs @ take written data), io_ops := io_ops st + 1\<rparr>
            in if written \<noteq> length data then stream_error emit (st1\<lparr>s_write_error := True\<rparr>)
               else Some (HAL_OK, st1))"

definition hal_obs_stream_flush ::
  "emit_fn \<Rightarrow> obs_env \<Rightarrow> obs_state \<Rightarrow> (int \<times> obs_state) option" where
  "hal_obs_stream_flush emit env st =
     (if g_stream st = None then stream_error emit st
      else if s_write_error st then Some (HAL_ERR_IO, st)
      else let ok = 0 < env_io env (io_ops st); st1 = st\<lparr>io_ops := io_ops st + 1\<rparr>
           in if \<not> ok then stream_error emit (st1\<lparr>s_write_error := True\<rparr>)
              else Some (HAL_OK, st1))"

text \<open>The \<open>fflush\<close> of the close is one file operation, the \<open>fclose\<close> the next.\<close>

definition hal_obs_stream_close ::
  "emit_fn \<Rightarrow> obs_env \<Rightarrow> obs_state \<Rightarrow> (int \<times> obs_state) option" where
  "hal_obs_stream_close emit env st =
     (if g_stream st = None then Some (HAL_OK, st)
      else let st1 = st\<lparr>io_ops := io_ops st + 1\<rparr>;
               ok = 0 < env_io env (io_ops st1);
               st2 = (file_close st1)\<lparr>s_write_error := False\<rparr>
           in if \<not> ok then stream_error emit st2 else Some (HAL_OK, st2))"

section \<open>Writing a record and emitting an event (obs.c)\<close>

definition write_tlv ::
  "emit_fn \<Rightarrow> obs_env \<Rightarrow> u16 \<Rightarrow> bytes option \<Rightarrow> u16 \<Rightarrow> obs_state \<Rightarrow> (int \<times> obs_state) option"
where
  "write_tlv emit env ty body len st =
     (if \<not> s_stream_ops st then Some (-1, st)
      else do {
        (r, st1) \<leftarrow> hal_obs_stream_write emit env (le16 ty @ le16 len) st;
        if r \<noteq> 0 then Some (-1, st1)
        else if len > 0 \<and> body \<noteq> None then do {
          (r2, st2) \<leftarrow> hal_obs_stream_write emit env (the body) st1;
          Some (if r2 \<noteq> 0 then -1 else 0, st2) }
        else Some (0, st1) })"

text \<open>One event record: stamped, numbered, pushed, counted and, on stdout, printed.\<close>

definition obs_record ::
  "obs_env \<Rightarrow> obs_call \<Rightarrow> bool \<Rightarrow> obs_state \<Rightarrow> obs_event \<times> obs_state" where
  "obs_record env c count_overflow st =
     (let (ts, st1) = obs_timestamp_us env st;
          evt = \<lparr>ev_type = oc_type c, ev_source = oc_source c, ev_target = oc_target c,
                 ev_state = oc_state c, ev_msg_id = oc_msg_id c, ev_timestamp_us = ts,
                 ev_sequence = g_sequence st1\<rparr>;
          st2 = ring_push evt count_overflow (st1\<lparr>g_sequence := g_sequence st1 + 1\<rparr>)
      in (evt, obs_print env evt (st2\<lparr>g_total := g_total st2 + 1\<rparr>)))"

definition overflow_call :: "u32 \<Rightarrow> obs_call" where
  "overflow_call dropped = Obs_Call EMBEDIQ_OBS_EVT_OVERFLOW 0xFF 0xFF 0 (ucast dropped)"

definition obs_recover :: "obs_env \<Rightarrow> obs_state \<Rightarrow> obs_state" where
  "obs_recover env st =
     (if g_overflow st > 0
      then snd (obs_record env (overflow_call (g_overflow st)) False (st\<lparr>g_overflow := 0\<rparr>))
      else st)"

primrec embediq_obs_emit :: "obs_env \<Rightarrow> nat \<Rightarrow> emit_fn" where
  "embediq_obs_emit env 0 = (\<lambda>c st. None)"
| "embediq_obs_emit env (Suc fuel) = (\<lambda>c st.
     if g_transport st = TRANSPORT_NULL then Some st
     else if \<not> passes_level st (oc_type c) then Some st
     else let (evt, st1) = obs_record env c True (obs_recover env st)
          in if g_transport st1 = TRANSPORT_FILE
             then map_option snd
               (write_tlv (embediq_obs_emit env fuel) env 0x0002 (Some (event_bytes evt)) 14 st1)
             else Some st1)"

declare embediq_obs_emit.simps [simp del]

definition embediq_obs_emit_from_isr :: "obs_env \<Rightarrow> nat \<Rightarrow> emit_fn" where
  "embediq_obs_emit_from_isr env fuel = embediq_obs_emit env fuel"

section \<open>Configuration, sessions and captures (obs.c)\<close>

definition embediq_obs_set_transport :: "obs_transport \<Rightarrow> obs_state \<Rightarrow> obs_state" where
  "embediq_obs_set_transport t st = st\<lparr>g_transport := t\<rparr>"

definition embediq_obs_set_level :: "u8 \<Rightarrow> obs_state \<Rightarrow> obs_state" where
  "embediq_obs_set_level l st = st\<lparr>g_level := l\<rparr>"

definition embediq_obs_session_begin :: "obs_session \<Rightarrow> obs_state \<Rightarrow> obs_state" where
  "embediq_obs_session_begin s st = st\<lparr>g_session := s, g_session_valid := True\<rparr>"

definition embediq_obs_session_get :: "obs_state \<Rightarrow> obs_session option" where
  "embediq_obs_session_get st = (if g_session_valid st then Some (g_session st) else None)"

definition embediq_obs_set_stream_ops :: "bool \<Rightarrow> obs_state \<Rightarrow> obs_state" where
  "embediq_obs_set_stream_ops ops st = st\<lparr>s_stream_ops := ops\<rparr>"

definition embediq_obs_stream_posix_register :: "obs_state \<Rightarrow> obs_state" where
  "embediq_obs_stream_posix_register st = embediq_obs_set_stream_ops True st"

definition iqtrace_header :: bytes where
  "iqtrace_header = [0x49, 0x51, 0x54, 0x52, 0x01, 0x00, 0x00, 0x00]"

text \<open>Closing after a failed write of the capture's head.\<close>

definition capture_abort :: "emit_fn \<Rightarrow> obs_env \<Rightarrow> obs_state \<Rightarrow> (int \<times> obs_state) option" where
  "capture_abort emit env st = do {
     (_, st1) \<leftarrow> hal_obs_stream_close emit env st;
     Some (-1, st1) }"

definition embediq_obs_capture_begin ::
  "obs_env \<Rightarrow> nat \<Rightarrow> string option \<Rightarrow> obs_state \<Rightarrow> (int \<times> obs_state) option" where
  "embediq_obs_capture_begin env fuel path st =
     (let emit = embediq_obs_emit env fuel;
          p = (case path of Some p \<Rightarrow> p | None \<Rightarrow>
                 (case env_path env of Some q \<Rightarrow> q | None \<Rightarrow> ''/tmp/embediq_capture.iqtrace''))
      in if \<not> s_stream_ops st then Some (-1, st)
         else case embediq_obs_session_get st of
           None \<Rightarrow> Some (-1, st)
         | Some s \<Rightarrow> do {
             (r, st1) \<leftarrow> hal_obs_stream_open emit env (Some p) st;
             if r \<noteq> 0 then Some (-1, st1) else do {
               (r2, st2) \<leftarrow> hal_obs_stream_write emit env iqtrace_header st1;
               if r2 \<noteq> 0 then capture_abort emit env st2 else do {
                 (r3, st3) \<leftarrow> write_tlv emit env 0x0001 (Some (session_bytes s)) 40 st2;
                 if r3 \<noteq> 0 then capture_abort emit env st3 else do {
                   (_, st4) \<leftarrow> hal_obs_stream_flush emit env st3;
                   Some (0, st4\<lparr>g_transport := TRANSPORT_FILE\<rparr>) }}}})"

definition embediq_obs_capture_end ::
  "obs_env \<Rightarrow> nat \<Rightarrow> obs_state \<Rightarrow> (int \<times> obs_state) option" where
  "embediq_obs_capture_end env fuel st =
     (let emit = embediq_obs_emit env fuel in do {
        (ret, st1) \<leftarrow> write_tlv emit env 0x0004 None 0 st;
        (if s_stream_ops st1 then do {
           (_, st2) \<leftarrow> hal_obs_stream_flush emit env st1;
           (_, st3) \<leftarrow> hal_obs_stream_close emit env st2;
           Some (ret, st3\<lparr>g_transport := TRANSPORT_NULL\<rparr>) }
         else Some (ret, st1\<lparr>g_transport := TRANSPORT_NULL\<rparr>)) })"

definition EMBEDIQ_OBS_LEVEL :: u8 where [embediq_const]: "EMBEDIQ_OBS_LEVEL = 1"

definition obs_cleared :: "obs_state \<Rightarrow> obs_state" where
  "obs_cleared st = st\<lparr>g_ring := replicate EMBEDIQ_OBS_RING_DEPTH zero_event, g_ring_head := 0,
     g_ring_count := 0, g_sequence := 0, g_total := 0, g_overflow := 0,
     g_transport := TRANSPORT_STDOUT, g_level := EMBEDIQ_OBS_LEVEL, g_session := zero_session,
     g_session_valid := False\<rparr>"

definition obs__reset :: "obs_env \<Rightarrow> nat \<Rightarrow> obs_state \<Rightarrow> obs_state option" where
  "obs__reset env fuel st = do {
     st1 \<leftarrow> (if s_stream_ops st
            then map_option snd (hal_obs_stream_close (embediq_obs_emit env fuel) env st)
            else Some st);
     Some (obs_cleared st1) }"

definition obs__event_count :: "obs_state \<Rightarrow> u32" where "obs__event_count st = g_total st"
definition obs__ring_count :: "obs_state \<Rightarrow> u32" where "obs__ring_count st = g_ring_count st"

definition obs__ring_read :: "u32 \<Rightarrow> obs_state \<Rightarrow> obs_event option" where
  "obs__ring_read idx st =
     (if idx \<ge> g_ring_count st then None
      else Some (g_ring st ! unat ((g_ring_head st + idx) AND RING_MASK)))"

definition obs__set_level :: "u8 \<Rightarrow> obs_state \<Rightarrow> obs_state" where
  "obs__set_level l st = st\<lparr>g_level := l\<rparr>"

definition obs__force_overflow :: "u32 \<Rightarrow> obs_state \<Rightarrow> obs_state" where
  "obs__force_overflow n st = st\<lparr>g_overflow := n\<rparr>"

definition obs__format_event :: "obs_env \<Rightarrow> obs_event \<Rightarrow> nat \<Rightarrow> string \<Rightarrow> string \<times> string" where
  "obs__format_event env evt n buf = format_event_internal env evt n buf"

text \<open>The static initial values of the file.\<close>

definition obs_initial :: obs_state where
  "obs_initial = \<lparr>g_ring = replicate EMBEDIQ_OBS_RING_DEPTH zero_event, g_ring_head = 0,
     g_ring_count = 0, g_sequence = 0, g_total = 0, g_overflow = 0,
     g_transport = TRANSPORT_STDOUT, g_level = EMBEDIQ_OBS_LEVEL, g_session = zero_session,
     g_session_valid = False, fb_name_fallback = [], s_stream_ops = False, g_stream = None,
     s_write_error = False, obs_stdout = [], obs_files = [], clock_reads = 0, io_ops = 0\<rparr>"

section \<open>The ring as a history\<close>

definition ring_inv :: "obs_state \<Rightarrow> bool" where
  "ring_inv st \<longleftrightarrow> length (g_ring st) = 256 \<and> unat (g_ring_head st) < 256 \<and>
     unat (g_ring_count st) \<le> 256"

text \<open>The events the ring holds, oldest first.\<close>

definition ring_events :: "obs_state \<Rightarrow> obs_event list" where
  "ring_events st =
     map (\<lambda>i. g_ring st ! ((unat (g_ring_head st) + i) mod 256)) [0..<unat (g_ring_count st)]"

lemma unat_RING_MASK: "unat (w AND RING_MASK) = unat w mod 256"
proof -
  have "w AND RING_MASK = take_bit 8 w"
    by (simp add: RING_MASK_def embediq_const take_bit_eq_mask mask_eq_exp_minus_1)
  then show ?thesis by (simp add: unsigned_take_bit_eq take_bit_nat_def)
qed

lemma length_ring_events [simp]: "length (ring_events st) = unat (g_ring_count st)"
  by (simp add: ring_events_def)

lemma ring_read_events:
  assumes "ring_inv st"
  shows "obs__ring_read idx st =
     (if unat idx < length (ring_events st) then Some (ring_events st ! unat idx) else None)"
proof -
  have "unat (g_ring_head st + idx) = unat (g_ring_head st) + unat idx"
    if "unat idx < unat (g_ring_count st)"
    using assms that by (subst unat_plus_simple [THEN iffD1])
      (auto simp: ring_inv_def word_le_nat_alt unat_word_ariths)
  then show ?thesis
    by (auto simp: obs__ring_read_def ring_events_def unat_RING_MASK word_le_nat_alt)
qed

lemma ring_count_full: "ring_inv st \<Longrightarrow> g_ring_count st = 256 \<longleftrightarrow> unat (g_ring_count st) = 256"
  by (auto simp: ring_inv_def word_unat_eq_iff)

lemma ring_push_frame [simp]:
  "g_sequence (ring_push e b st) = g_sequence st" "g_total (ring_push e b st) = g_total st"
  "g_transport (ring_push e b st) = g_transport st" "g_level (ring_push e b st) = g_level st"
  "g_stream (ring_push e b st) = g_stream st" "s_write_error (ring_push e b st) = s_write_error st"
  "s_stream_ops (ring_push e b st) = s_stream_ops st" "io_ops (ring_push e b st) = io_ops st"
  "obs_files (ring_push e b st) = obs_files st" "g_session (ring_push e b st) = g_session st"
  "g_session_valid (ring_push e b st) = g_session_valid st"
  "clock_reads (ring_push e b st) = clock_reads st" "obs_stdout (ring_push e b st) = obs_stdout st"
  by (simp_all add: ring_push_def Let_def)

lemma ring_push_full:
  assumes inv: "ring_inv st" and full: "unat (g_ring_count st) = 256"
  shows "ring_inv (ring_push e b st)" and "ring_events (ring_push e b st) = tl (ring_events st) @ [e]"
    and "g_overflow (ring_push e b st) = (if b then g_overflow st + 1 else g_overflow st)"
    and "unat (g_ring_count (ring_push e b st)) = 256"
proof -
  let ?h = "unat (g_ring_head st)"
  have c: "g_ring_count st = 256" using ring_count_full [OF inv] full by simp
  have h1: "unat ((g_ring_head st + 1) AND RING_MASK) = (?h + 1) mod 256"
    using inv by (simp add: unat_RING_MASK ring_inv_def unat_word_ariths)
  have slot: "unat (((g_ring_head st + 1) AND RING_MASK) + 256 - 1 AND RING_MASK) = ?h"
  proof -
    have "unat (((g_ring_head st + 1) AND RING_MASK) + 255) = (?h + 1) mod 256 + 255"
      by (simp add: unat_word_ariths h1)
    moreover have "((?h + 1) mod 256 + 255) mod 256 = ?h"
      using inv by (cases "?h = 255") (auto simp: ring_inv_def mod_simps)
    ultimately show ?thesis by (simp add: unat_RING_MASK add.commute)
  qed
  have push: "ring_push e b st = st\<lparr>g_ring_head := (g_ring_head st + 1) AND RING_MASK,
      g_overflow := (if b then g_overflow st + 1 else g_overflow st),
      g_ring := (g_ring st)[?h := e]\<rparr>"
    using slot by (simp add: ring_push_def c embediq_const Let_def)
  show "ring_inv (ring_push e b st)" using inv by (simp add: push ring_inv_def h1)
  show "g_overflow (ring_push e b st) = (if b then g_overflow st + 1 else g_overflow st)"
    and "unat (g_ring_count (ring_push e b st)) = 256" by (simp_all add: push full)
  show "ring_events (ring_push e b st) = tl (ring_events st) @ [e]"
  proof (rule nth_equalityI)
    show "length (ring_events (ring_push e b st)) = length (tl (ring_events st) @ [e])"
      by (simp add: push full)
    fix i assume "i < length (ring_events (ring_push e b st))"
    then have i: "i < 256" by (simp add: push full)
    have "((?h + 1) mod 256 + i) mod 256 = (?h + Suc i) mod 256" by (simp add: mod_simps)
    then have nth: "ring_events (ring_push e b st) ! i = (g_ring st)[?h := e] ! ((?h + Suc i) mod 256)"
      using i by (simp add: push ring_events_def full h1)
    have pos: "(?h + Suc i) mod 256 = ?h \<longleftrightarrow> i = 255"
      using inv i ring_index_inj [of "Suc i" 256 0 ?h]
      by (cases "i = 255") (auto simp: ring_inv_def)
    show "ring_events (ring_push e b st) ! i = (tl (ring_events st) @ [e]) ! i"
    proof (cases "i = 255")
      case True
      then show ?thesis
        using nth pos inv by (simp add: ring_inv_def nth_append full)
    next
      case False
      then show ?thesis
        using nth pos i by (simp add: nth_append full nth_tl ring_events_def)
    qed
  qed
qed

lemma ring_push_room:
  assumes inv: "ring_inv st" and room: "unat (g_ring_count st) < 256"
  shows "ring_inv (ring_push e b st)" and "ring_events (ring_push e b st) = ring_events st @ [e]"
    and "g_overflow (ring_push e b st) = g_overflow st"
    and "unat (g_ring_count (ring_push e b st)) = unat (g_ring_count st) + 1"
proof -
  let ?h = "unat (g_ring_head st)" and ?c = "unat (g_ring_count st)"
  have c: "g_ring_count st \<noteq> 256" using ring_count_full [OF inv] room by simp
  have c1: "unat (g_ring_count st + 1) = ?c + 1" using room by (simp add: unat_word_ariths)
  have slot: "unat ((g_ring_head st + (g_ring_count st + 1) - 1) AND RING_MASK) = (?h + ?c) mod 256"
    using inv room by (simp add: unat_RING_MASK unat_word_ariths ring_inv_def)
  have push: "ring_push e b st = st\<lparr>g_ring_count := g_ring_count st + 1,
      g_ring := (g_ring st)[(?h + ?c) mod 256 := e]\<rparr>"
    using c slot by (simp add: ring_push_def embediq_const Let_def)
  show "ring_inv (ring_push e b st)" using inv room by (simp add: push ring_inv_def c1)
  show "g_overflow (ring_push e b st) = g_overflow st"
    and "unat (g_ring_count (ring_push e b st)) = ?c + 1" by (simp_all add: push c1)
  show "ring_events (ring_push e b st) = ring_events st @ [e]"
  proof (rule nth_equalityI)
    show "length (ring_events (ring_push e b st)) = length (ring_events st @ [e])"
      by (simp add: push c1)
    fix i assume "i < length (ring_events (ring_push e b st))"
    then have i: "i < ?c + 1" by (simp add: push c1)
    then have "(?h + i) mod 256 = (?h + ?c) mod 256 \<longleftrightarrow> i = ?c"
      using room ring_index_inj [of i 256 ?c ?h] by auto
    then show "ring_events (ring_push e b st) ! i = (ring_events st @ [e]) ! i"
      using i inv by (auto simp: push ring_events_def c1 nth_append ring_inv_def)
  qed
qed


text \<open>Both cases at once: the ring keeps the newest 256 events of its history.\<close>

lemma ring_push_events:
  assumes "ring_inv st"
  shows "ring_inv (ring_push e b st) \<and>
    ring_events (ring_push e b st) = keep_newest 256 (ring_events st @ [e])"
proof (cases "unat (g_ring_count st) < 256")
  case True
  with ring_push_room [OF assms this] show ?thesis by (simp add: keep_newest_short)
next
  case False
  with assms have full: "unat (g_ring_count st) = 256" by (simp add: ring_inv_def)
  with ring_push_full [OF assms full] show ?thesis
    by (simp add: keep_newest_snoc) (simp add: keep_newest_short)
qed


section \<open>One record and one emit\<close>

named_theorems obs_frame \<open>what the small steps of an emit leave alone\<close>

lemma obs_print_frame [simp, obs_frame]:
  "g_ring (obs_print env e st) = g_ring st" "g_ring_head (obs_print env e st) = g_ring_head st"
  "g_ring_count (obs_print env e st) = g_ring_count st"
  "g_sequence (obs_print env e st) = g_sequence st" "g_total (obs_print env e st) = g_total st"
  "g_overflow (obs_print env e st) = g_overflow st"
  "g_transport (obs_print env e st) = g_transport st" "g_level (obs_print env e st) = g_level st"
  "g_stream (obs_print env e st) = g_stream st" "s_write_error (obs_print env e st) = s_write_error st"
  "s_stream_ops (obs_print env e st) = s_stream_ops st" "io_ops (obs_print env e st) = io_ops st"
  "obs_files (obs_print env e st) = obs_files st"
  by (simp_all add: obs_print_def Let_def split: prod.splits)

lemma ring_inv_print [simp]: "ring_inv (obs_print env e st) = ring_inv st"
  "ring_events (obs_print env e st) = ring_events st"
  by (simp_all add: ring_inv_def ring_events_def)

lemma ring_inv_update [simp]:
  "ring_inv (st\<lparr>g_sequence := a\<rparr>) = ring_inv st" "ring_inv (st\<lparr>g_total := a\<rparr>) = ring_inv st"
  "ring_inv (st\<lparr>g_overflow := a\<rparr>) = ring_inv st" "ring_inv (st\<lparr>clock_reads := n\<rparr>) = ring_inv st"
  "ring_events (st\<lparr>g_sequence := a\<rparr>) = ring_events st"
  "ring_events (st\<lparr>g_total := a\<rparr>) = ring_events st"
  "ring_events (st\<lparr>g_overflow := a\<rparr>) = ring_events st"
  "ring_events (st\<lparr>clock_reads := n\<rparr>) = ring_events st"
  by (simp_all add: ring_inv_def ring_events_def)

text \<open>The event of a call with a given clock value and sequence number.\<close>

definition event_of :: "obs_call \<Rightarrow> u32 \<Rightarrow> u32 \<Rightarrow> obs_event" where
  "event_of c ts seq = \<lparr>ev_type = oc_type c, ev_source = oc_source c, ev_target = oc_target c,
     ev_state = oc_state c, ev_msg_id = oc_msg_id c, ev_timestamp_us = ts, ev_sequence = seq\<rparr>"

definition call_of :: "obs_event \<Rightarrow> obs_call" where
  "call_of e = Obs_Call (ev_type e) (ev_source e) (ev_target e) (ev_state e) (ev_msg_id e)"

lemma event_of_simps [simp]:
  "ev_sequence (event_of c ts seq) = seq" "call_of (event_of c ts seq) = c"
  "ev_msg_id (event_of c ts seq) = oc_msg_id c" "ev_type (event_of c ts seq) = oc_type c"
  by (simp_all add: event_of_def call_of_def)

definition now_us :: "obs_env \<Rightarrow> obs_state \<Rightarrow> u32" where
  "now_us env st = fst (obs_timestamp_us env st)"

lemma obs_record_event: "fst (obs_record env c b st) = event_of c (now_us env st) (g_sequence st)"
  by (simp add: obs_record_def now_us_def event_of_def obs_timestamp_us_def Let_def split: prod.splits)

lemma obs_record_frame [simp, obs_frame]:
  "g_sequence (snd (obs_record env c b st)) = g_sequence st + 1"
  "g_total (snd (obs_record env c b st)) = g_total st + 1"
  "g_transport (snd (obs_record env c b st)) = g_transport st"
  "g_level (snd (obs_record env c b st)) = g_level st"
  "g_stream (snd (obs_record env c b st)) = g_stream st"
  "s_write_error (snd (obs_record env c b st)) = s_write_error st"
  "s_stream_ops (snd (obs_record env c b st)) = s_stream_ops st"
  "io_ops (snd (obs_record env c b st)) = io_ops st"
  "obs_files (snd (obs_record env c b st)) = obs_files st"
  by (simp_all add: obs_record_def obs_timestamp_us_def Let_def split: prod.splits)

lemma obs_record_ring:
  assumes "ring_inv st"
  shows "ring_inv (snd (obs_record env c b st)) \<and> ring_events (snd (obs_record env c b st)) =
    keep_newest 256 (ring_events st @ [event_of c (now_us env st) (g_sequence st)])"
proof -
  let ?e = "event_of c (now_us env st) (g_sequence st)"
  let ?s = "st\<lparr>clock_reads := clock_reads st + 1, g_sequence := g_sequence st + 1\<rparr>"
  have "snd (obs_record env c b st) = obs_print env ?e ((ring_push ?e b ?s)\<lparr>g_total := g_total st + 1\<rparr>)"
    by (simp add: obs_record_def now_us_def event_of_def obs_timestamp_us_def Let_def
        split: prod.splits)
  moreover have "ring_inv ?s" "ring_events ?s = ring_events st" using assms by simp_all
  ultimately show ?thesis using ring_push_events [of ?s ?e b] by simp
qed

lemma obs_record_overflow:
  assumes "ring_inv st"
  shows "g_overflow (snd (obs_record env c b st)) =
    (if b \<and> length (ring_events st) = 256 then g_overflow st + 1 else g_overflow st)"
proof -
  let ?s = "st\<lparr>clock_reads := clock_reads st + 1, g_sequence := g_sequence st + 1\<rparr>"
  have inv: "ring_inv ?s" using assms by simp
  show ?thesis
  proof (cases "unat (g_ring_count st) = 256")
    case True
    then show ?thesis using ring_push_full(3) [OF inv]
      by (simp add: obs_record_def obs_timestamp_us_def Let_def split: prod.splits)
  next
    case False
    with assms have "unat (g_ring_count ?s) < 256" by (simp add: ring_inv_def)
    then show ?thesis using ring_push_room(3) [OF inv] False
      by (simp add: obs_record_def obs_timestamp_us_def Let_def split: prod.splits)
  qed
qed

text \<open>The events one passing call appends, and the state before its file record is written.\<close>

definition recovered :: "obs_env \<Rightarrow> obs_state \<Rightarrow> obs_event list" where
  "recovered env st = (if g_overflow st > 0
     then [event_of (overflow_call (g_overflow st)) (now_us env st) (g_sequence st)] else [])"

definition logged :: "obs_env \<Rightarrow> obs_call \<Rightarrow> obs_state \<Rightarrow> obs_event \<times> obs_state" where
  "logged env c st = obs_record env c True (obs_recover env st)"

lemma now_us_overflow [simp]: "now_us env (st\<lparr>g_overflow := a\<rparr>) = now_us env st"
  by (simp add: now_us_def obs_timestamp_us_def split: prod.splits)

lemma obs_recover_frame [simp, obs_frame]:
  "g_transport (obs_recover env st) = g_transport st" "g_level (obs_recover env st) = g_level st"
  "g_stream (obs_recover env st) = g_stream st" "s_write_error (obs_recover env st) = s_write_error st"
  "s_stream_ops (obs_recover env st) = s_stream_ops st" "io_ops (obs_recover env st) = io_ops st"
  "obs_files (obs_recover env st) = obs_files st"
  by (simp_all add: obs_recover_def)

lemma obs_recover_ring:
  assumes "ring_inv st"
  shows "ring_inv (obs_recover env st) \<and>
    ring_events (obs_recover env st) = keep_newest 256 (ring_events st @ recovered env st) \<and>
    g_sequence (obs_recover env st) = g_sequence st + word_of_nat (length (recovered env st)) \<and>
    g_overflow (obs_recover env st) = 0"
  using assms obs_record_ring [of "st\<lparr>g_overflow := 0\<rparr>" env] obs_record_overflow [of "st\<lparr>g_overflow := 0\<rparr>"]
  by (auto simp: obs_recover_def recovered_def ring_inv_def keep_newest_short word_gt_0)

lemma logged_event: "fst (logged env c st) =
    event_of c (now_us env (obs_recover env st)) (g_sequence (obs_recover env st))"
  by (simp add: logged_def obs_record_event)

lemma logged_ring:
  assumes "ring_inv st"
  shows "ring_inv (snd (logged env c st)) \<and> ring_events (snd (logged env c st)) =
    keep_newest 256 (ring_events st @ recovered env st @ [fst (logged env c st)])"
  using obs_recover_ring [OF assms, of env] obs_record_ring [of "obs_recover env st" env c True]
  by (simp add: logged_def obs_record_event keep_newest_append_keep)

lemma emit_unfold:
  "embediq_obs_emit env (Suc fuel) c st =
     (if g_transport st = TRANSPORT_NULL \<or> \<not> passes_level st (oc_type c) then Some st
      else if g_transport st = TRANSPORT_FILE
      then map_option snd (write_tlv (embediq_obs_emit env fuel) env 2
             (Some (event_bytes (fst (logged env c st)))) 14 (snd (logged env c st)))
      else Some (snd (logged env c st)))"
  by (simp add: embediq_obs_emit.simps logged_def case_prod_beta)


section \<open>Properties of the ring\<close>

text \<open>C8: with the stdout transport an event that passes the level filter is appended to the ring
  history behind the report of drops still pending, stamped and numbered with the next sequence
  number; the ring then holds exactly the newest 256 events of that history.\<close>

theorem obs_emit_ring:
  assumes "ring_inv st" and "g_transport st = TRANSPORT_STDOUT" and "passes_level st (oc_type c)"
    and "0 < fuel"
  shows "\<exists>st' e. embediq_obs_emit env fuel c st = Some st' \<and> ring_inv st' \<and>
    ring_events st' = keep_newest 256 (ring_events st @ recovered env st @ [e]) \<and>
    call_of e = c \<and> ev_sequence e = g_sequence st + word_of_nat (length (recovered env st)) \<and>
    g_sequence st' = ev_sequence e + 1"
proof -
  from \<open>0 < fuel\<close> obtain f where "fuel = Suc f" using gr0_conv_Suc by blast
  then have "embediq_obs_emit env fuel c st = Some (snd (logged env c st))"
    using assms by (simp add: emit_unfold)
  then show ?thesis
    using logged_ring [OF assms(1), of env c] obs_recover_ring [OF assms(1), of env]
    by (intro exI [of _ "snd (logged env c st)"] exI [of _ "fst (logged env c st)"])
      (simp add: logged_event, simp add: logged_def)
qed

definition demo_env :: obs_env where
  "demo_env = \<lparr>env_clock = (\<lambda>n. (1, 5000)), env_io = (\<lambda>n. 100000), env_name = (\<lambda>i. None),
     env_path = None, env_left_to_right = True\<rparr>"

lemma obs_initial_simps [simp]:
  "ring_inv obs_initial" "ring_events obs_initial = []" "g_transport obs_initial = TRANSPORT_STDOUT"
  "g_level obs_initial = 1" "g_overflow obs_initial = 0" "g_sequence obs_initial = 0"
  "g_stream obs_initial = None" "recovered env obs_initial = []"
  by (simp_all add: obs_initial_def ring_inv_def ring_events_def recovered_def embediq_const)

lemma obs_emit_ring_witness:
  "\<exists>st' e. embediq_obs_emit demo_env 1 (Obs_Call 0x60 1 0xFF 3 0) obs_initial = Some st' \<and>
     ring_events st' = [e] \<and> call_of e = Obs_Call 0x60 1 0xFF 3 0 \<and> ev_sequence e = 0"
proof -
  have "passes_level obs_initial (oc_type (Obs_Call 0x60 1 0xFF 3 0))"
    by (simp add: passes_level_def embediq_obs_event_family_def)
  from obs_emit_ring [OF _ _ this, of 1 demo_env] show ?thesis
    by (auto simp: keep_newest_short)
qed

text \<open>The level filter in terms of event codes: level 2 and above lets everything through,
  level 1 the codes below 0x40 and the fault band, level 0 the codes below 0x20 and the fault
  band (so level 0 is not silent).\<close>

theorem obs_level_filter:
  "passes_level st et =
     (g_level st \<ge> 2 \<or> (g_level st = 1 \<and> et < 0x40) \<or> et < 0x20 \<or> (0x60 \<le> et \<and> et < 0x70))"
proof -
  have "g_level st \<ge> 1 \<longleftrightarrow> g_level st \<ge> 2 \<or> g_level st = 1"
    by (auto simp: word_le_nat_alt word_unat_eq_iff)
  then show ?thesis
    by (auto simp: passes_level_def embediq_obs_event_family_def Let_def word_less_nat_alt
        word_le_nat_alt)
qed

lemma passes_level_update [simp]:
  "passes_level (st\<lparr>g_overflow := a\<rparr>) = passes_level st"
  by (simp add: passes_level_def fun_eq_iff)

section \<open>Lost events\<close>

lemma drop2_full: "length xs = 256 \<Longrightarrow> keep_newest 256 (xs @ [a, b]) = drop 2 xs @ [a, b]"
  by (simp add: keep_newest_def)

text \<open>When the ring is full and drops are pending, one emit evicts two events (one for the
  report, one for the event itself) but counts only the second, so the sum of the reported
  drops falls behind the number of events really lost.\<close>

theorem obs_overflow_undercounts:
  assumes "ring_inv st" and "length (ring_events st) = 256" and "g_overflow st > 0"
    and "g_transport st = TRANSPORT_STDOUT" and "passes_level st (oc_type c)"
  shows "\<exists>st' ovf e. embediq_obs_emit env (Suc fuel) c st = Some st' \<and>
    ring_events st' = drop 2 (ring_events st) @ [ovf, e] \<and>
    ev_type ovf = EMBEDIQ_OBS_EVT_OVERFLOW \<and> ev_msg_id ovf = ucast (g_overflow st) \<and>
    g_overflow st' = 1"
proof -
  have emit: "embediq_obs_emit env (Suc fuel) c st = Some (snd (logged env c st))"
    using assms by (simp add: emit_unfold)
  obtain ovf where r: "recovered env st = [ovf]" and ovf: "ev_type ovf = EMBEDIQ_OBS_EVT_OVERFLOW"
      "ev_msg_id ovf = ucast (g_overflow st)"
    using assms(3) by (simp add: recovered_def overflow_call_def)
  have "length (ring_events (obs_recover env st)) = 256"
    using obs_recover_ring [OF assms(1), of env] assms(2) by (auto simp: r min_def)
  then have "g_overflow (snd (logged env c st)) = 1"
    using obs_recover_ring [OF assms(1), of env]
    by (simp add: logged_def obs_record_overflow)
  moreover have "ring_events (snd (logged env c st)) =
      drop 2 (ring_events st) @ [ovf, fst (logged env c st)]"
    using logged_ring [OF assms(1), of env c] drop2_full [OF assms(2)] by (simp add: r)
  ultimately show ?thesis using emit ovf by blast
qed

definition full_ring :: obs_state where
  "full_ring = obs_initial\<lparr>g_ring_count := 256, g_overflow := 3\<rparr>"

lemma full_ring_simps [simp]: "ring_inv full_ring" "unat (g_ring_count full_ring) = 256"
  "g_overflow full_ring = 3" "g_transport full_ring = TRANSPORT_STDOUT" "g_level full_ring = 1"
  by (simp_all add: full_ring_def obs_initial_def ring_inv_def embediq_const)

lemma obs_overflow_undercounts_witness:
  "\<exists>st' ovf e. embediq_obs_emit demo_env 1 (Obs_Call 0x20 1 2 0 9) full_ring = Some st' \<and>
    ring_events st' = drop 2 (ring_events full_ring) @ [ovf, e] \<and>
    ev_msg_id ovf = 3 \<and> g_overflow st' = 1"
proof -
  have "passes_level full_ring (oc_type (Obs_Call 0x20 1 2 0 9))"
    by (simp add: passes_level_def embediq_obs_event_family_def)
  from obs_overflow_undercounts [OF _ _ _ _ this, of demo_env 0] show ?thesis
    by (auto)
qed


section \<open>Termination of an emit\<close>

text \<open>The stream can be written without a nested emit that itself writes to a closed stream.\<close>

definition stream_ready :: "obs_state \<Rightarrow> bool" where
  "stream_ready st \<longleftrightarrow>
     (g_transport st = TRANSPORT_FILE \<and> s_stream_ops st \<longrightarrow> g_stream st \<noteq> None)"

lemma logged_frame [simp, obs_frame]:
  "g_transport (snd (logged env c st)) = g_transport st" "g_level (snd (logged env c st)) = g_level st"
  "g_stream (snd (logged env c st)) = g_stream st"
  "s_write_error (snd (logged env c st)) = s_write_error st"
  "s_stream_ops (snd (logged env c st)) = s_stream_ops st"
  "io_ops (snd (logged env c st)) = io_ops st" "obs_files (snd (logged env c st)) = obs_files st"
  by (simp_all add: logged_def)

lemma le16_nonempty [simp]: "le16 a @ b \<noteq> []" "le16 a \<noteq> []" "event_bytes e \<noteq> []"
  by (simp_all add: le16_def event_bytes_def)

text \<open>After the write-error latch is set, writing needs no emit at all.\<close>

lemma write_latched:
  "g_stream st \<noteq> None \<Longrightarrow> s_write_error st \<Longrightarrow> d \<noteq> [] \<Longrightarrow>
   hal_obs_stream_write emit env d st = Some (HAL_ERR_IO, st)"
  by (auto simp: hal_obs_stream_write_def)

lemma emit_latched:
  assumes "g_stream st \<noteq> None" and "s_write_error st"
  shows "\<exists>st'. embediq_obs_emit env (Suc fuel) c st = Some st'"
  using assms by (auto simp: emit_unfold write_tlv_def write_latched embediq_const)

lemma write_open:
  assumes "g_stream st \<noteq> None" and "d \<noteq> []"
  shows "\<exists>r st'. hal_obs_stream_write (embediq_obs_emit env (Suc fuel)) env d st = Some (r, st') \<and>
    (r = 0 \<longrightarrow> g_stream st' \<noteq> None)"
proof -
  obtain p bs where g: "g_stream st = Some (p, bs)" using assms(1) by auto
  let ?n = "min (env_io env (io_ops st)) (length d)"
  let ?st1 = "st\<lparr>g_stream := Some (p, bs @ take ?n d), io_ops := io_ops st + 1\<rparr>"
  obtain st' where "embediq_obs_emit env (Suc fuel)
      (EMBEDIQ_HAL_OBS_EMIT_ERROR EMBEDIQ_HAL_SRC_OBS_STREAM HAL_ERR_IO)
      (?st1\<lparr>s_write_error := True\<rparr>) = Some st'"
    using emit_latched [of "?st1\<lparr>s_write_error := True\<rparr>" env fuel] by auto
  then show ?thesis
    using assms(2) by (auto simp: hal_obs_stream_write_def g stream_error_def Let_def embediq_const)
qed

text \<open>C40: an emit always returns when no file capture is on, or the capture's stream is open:
  two nested emits are enough, whatever the file operations answer.\<close>

theorem obs_emit_terminates:
  assumes "stream_ready st" and "2 \<le> fuel"
  shows "\<exists>st'. embediq_obs_emit env fuel c st = Some st'"
proof -
  obtain f where f: "fuel = Suc (Suc f)" using assms(2) by (metis Suc_le_D numeral_2_eq_2 Suc_le_mono)
  show ?thesis
  proof (cases "g_transport st = TRANSPORT_FILE \<and> s_stream_ops st")
    case False
    then show ?thesis by (auto simp: f emit_unfold write_tlv_def)
  next
    case True
    let ?l = "snd (logged env c st)" and ?w = "hal_obs_stream_write (embediq_obs_emit env (Suc f)) env"
    have "g_stream ?l \<noteq> None" using True assms(1) by (simp add: stream_ready_def)
    then obtain r st1 where w: "?w (le16 2 @ le16 14) ?l = Some (r, st1)"
        and o: "r = 0 \<longrightarrow> g_stream st1 \<noteq> None"
      using write_open by (metis le16_nonempty(1))
    have "\<exists>r2 st2. r = 0 \<longrightarrow> ?w (event_bytes (fst (logged env c st))) st1 = Some (r2, st2)"
      using o write_open le16_nonempty(3) by metis
    then show ?thesis using w True by (auto simp: f emit_unfold write_tlv_def)
  qed
qed

definition capturing :: "bytes \<Rightarrow> bool \<Rightarrow> obs_state" where
  "capturing bs err = obs_initial\<lparr>g_transport := TRANSPORT_FILE, s_stream_ops := True,
     g_stream := Some (''t'', bs), s_write_error := err\<rparr>"

lemma obs_emit_terminates_witness:
  "\<exists>st'. embediq_obs_emit (demo_env\<lparr>env_io := \<lambda>n. 0\<rparr>) 2 (Obs_Call 0x60 1 0xFF 3 0)
     (capturing [] False) = Some st'"
  using obs_emit_terminates [of "capturing [] False" 2 "demo_env\<lparr>env_io := \<lambda>n. 0\<rparr>"]
  by (simp add: stream_ready_def capturing_def)

text \<open>With the file transport selected, the stream operations registered and no open stream,
  an emit that passes the filter never returns: the failing write emits a fault, which is written
  to the same closed stream, and so on.\<close>

theorem obs_emit_diverges:
  assumes "g_transport st = TRANSPORT_FILE" and "s_stream_ops st" and "g_stream st = None"
    and "passes_level st (oc_type c)"
  shows "embediq_obs_emit env fuel c st = None"
  using assms
proof (induction fuel arbitrary: c st)
  case (Suc fuel)
  let ?l = "snd (logged env c st)"
  have "passes_level ?l EMBEDIQ_OBS_EVT_HAL_FAULT"
    by (simp add: passes_level_def embediq_obs_event_family_def embediq_const Let_def)
  with Suc have "embediq_obs_emit env fuel
      (EMBEDIQ_HAL_OBS_EMIT_ERROR EMBEDIQ_HAL_SRC_OBS_STREAM HAL_ERR_IO) ?l = None"
    by (simp add: EMBEDIQ_HAL_OBS_EMIT_ERROR_def)
  with Suc.prems show ?case
    by (simp add: emit_unfold write_tlv_def hal_obs_stream_write_def stream_error_def)
qed (simp add: embediq_obs_emit.simps)

lemma obs_emit_diverges_witness:
  "embediq_obs_emit demo_env 9 (Obs_Call 0x60 1 0xFF 3 0)
     (embediq_obs_set_transport TRANSPORT_FILE (embediq_obs_stream_posix_register obs_initial)) = None"
  by (rule obs_emit_diverges)
    (simp_all add: embediq_obs_set_transport_def embediq_obs_stream_posix_register_def
      embediq_obs_set_stream_ops_def passes_level_def embediq_obs_event_family_def Let_def)

text \<open>Ending a capture does not return when the final close of the file fails: the stream is
  marked closed before the error is emitted, and the transport is still the file.\<close>

theorem obs_capture_end_diverges:
  assumes "g_transport st = TRANSPORT_FILE" and "s_stream_ops st"
    and "g_stream st = Some (p, bs)" and "s_write_error st"
    and "env_io env (io_ops st + 1) = 0"
  shows "embediq_obs_capture_end env fuel st = None"
proof -
  let ?st = "(file_close (st\<lparr>io_ops := io_ops st + 1\<rparr>))\<lparr>s_write_error := False\<rparr>"
  have "embediq_obs_emit env fuel
      (EMBEDIQ_HAL_OBS_EMIT_ERROR EMBEDIQ_HAL_SRC_OBS_STREAM HAL_ERR_IO) ?st = None"
    using assms
    by (intro obs_emit_diverges) (simp_all add: file_close_def EMBEDIQ_HAL_OBS_EMIT_ERROR_def
      passes_level_def embediq_obs_event_family_def embediq_const Let_def)
  then have "hal_obs_stream_close (embediq_obs_emit env fuel) env st = None"
    using assms by (simp add: hal_obs_stream_close_def stream_error_def)
  moreover have "hal_obs_stream_flush (embediq_obs_emit env fuel) env st = Some (HAL_ERR_IO, st)"
    using assms by (simp add: hal_obs_stream_flush_def)
  ultimately show ?thesis
    using assms by (simp add: embediq_obs_capture_end_def write_tlv_def write_latched embediq_const)
qed

lemma obs_capture_end_diverges_witness:
  "embediq_obs_capture_end (demo_env\<lparr>env_io := \<lambda>n. 0\<rparr>) 7 (capturing [1] True) = None"
  by (rule obs_capture_end_diverges) (simp_all add: capturing_def)


section \<open>Sequence numbers over all operations\<close>

text \<open>An invariant of the ring survives every operation that touches the ring only by records.\<close>

locale ring_invariant =
  fixes P :: "obs_state \<Rightarrow> bool"
  assumes frame: "P st \<Longrightarrow> g_ring st' = g_ring st \<Longrightarrow> g_ring_head st' = g_ring_head st \<Longrightarrow>
      g_ring_count st' = g_ring_count st \<Longrightarrow> g_sequence st' = g_sequence st \<Longrightarrow> P st'"
    and logs: "P st \<Longrightarrow> P (snd (obs_record env c b st))"
    and cleared: "P (obs_cleared st)"
begin

definition keeps :: "emit_fn \<Rightarrow> bool" where
  "keeps emit \<longleftrightarrow> (\<forall>c st st'. P st \<longrightarrow> emit c st = Some st' \<longrightarrow> P st')"

lemma updates_keep:
  "P st \<Longrightarrow> P (st\<lparr>g_transport := t\<rparr>)" "P st \<Longrightarrow> P (st\<lparr>io_ops := n\<rparr>)"
  "P st \<Longrightarrow> P (st\<lparr>s_write_error := b\<rparr>)" "P st \<Longrightarrow> P (st\<lparr>g_stream := g\<rparr>)"
  "P st \<Longrightarrow> P (st\<lparr>g_overflow := w\<rparr>)" "P st \<Longrightarrow> P (file_close st)"
  by (erule frame; simp add: file_close_def)+

lemma logged_keeps: "P st \<Longrightarrow> P (snd (logged env c st))"
  by (simp add: logged_def obs_recover_def logs updates_keep)

lemma error_keeps: "keeps emit \<Longrightarrow> P st \<Longrightarrow> returns (stream_error emit st) P"
  by (auto simp: returns_def stream_error_def keeps_def bind_eq_Some_conv)

lemma write_keeps: "keeps emit \<Longrightarrow> P st \<Longrightarrow> returns (hal_obs_stream_write emit env d st) P"
  unfolding hal_obs_stream_write_def Let_def
  by (intro returns_rules error_keeps updates_keep)

lemma flush_keeps: "keeps emit \<Longrightarrow> P st \<Longrightarrow> returns (hal_obs_stream_flush emit env st) P"
  unfolding hal_obs_stream_flush_def Let_def
  by (intro returns_rules error_keeps updates_keep)

lemma close_keeps: "keeps emit \<Longrightarrow> P st \<Longrightarrow> returns (hal_obs_stream_close emit env st) P"
  unfolding hal_obs_stream_close_def Let_def
  by (intro returns_rules error_keeps updates_keep)

lemma open_keeps: "keeps emit \<Longrightarrow> P st \<Longrightarrow> returns (hal_obs_stream_open emit env path st) P"
  unfolding hal_obs_stream_open_def Let_def
  by (intro returns_rules error_keeps updates_keep) (auto intro: updates_keep)

lemma tlv_keeps: "keeps emit \<Longrightarrow> P st \<Longrightarrow> returns (write_tlv emit env ty body len st) P"
  unfolding write_tlv_def by (rule returns_rules write_keeps | assumption)+

lemma emit_keeps: "keeps (embediq_obs_emit env fuel)"
proof (induction fuel)
  case (Suc fuel)
  then show ?case
    unfolding keeps_def [of "embediq_obs_emit env (Suc fuel)"]
    by (auto simp: emit_unfold logged_keeps split: if_splits
        dest: returnsD [OF tlv_keeps [OF Suc logged_keeps]])
qed (simp add: keeps_def embediq_obs_emit.simps)

lemmas steps_keep = write_keeps tlv_keeps flush_keeps close_keeps open_keeps emit_keeps updates_keep

lemma begin_keeps: "P st \<Longrightarrow> returns (embediq_obs_capture_begin env fuel path st) P"
  unfolding embediq_obs_capture_begin_def capture_abort_def Let_def
  by (rule returns_rules steps_keep | assumption)+

lemma end_keeps: "P st \<Longrightarrow> returns (embediq_obs_capture_end env fuel st) P"
  unfolding embediq_obs_capture_end_def Let_def
  by (rule returns_rules steps_keep | assumption)+

lemma reset_keeps: "obs__reset env fuel st = Some st' \<Longrightarrow> P st'"
  by (auto simp: obs__reset_def bind_eq_Some_conv cleared)

end


text \<open>The invariant: the numbers of the events in the ring are consecutive and end just below
  the counter.\<close>

definition seq_list :: "u32 \<Rightarrow> obs_event list \<Rightarrow> bool" where
  "seq_list s es \<longleftrightarrow>
     (\<forall>i < length es. ev_sequence (es ! i) = s - word_of_nat (length es - i))"

lemma seq_list_snoc:
  assumes "seq_list s es" and "ev_sequence e = s"
  shows "seq_list (s + 1) (es @ [e])"
  unfolding seq_list_def
proof (intro allI impI)
  fix i assume "i < length (es @ [e])"
  then consider "i < length es" | "i = length es" by fastforce
  then show "ev_sequence ((es @ [e]) ! i) = s + 1 - word_of_nat (length (es @ [e]) - i)"
    using assms by cases (auto simp: seq_list_def nth_append Suc_diff_le)
qed

lemma seq_list_keep: "seq_list s es \<Longrightarrow> seq_list s (keep_newest n es)"
  by (auto simp: seq_list_def keep_newest_def algebra_simps min_def)

definition obs_ok :: "obs_state \<Rightarrow> bool" where
  "obs_ok st \<longleftrightarrow> ring_inv st \<and> seq_list (g_sequence st) (ring_events st)"

interpretation obs_ring: ring_invariant obs_ok
proof
  fix st st' :: obs_state and env c b
  show "obs_ok st \<Longrightarrow> g_ring st' = g_ring st \<Longrightarrow> g_ring_head st' = g_ring_head st \<Longrightarrow>
      g_ring_count st' = g_ring_count st \<Longrightarrow> g_sequence st' = g_sequence st \<Longrightarrow> obs_ok st'"
    by (simp add: obs_ok_def ring_inv_def ring_events_def)
  show "obs_ok st \<Longrightarrow> obs_ok (snd (obs_record env c b st))"
    using obs_record_ring [of st env c b]
    by (simp add: obs_ok_def seq_list_keep seq_list_snoc)
  show "obs_ok (obs_cleared st)"
    by (simp add: obs_ok_def obs_cleared_def ring_inv_def ring_events_def seq_list_def embediq_const)
qed

text \<open>The calls a program makes on the Observatory, in any order.\<close>

datatype obs_op = Op_Emit obs_call | Op_Transport obs_transport | Op_Level u8
  | Op_Session obs_session | Op_Register | Op_Begin "string option" | Op_End | Op_Reset
  | Op_Force u32

definition obs_exec :: "obs_env \<Rightarrow> nat \<Rightarrow> obs_op \<Rightarrow> obs_state \<Rightarrow> obs_state option" where
  "obs_exec env fuel op st = (case op of
     Op_Emit c \<Rightarrow> embediq_obs_emit env fuel c st
   | Op_Transport t \<Rightarrow> Some (embediq_obs_set_transport t st)
   | Op_Level l \<Rightarrow> Some (embediq_obs_set_level l st)
   | Op_Session s \<Rightarrow> Some (embediq_obs_session_begin s st)
   | Op_Register \<Rightarrow> Some (embediq_obs_stream_posix_register st)
   | Op_Begin p \<Rightarrow> map_option snd (embediq_obs_capture_begin env fuel p st)
   | Op_End \<Rightarrow> map_option snd (embediq_obs_capture_end env fuel st)
   | Op_Reset \<Rightarrow> obs__reset env fuel st
   | Op_Force n \<Rightarrow> Some (obs__force_overflow n st))"

inductive obs_reachable :: "obs_env \<Rightarrow> obs_state \<Rightarrow> bool" for env where
  initial: "obs_reachable env obs_initial"
| step: "obs_reachable env st \<Longrightarrow> obs_exec env fuel op st = Some st' \<Longrightarrow> obs_reachable env st'"

lemma obs_ok_setters [simp]:
  "obs_ok (embediq_obs_set_transport t st) = obs_ok st"
  "obs_ok (embediq_obs_set_level l st) = obs_ok st"
  "obs_ok (embediq_obs_session_begin s st) = obs_ok st"
  "obs_ok (embediq_obs_stream_posix_register st) = obs_ok st"
  "obs_ok (obs__force_overflow n st) = obs_ok st"
  by (simp_all add: obs_ok_def ring_inv_def ring_events_def embediq_obs_set_transport_def
      embediq_obs_set_level_def embediq_obs_session_begin_def embediq_obs_stream_posix_register_def
      embediq_obs_set_stream_ops_def obs__force_overflow_def)

lemma obs_exec_ok: "obs_ok st \<Longrightarrow> obs_exec env fuel op st = Some st' \<Longrightarrow> obs_ok st'"
  using obs_ring.emit_keeps [of env fuel]
  by (cases op) (auto simp: obs_exec_def obs_ring.keeps_def
      dest: obs_ring.reset_keeps returnsD [OF obs_ring.begin_keeps] returnsD [OF obs_ring.end_keeps])

lemma obs_reachable_ok: "obs_reachable env st \<Longrightarrow> obs_ok st"
proof (induction rule: obs_reachable.induct)
  case (step st fuel op st')
  from step.IH step.hyps(2) show ?case by (rule obs_exec_ok)
qed (simp add: obs_ok_def seq_list_def)

text \<open>Whatever sequence of calls the program makes, the events in the ring carry consecutive
  sequence numbers that end just below the counter, so a reader of the ring sees no gap and no
  reordering; nested emits of failing stream operations included.\<close>

theorem obs_sequence_consecutive:
  assumes "obs_reachable env st"
  shows "ring_inv st \<and> (\<forall>i < length (ring_events st). ev_sequence (ring_events st ! i) =
     g_sequence st - word_of_nat (length (ring_events st) - i))"
  using obs_reachable_ok [OF assms] unfolding obs_ok_def seq_list_def .

lemma obs_sequence_consecutive_witness:
  "\<exists>st. embediq_obs_emit demo_env 1 (Obs_Call 0x60 1 0xFF 3 0) obs_initial = Some st \<and>
     ring_inv st \<and> (\<forall>i < length (ring_events st). ev_sequence (ring_events st ! i) =
     g_sequence st - word_of_nat (length (ring_events st) - i))"
proof -
  obtain st where e: "embediq_obs_emit demo_env 1 (Obs_Call 0x60 1 0xFF 3 0) obs_initial = Some st"
    by (cases "passes_level obs_initial 0x60") (simp_all add: emit_unfold [of demo_env 0])
  then have "obs_reachable demo_env st"
    using obs_reachable.step [OF obs_reachable.initial, of demo_env 1 "Op_Emit (Obs_Call 0x60 1 0xFF 3 0)"]
    by (simp add: obs_exec_def)
  with e obs_sequence_consecutive [OF this] show ?thesis by blast
qed

section \<open>Printed endpoint names\<close>

text \<open>On one printed line, two endpoints that are not registered both show the same name, that
  of the one resolved last, because both point to the one static fallback buffer.\<close>

theorem fb_names_alias:
  assumes "env_name env a = None" and "env_name env b = None" and "a \<noteq> 0xFF" and "b \<noteq> 0xFF"
  shows "fst (fb_names env a b buf) = fst (snd (fb_names env a b buf))"
  using assms by (simp add: fb_names_def fb_name_def)

lemma fb_names_alias_witness:
  "fst (fb_names demo_env 5 6 []) = ''ep_6'' \<and> fst (snd (fb_names demo_env 5 6 [])) = ''ep_6''"
proof -
  have "fst (fb_names demo_env 5 6 []) = fst (snd (fb_names demo_env 5 6 []))"
    by (rule fb_names_alias) (simp_all add: demo_env_def)
  moreover have "fst (fb_names demo_env 5 6 []) = ''ep_6''"
    by (simp add: fb_names_def fb_name_def demo_env_def snprintf_n_def fmt_u_def fmt_base.simps)
  ultimately show ?thesis by simp
qed


section \<open>Capture files\<close>

text \<open>The reader's side: the records of a capture file, as the format documents them.\<close>

definition tlv :: "u16 \<Rightarrow> bytes \<Rightarrow> bytes" where
  "tlv ty d = le16 ty @ le16 (word_of_nat (length d)) @ d"

function parse_tlvs :: "bytes \<Rightarrow> (u16 \<times> bytes) list option" where
  "parse_tlvs bs =
     (if bs = [] then Some []
      else if length bs < 4 then None
      else let n = unat (of_le16 (drop 2 bs)); rest = drop 4 bs
           in if length rest < n then None
              else map_option ((#) (of_le16 bs, take n rest)) (parse_tlvs (drop n rest)))"
  by pat_completeness auto
termination by (relation "measure length") auto

declare parse_tlvs.simps [simp del]

lemma parse_tlvs_Nil [simp]: "parse_tlvs [] = Some []"
  by (simp add: parse_tlvs.simps)

lemma parse_tlv:
  "length d < 65536 \<Longrightarrow> parse_tlvs (tlv ty d @ bs) = map_option ((#) (ty, d)) (parse_tlvs bs)"
proof -
  assume d: "length d < 65536"
  then have n: "unat (word_of_nat (length d) :: u16) = length d" by (simp add: unat_of_nat_small)
  have "drop 2 (tlv ty d @ bs) = le16 (word_of_nat (length d)) @ d @ bs"
    and "drop 4 (tlv ty d @ bs) = d @ bs" and "tlv ty d @ bs \<noteq> []"
    by (simp_all add: tlv_def le16_def)
  then show ?thesis
    using n by (subst parse_tlvs.simps) (simp add: Let_def tlv_def)
qed

definition parse_iqtrace :: "bytes \<Rightarrow> (u16 \<times> bytes) list option" where
  "parse_iqtrace bs = (if take 8 bs = iqtrace_header then parse_tlvs (drop 8 bs) else None)"

definition event_of_bytes :: "bytes \<Rightarrow> obs_event" where
  "event_of_bytes bs = \<lparr>ev_type = bs ! 0, ev_source = bs ! 1, ev_target = bs ! 2, ev_state = bs ! 3,
     ev_msg_id = of_le16 (drop 4 bs), ev_timestamp_us = of_le32 (drop 6 bs),
     ev_sequence = of_le32 (drop 10 bs)\<rparr>"

lemma event_of_event_bytes: "event_of_bytes (event_bytes e) = e"
proof -
  have "drop 6 (event_bytes e) = le32 (ev_timestamp_us e) @ le32 (ev_sequence e)"
    and "drop 10 (event_bytes e) = le32 (ev_sequence e)"
    and "drop 4 (event_bytes e) = le16 (ev_msg_id e) @ le32 (ev_timestamp_us e) @ le32 (ev_sequence e)"
    by (simp_all add: event_bytes_def le16_def le32_def)
  then show ?thesis by (simp add: event_of_bytes_def) (simp add: event_bytes_def)
qed

lemma length_event_bytes [simp]: "length (event_bytes e) = 14"
  by (simp add: event_bytes_def)

lemma length_session_bytes: "wf_session s \<Longrightarrow> length (session_bytes s) = 40"
  by (simp add: session_bytes_def wf_session_def)

text \<open>File operations that accept every write.\<close>

definition io_good :: "obs_env \<Rightarrow> bool" where "io_good env \<longleftrightarrow> (\<forall>n. 65536 \<le> env_io env n)"

definition stream_on :: "string \<Rightarrow> bytes \<Rightarrow> obs_state \<Rightarrow> bool" where
  "stream_on p bs st \<longleftrightarrow> g_stream st = Some (p, bs) \<and> \<not> s_write_error st \<and> s_stream_ops st"

lemma write_good:
  assumes "io_good env" and "stream_on p bs st" and "d \<noteq> []" and "length d \<le> 65536"
  shows "hal_obs_stream_write emit env d st =
    Some (0, st\<lparr>g_stream := Some (p, bs @ d), io_ops := io_ops st + 1\<rparr>)"
proof -
  have "length d \<le> env_io env (io_ops st)"
    using assms(1,4) by (auto simp: io_good_def intro: le_trans)
  then have "min (env_io env (io_ops st)) (length d) = length d" by simp
  then show ?thesis
    using assms(2,3) by (simp add: hal_obs_stream_write_def stream_on_def embediq_const)
qed

lemma write_tlv_good:
  assumes "io_good env" and "stream_on p bs st" and "d \<noteq> []" and "length d < 65536"
  shows "write_tlv emit env ty (Some d) (word_of_nat (length d)) st =
    Some (0, st\<lparr>g_stream := Some (p, bs @ tlv ty d), io_ops := io_ops st + 2\<rparr>)"
proof -
  let ?h = "le16 ty @ le16 (word_of_nat (length d))"
  let ?st1 = "st\<lparr>g_stream := Some (p, bs @ ?h), io_ops := io_ops st + 1\<rparr>"
  have w1: "hal_obs_stream_write emit env ?h st = Some (0, ?st1)"
    using write_good [OF assms(1,2), of ?h] by simp
  have on: "stream_on p (bs @ ?h) ?st1" using assms(2) by (simp add: stream_on_def)
  have w2: "hal_obs_stream_write emit env d ?st1 =
      Some (0, ?st1\<lparr>g_stream := Some (p, (bs @ ?h) @ d), io_ops := io_ops ?st1 + 1\<rparr>)"
    using write_good [OF assms(1) on assms(3), of emit] assms(4) by simp
  have "(word_of_nat (length d) :: u16) > 0"
    using assms(3,4) by (simp add: word_less_nat_alt unat_of_nat_small)
  then show ?thesis
    using w1 w2 assms(2) by (simp add: write_tlv_def stream_on_def tlv_def)
qed

text \<open>A sequence of emits.\<close>

fun obs_emit_all :: "obs_env \<Rightarrow> nat \<Rightarrow> obs_call list \<Rightarrow> obs_state \<Rightarrow> obs_state option" where
  "obs_emit_all env fuel [] st = Some st"
| "obs_emit_all env fuel (c # cs) st =
     Option.bind (embediq_obs_emit env fuel c st) (obs_emit_all env fuel cs)"

lemma emit_file_good:
  assumes "io_good env" and "stream_on p bs st" and "g_transport st = TRANSPORT_FILE"
    and "passes_level st (oc_type c)"
  shows "\<exists>st' e. embediq_obs_emit env (Suc fuel) c st = Some st' \<and> call_of e = c \<and>
    stream_on p (bs @ tlv 2 (event_bytes e)) st' \<and> g_transport st' = TRANSPORT_FILE \<and>
    g_level st' = g_level st \<and> obs_files st' = obs_files st"
proof -
  let ?l = "snd (logged env c st)" and ?e = "fst (logged env c st)"
  have "stream_on p bs ?l" using assms(2) by (simp add: stream_on_def)
  from write_tlv_good [OF assms(1) this, of "event_bytes ?e" "embediq_obs_emit env fuel" 2]
  have "write_tlv (embediq_obs_emit env fuel) env 2 (Some (event_bytes ?e)) 14 ?l =
      Some (0, ?l\<lparr>g_stream := Some (p, bs @ tlv 2 (event_bytes ?e)), io_ops := io_ops ?l + 2\<rparr>)"
    by simp
  moreover have "call_of ?e = c" by (simp add: logged_event)
  ultimately show ?thesis
    using assms(2-4)
    by (intro exI [of _ "?l\<lparr>g_stream := Some (p, bs @ tlv 2 (event_bytes ?e)), io_ops := io_ops ?l + 2\<rparr>"]
        exI [of _ ?e]) (simp add: emit_unfold stream_on_def)
qed

lemma passes_level_cong: "g_level st' = g_level st \<Longrightarrow> passes_level st' = passes_level st"
  by (simp add: passes_level_def fun_eq_iff)

lemma emit_all_good:
  assumes "io_good env" and "stream_on p bs st" and "g_transport st = TRANSPORT_FILE"
  shows "\<exists>st' es. obs_emit_all env (Suc fuel) cs st = Some st' \<and>
    map call_of es = filter (\<lambda>c. passes_level st (oc_type c)) cs \<and>
    stream_on p (bs @ concat (map (\<lambda>e. tlv 2 (event_bytes e)) es)) st' \<and>
    g_transport st' = TRANSPORT_FILE \<and> obs_files st' = obs_files st"
  using assms(2,3)
proof (induction cs arbitrary: bs st)
  case Nil
  then show ?case by (intro exI [of _ st] exI [of _ "[]"]) simp
next
  case (Cons c cs)
  show ?case
  proof (cases "passes_level st (oc_type c)")
    case True
    from emit_file_good [OF assms(1) Cons.prems True, of fuel] obtain st1 e where
      e: "embediq_obs_emit env (Suc fuel) c st = Some st1" "call_of e = c"
        "stream_on p (bs @ tlv 2 (event_bytes e)) st1" "g_transport st1 = TRANSPORT_FILE"
        "g_level st1 = g_level st" "obs_files st1 = obs_files st" by blast
    from Cons.IH [OF e(3,4)] obtain st' es where
      "obs_emit_all env (Suc fuel) cs st1 = Some st'"
      "map call_of es = filter (\<lambda>c. passes_level st1 (oc_type c)) cs"
      "stream_on p ((bs @ tlv 2 (event_bytes e)) @ concat (map (\<lambda>e. tlv 2 (event_bytes e)) es)) st'"
      "g_transport st' = TRANSPORT_FILE" "obs_files st' = obs_files st1" by blast
    with e True show ?thesis
      by (intro exI [of _ st'] exI [of _ "e # es"])
        (simp add: passes_level_cong [OF e(5)])
  next
    case False
    with Cons.IH [OF Cons.prems] show ?thesis by (simp add: emit_unfold)
  qed
qed


lemma flush_good:
  "io_good env \<Longrightarrow> stream_on p bs st \<Longrightarrow>
   hal_obs_stream_flush emit env st = Some (0, st\<lparr>io_ops := io_ops st + 1\<rparr>)"
proof -
  assume "io_good env" and "stream_on p bs st"
  moreover from this have "env_io env (io_ops st) \<noteq> 0"
    by (metis io_good_def not_numeral_le_zero)
  ultimately show ?thesis by (simp add: hal_obs_stream_flush_def stream_on_def embediq_const)
qed

lemma close_good:
  assumes "io_good env" and "stream_on p bs st"
  shows "\<exists>st'. hal_obs_stream_close emit env st = Some (0, st') \<and> g_stream st' = None \<and>
    obs_files st' = obs_files st @ [(p, bs)]"
proof -
  have "env_io env n \<noteq> 0" for n using assms(1) by (metis io_good_def not_numeral_le_zero)
  then show ?thesis
    using assms(2) by (simp add: hal_obs_stream_close_def stream_on_def file_close_def embediq_const)
qed

lemma open_good:
  assumes "io_good env" and "g_stream st = None"
  shows "hal_obs_stream_open emit env (Some p) st = Some (0, st\<lparr>io_ops := io_ops st + 1,
     g_stream := Some (p, []), s_write_error := False\<rparr>)"
proof -
  have "env_io env n \<noteq> 0" for n using assms(1) by (metis io_good_def not_numeral_le_zero)
  then show ?thesis using assms(2) by (simp add: hal_obs_stream_open_def Let_def embediq_const)
qed

lemma capture_begin_good:
  assumes "io_good env" and "g_stream st = None" and "s_stream_ops st" and "g_session_valid st"
    and "wf_session (g_session st)"
  shows "\<exists>st'. embediq_obs_capture_begin env fuel (Some p) st = Some (0, st') \<and>
    stream_on p (iqtrace_header @ tlv 1 (session_bytes (g_session st))) st' \<and>
    g_transport st' = TRANSPORT_FILE \<and> g_level st' = g_level st \<and> obs_files st' = obs_files st"
proof -
  let ?emit = "embediq_obs_emit env fuel"
  let ?st1 = "st\<lparr>io_ops := io_ops st + 1, g_stream := Some (p, []), s_write_error := False\<rparr>"
  let ?st2 = "?st1\<lparr>g_stream := Some (p, [] @ iqtrace_header), io_ops := io_ops ?st1 + 1\<rparr>"
  let ?sb = "session_bytes (g_session st)"
  let ?st3 = "?st2\<lparr>g_stream := Some (p, ([] @ iqtrace_header) @ tlv 1 ?sb), io_ops := io_ops ?st2 + 2\<rparr>"
  have sb: "length ?sb = 40" using length_session_bytes assms(5) .
  have on1: "stream_on p [] ?st1" and on2: "stream_on p ([] @ iqtrace_header) ?st2"
    and on3: "stream_on p (iqtrace_header @ tlv 1 ?sb) ?st3"
    using assms(3) by (simp_all add: stream_on_def)
  note open_good [OF assms(1,2), of ?emit p]
  moreover have "hal_obs_stream_write ?emit env iqtrace_header ?st1 = Some (0, ?st2)"
    using write_good [OF assms(1) on1, of iqtrace_header ?emit] by (simp add: iqtrace_header_def)
  moreover have "write_tlv ?emit env 1 (Some ?sb) 40 ?st2 = Some (0, ?st3)"
    using write_tlv_good [OF assms(1) on2, of ?sb ?emit 1] sb by fastforce
  moreover note flush_good [OF assms(1) on3, of ?emit]
  ultimately show ?thesis
    using assms(3,4) on3
    by (simp add: embediq_obs_capture_begin_def embediq_obs_session_get_def stream_on_def)
qed

lemma capture_end_good:
  assumes "io_good env" and "stream_on p bs st"
  shows "\<exists>st'. embediq_obs_capture_end env fuel st = Some (0, st') \<and>
    obs_files st' = obs_files st @ [(p, bs @ tlv 4 [])] \<and> g_transport st' = TRANSPORT_NULL"
proof -
  let ?emit = "embediq_obs_emit env fuel"
  let ?st1 = "st\<lparr>g_stream := Some (p, bs @ tlv 4 []), io_ops := io_ops st + 1\<rparr>"
  let ?st2 = "?st1\<lparr>io_ops := io_ops ?st1 + 1\<rparr>"
  have "hal_obs_stream_write ?emit env (le16 4 @ le16 0) st = Some (0, ?st1)"
    using write_good [OF assms, of "le16 4 @ le16 0" ?emit] by (simp add: tlv_def)
  then have "write_tlv ?emit env 4 None 0 st = Some (0, ?st1)"
    using assms(2) by (simp add: write_tlv_def stream_on_def)
  moreover have on: "stream_on p (bs @ tlv 4 []) ?st1" "stream_on p (bs @ tlv 4 []) ?st2"
    using assms(2) by (simp_all add: stream_on_def)
  moreover obtain st3 where "hal_obs_stream_close ?emit env ?st2 = Some (0, st3)"
      "obs_files st3 = obs_files st @ [(p, bs @ tlv 4 [])]"
    using close_good [OF assms(1) on(2), of ?emit] by auto
  ultimately show ?thesis
    using flush_good [OF assms(1) on(1), of ?emit] assms(2)
    by (simp add: embediq_obs_capture_end_def stream_on_def)
qed

text \<open>A whole capture: session, begin, the program's events, end.\<close>

definition obs_capture :: "obs_env \<Rightarrow> nat \<Rightarrow> string \<Rightarrow> obs_session \<Rightarrow> obs_call list \<Rightarrow> obs_state \<Rightarrow>
    (int \<times> obs_state) option" where
  "obs_capture env fuel p s cs st = do {
     (_, st1) \<leftarrow> embediq_obs_capture_begin env fuel (Some p) (embediq_obs_session_begin s st);
     st2 \<leftarrow> obs_emit_all env fuel cs st1;
     embediq_obs_capture_end env fuel st2 }"

lemma parse_event_records:
  "parse_tlvs (concat (map (\<lambda>e. tlv 2 (event_bytes e)) es) @ bs) =
   map_option ((@) (map (\<lambda>e. (2, event_bytes e)) es)) (parse_tlvs bs)"
proof (induction es)
  case (Cons e es)
  then show ?case
    using parse_tlv [of "event_bytes e"] by (simp add: option.map_comp comp_def)
qed (simp add: option.map_ident)

text \<open>C3: a capture whose file operations succeed writes a file that decodes to the session record,
  one record for each event that passes the level filter, in the order of the calls and with the
  fields of the calls, and the end marker: no event is lost, whatever their number.\<close>

theorem obs_capture_roundtrip:
  assumes "io_good env" and "g_stream st = None" and "s_stream_ops st" and "wf_session s"
  shows "\<exists>st' f es. obs_capture env (Suc fuel) p s cs st = Some (0, st') \<and>
    obs_files st' = obs_files st @ [(p, f)] \<and>
    parse_iqtrace f = Some ([(1, session_bytes s)] @ map (\<lambda>e. (2, event_bytes e)) es @ [(4, [])]) \<and>
    map event_of_bytes (map event_bytes es) = es \<and>
    map call_of es = filter (\<lambda>c. passes_level st (oc_type c)) cs"
proof -
  let ?s0 = "embediq_obs_session_begin s st"
  let ?head = "iqtrace_header @ tlv 1 (session_bytes s)"
  obtain st1 where b: "embediq_obs_capture_begin env (Suc fuel) (Some p) ?s0 = Some (0, st1)"
      "stream_on p ?head st1" "g_transport st1 = TRANSPORT_FILE" "g_level st1 = g_level st"
      "obs_files st1 = obs_files st"
    using capture_begin_good [OF assms(1), of ?s0 "Suc fuel" p] assms(2-4)
    by (auto simp: embediq_obs_session_begin_def)
  obtain st2 es where e: "obs_emit_all env (Suc fuel) cs st1 = Some st2"
      "map call_of es = filter (\<lambda>c. passes_level st1 (oc_type c)) cs"
      "stream_on p (?head @ concat (map (\<lambda>e. tlv 2 (event_bytes e)) es)) st2"
      "obs_files st2 = obs_files st1"
    using emit_all_good [OF assms(1) b(2,3), of fuel cs] by blast
  let ?f = "(?head @ concat (map (\<lambda>e. tlv 2 (event_bytes e)) es)) @ tlv 4 []"
  obtain st' where "embediq_obs_capture_end env (Suc fuel) st2 = Some (0, st')"
      "obs_files st' = obs_files st2 @ [(p, ?f)]"
    using capture_end_good [OF assms(1) e(3), of "Suc fuel"] by blast
  moreover have "parse_iqtrace ?f =
      Some ([(1, session_bytes s)] @ map (\<lambda>e. (2, event_bytes e)) es @ [(4, [])])"
    using parse_tlv [of "session_bytes s"] parse_tlv [of "[]" 4 "[]"] length_session_bytes [OF assms(4)]
    by (simp add: parse_iqtrace_def iqtrace_header_def parse_event_records)
  ultimately show ?thesis
    using b e passes_level_cong [OF b(4)]
    by (intro exI [of _ st'] exI [of _ ?f] exI [of _ es])
      (simp add: obs_capture_def event_of_event_bytes comp_def)
qed

lemma obs_capture_roundtrip_witness:
  "\<exists>st' f es. obs_capture demo_env 1 ''t'' zero_session
      [Obs_Call 0x60 1 0xFF 3 0, Obs_Call 0x50 1 0xFF 3 0, Obs_Call 0x31 0 1 1 7]
      (embediq_obs_stream_posix_register obs_initial) = Some (0, st') \<and> obs_files st' = [(''t'', f)] \<and>
    parse_iqtrace f = Some ([(1, session_bytes zero_session)] @ map (\<lambda>e. (2, event_bytes e)) es @ [(4, [])]) \<and>
    map call_of es = [Obs_Call 0x60 1 0xFF 3 0, Obs_Call 0x31 0 1 1 7]"
proof -
  let ?st = "embediq_obs_stream_posix_register obs_initial"
  let ?cs = "[Obs_Call 0x60 1 0xFF 3 0, Obs_Call 0x50 1 0xFF 3 0, Obs_Call 0x31 0 1 1 7]"
  have st: "io_good demo_env" "g_stream ?st = None" "s_stream_ops ?st" "wf_session zero_session"
    "obs_files ?st = []"
    by (simp_all add: io_good_def demo_env_def embediq_obs_stream_posix_register_def
        embediq_obs_set_stream_ops_def obs_initial_def wf_session_def zero_session_def)
  have "passes_level ?st 0x60" "\<not> passes_level ?st 0x50" "passes_level ?st 0x31"
    by (simp_all add: passes_level_def embediq_obs_event_family_def Let_def word_le_nat_alt
        embediq_obs_stream_posix_register_def embediq_obs_set_stream_ops_def)
  then have "filter (\<lambda>c. passes_level ?st (oc_type c)) ?cs =
      [Obs_Call 0x60 1 0xFF 3 0, Obs_Call 0x31 0 1 1 7]" by simp
  with st obs_capture_roundtrip [OF st(1-4), of 0 "''t''" ?cs] show ?thesis
    by (metis append_Nil One_nat_def)
qed

end
