(* ===== verification/Registry.thy ===== *)
theory Registry
  imports Osal
begin

text \<open>
  The data that core/src/registry/fb_engine.c and core/src/bus/message_bus.c share: the
  configuration structs of embediq_fb.h and embediq_subfn.h, the registry entry, the static
  state of both files as one record, and the registry's own operations (register, state, fault,
  name lookup, sub-function registration).

  Conventions: a function pointer is an identifier (\<open>None\<close> is NULL) that the record of callbacks
  gives its meaning; a handle is an index of the registry; an array with a count is the list of
  its used elements, except where elements are moved inside it (the sub-functions). The
  Observatory calls made are appended to \<open>obs_log\<close>. The field \<open>user\<close> holds what the callbacks
  keep for themselves.
\<close>

section \<open>Configuration (embediq_fb.h, embediq_subfn.h)\<close>

datatype fb_state = STATE_IDLE | STATE_INITIALISING | STATE_RUNNING | STATE_FAULT
  | STATE_STOPPING | STATE_STOPPED

fun fb_state_code :: "fb_state \<Rightarrow> u8" where
  "fb_state_code STATE_IDLE = 0"
| "fb_state_code STATE_INITIALISING = 1"
| "fb_state_code STATE_RUNNING = 2"
| "fb_state_code STATE_FAULT = 3"
| "fb_state_code STATE_STOPPING = 4"
| "fb_state_code STATE_STOPPED = 5"

definition EMBEDIQ_BOOT_PHASE_PLATFORM :: nat where
  [embediq_const]: "EMBEDIQ_BOOT_PHASE_PLATFORM = 1"
definition EMBEDIQ_BOOT_PHASE_INFRASTRUCTURE :: nat where
  [embediq_const]: "EMBEDIQ_BOOT_PHASE_INFRASTRUCTURE = 2"
definition EMBEDIQ_BOOT_PHASE_APPLICATION :: nat where
  [embediq_const]: "EMBEDIQ_BOOT_PHASE_APPLICATION = 3"
definition EMBEDIQ_BOOT_PHASE_BRIDGE :: nat where
  [embediq_const]: "EMBEDIQ_BOOT_PHASE_BRIDGE = 4"

type_synonym fn_ptr = "nat option"

record subfn_config =
  sf_name :: "string option"
  sf_init_order :: u8
  sf_init_fn :: fn_ptr
  sf_run_fn :: fn_ptr
  sf_exit_fn :: fn_ptr
  sf_subscriptions :: "u16 list"
  sf_subscription_count :: u8
  sf_subfn_data :: nat
  sf_fsm :: "nat option"
  sf_osal_signal :: "nat option"

record fb_config =
  fc_name :: "string option"
  fc_priority :: u8
  fc_stack_size :: u16
  fc_init_fn :: fn_ptr
  fc_run_fn :: fn_ptr
  fc_exit_fn :: fn_ptr
  fc_fault_fn :: fn_ptr
  fc_fb_data :: nat
  fc_subscriptions :: "u16 list option"
  fc_subscription_count :: u8
  fc_publications :: "u16 list option"
  fc_publication_count :: u8
  fc_depends_on :: "string list"
  fc_depends_count :: u8
  fc_boot_phase :: nat

definition zero_subfn :: subfn_config where
  "zero_subfn = \<lparr>sf_name = None, sf_init_order = 0, sf_init_fn = None, sf_run_fn = None,
     sf_exit_fn = None, sf_subscriptions = [], sf_subscription_count = 0, sf_subfn_data = 0,
     sf_fsm = None, sf_osal_signal = None\<rparr>"

text \<open>The elements of the counted arrays.\<close>

definition cfg_depends :: "fb_config \<Rightarrow> string list" where
  "cfg_depends c = take (unat (fc_depends_count c)) (fc_depends_on c)"

definition cfg_subs :: "fb_config \<Rightarrow> u16 list" where
  "cfg_subs c = (case fc_subscriptions c of
     None \<Rightarrow> [] | Some ids \<Rightarrow> take (unat (fc_subscription_count c)) ids)"

definition subfn_subs :: "subfn_config \<Rightarrow> u16 list" where
  "subfn_subs s = take (unat (sf_subscription_count s)) (sf_subscriptions s)"

section \<open>Static state (fb_engine.c, message_bus.c)\<close>

text \<open>\<open>struct EmbedIQ_FB_s\<close>; the array of sub-functions has all its 16 cells.\<close>

record fb =
  fb_config :: fb_config
  fb_state :: fb_state
  fb_ep_idx :: u8
  fb_subfn_count :: u8
  fb_subfns :: "subfn_config list"
  fb_registering :: bool

record sub_entry =
  sub_msg_id :: u16
  sub_ep_id :: u8

text \<open>\<open>ep_queues_t\<close>: queue and capacity per priority; a queue is \<open>None\<close> if it was not created.\<close>

record ep_queues =
  ep_q :: "embediq_msg osal_queue option list"
  ep_cap :: "u16 list"

record 'u world =
  g_registry :: "fb list"
  g_booted :: bool
  g_boot_order :: "nat list"
  g_dispatch_sem :: "osal_sem option list"
  g_dispatch_task :: "bool list"
  g_dispatch_running :: bool
  g_dispatch_shutdown :: bool
  g_notify_fn :: bool \<comment> \<open>embediq_engine_notify_fb is registered\<close>
  g_subs :: "sub_entry list"
  g_ep :: "ep_queues list"
  g_bus_booted :: bool
  g_drop_count :: u32
  allocs :: nat \<comment> \<open>queue allocations so far\<close>
  obs_log :: "obs_call list"
  user :: 'u

type_synonym handle = "nat option"

definition emit :: "u8 \<Rightarrow> u8 \<Rightarrow> u8 \<Rightarrow> u8 \<Rightarrow> u16 \<Rightarrow> 'u world \<Rightarrow> 'u world" where
  "emit ty src tgt st mid w = w\<lparr>obs_log := obs_log w @ [Obs_Call ty src tgt st mid]\<rparr>"

definition world_initial :: "'u \<Rightarrow> 'u world" where
  "world_initial u = \<lparr>g_registry = [], g_booted = False, g_boot_order = [],
     g_dispatch_sem = replicate EMBEDIQ_MAX_ENDPOINTS None,
     g_dispatch_task = replicate EMBEDIQ_MAX_ENDPOINTS False, g_dispatch_running = False,
     g_dispatch_shutdown = False, g_notify_fn = False, g_subs = [], g_ep = [],
     g_bus_booted = False, g_drop_count = 0, allocs = 0, obs_log = [], user = u\<rparr>"

text \<open>
  The application's functions, by identifier: what a call does to the state. \<open>None\<close> as a result
  means that the call does not return (it waits for another thread).
\<close>

record 'u callbacks =
  cb_init :: "nat \<Rightarrow> nat \<Rightarrow> nat \<Rightarrow> 'u world \<Rightarrow> 'u world option"
  cb_fault :: "nat \<Rightarrow> nat \<Rightarrow> nat \<Rightarrow> u32 \<Rightarrow> 'u world \<Rightarrow> 'u world option"
  cb_run :: "nat \<Rightarrow> nat \<Rightarrow> bytes \<Rightarrow> nat \<Rightarrow> nat \<Rightarrow> 'u world \<Rightarrow> 'u world option"

definition fb_at :: "'u world \<Rightarrow> nat \<Rightarrow> fb" where "fb_at w i = g_registry w ! i"

definition update_fb :: "nat \<Rightarrow> (fb \<Rightarrow> fb) \<Rightarrow> 'u world \<Rightarrow> 'u world" where
  "update_fb i f w = w\<lparr>g_registry := (g_registry w)[i := f (g_registry w ! i)]\<rparr>"

section \<open>Registry operations (fb_engine.c)\<close>

definition embediq_fb_register :: "fb_config option \<Rightarrow> 'u world \<Rightarrow> handle \<times> 'u world" where
  "embediq_fb_register config w = (case config of
     None \<Rightarrow> (None, w)
   | Some c \<Rightarrow>
       if g_booted w then (None, w)
       else if length (g_registry w) \<ge> EMBEDIQ_MAX_ENDPOINTS then (None, w)
       else (Some (length (g_registry w)),
             w\<lparr>g_registry := g_registry w @
               [\<lparr>fb_config = c, fb_state = STATE_IDLE, fb_ep_idx = word_of_nat (length (g_registry w)),
                 fb_subfn_count = 0, fb_subfns = replicate EMBEDIQ_MAX_SUBFNS_PER_FB zero_subfn,
                 fb_registering = False\<rparr>]\<rparr>))"

definition embediq_fb_get_state :: "handle \<Rightarrow> 'u world \<Rightarrow> fb_state" where
  "embediq_fb_get_state h w = (case h of None \<Rightarrow> STATE_IDLE | Some i \<Rightarrow> fb_state (fb_at w i))"

definition embediq_fb_report_fault ::
  "'u callbacks \<Rightarrow> handle \<Rightarrow> u32 \<Rightarrow> 'u world \<Rightarrow> 'u world option" where
  "embediq_fb_report_fault cb h reason w = (case h of
     None \<Rightarrow> Some w
   | Some i \<Rightarrow>
       let w1 = update_fb i (\<lambda>f. f\<lparr>fb_state := STATE_FAULT\<rparr>) w;
           w2 = emit EMBEDIQ_OBS_EVT_LIFECYCLE (fb_ep_idx (fb_at w1 i)) 0xFF
                  (fb_state_code STATE_FAULT) 0 w1
       in case fc_fault_fn (fb_config (fb_at w2 i)) of
            None \<Rightarrow> Some w2
          | Some fn \<Rightarrow> cb_fault cb fn i (fc_fb_data (fb_config (fb_at w2 i))) reason w2)"

text \<open>The scan for a name that \<open>embediq_bus_resolve_name\<close> and \<open>find_fb_by_name\<close> both make.\<close>

fun scan_name :: "string \<Rightarrow> nat \<Rightarrow> fb list \<Rightarrow> nat option" where
  "scan_name n i [] = None"
| "scan_name n i (f # fs) =
     (if fc_name (fb_config f) = Some n then Some i else scan_name n (i + 1) fs)"

definition embediq_bus_resolve_name :: "string option \<Rightarrow> 'u world \<Rightarrow> u8" where
  "embediq_bus_resolve_name name w = (case name of
     None \<Rightarrow> 0xFF
   | Some n \<Rightarrow> (case scan_name n 0 (g_registry w) of None \<Rightarrow> 0xFF | Some i \<Rightarrow> word_of_nat i))"

definition find_fb_by_name :: "string \<Rightarrow> 'u world \<Rightarrow> nat option" where
  "find_fb_by_name n w = scan_name n 0 (g_registry w)"

definition fb_engine__reg_count :: "'u world \<Rightarrow> u8" where
  "fb_engine__reg_count w = word_of_nat (length (g_registry w))"

definition fb_engine__reg_config :: "u8 \<Rightarrow> 'u world \<Rightarrow> fb_config option" where
  "fb_engine__reg_config idx w =
     (if idx \<ge> fb_engine__reg_count w then None
      else Some (fb_config (fb_at w (unat idx))))"

definition fb_engine__get_ep_id :: "handle \<Rightarrow> 'u world \<Rightarrow> u8" where
  "fb_engine__get_ep_id h w = (case h of None \<Rightarrow> 0xFF | Some i \<Rightarrow> fb_ep_idx (fb_at w i))"

text \<open>\<open>embediq_subfn_register\<close>: 0 or -1; the loop is \<open>shift_insert\<close> on the array.\<close>

definition embediq_subfn_register ::
  "handle \<Rightarrow> subfn_config option \<Rightarrow> 'u world \<Rightarrow> int \<times> 'u world" where
  "embediq_subfn_register h config w = (case (h, config) of
     (Some i, Some c) \<Rightarrow>
       if \<not> fb_registering (fb_at w i) then (-1, w)
       else if unat (fb_subfn_count (fb_at w i)) \<ge> EMBEDIQ_MAX_SUBFNS_PER_FB then (-1, w)
       else (0, update_fb i (\<lambda>f. f\<lparr>
              fb_subfns := shift_insert sf_init_order (fb_subfns f) (unat (fb_subfn_count f)) c,
              fb_subfn_count := fb_subfn_count f + 1\<rparr>) w)
   | _ \<Rightarrow> (-1, w))"


section \<open>The registry invariant\<close>

text \<open>The sub-functions of an FB, in the order in which they are dispatched.\<close>

definition fb_subs :: "fb \<Rightarrow> subfn_config list" where
  "fb_subs f = take (unat (fb_subfn_count f)) (fb_subfns f)"

definition fb_ok :: "fb \<Rightarrow> bool" where
  "fb_ok f \<longleftrightarrow> length (fb_subfns f) = 16 \<and> unat (fb_subfn_count f) \<le> 16 \<and>
     sorted (map sf_init_order (fb_subs f))"

definition registry_inv :: "'u world \<Rightarrow> bool" where
  "registry_inv w \<longleftrightarrow> length (g_registry w) \<le> 64 \<and>
     (\<forall>i < length (g_registry w). fb_ep_idx (fb_at w i) = word_of_nat i \<and> fb_ok (fb_at w i))"

lemma fb_at_update [simp]:
  "i < length (g_registry w) \<Longrightarrow>
   fb_at (update_fb i f w) j = (if j = i then f (fb_at w i) else fb_at w j)"
  by (simp add: fb_at_def update_fb_def nth_list_update)

lemma update_fb_frame [simp]:
  "length (g_registry (update_fb i f w)) = length (g_registry w)"
  "g_ep (update_fb i f w) = g_ep w" "g_subs (update_fb i f w) = g_subs w"
  "g_booted (update_fb i f w) = g_booted w" "g_bus_booted (update_fb i f w) = g_bus_booted w"
  "obs_log (update_fb i f w) = obs_log w" "g_boot_order (update_fb i f w) = g_boot_order w"
  "g_dispatch_sem (update_fb i f w) = g_dispatch_sem w"
  "g_notify_fn (update_fb i f w) = g_notify_fn w" "user (update_fb i f w) = user w"
  by (simp_all add: update_fb_def)

lemma emit_frame [simp]:
  "g_registry (emit a b c d e w) = g_registry w" "g_ep (emit a b c d e w) = g_ep w"
  "g_subs (emit a b c d e w) = g_subs w" "g_booted (emit a b c d e w) = g_booted w"
  "g_bus_booted (emit a b c d e w) = g_bus_booted w" "g_boot_order (emit a b c d e w) = g_boot_order w"
  "g_dispatch_sem (emit a b c d e w) = g_dispatch_sem w" "g_drop_count (emit a b c d e w) = g_drop_count w"
  "g_notify_fn (emit a b c d e w) = g_notify_fn w" "user (emit a b c d e w) = user w"
  "fb_at (emit a b c d e w) i = fb_at w i"
  "obs_log (emit a b c d e w) = obs_log w @ [Obs_Call a b c d e]"
  by (simp_all add: emit_def fb_at_def)

lemma unat_small_index: "i \<le> 64 \<Longrightarrow> unat (word_of_nat i :: u8) = i"
  by (simp add: unat_of_nat_small)

lemma register_inv:
  "registry_inv w \<Longrightarrow> registry_inv (snd (embediq_fb_register c w))"
  by (cases c) (auto simp: embediq_fb_register_def registry_inv_def fb_at_def nth_append fb_ok_def
      fb_subs_def embediq_const less_Suc_eq)

lemma scan_name_Some:
  "scan_name n k fs = Some i \<Longrightarrow>
   k \<le> i \<and> i < k + length fs \<and> fc_name (fb_config (fs ! (i - k))) = Some n \<and>
   (\<forall>j < i - k. fc_name (fb_config (fs ! j)) \<noteq> Some n)"
proof (induction fs arbitrary: k)
  case (Cons f fs)
  show ?case
  proof (cases "fc_name (fb_config f) = Some n")
    case False
    with Cons have *: "k + 1 \<le> i" "i < k + 1 + length fs"
        "fc_name (fb_config (fs ! (i - (k + 1)))) = Some n"
        "\<forall>j < i - (k + 1). fc_name (fb_config (fs ! j)) \<noteq> Some n"
      using Cons.IH [of "k + 1"] by auto
    then have "i - k = Suc (i - (k + 1))" by simp
    with * False show ?thesis by (auto simp: nth_Cons split: nat.splits)
  qed (use Cons.prems in auto)
qed simp

lemma scan_name_None:
  "scan_name n k fs = None \<longleftrightarrow> (\<forall>f \<in> set fs. fc_name (fb_config f) \<noteq> Some n)"
  by (induction fs arbitrary: k) auto

text \<open>Registering a sub-function succeeds exactly during the parent's init call and below the
  limit of 16; it then puts the new one behind all sub-functions of the same or a lower
  init_order, so the dispatch order is by ascending init_order and otherwise by registration;
  in every other case it returns -1 and changes nothing.\<close>

theorem subfn_register_ordered:
  assumes "registry_inv w" and "i < length (g_registry w)"
  shows "embediq_subfn_register (Some i) (Some c) w =
     (if fb_registering (fb_at w i) \<and> length (fb_subs (fb_at w i)) < 16
      then (0, update_fb i (\<lambda>f. f\<lparr>
             fb_subfns := insert_after sf_init_order c (fb_subs f) @ drop (Suc (unat (fb_subfn_count f))) (fb_subfns f),
             fb_subfn_count := word_of_nat (Suc (unat (fb_subfn_count f)))\<rparr>) w)
      else (-1, w)) \<and>
   registry_inv (snd (embediq_subfn_register (Some i) (Some c) w)) \<and>
   fb_subs (fb_at (snd (embediq_subfn_register (Some i) (Some c) w)) i) =
     (if fb_registering (fb_at w i) \<and> length (fb_subs (fb_at w i)) < 16
      then insert_after sf_init_order c (fb_subs (fb_at w i)) else fb_subs (fb_at w i))"
proof -
  let ?f = "fb_at w i" and ?n = "unat (fb_subfn_count (fb_at w i))"
  have ok: "length (fb_subfns ?f) = 16" "?n \<le> 16" "sorted (map sf_init_order (fb_subs ?f))"
    using assms by (simp_all add: registry_inv_def fb_ok_def)
  have len: "length (fb_subs ?f) = ?n" using ok by (simp add: fb_subs_def)
  show ?thesis
  proof (cases "fb_registering ?f \<and> ?n < 16")
    case True
    let ?new = "insert_after sf_init_order c (fb_subs ?f) @ drop (Suc ?n) (fb_subfns ?f)"
    have shift: "shift_insert sf_init_order (fb_subfns ?f) ?n c = ?new"
      using shift_insert_correct [of ?n "fb_subfns ?f" sf_init_order c] ok True
      by (simp add: fb_subs_def)
    have cnt: "fb_subfn_count ?f + 1 = word_of_nat (Suc ?n)" by simp
    have un: "unat (word_of_nat (Suc ?n) :: u8) = Suc ?n" using unat_small_index [of "Suc ?n"] True by (simp del: of_nat_Suc)
    let ?w = "update_fb i (\<lambda>f. f\<lparr>
        fb_subfns := insert_after sf_init_order c (fb_subs f) @ drop (Suc (unat (fb_subfn_count f))) (fb_subfns f),
        fb_subfn_count := word_of_nat (Suc (unat (fb_subfn_count f)))\<rparr>) w"
    have reg: "embediq_subfn_register (Some i) (Some c) w = (0, ?w)"
      using True shift cnt by (simp add: embediq_subfn_register_def embediq_const word_le_nat_alt
          update_fb_def fb_at_def add.commute)
    have subs: "fb_subs (fb_at ?w i) = insert_after sf_init_order c (fb_subs ?f)"
      using assms(2) un len by (simp add: fb_subs_def [of "_\<lparr>fb_subfns := _\<rparr>"] del: of_nat_Suc) (simp add: fb_subs_def)
    have "fb_ok (fb_at ?w i)"
      using subs sorted_insert_after [OF ok(3), of c] ok un len True assms(2)
      by (simp add: fb_ok_def del: of_nat_Suc)
    then have "registry_inv ?w" using assms by (auto simp: registry_inv_def)
    with reg subs True len show ?thesis by simp
  next
    case False
    then have "embediq_subfn_register (Some i) (Some c) w = (-1, w)"
      by (auto simp: embediq_subfn_register_def embediq_const word_le_nat_alt)
    with False len assms(1) show ?thesis by auto
  qed
qed


definition demo_fb :: fb where
  "demo_fb = \<lparr>fb_config = \<lparr>fc_name = Some ''a'', fc_priority = 0, fc_stack_size = 0,
       fc_init_fn = None, fc_run_fn = None, fc_exit_fn = None, fc_fault_fn = None, fc_fb_data = 0,
       fc_subscriptions = Some [7], fc_subscription_count = 1, fc_publications = None,
       fc_publication_count = 0, fc_depends_on = [], fc_depends_count = 0, fc_boot_phase = 3\<rparr>,
     fb_state = STATE_IDLE, fb_ep_idx = 0, fb_subfn_count = 0,
     fb_subfns = replicate 16 zero_subfn, fb_registering = True\<rparr>"

definition demo_world :: "unit world" where
  "demo_world = (world_initial ())\<lparr>g_registry := [demo_fb]\<rparr>"

lemma demo_world_simps: "registry_inv demo_world" "g_registry demo_world = [demo_fb]"
  "fb_at demo_world 0 = demo_fb" "fb_registering demo_fb" "fb_subs demo_fb = []"
  by (simp_all add: demo_world_def demo_fb_def registry_inv_def fb_ok_def fb_subs_def fb_at_def)

lemma subfn_register_ordered_witness:
  "fst (embediq_subfn_register (Some 0) (Some zero_subfn) demo_world) = 0 \<and>
   fb_subs (fb_at (snd (embediq_subfn_register (Some 0) (Some zero_subfn) demo_world)) 0) = [zero_subfn]"
  using subfn_register_ordered [of demo_world 0 zero_subfn]
  by (simp add: demo_world_simps) (simp add: fb_subs_def demo_fb_def)

end
