(* ===== verification/Bus.thy ===== *)
theory Bus
  imports Registry
begin

text \<open>
  core/src/bus/message_bus.c: the subscription table (insertion sort, binary search), the three
  queues of every endpoint, routing with the overflow policy of each priority, and the receive
  the dispatch loop uses. A publisher that blocks on a full HIGH queue is \<open>None\<close>. Contents: the
  operations; the table's correctness; the bus invariant; what one delivery and a whole routing
  do to the queues, stated on the lists of queued messages.
\<close>

section \<open>Subscription table\<close>

lemma length_shift_insert [simp]: "length (shift_insert key arr pos x) = length arr"
proof (induction key arr pos x rule: shift_insert.induct)
  case (1 key arr pos x)
  then show ?case by (subst shift_insert.simps) simp
qed

text \<open>The outer loop of \<open>sub_sort\<close> from index \<open>i\<close> on; its inner loop is \<open>shift_insert\<close>.\<close>

function sub_sort_from :: "nat \<Rightarrow> sub_entry list \<Rightarrow> sub_entry list" where
  "sub_sort_from i subs =
     (if i < length subs then sub_sort_from (i + 1) (shift_insert sub_msg_id subs i (subs ! i))
      else subs)"
  by pat_completeness auto

termination by (relation "measure (\<lambda>(i, subs). length subs - i)") auto

declare sub_sort_from.simps [simp del]

definition sub_sort :: "'u world \<Rightarrow> 'u world" where
  "sub_sort w = w\<lparr>g_subs := sub_sort_from 1 (g_subs w)\<rparr>"

text \<open>The search loop of \<open>sub_first\<close>, on the code's signed indices.\<close>

function sub_search :: "sub_entry list \<Rightarrow> u16 \<Rightarrow> int \<Rightarrow> int \<Rightarrow> int \<Rightarrow> int" where
  "sub_search subs target lo hi found =
     (if lo \<le> hi then
        let mid = lo + (hi - lo) div 2 in
        if sub_msg_id (subs ! nat mid) = target then sub_search subs target lo (mid - 1) mid
        else if sub_msg_id (subs ! nat mid) < target then sub_search subs target (mid + 1) hi found
        else sub_search subs target lo (mid - 1) found
      else found)"
  by pat_completeness auto

termination by (relation "measure (\<lambda>(subs, target, lo, hi, found). nat (hi - lo + 1))") auto

declare sub_search.simps [simp del]

definition sub_first :: "u16 \<Rightarrow> 'u world \<Rightarrow> int" where
  "sub_first target w = sub_search (g_subs w) target 0 (int (length (g_subs w)) - 1) (-1)"

section \<open>Boot\<close>

definition message_bus_set_notify_fn :: "bool \<Rightarrow> 'u world \<Rightarrow> 'u world" where
  "message_bus_set_notify_fn fn w = w\<lparr>g_notify_fn := fn\<rparr>"

text \<open>One \<open>embediq_osal_queue_create\<close> for messages; \<open>mem n\<close> tells whether the n-th succeeds.\<close>

definition bus_queue_create ::
  "(nat \<Rightarrow> bool) \<Rightarrow> u16 \<Rightarrow> 'u world \<Rightarrow> embediq_msg osal_queue option \<times> 'u world" where
  "bus_queue_create mem depth w =
     (embediq_osal_queue_create (mem (allocs w)) depth, w\<lparr>allocs := allocs w + 1\<rparr>)"

definition boot_endpoint :: "(nat \<Rightarrow> bool) \<Rightarrow> 'u world \<Rightarrow> 'u world" where
  "boot_endpoint mem w =
     (let (h, w1) = bus_queue_create mem EMBEDIQ_HIGH_QUEUE_DEPTH w;
          (n, w2) = bus_queue_create mem EMBEDIQ_NORMAL_QUEUE_DEPTH w1;
          (l, w3) = bus_queue_create mem EMBEDIQ_LOW_QUEUE_DEPTH w2
      in w3\<lparr>g_ep := g_ep w3 @ [\<lparr>ep_q = [h, n, l], ep_cap = [EMBEDIQ_HIGH_QUEUE_DEPTH,
               EMBEDIQ_NORMAL_QUEUE_DEPTH, EMBEDIQ_LOW_QUEUE_DEPTH]\<rparr>]\<rparr>)"

fun add_subs :: "u8 \<Rightarrow> u16 list \<Rightarrow> sub_entry list \<Rightarrow> sub_entry list" where
  "add_subs i [] subs = subs"
| "add_subs i (m # ms) subs =
     (if length subs \<ge> EMBEDIQ_MAX_SUBSCRIPTIONS then subs
      else add_subs i ms (subs @ [\<lparr>sub_msg_id = m, sub_ep_id = i\<rparr>]))"

fun collect_subs :: "nat \<Rightarrow> fb list \<Rightarrow> sub_entry list \<Rightarrow> sub_entry list" where
  "collect_subs i [] subs = subs"
| "collect_subs i (f # fs) subs =
     collect_subs (i + 1) fs (add_subs (word_of_nat i) (cfg_subs (fb_config f)) subs)"

definition message_bus_boot :: "(nat \<Rightarrow> bool) \<Rightarrow> 'u world \<Rightarrow> 'u world" where
  "message_bus_boot mem w =
     (if g_bus_booted w then w
      else let w1 = (boot_endpoint mem ^^ length (g_registry w)) (w\<lparr>g_ep := []\<rparr>);
               w2 = sub_sort (w1\<lparr>g_subs := collect_subs 0 (g_registry w) []\<rparr>)
           in w2\<lparr>g_bus_booted := True\<rparr>)"

definition embediq_bus_resolve_id :: "u8 \<Rightarrow> 'u world \<Rightarrow> string option" where
  "embediq_bus_resolve_id ep w = (case fb_engine__reg_config ep w of
     None \<Rightarrow> None | Some cfg \<Rightarrow> fc_name cfg)"

section \<open>Notification (fb_engine.c)\<close>

definition embediq_engine_notify_fb :: "u8 \<Rightarrow> 'u world \<Rightarrow> 'u world" where
  "embediq_engine_notify_fb ep w =
     (if unat ep \<ge> EMBEDIQ_MAX_ENDPOINTS then w
      else case g_dispatch_sem w ! unat ep of
        None \<Rightarrow> w
      | Some s \<Rightarrow> w\<lparr>g_dispatch_sem := (g_dispatch_sem w)[unat ep := Some (embediq_sem_post s)]\<rparr>)"

definition bus_notify :: "u8 \<Rightarrow> 'u world \<Rightarrow> 'u world" where
  "bus_notify ep w = (if g_notify_fn w then embediq_engine_notify_fb ep w else w)"

section \<open>Routing\<close>

definition log_calls :: "obs_call list \<Rightarrow> 'u world \<Rightarrow> 'u world" where
  "log_calls cs w = w\<lparr>obs_log := obs_log w @ cs\<rparr>"

definition set_queue :: "nat \<Rightarrow> nat \<Rightarrow> embediq_msg osal_queue \<Rightarrow> 'u world \<Rightarrow> 'u world" where
  "set_queue ep p q w = w\<lparr>g_ep := (g_ep w)[ep := (g_ep w ! ep)\<lparr>
     ep_q := (ep_q (g_ep w ! ep))[p := Some q]\<rparr>]\<rparr>"

text \<open>\<open>BUS_QUEUE_DEPTH_CHECK\<close>: compiled in from trace level 2 on.\<close>

definition BUS_QUEUE_DEPTH_CHECK ::
  "embediq_msg osal_queue \<Rightarrow> u16 \<Rightarrow> u8 \<Rightarrow> u8 \<Rightarrow> u16 \<Rightarrow> 'u world \<Rightarrow> 'u world" where
  "BUS_QUEUE_DEPTH_CHECK q cap src dst mid w =
     (if EMBEDIQ_TRACE_LEVEL \<ge> 2 \<and> cap > 0
      then let pct = ucast (ucast (embediq_osal_queue_count q) * 100 div ucast cap :: u32)
           in if pct \<ge> EMBEDIQ_QUEUE_WARN_THRESHOLD
              then emit EMBEDIQ_OBS_EVT_BUS_QUEUE_DEPTH src dst pct mid w else w
      else w)"

definition clamp_priority :: "u8 \<Rightarrow> u8" where
  "clamp_priority p =
     (if p > EMBEDIQ_MSG_PRIORITY_LOW then EMBEDIQ_MSG_PRIORITY_NORMAL else p)"

text \<open>What follows a successful enqueue: the queue is stored, its depth checked, the FB woken.\<close>

definition enqueued ::
  "embediq_msg \<Rightarrow> nat \<Rightarrow> u8 \<Rightarrow> embediq_msg osal_queue \<Rightarrow> 'u world \<Rightarrow> 'u world" where
  "enqueued m prio ep q w =
     bus_notify ep (BUS_QUEUE_DEPTH_CHECK q (ep_cap (g_ep w ! unat ep) ! prio)
       (source_endpoint_id m) ep (msg_id m) (set_queue (unat ep) prio q w))"

definition bus_drop :: "embediq_msg \<Rightarrow> u8 \<Rightarrow> u8 \<Rightarrow> 'u world \<Rightarrow> 'u world" where
  "bus_drop m prio ep w =
     (emit EMBEDIQ_OBS_EVT_QUEUE_DROP (source_endpoint_id m) ep prio (msg_id m) w)\<lparr>
        g_drop_count := g_drop_count w + 1\<rparr>"

text \<open>One round of the delivery loop of \<open>route_message\<close>.\<close>

definition route_one :: "embediq_msg \<Rightarrow> u8 \<Rightarrow> u8 \<Rightarrow> 'u world \<Rightarrow> 'u world option" where
  "route_one m prio ep w =
     (if unat ep \<ge> length (g_ep w) then Some w
      else case ep_q (g_ep w ! unat ep) ! unat prio of
        None \<Rightarrow> Some w
      | Some q \<Rightarrow>
          if prio = EMBEDIQ_MSG_PRIORITY_HIGH then do {
            (_, q1, ev) \<leftarrow> embediq_osal_queue_send q m UINT32_MAX;
            Some (enqueued m (unat prio) ep q1 (log_calls ev w)) }
          else if prio = EMBEDIQ_MSG_PRIORITY_NORMAL then do {
            (e, q1, ev) \<leftarrow> embediq_osal_queue_send q m 0;
            if e \<noteq> EMBEDIQ_OK then do {
              (_, _, q2) \<leftarrow> embediq_osal_queue_recv q1 0;
              (_, q3, ev3) \<leftarrow> embediq_osal_queue_send q2 m 0;
              Some (enqueued m (unat prio) ep q3
                (bus_drop m prio ep (log_calls ev3 (log_calls ev w)))) }
            else Some (enqueued m (unat prio) ep q1 (log_calls ev w)) }
          else do {
            (e, q1, ev) \<leftarrow> embediq_osal_queue_send q m 0;
            if e = EMBEDIQ_OK then Some (enqueued m (unat prio) ep q1 (log_calls ev w))
            else Some (bus_drop m prio ep (log_calls ev w)) })"

text \<open>The loop: it runs over the table from the first entry found, while the identifier matches.\<close>

fun route_from :: "embediq_msg \<Rightarrow> u8 \<Rightarrow> sub_entry list \<Rightarrow> 'u world \<Rightarrow> 'u world option" where
  "route_from m prio [] w = Some w"
| "route_from m prio (s # ss) w =
     (if sub_msg_id s = msg_id m
      then do { w1 \<leftarrow> route_one m prio (sub_ep_id s) w; route_from m prio ss w1 }
      else Some w)"

text \<open>The warning on stdout about identifiers of the reserved range is left out.\<close>

definition route_message :: "embediq_msg \<Rightarrow> 'u world \<Rightarrow> 'u world option" where
  "route_message m w =
     (let first = sub_first (msg_id m) w
      in if first < 0 then Some w
         else route_from m (clamp_priority (priority m)) (drop (nat first) (g_subs w)) w)"

text \<open>The publishing entry points; the message is an in-out parameter.\<close>

definition embediq_publish ::
  "handle \<Rightarrow> embediq_msg option \<Rightarrow> 'u world \<Rightarrow> (embediq_msg option \<times> 'u world) option" where
  "embediq_publish h msg w = (case msg of
     None \<Rightarrow> Some (None, w)
   | Some m \<Rightarrow> let m' = m\<lparr>source_endpoint_id := fb_engine__get_ep_id h w\<rparr>
      in map_option (\<lambda>w'. (Some m', w')) (route_message m' w))"

definition embediq_bus_bridge_route ::
  "u8 \<Rightarrow> embediq_msg option \<Rightarrow> 'u world \<Rightarrow> (embediq_err \<times> 'u world) option" where
  "embediq_bus_bridge_route vep msg w = (case msg of
     None \<Rightarrow> Some (EMBEDIQ_ERR_INVALID, w)
   | Some m \<Rightarrow> map_option (\<lambda>w'. (EMBEDIQ_OK, w')) (route_message (m\<lparr>source_endpoint_id := vep\<rparr>) w))"

definition bus_inject :: "embediq_msg \<Rightarrow> 'u world \<Rightarrow> 'u world option" where
  "bus_inject m w = route_message (m\<lparr>source_endpoint_id := 0xFE\<rparr>) w"

definition message_bus_recv_ep :: "u8 \<Rightarrow> u8 \<Rightarrow> 'u world \<Rightarrow> embediq_msg option \<times> 'u world" where
  "message_bus_recv_ep ep prio w =
     (if unat ep \<ge> length (g_ep w) \<or> prio > 2 then (None, w)
      else case ep_q (g_ep w ! unat ep) ! unat prio of
        None \<Rightarrow> (None, w)
      | Some q \<Rightarrow> (case embediq_osal_queue_recv q 0 of
          Some (e, item, q') \<Rightarrow>
            (if e = EMBEDIQ_OK then item else None, set_queue (unat ep) (unat prio) q' w)
        | None \<Rightarrow> (None, w)))"

definition message_bus__test_recv :: "u8 \<Rightarrow> u8 \<Rightarrow> 'u world \<Rightarrow> embediq_msg option \<times> 'u world" where
  "message_bus__test_recv ep prio w = message_bus_recv_ep ep prio w"

definition message_bus__reset :: "'u world \<Rightarrow> 'u world" where
  "message_bus__reset w = w\<lparr>g_ep := [], g_subs := [], g_bus_booted := False, g_drop_count := 0,
     g_notify_fn := False\<rparr>"

definition message_bus__get_notify_fn :: "'u world \<Rightarrow> bool" where
  "message_bus__get_notify_fn w = g_notify_fn w"

definition message_bus__drop_count :: "'u world \<Rightarrow> u32" where
  "message_bus__drop_count w = g_drop_count w"


section \<open>The subscription table\<close>

lemma mset_insert_after [simp]: "mset (insert_after key x ys) = add_mset x (mset ys)"
  by (induction ys) auto

lemma sort_key_snoc: "sort_key key (xs @ [x]) = insert_after key x (sort_key key xs)"
proof (rule properties_for_sort_key)
  fix k
  have s: "filter (\<lambda>y. key y = c) (sort_key key xs) = filter (\<lambda>y. key y = c) xs" for c
    by (rule sort_key_stable)
  show "filter (\<lambda>y. key k = key y) (insert_after key x (sort_key key xs)) =
      filter (\<lambda>y. key k = key y) (xs @ [x])"
    using filter_insert_after [of key "sort_key key xs" "key k" x]
    by (simp add: s eq_commute [of "key k"])
qed (simp_all add: sorted_insert_after)

lemma sub_sort_from_sorts:
  assumes "length arr = length subs" and "i \<le> length subs"
    and "take i arr = sort_key sub_msg_id (take i subs)" and "drop i arr = drop i subs"
  shows "sub_sort_from i arr = sort_key sub_msg_id subs"
  using assms
proof (induction i arr rule: sub_sort_from.induct)
  case (1 i arr)
  show ?case
  proof (cases "i < length arr")
    case False
    with 1 show ?thesis by (simp add: sub_sort_from.simps)
  next
    case True
    have x: "arr ! i = subs ! i" and dr: "drop (Suc i) arr = drop (Suc i) subs"
      using 1(5) True 1(2) by (metis Cons_nth_drop_Suc list.inject)+
    have "shift_insert sub_msg_id arr i (subs ! i) =
        insert_after sub_msg_id (subs ! i) (take i arr) @ drop (Suc i) arr"
      using shift_insert_correct [of i arr sub_msg_id "subs ! i"] True 1(4) by simp
    also have "insert_after sub_msg_id (subs ! i) (take i arr) =
        sort_key sub_msg_id (take (i + 1) subs)"
      using True 1(2,4) by (simp add: take_Suc_conv_app_nth sort_key_snoc)
    finally have sh: "shift_insert sub_msg_id arr i (arr ! i) =
        sort_key sub_msg_id (take (i + 1) subs) @ drop (Suc i) subs" by (simp add: x dr)
    have "sub_sort_from (i + 1) (shift_insert sub_msg_id arr i (arr ! i)) = sort_key sub_msg_id subs"
      using True 1(2) by (intro 1(1)) (simp_all add: sh)
    with True show ?thesis by (subst sub_sort_from.simps) simp
  qed
qed

text \<open>The table sort at boot is a stable sort by message identifier, so the endpoints of one
  message keep the order of registration.\<close>

theorem sub_sort_stable: "g_subs (sub_sort w) = sort_key sub_msg_id (g_subs w)"
proof (cases "g_subs w")
  case Nil
  then show ?thesis by (simp add: sub_sort_def sub_sort_from.simps)
next
  case (Cons s ss)
  then show ?thesis
    using sub_sort_from_sorts [of "g_subs w" "g_subs w" 1] by (simp add: sub_sort_def)
qed

lemma sub_search_correct:
  assumes "sorted (map sub_msg_id subs)" and "0 \<le> lo" and "hi < int (length subs)"
    and "\<forall>j. j < nat lo \<longrightarrow> j < length subs \<longrightarrow> sub_msg_id (subs ! j) < t"
    and "found = -1 \<longrightarrow> (\<forall>j. hi < int j \<longrightarrow> j < length subs \<longrightarrow> t < sub_msg_id (subs ! j))"
    and "found \<noteq> -1 \<longrightarrow> found = hi + 1 \<and> 0 \<le> found \<and> nat found < length subs \<and>
       sub_msg_id (subs ! nat found) = t"
  shows "let r = sub_search subs t lo hi found in
    (r = -1 \<and> (\<forall>s \<in> set subs. sub_msg_id s \<noteq> t)) \<or>
    (0 \<le> r \<and> nat r < length subs \<and> sub_msg_id (subs ! nat r) = t \<and>
       (\<forall>j < nat r. sub_msg_id (subs ! j) < t))"
  using assms
proof (induction subs t lo hi found rule: sub_search.induct)
  case (1 subs t lo hi found)
  have mono: "sub_msg_id (subs ! a) \<le> sub_msg_id (subs ! b)" if "a \<le> b" "b < length subs" for a b
    using sorted_nth_mono [OF 1(4), of a b] that by simp
  show ?case
  proof (cases "lo \<le> hi")
    case False
    then have r: "sub_search subs t lo hi found = found" by (simp add: sub_search.simps)
    show ?thesis
    proof (cases "found = -1")
      case True
      have "sub_msg_id (subs ! j) \<noteq> t" if "j < length subs" for j
      proof (cases "j < nat lo")
        case False
        then have "hi < int j" using \<open>\<not> lo \<le> hi\<close> by linarith
        with that True 1(8) show ?thesis by auto
      qed (use that 1(7) in auto)
      then have "\<forall>s \<in> set subs. sub_msg_id s \<noteq> t" by (simp add: all_set_conv_all_nth)
      with r True show ?thesis by simp
    next
      case fnd: False
      then have "nat found \<le> nat lo" using 1(9) False by simp
      with r fnd 1(7,9) show ?thesis by auto
    qed
  next
    case True
    let ?mid = "lo + (hi - lo) div 2"
    have mid: "lo \<le> ?mid" "?mid \<le> hi" "nat ?mid < length subs" using True 1(5,6) by auto
    consider (eq) "sub_msg_id (subs ! nat ?mid) = t" | (lt) "sub_msg_id (subs ! nat ?mid) < t"
      | (gt) "t < sub_msg_id (subs ! nat ?mid)" by fastforce
    then show ?thesis
    proof cases
      case eq
      then have "sub_search subs t lo hi found = sub_search subs t lo (?mid - 1) ?mid"
        using True by (subst sub_search.simps) (simp add: Let_def)
      then show ?thesis using 1(1) [OF True refl eq 1(4,5)] 1(5-9) mid eq mono by (auto simp: Let_def)
    next
      case lt
      then have st: "sub_search subs t lo hi found = sub_search subs t (?mid + 1) hi found"
        using True by (subst sub_search.simps) (auto simp: Let_def)
      have "\<forall>j. j < nat (?mid + 1) \<longrightarrow> j < length subs \<longrightarrow> sub_msg_id (subs ! j) < t"
      proof (intro allI impI)
        fix j assume "j < nat (?mid + 1)" "j < length subs"
        then have "j \<le> nat ?mid" using mid 1(5) by linarith
        then show "sub_msg_id (subs ! j) < t" using mono [of j "nat ?mid"] mid lt by simp
      qed
      then show ?thesis
        unfolding st using 1(2) [OF True refl less_imp_neq [OF lt] lt 1(4)] 1(5,6,8,9) mid by auto
    next
      case gt
      then have st: "sub_search subs t lo hi found = sub_search subs t lo (?mid - 1) found"
        using True by (subst sub_search.simps) (auto simp: Let_def)
      have above: "t < sub_msg_id (subs ! j)" if "nat ?mid \<le> j" "j < length subs" for j
        using mono [OF that] gt by simp
      have nf: "found = -1"
      proof (rule ccontr)
        assume "found \<noteq> -1"
        with 1(9) have f: "found = hi + 1" "nat found < length subs" "sub_msg_id (subs ! nat found) = t"
          by auto
        have "nat ?mid \<le> nat found" using f(1) mid(2) by linarith
        then show False using above [OF _ f(2)] f(3) by simp
      qed
      have "\<forall>j. ?mid - 1 < int j \<longrightarrow> j < length subs \<longrightarrow> t < sub_msg_id (subs ! j)"
        using above by auto
      then show ?thesis
        unfolding st
        using 1(3) [OF True refl less_imp_neq [OF gt, symmetric] less_not_sym [OF gt] 1(4,5)] 1(6,7) mid nf
        by auto
    qed
  qed
qed

lemma sub_first_eq:
  assumes "sorted (map sub_msg_id (g_subs w))"
  shows "sub_first t w = (if \<exists>s \<in> set (g_subs w). sub_msg_id s = t
     then int (length (takeWhile (\<lambda>s. sub_msg_id s < t) (g_subs w))) else -1)"
proof -
  let ?S = "g_subs w" and ?r = "sub_first t w"
  have "(?r = -1 \<and> (\<forall>s \<in> set ?S. sub_msg_id s \<noteq> t)) \<or>
    (0 \<le> ?r \<and> nat ?r < length ?S \<and> sub_msg_id (?S ! nat ?r) = t \<and>
       (\<forall>j < nat ?r. sub_msg_id (?S ! j) < t))"
    using sub_search_correct [OF assms, of 0 "int (length ?S) - 1" t "-1"]
    by (simp add: sub_first_def Let_def)
  then show ?thesis
  proof (elim disjE)
    assume r: "0 \<le> ?r \<and> nat ?r < length ?S \<and> sub_msg_id (?S ! nat ?r) = t \<and>
       (\<forall>j < nat ?r. sub_msg_id (?S ! j) < t)"
    then have "takeWhile (\<lambda>s. sub_msg_id s < t) ?S = take (nat ?r) ?S"
      by (intro takeWhile_eq_take_P_nth) auto
    moreover have "\<exists>s \<in> set ?S. sub_msg_id s = t" using r nth_mem by blast
    ultimately show ?thesis using r by (simp add: min_def)
  qed auto
qed

text \<open>On a table sorted by message identifier the binary search returns the index of the first
  entry of the identifier, and -1 exactly when there is none.\<close>

theorem sub_first_correct:
  assumes "sorted (map sub_msg_id (g_subs w))"
  shows "sub_first t w = (if \<exists>s \<in> set (g_subs w). sub_msg_id s = t
     then int (length (takeWhile (\<lambda>s. sub_msg_id s < t) (g_subs w))) else -1)"
  by (rule sub_first_eq [OF assms])

lemma sub_first_correct_witness:
  "sub_first 7 ((world_initial ())\<lparr>g_subs := [\<lparr>sub_msg_id = 3, sub_ep_id = 0\<rparr>,
     \<lparr>sub_msg_id = 7, sub_ep_id = 0\<rparr>, \<lparr>sub_msg_id = 7, sub_ep_id = 1\<rparr>]\<rparr>) = 1"
  using sub_first_correct [of "(world_initial ())\<lparr>g_subs := [\<lparr>sub_msg_id = 3, sub_ep_id = 0\<rparr>,
     \<lparr>sub_msg_id = 7, sub_ep_id = 0\<rparr>, \<lparr>sub_msg_id = 7, sub_ep_id = 1\<rparr>]\<rparr>" 7] by simp

text \<open>The entries the delivery loop visits are the table's entries of the identifier.\<close>

lemma sorted_run_front:
  fixes key :: "'a \<Rightarrow> 'k::linorder"
  shows "sorted (map key ys) \<Longrightarrow> \<forall>y \<in> set ys. t \<le> key y \<Longrightarrow>
    takeWhile (\<lambda>x. key x = t) ys = filter (\<lambda>x. key x = t) ys"
proof (induction ys)
  case (Cons y ys)
  show ?case
  proof (cases "key y = t")
    case False
    then have "\<forall>z \<in> set (y # ys). key z \<noteq> t" using Cons.prems by fastforce
    then have "filter (\<lambda>x. key x = t) (y # ys) = []" by (simp add: filter_empty_conv)
    with False show ?thesis by auto
  qed (use Cons in auto)
qed simp

lemma sorted_run:
  fixes key :: "'a \<Rightarrow> 'k::linorder"
  shows "sorted (map key xs) \<Longrightarrow>
    takeWhile (\<lambda>x. key x = t) (dropWhile (\<lambda>x. key x < t) xs) = filter (\<lambda>x. key x = t) xs"
proof (induction xs)
  case (Cons x xs)
  show ?case
  proof (cases "key x < t")
    case False
    then have "\<forall>y \<in> set (x # xs). t \<le> key y" using Cons.prems by fastforce
    with False sorted_run_front [OF Cons.prems this] show ?thesis by simp
  qed (use Cons in auto)
qed simp

fun route_all :: "embediq_msg \<Rightarrow> u8 \<Rightarrow> u8 list \<Rightarrow> 'u world \<Rightarrow> 'u world option" where
  "route_all m prio [] w = Some w"
| "route_all m prio (ep # eps) w = do { w1 \<leftarrow> route_one m prio ep w; route_all m prio eps w1 }"

lemma route_from_all:
  "route_from m prio ss =
   route_all m prio (map sub_ep_id (takeWhile (\<lambda>s. sub_msg_id s = msg_id m) ss))"
proof (induction ss)
  case (Cons s ss)
  show ?case by (rule ext) (simp add: Cons)
qed (simp add: fun_eq_iff)

text \<open>The endpoints of an identifier, with their multiplicity, in table order.\<close>

definition subscribers :: "u16 \<Rightarrow> 'u world \<Rightarrow> u8 list" where
  "subscribers t w = map sub_ep_id (filter (\<lambda>s. sub_msg_id s = t) (g_subs w))"

lemma route_message_all:
  assumes "sorted (map sub_msg_id (g_subs w))"
  shows "route_message m w =
    route_all m (clamp_priority (priority m)) (subscribers (msg_id m) w) w"
proof (cases "\<exists>s \<in> set (g_subs w). sub_msg_id s = msg_id m")
  case False
  then have "filter (\<lambda>s. sub_msg_id s = msg_id m) (g_subs w) = []" by (simp add: filter_empty_conv)
  moreover have "sub_first (msg_id m) w = -1" using False by (simp add: sub_first_eq [OF assms])
  ultimately show ?thesis by (simp add: route_message_def subscribers_def)
next
  case True
  then show ?thesis
    using sorted_run [OF assms, of "msg_id m"]
    by (simp add: route_message_def route_from_all subscribers_def sub_first_eq [OF assms]
        dropWhile_eq_drop [symmetric])
qed


section \<open>The queues of the endpoints\<close>

definition prio_cap :: "nat \<Rightarrow> nat" where
  "prio_cap p = (if p = 1 then 32 else 16)"

definition ep_ok :: "ep_queues \<Rightarrow> bool" where
  "ep_ok e \<longleftrightarrow> length (ep_q e) = 3 \<and>
     (\<forall>p < 3. \<exists>q. ep_q e ! p = Some q \<and> queue_inv q \<and> queue_cap q = prio_cap p)"

definition bus_inv :: "'u world \<Rightarrow> bool" where
  "bus_inv w \<longleftrightarrow> (\<forall>ep < length (g_ep w). ep_ok (g_ep w ! ep)) \<and> length (g_ep w) \<le> 64 \<and>
     sorted (map sub_msg_id (g_subs w)) \<and>
     (\<forall>s \<in> set (g_subs w). unat (sub_ep_id s) < length (g_ep w))"

text \<open>The messages waiting for an endpoint at a priority, oldest first.\<close>

definition ep_items :: "'u world \<Rightarrow> nat \<Rightarrow> nat \<Rightarrow> embediq_msg list" where
  "ep_items w ep p = (case ep_q (g_ep w ! ep) ! p of None \<Rightarrow> [] | Some q \<Rightarrow> queue_items q)"

text \<open>The abstract overflow policy: what \<open>k\<close> deliveries of \<open>m\<close> make of a waiting list.\<close>

definition deliver :: "nat \<Rightarrow> nat \<Rightarrow> embediq_msg \<Rightarrow> embediq_msg list \<Rightarrow> embediq_msg list" where
  "deliver p k m xs =
     (if p = 0 then xs @ replicate k m
      else if p = 1 then keep_newest (prio_cap p) (xs @ replicate k m)
      else take (prio_cap p) (xs @ replicate k m))"

lemma deliver_0 [simp]: "length xs \<le> prio_cap p \<Longrightarrow> deliver p 0 m xs = xs"
  by (auto simp: deliver_def keep_newest_short)

lemma deliver_Suc: "deliver p (Suc k) m xs = deliver p k m (deliver p 1 m xs)"
proof -
  have r: "xs @ replicate (Suc k) m = (xs @ [m]) @ replicate k m" by simp
  show ?thesis
  proof (cases "p \<noteq> 0 \<and> p \<noteq> 1")
    case True
    have "take n (take n (xs @ [m]) @ replicate k m) = take n ((xs @ [m]) @ replicate k m)" for n
      by (cases "n \<le> length xs") (simp_all add: min_def)
    then show ?thesis unfolding deliver_def r using True by simp
  next
    case False
    then show ?thesis unfolding deliver_def r by (auto simp: keep_newest_append_keep)
  qed
qed

text \<open>What routing leaves alone, besides the queues.\<close>

definition bus_frame :: "'u world \<Rightarrow> 'u world \<Rightarrow> bool" where
  "bus_frame w w' \<longleftrightarrow> g_registry w' = g_registry w \<and> g_subs w' = g_subs w \<and>
     length (g_ep w') = length (g_ep w) \<and> g_booted w' = g_booted w \<and> user w' = user w \<and>
     g_bus_booted w' = g_bus_booted w \<and> g_notify_fn w' = g_notify_fn w \<and>
     g_boot_order w' = g_boot_order w \<and> g_dispatch_running w' = g_dispatch_running w \<and>
     g_dispatch_shutdown w' = g_dispatch_shutdown w"

lemma bus_frame_refl [simp]: "bus_frame w w" and
  bus_frame_trans: "bus_frame a b \<Longrightarrow> bus_frame b c \<Longrightarrow> bus_frame a c"
  by (simp_all add: bus_frame_def)

lemma notify_frame [simp]:
  "g_registry (bus_notify ep w) = g_registry w" "g_subs (bus_notify ep w) = g_subs w"
  "g_ep (bus_notify ep w) = g_ep w" "g_booted (bus_notify ep w) = g_booted w"
  "user (bus_notify ep w) = user w" "g_bus_booted (bus_notify ep w) = g_bus_booted w"
  "g_notify_fn (bus_notify ep w) = g_notify_fn w" "g_boot_order (bus_notify ep w) = g_boot_order w"
  "g_drop_count (bus_notify ep w) = g_drop_count w" "obs_log (bus_notify ep w) = obs_log w"
  "g_dispatch_running (bus_notify ep w) = g_dispatch_running w"
  "g_dispatch_shutdown (bus_notify ep w) = g_dispatch_shutdown w"
  by (simp_all add: bus_notify_def embediq_engine_notify_fb_def split: option.splits)

lemma depth_check_off [simp]: "BUS_QUEUE_DEPTH_CHECK q c s d mid w = w"
  by (simp add: BUS_QUEUE_DEPTH_CHECK_def EMBEDIQ_TRACE_LEVEL_def)

lemma set_queue_frame [simp]:
  "g_registry (set_queue e p q w) = g_registry w" "g_subs (set_queue e p q w) = g_subs w"
  "length (g_ep (set_queue e p q w)) = length (g_ep w)" "g_booted (set_queue e p q w) = g_booted w"
  "user (set_queue e p q w) = user w" "g_bus_booted (set_queue e p q w) = g_bus_booted w"
  "g_notify_fn (set_queue e p q w) = g_notify_fn w"
  "g_boot_order (set_queue e p q w) = g_boot_order w" "obs_log (set_queue e p q w) = obs_log w"
  "g_drop_count (set_queue e p q w) = g_drop_count w"
  "g_dispatch_sem (set_queue e p q w) = g_dispatch_sem w"
  "g_dispatch_running (set_queue e p q w) = g_dispatch_running w"
  "g_dispatch_shutdown (set_queue e p q w) = g_dispatch_shutdown w"
  by (simp_all add: set_queue_def)

lemma log_frame [simp]:
  "g_registry (log_calls cs w) = g_registry w" "g_subs (log_calls cs w) = g_subs w"
  "g_ep (log_calls cs w) = g_ep w" "g_booted (log_calls cs w) = g_booted w"
  "user (log_calls cs w) = user w" "g_bus_booted (log_calls cs w) = g_bus_booted w"
  "g_notify_fn (log_calls cs w) = g_notify_fn w" "g_boot_order (log_calls cs w) = g_boot_order w"
  "g_drop_count (log_calls cs w) = g_drop_count w" "obs_log (log_calls cs w) = obs_log w @ cs"
  "g_dispatch_running (log_calls cs w) = g_dispatch_running w"
  "g_dispatch_shutdown (log_calls cs w) = g_dispatch_shutdown w"
  "g_dispatch_sem (log_calls cs w) = g_dispatch_sem w"
  by (simp_all add: log_calls_def)

lemma drop_frame [simp]:
  "g_registry (bus_drop m p e w) = g_registry w" "g_subs (bus_drop m p e w) = g_subs w"
  "g_ep (bus_drop m p e w) = g_ep w" "g_booted (bus_drop m p e w) = g_booted w"
  "user (bus_drop m p e w) = user w" "g_bus_booted (bus_drop m p e w) = g_bus_booted w"
  "g_notify_fn (bus_drop m p e w) = g_notify_fn w" "g_boot_order (bus_drop m p e w) = g_boot_order w"
  "g_drop_count (bus_drop m p e w) = g_drop_count w + 1"
  "g_dispatch_running (bus_drop m p e w) = g_dispatch_running w"
  "g_dispatch_shutdown (bus_drop m p e w) = g_dispatch_shutdown w"
  "g_dispatch_sem (bus_drop m p e w) = g_dispatch_sem w"
  by (simp_all add: bus_drop_def emit_def)

lemma set_queue_ep:
  assumes "ep < length (g_ep w)" and "ep_ok (g_ep w ! ep)" and "p < 3"
    and "queue_inv q" and "queue_cap q = prio_cap p"
  shows "ep_ok (g_ep (set_queue ep p q w) ! ep)"
    and "ep_items (set_queue ep p q w) ep' p' =
       (if ep' = ep \<and> p' = p then queue_items q else ep_items w ep' p')"
  using assms by (auto simp: set_queue_def ep_ok_def ep_items_def nth_list_update)

lemma set_queue_inv:
  assumes "bus_inv w" and "ep < length (g_ep w)" and "p < 3"
    and "queue_inv q" and "queue_cap q = prio_cap p"
  shows "bus_inv (set_queue ep p q w)"
proof -
  have "g_ep (set_queue ep p q w) ! e = g_ep w ! e" if "e \<noteq> ep" for e
    using that by (simp add: set_queue_def)
  then have "ep_ok (g_ep (set_queue ep p q w) ! e)" if "e < length (g_ep w)" for e
    using that assms set_queue_ep(1) [OF assms(2) _ assms(3-5)] by (cases "e = ep") (auto simp: bus_inv_def)
  then show ?thesis using assms(1) by (simp add: bus_inv_def)
qed

lemma bus_inv_cong: "g_ep w' = g_ep w \<Longrightarrow> g_subs w' = g_subs w \<Longrightarrow> bus_inv w' = bus_inv w"
  by (simp add: bus_inv_def)

lemma ep_items_cong: "g_ep w' = g_ep w \<Longrightarrow> ep_items w' = ep_items w"
  by (simp add: ep_items_def fun_eq_iff)

text \<open>The state after one delivery that stores queue \<open>q\<close>.\<close>

lemma enqueued_step:
  assumes "bus_inv w" and "unat ep < length (g_ep w)" and "p < 3"
    and "queue_inv q" and "queue_cap q = prio_cap p" and "g_ep w1 = g_ep w" and "bus_frame w w1"
  shows "bus_inv (enqueued m p ep q w1) \<and> bus_frame w (enqueued m p ep q w1) \<and>
    (\<forall>e p'. ep_items (enqueued m p ep q w1) e p' =
       (if e = unat ep \<and> p' = p then queue_items q else ep_items w e p')) \<and>
    g_drop_count (enqueued m p ep q w1) = g_drop_count w1"
proof -
  have inv: "bus_inv w1" using assms(1,6,7) by (simp add: bus_inv_def bus_frame_def)
  have ok: "ep_ok (g_ep w1 ! unat ep)" using assms(1,2,6) by (simp add: bus_inv_def)
  let ?s = "set_queue (unat ep) p q w1"
  have e: "g_ep (enqueued m p ep q w1) = g_ep ?s" "g_subs (enqueued m p ep q w1) = g_subs ?s"
    by (simp_all add: enqueued_def)
  have "bus_inv ?s" using set_queue_inv [OF inv _ assms(3-5)] assms(2,6) by simp
  moreover have "ep_items ?s e p' = (if e = unat ep \<and> p' = p then queue_items q else ep_items w e p')" for e p'
    using set_queue_ep(2) [OF _ ok assms(3-5)] assms(2,6) ep_items_cong [OF assms(6)] by simp
  moreover have "bus_frame w (enqueued m p ep q w1)"
    using assms(7) by (simp add: enqueued_def bus_frame_def)
  ultimately show ?thesis
    using bus_inv_cong [OF e] ep_items_cong [OF e(1)] by (simp add: enqueued_def)
qed


lemma enqueued_sems:
  "g_dispatch_sem (enqueued m p ep q w) = g_dispatch_sem (bus_notify ep w)"
  by (simp add: enqueued_def bus_notify_def embediq_engine_notify_fb_def split: option.split)

lemma bus_notify_log [simp]: "g_dispatch_sem (bus_notify ep (log_calls cs w)) = g_dispatch_sem (bus_notify ep w)"
  by (simp add: bus_notify_def embediq_engine_notify_fb_def split: option.split)

lemma ep_queue:
  assumes "bus_inv w" and "ep < length (g_ep w)" and "p < 3"
  obtains q where "ep_q (g_ep w ! ep) ! p = Some q" and "queue_inv q" and "queue_cap q = prio_cap p"
    and "ep_items w ep p = queue_items q" and "length (queue_items q) \<le> prio_cap p"
proof -
  have "ep_ok (g_ep w ! ep)" using assms by (simp add: bus_inv_def)
  then obtain q where q: "ep_q (g_ep w ! ep) ! p = Some q" "queue_inv q" "queue_cap q = prio_cap p"
    using assms(3) unfolding ep_ok_def by blast
  then show ?thesis
    using that posix_queue.items_bounded [of q] by (simp add: ep_items_def)
qed

definition routed :: "nat \<Rightarrow> nat \<Rightarrow> nat \<Rightarrow> embediq_msg \<Rightarrow> 'u world \<Rightarrow> 'u world \<Rightarrow> bool" where
  "routed ep p k m w w' \<longleftrightarrow> bus_inv w' \<and> bus_frame w w' \<and>
     (\<forall>e p'. ep_items w' e p' =
        (if e = ep \<and> p' = p then deliver p k m (ep_items w e p') else ep_items w e p'))"

lemma prio_cap_pos [simp]: "0 < prio_cap p"
  by (simp add: prio_cap_def)

lemma route_one_room:
  assumes inv: "bus_inv w" and ep: "unat ep < length (g_ep w)" and p: "prio \<le> 2"
    and room: "length (ep_items w (unat ep) (unat prio)) < prio_cap (unat prio)"
  shows "\<exists>w'. route_one m prio ep w = Some w' \<and> routed (unat ep) (unat prio) 1 m w w' \<and>
    g_drop_count w' = g_drop_count w \<and> g_dispatch_sem w' = g_dispatch_sem (bus_notify ep w)"
proof -
  have p3: "unat prio < 3" using p by (simp add: word_le_nat_alt)
  obtain q where q: "ep_q (g_ep w ! unat ep) ! unat prio = Some q" "queue_inv q"
      "queue_cap q = prio_cap (unat prio)" "ep_items w (unat ep) (unat prio) = queue_items q"
    using ep_queue [OF inv ep p3] by metis
  have r: "length (queue_items q) < queue_cap q" using room q by simp
  note s = queue_send_room [OF q(2) r, of m]
  have "route_one m prio ep w = Some (enqueued m (unat prio) ep (queue_put q m) (log_calls [] w))"
    using ep q(1) s(1) p by (simp add: route_one_def)
  moreover have "deliver (unat prio) 1 m (queue_items q) = queue_items q @ [m]"
    using r q(3) by (cases "unat prio = 1") (simp_all add: deliver_def keep_newest_short)
  ultimately show ?thesis
    using enqueued_step [OF inv ep p3 s(2), of "log_calls [] w" m] s(3,4) q(3,4)
    by (simp add: routed_def bus_frame_def enqueued_sems)
qed

lemma route_one_full:
  assumes inv: "bus_inv w" and ep: "unat ep < length (g_ep w)" and p: "prio \<le> 2"
    and full: "length (ep_items w (unat ep) (unat prio)) = prio_cap (unat prio)"
  shows "if prio = 0 then route_one m prio ep w = None
    else \<exists>w'. route_one m prio ep w = Some w' \<and> routed (unat ep) (unat prio) 1 m w w' \<and>
      g_drop_count w' = g_drop_count w + 1"
proof -
  have p3: "unat prio < 3" using p by (simp add: word_le_nat_alt)
  obtain q where q: "ep_q (g_ep w ! unat ep) ! unat prio = Some q" "queue_inv q"
      "queue_cap q = prio_cap (unat prio)" "ep_items w (unat ep) (unat prio) = queue_items q"
    using ep_queue [OF inv ep p3] by metis
  have f: "length (queue_items q) = queue_cap q" using full q by simp
  note s = queue_send_full [OF q(2) f, of m]
  consider (h) "prio = 0" | (n) "prio = 1" | (l) "prio \<noteq> 0" "prio \<noteq> 1" by blast
  then show ?thesis
  proof cases
    case h
    then show ?thesis using ep q(1) s by (simp add: route_one_def embediq_const)
  next
    case n
    obtain y ys where it: "queue_items q = y # ys"
      using f q(3) prio_cap_pos [of "unat prio"] by (cases "queue_items q") auto
    note r = queue_recv_front [OF q(2) it]
    have room: "length (queue_items (queue_take q)) < queue_cap (queue_take q)"
      using f it r(3,4) by simp
    note s2 = queue_send_room [OF r(2) room, of m]
    let ?w1 = "bus_drop m prio ep (log_calls [] (log_calls [EMBEDIQ_OSAL_OBS_QUEUE_FULL] w))"
    have "route_one m prio ep w =
        Some (enqueued m (unat prio) ep (queue_put (queue_take q) m) ?w1)"
      using ep q(1) s n r(1) s2(1) by (simp add: route_one_def embediq_const)
    moreover have "deliver (unat prio) 1 m (queue_items q) = ys @ [m]"
    proof -
      have c: "prio_cap (unat prio) = Suc (length ys)" using f it q(3) by simp
      show ?thesis using n c by (simp add: deliver_def it keep_newest_def)
    qed
    moreover have "bus_frame w ?w1" by (simp add: bus_frame_def)
    ultimately show ?thesis
      using enqueued_step [OF inv ep p3 s2(2), of ?w1 m] s2(3,4) r(3,4) q(3,4) n
      by (simp add: routed_def)
  next
    case l
    let ?w1 = "bus_drop m prio ep (log_calls [EMBEDIQ_OSAL_OBS_QUEUE_FULL] w)"
    have "route_one m prio ep w = Some ?w1"
      using ep q(1) s l by (simp add: route_one_def embediq_const)
    moreover have "deliver (unat prio) 1 m (queue_items q) = queue_items q"
    proof -
      have "unat prio \<noteq> 0" "unat prio \<noteq> 1" using l by (metis unat_0 unat_1 word_unat_eq_iff)+
      then show ?thesis using f q(3) by (simp add: deliver_def)
    qed
    moreover have "bus_inv ?w1" "ep_items ?w1 = ep_items w" "bus_frame w ?w1"
      using inv bus_inv_cong [of ?w1 w] ep_items_cong [of ?w1 w] by (simp_all add: bus_frame_def)
    ultimately show ?thesis using q(4) l by (auto simp: routed_def)
  qed
qed


text \<open>How many table entries send an identifier to an endpoint.\<close>

definition sub_count :: "u16 \<Rightarrow> nat \<Rightarrow> 'u world \<Rightarrow> nat" where
  "sub_count t e w = count_list (map unat (subscribers t w)) e"

definition route_blocks :: "u8 \<Rightarrow> u8 list \<Rightarrow> 'u world \<Rightarrow> bool" where
  "route_blocks prio eps w \<longleftrightarrow> prio = 0 \<and>
     (\<exists>e \<in> set eps. length (ep_items w (unat e) 0) + count_list (map unat eps) (unat e) > 16)"

definition routed_all :: "nat \<Rightarrow> (nat \<Rightarrow> nat) \<Rightarrow> embediq_msg \<Rightarrow> 'u world \<Rightarrow> 'u world \<Rightarrow> bool" where
  "routed_all p k m w w' \<longleftrightarrow> bus_inv w' \<and> bus_frame w w' \<and>
     (\<forall>e < length (g_ep w). \<forall>p'. p' < 3 \<longrightarrow> ep_items w' e p' =
        (if p' = p then deliver p (k e) m (ep_items w e p') else ep_items w e p'))"

lemma ep_items_bounded:
  "bus_inv w \<Longrightarrow> e < length (g_ep w) \<Longrightarrow> p < 3 \<Longrightarrow> length (ep_items w e p) \<le> prio_cap p"
  by (erule (2) ep_queue) simp

lemma unat_prio: "prio \<le> (2::u8) \<Longrightarrow> unat prio < 3" "unat prio = 0 \<longleftrightarrow> prio = (0::u8)"
  by (simp_all add: word_le_nat_alt unat_eq_zero)

lemma route_one_step:
  assumes "bus_inv w" and "unat ep < length (g_ep w)" and "prio \<le> 2"
  shows "if prio = 0 \<and> length (ep_items w (unat ep) 0) = 16 then route_one m prio ep w = None
    else \<exists>w'. route_one m prio ep w = Some w' \<and> routed (unat ep) (unat prio) 1 m w w'"
proof (cases "length (ep_items w (unat ep) (unat prio)) < prio_cap (unat prio)")
  case True
  with route_one_room [OF assms True, of m] show ?thesis by (auto simp: prio_cap_def)
next
  case False
  with ep_items_bounded [OF assms(1,2), of "unat prio"] unat_prio(1) [OF assms(3)]
  have full: "length (ep_items w (unat ep) (unat prio)) = prio_cap (unat prio)" by simp
  with route_one_full [OF assms full, of m] show ?thesis
    by (cases "prio = 0") (auto simp: prio_cap_def)
qed

lemma route_all_items:
  assumes "bus_inv w" and "\<forall>e \<in> set eps. unat e < length (g_ep w)" and "prio \<le> 2"
  shows "if route_blocks prio eps w then route_all m prio eps w = None
    else \<exists>w'. route_all m prio eps w = Some w' \<and>
      routed_all (unat prio) (count_list (map unat eps)) m w w'"
  using assms
proof (induction eps arbitrary: w)
  case Nil
  have "deliver (unat prio) 0 m (ep_items w e (unat prio)) = ep_items w e (unat prio)"
    if "e < length (g_ep w)" for e
    by (rule deliver_0 [OF ep_items_bounded [OF Nil.prems(1) that unat_prio(1) [OF Nil.prems(3)]]])
  then have "routed_all (unat prio) (count_list []) m w w"
    using Nil.prems(1) by (simp add: routed_all_def)
  then show ?case by (simp add: route_blocks_def)
next
  case (Cons a eps)
  let ?p = "unat prio"
  show ?case
  proof (cases "prio = 0 \<and> length (ep_items w (unat a) 0) = 16")
    case True
    then have "route_blocks prio (a # eps) w" by (simp add: route_blocks_def)
    moreover have "route_one m prio a w = None"
      using route_one_step [OF Cons.prems(1) _ Cons.prems(3), of a m] Cons.prems(2) True by simp
    ultimately show ?thesis by simp
  next
    case False
    then obtain w1 where w1: "route_one m prio a w = Some w1" and r: "routed (unat a) ?p 1 m w w1"
      using route_one_step [OF Cons.prems(1) _ Cons.prems(3), of a m] Cons.prems(2) by auto
    have inv1: "bus_inv w1" and fr: "bus_frame w w1" and len: "length (g_ep w1) = length (g_ep w)"
      using r by (simp_all add: routed_def bus_frame_def)
    have it: "ep_items w1 e p' =
        (if e = unat a \<and> p' = ?p then deliver ?p 1 m (ep_items w e p') else ep_items w e p')" for e p'
      using r by (auto simp: routed_def)
    have blk: "route_blocks prio eps w1 \<longleftrightarrow> route_blocks prio (a # eps) w"
    proof (cases "prio = 0")
      case True
      let ?T = "\<lambda>e. length (ep_items w (unat e) 0) + count_list (map unat (a # eps)) (unat e)"
      have tot: "length (ep_items w1 (unat e) 0) + count_list (map unat eps) (unat e) = ?T e" for e
        using True by (simp add: it deliver_def)
      have "unat a < length (g_ep w)" using Cons.prems(2) by simp
      then have "length (ep_items w (unat a) 0) < 16"
        using ep_items_bounded [OF Cons.prems(1), of "unat a" 0] False True by (simp add: prio_cap_def)
      moreover have "count_list (map unat eps) (unat a) = 0" if "a \<notin> set eps"
        using that by (auto simp: count_list_0_iff simp flip: word_unat_eq_iff)
      ultimately have "?T a \<le> 16" if "a \<notin> set eps"
        using that by simp
      then have "(\<exists>e \<in> set (a # eps). ?T e > 16) \<longleftrightarrow> (\<exists>e \<in> set eps. ?T e > 16)"
        by (cases "a \<in> set eps") auto
      then show ?thesis unfolding route_blocks_def tot using True by blast
    qed (simp add: route_blocks_def)
    have all1: "\<forall>e \<in> set eps. unat e < length (g_ep w1)" using Cons.prems(2) len by simp
    note IH = Cons.IH [OF inv1 all1 Cons.prems(3)]
    show ?thesis
    proof (cases "route_blocks prio eps w1")
      case True
      with IH blk w1 show ?thesis by simp
    next
      case no: False
      with IH obtain w' where w': "route_all m prio eps w1 = Some w'"
        and ra: "routed_all ?p (count_list (map unat eps)) m w1 w'" by auto
      have "deliver ?p (count_list (map unat eps) e) m (ep_items w1 e ?p) =
          deliver ?p (count_list (map unat (a # eps)) e) m (ep_items w e ?p)" for e
        using deliver_Suc [of ?p "count_list (map unat eps) e" m "ep_items w e ?p"]
        by (cases "e = unat a") (simp_all add: it)
      moreover have "bus_frame w w'" using ra fr by (auto simp: routed_all_def intro: bus_frame_trans)
      moreover have "bus_inv w'" and items: "\<And>e p'. e < length (g_ep w) \<Longrightarrow> p' < 3 \<Longrightarrow> ep_items w' e p' =
          (if p' = ?p then deliver ?p (count_list (map unat eps) e) m (ep_items w1 e p') else ep_items w1 e p')"
        using ra len by (simp_all add: routed_all_def)
      moreover have "ep_items w1 e p' = ep_items w e p'" if "p' \<noteq> ?p" for e p'
        using it that by simp
      ultimately have "routed_all ?p (count_list (map unat (a # eps))) m w w'"
        by (simp add: routed_all_def del: count_list.simps list.map)
      with w1 w' no blk show ?thesis by auto
    qed
  qed
qed


section \<open>Publishing\<close>

lemma clamp_le: "clamp_priority p \<le> 2"
  by (auto simp: clamp_priority_def embediq_const)

lemma subscribers_bound: "bus_inv w \<Longrightarrow> \<forall>e \<in> set (subscribers t w). unat e < length (g_ep w)"
  by (auto simp: bus_inv_def subscribers_def)

lemma route_message_items:
  assumes "bus_inv w"
  shows "if route_blocks (clamp_priority (priority m)) (subscribers (msg_id m) w) w
    then route_message m w = None
    else \<exists>w'. route_message m w = Some w' \<and> routed_all (unat (clamp_priority (priority m)))
      (\<lambda>e. sub_count (msg_id m) e w) m w w'"
  using route_all_items [OF assms subscribers_bound [OF assms] clamp_le] assms
  by (simp add: route_message_all bus_inv_def sub_count_def)

text \<open>C1: publishing returns unless the message has HIGH priority and some subscriber's HIGH queue
  lacks the room; then the message, stamped with the publisher's endpoint, is delivered once per
  subscription to each subscribing endpoint, in the queue of its (clamped) priority, by the
  overflow policy of that priority, and every other queue and the routing state are unchanged.\<close>

theorem publish_delivers:
  assumes "bus_inv w" and "registry_inv w" and "i < length (g_registry w)"
    and "p = unat (clamp_priority (priority m))"
    and "p = 0 \<longrightarrow> (\<forall>e < length (g_ep w). length (ep_items w e 0) + sub_count (msg_id m) e w \<le> 16)"
  shows "\<exists>m' w'. embediq_publish (Some i) (Some m) w = Some (Some m', w') \<and>
    m' = m\<lparr>source_endpoint_id := word_of_nat i\<rparr> \<and> bus_inv w' \<and> bus_frame w w' \<and>
    (\<forall>e < length (g_ep w). \<forall>q < 3. ep_items w' e q =
       (if q = p then deliver p (sub_count (msg_id m) e w) m' (ep_items w e q) else ep_items w e q))"
proof -
  let ?m = "m\<lparr>source_endpoint_id := word_of_nat i\<rparr>"
  have src: "fb_engine__get_ep_id (Some i) w = word_of_nat i"
    using assms(2,3) by (simp add: fb_engine__get_ep_id_def registry_inv_def)
  have "\<not> route_blocks (clamp_priority (priority ?m)) (subscribers (msg_id ?m) w) w"
    using assms(4,5) subscribers_bound [OF assms(1), of "msg_id m"]
    by (fastforce simp: route_blocks_def sub_count_def not_less)
  with route_message_items [OF assms(1), of ?m] obtain w' where
    "route_message ?m w = Some w'" "routed_all p (\<lambda>e. sub_count (msg_id m) e w) ?m w w'"
    using assms(4) by auto
  then show ?thesis
    by (intro exI [of _ ?m] exI [of _ w']) (simp add: embediq_publish_def src routed_all_def Let_def)
qed

lemma publish_waits_iff:
  assumes "bus_inv w"
  shows "embediq_publish h (Some m) w = None \<longleftrightarrow> priority m = 0 \<and>
    (\<exists>e < length (g_ep w). sub_count (msg_id m) e w > 0 \<and>
       length (ep_items w e 0) + sub_count (msg_id m) e w > 16)"
proof -
  let ?m = "m\<lparr>source_endpoint_id := fb_engine__get_ep_id h w\<rparr>"
  have c: "clamp_priority (priority m) = 0 \<longleftrightarrow> priority m = 0"
    by (auto simp: clamp_priority_def embediq_const)
  have "embediq_publish h (Some m) w = None \<longleftrightarrow>
      route_blocks (clamp_priority (priority m)) (subscribers (msg_id m) w) w"
    using route_message_items [OF assms, of ?m]
    by (auto simp: embediq_publish_def Let_def split: if_splits)
  also have "\<dots> \<longleftrightarrow> priority m = 0 \<and> (\<exists>e < length (g_ep w). sub_count (msg_id m) e w > 0 \<and>
       length (ep_items w e 0) + sub_count (msg_id m) e w > 16)"
    using subscribers_bound [OF assms, of "msg_id m"]
    unfolding route_blocks_def c sub_count_def
    by (auto simp: neq0_conv [symmetric] count_list_0_iff simp del: neq0_conv)
  finally show ?thesis .
qed

text \<open>C11: publishing at HIGH priority waits, exactly when some endpoint would get more HIGH
  messages than its queue of 16 has room for. Copies for subscribers earlier in the table have then
  been delivered.\<close>

theorem publish_high_blocks:
  assumes "bus_inv w"
  shows "embediq_publish h (Some m) w = None \<longleftrightarrow> priority m = 0 \<and>
    (\<exists>e < length (g_ep w). sub_count (msg_id m) e w > 0 \<and>
       length (ep_items w e 0) + sub_count (msg_id m) e w > 16)"
  by (rule publish_waits_iff[OF assms])

section \<open>Boot\<close>

text \<open>All subscriptions of the registry, FB by FB.\<close>

fun all_subs :: "nat \<Rightarrow> fb list \<Rightarrow> sub_entry list" where
  "all_subs i [] = []"
| "all_subs i (f # fs) =
     map (\<lambda>m. \<lparr>sub_msg_id = m, sub_ep_id = word_of_nat i\<rparr>) (cfg_subs (fb_config f)) @
     all_subs (i + 1) fs"

lemma add_subs_take:
  "length subs \<le> 512 \<Longrightarrow> add_subs i ms subs =
     take 512 (subs @ map (\<lambda>m. \<lparr>sub_msg_id = m, sub_ep_id = i\<rparr>) ms)"
  by (induction i ms subs rule: add_subs.induct) (auto simp: EMBEDIQ_MAX_SUBSCRIPTIONS_def)

lemma collect_subs_take:
  "length subs \<le> 512 \<Longrightarrow> collect_subs i fs subs = take 512 (subs @ all_subs i fs)"
proof (induction i fs subs rule: collect_subs.induct)
  case (2 i f fs subs)
  then show ?case
    by (cases "length subs + length (cfg_subs (fb_config f)) \<le> 512")
      (simp_all add: add_subs_take min_def)
qed simp

lemma all_subs_ep: "s \<in> set (all_subs i fs) \<Longrightarrow> i + length fs \<le> 256 \<Longrightarrow>
   i \<le> unat (sub_ep_id s) \<and> unat (sub_ep_id s) < i + length fs"
  by (induction i fs rule: all_subs.induct) (fastforce simp: unat_of_nat_small)+

definition empty_ep :: ep_queues where
  "empty_ep = \<lparr>ep_q = map (embediq_osal_queue_create True)
       [EMBEDIQ_HIGH_QUEUE_DEPTH, EMBEDIQ_NORMAL_QUEUE_DEPTH, EMBEDIQ_LOW_QUEUE_DEPTH],
     ep_cap = [EMBEDIQ_HIGH_QUEUE_DEPTH, EMBEDIQ_NORMAL_QUEUE_DEPTH, EMBEDIQ_LOW_QUEUE_DEPTH]\<rparr>"

lemma boot_endpoints:
  "(boot_endpoint (\<lambda>n. True) ^^ k) w =
     w\<lparr>g_ep := g_ep w @ replicate k empty_ep, allocs := allocs w + 3 * k\<rparr>"
proof (induction k)
  case (Suc k)
  then show ?case
    by (simp add: boot_endpoint_def bus_queue_create_def empty_ep_def Let_def
        replicate_append_same flip: replicate_Suc)
qed simp

lemma empty_ep_ok: "ep_ok empty_ep" and empty_ep_items: "p < 3 \<Longrightarrow>
    (case ep_q empty_ep ! p of None \<Rightarrow> [] | Some q \<Rightarrow> queue_items q) = []"
proof -
  have *: "\<exists>q. ep_q empty_ep ! p = Some q \<and> queue_inv q \<and> queue_cap q = prio_cap p \<and> queue_items q = []"
    if "p < 3" for p
  proof -
    have c: "embediq_osal_queue_create True d = Some \<lparr>q_depth = d, q_count = 0, q_head = 0, q_tail = 0,
        q_buf = replicate (unat d) None\<rparr>" for d
      by (simp add: embediq_osal_queue_create_def)
    from that consider "p = 0" | "p = 1" | "p = 2" by linarith
    then show ?thesis
      by cases (auto simp: empty_ep_def prio_cap_def embediq_const c queue_inv_def queue_cap_def
          queue_items_def)
  qed
  then show "ep_ok empty_ep" unfolding ep_ok_def by (fastforce simp: empty_ep_def)
  show "p < 3 \<Longrightarrow> (case ep_q empty_ep ! p of None \<Rightarrow> [] | Some q \<Rightarrow> queue_items q) = []"
    using * [of p] by auto
qed

lemma bus_boot_holds:
  assumes "\<not> g_bus_booted w" and "length (g_registry w) \<le> 64"
  shows "let w' = message_bus_boot (\<lambda>n. True) w in
    bus_inv w' \<and> g_bus_booted w' \<and> g_registry w' = g_registry w \<and>
    length (g_ep w') = length (g_registry w) \<and>
    (\<forall>e < length (g_ep w'). \<forall>p < 3. ep_items w' e p = []) \<and>
    g_subs w' = sort_key sub_msg_id (take 512 (all_subs 0 (g_registry w)))"
proof -
  let ?w' = "message_bus_boot (\<lambda>n. True) w" and ?n = "length (g_registry w)"
  let ?t = "take 512 (all_subs 0 (g_registry w))"
  let ?u = "w\<lparr>g_ep := replicate ?n empty_ep, allocs := allocs w + 3 * ?n, g_subs := ?t\<rparr>"
  have w': "?w' = (sub_sort ?u)\<lparr>g_bus_booted := True\<rparr>"
    using assms(1) by (simp add: message_bus_boot_def boot_endpoints collect_subs_take Let_def)
  have subs: "g_subs ?w' = sort_key sub_msg_id ?t"
    using sub_sort_from_sorts [of ?t ?t 1] by (cases ?t) (simp_all add: w' sub_sort_def sub_sort_from.simps)
  have ep: "g_ep ?w' = replicate ?n empty_ep" by (simp add: w' sub_sort_def)
  have "bus_inv ?w'"
    using assms(2) all_subs_ep [of _ 0 "g_registry w"]
    by (auto simp: bus_inv_def subs ep empty_ep_ok dest!: in_set_takeD)
  moreover have "ep_items ?w' e p = []" if "e < ?n" "p < 3" for e p
    using that empty_ep_items by (simp add: ep_items_def ep)
  moreover have "g_bus_booted ?w'" "g_registry ?w' = g_registry w" by (simp_all add: w' sub_sort_def)
  ultimately show ?thesis using subs ep by (simp add: Let_def)
qed

text \<open>C25: when the queue allocations succeed, the bus boot gives every registered FB three empty
  queues, and the table holds the first 512 subscriptions, stably sorted by identifier; the bus
  invariant holds from then on.\<close>

theorem bus_boot_correct:
  assumes "\<not> g_bus_booted w" and "length (g_registry w) \<le> 64"
  shows "let w' = message_bus_boot (\<lambda>n. True) w in
    bus_inv w' \<and> g_bus_booted w' \<and> g_registry w' = g_registry w \<and>
    length (g_ep w') = length (g_registry w) \<and>
    (\<forall>e < length (g_ep w'). \<forall>p < 3. ep_items w' e p = []) \<and>
    g_subs w' = sort_key sub_msg_id (take 512 (all_subs 0 (g_registry w)))"
  by (rule bus_boot_holds [OF assms])

lemma bus_boot_correct_witness:
  "let w' = message_bus_boot (\<lambda>n. True) demo_world in
    bus_inv w' \<and> length (g_ep w') = 1 \<and> g_subs w' = [\<lparr>sub_msg_id = 7, sub_ep_id = 0\<rparr>]"
  using bus_boot_correct [of demo_world]
  by (simp add: Let_def demo_world_def world_initial_def) (simp add: demo_fb_def cfg_subs_def)

section \<open>Receiving\<close>

text \<open>Receiving at a valid endpoint and priority takes the oldest waiting message of that queue
  and nothing else; on an empty queue it answers false and changes nothing.\<close>

theorem recv_ep_takes_oldest:
  assumes "bus_inv w" and "unat ep < length (g_ep w)" and "prio \<le> 2"
  shows "let (r, w') = message_bus_recv_ep ep prio w in
    bus_inv w' \<and> bus_frame w w' \<and>
    r = (case ep_items w (unat ep) (unat prio) of [] \<Rightarrow> None | m # ms \<Rightarrow> Some m) \<and>
    (\<forall>e p. ep_items w' e p =
       (if e = unat ep \<and> p = unat prio then tl (ep_items w e p) else ep_items w e p))"
proof -
  have p3: "unat prio < 3" using unat_prio(1) [OF assms(3)] .
  obtain q where q: "ep_q (g_ep w ! unat ep) ! unat prio = Some q" "queue_inv q"
      "queue_cap q = prio_cap (unat prio)" "ep_items w (unat ep) (unat prio) = queue_items q"
    using ep_queue [OF assms(1,2) p3] by metis
  have ok: "ep_ok (g_ep w ! unat ep)" using assms(1,2) by (simp add: bus_inv_def)
  have upd: "bus_inv (set_queue (unat ep) (unat prio) q' w) \<and>
      bus_frame w (set_queue (unat ep) (unat prio) q' w) \<and>
      (\<forall>e p. ep_items (set_queue (unat ep) (unat prio) q' w) e p =
        (if e = unat ep \<and> p = unat prio then queue_items q' else ep_items w e p))"
    if "queue_inv q'" "queue_cap q' = prio_cap (unat prio)" for q'
    using set_queue_inv [OF assms(1,2) p3 that] set_queue_ep(2) [OF assms(2) ok p3 that]
    by (simp add: bus_frame_def)
  have g: "\<not> (unat ep \<ge> length (g_ep w) \<or> prio > 2)" using assms(2,3) by auto
  show ?thesis
  proof (cases "queue_items q")
    case Nil
    then have "message_bus_recv_ep ep prio w = (None, set_queue (unat ep) (unat prio) q w)"
      using g q(1) queue_recv_empty [OF Nil, of 0] by (simp add: message_bus_recv_ep_def)
    with upd [OF q(2,3)] Nil q(4) show ?thesis by (auto simp: Let_def)
  next
    case (Cons m ms)
    note r = queue_recv_front [OF q(2) Cons]
    have "message_bus_recv_ep ep prio w = (Some m, set_queue (unat ep) (unat prio) (queue_take q) w)"
      using g q(1) r(1) by (simp add: message_bus_recv_ep_def)
    with upd [OF r(2)] r(3,4) q(3,4) Cons show ?thesis by (auto simp: Let_def)
  qed
qed


definition demo_bus :: "unit world" where "demo_bus = message_bus_boot (\<lambda>n. True) demo_world"

lemma demo_bus_simps: "bus_inv demo_bus" "g_registry demo_bus = [demo_fb]" "length (g_ep demo_bus) = 1"
  "p < 3 \<Longrightarrow> ep_items demo_bus 0 p = []" "g_subs demo_bus = [\<lparr>sub_msg_id = 7, sub_ep_id = 0\<rparr>]"
  "registry_inv demo_bus" "sub_count 7 0 demo_bus = 1"
proof -
  have d: "\<not> g_bus_booted demo_world" "g_registry demo_world = [demo_fb]"
      "all_subs 0 [demo_fb] = [\<lparr>sub_msg_id = 7, sub_ep_id = 0\<rparr>]"
    by (simp_all add: demo_world_def world_initial_def demo_fb_def cfg_subs_def)
  note h = bus_boot_holds [of demo_world, unfolded Let_def, folded demo_bus_def]
  show i: "bus_inv demo_bus" and r: "g_registry demo_bus = [demo_fb]" and "length (g_ep demo_bus) = 1"
    and "p < 3 \<Longrightarrow> ep_items demo_bus 0 p = []"
    and s: "g_subs demo_bus = [\<lparr>sub_msg_id = 7, sub_ep_id = 0\<rparr>]"
    using h d by simp_all
  show "registry_inv demo_bus"
    using demo_world_simps(1,2) r by (simp add: registry_inv_def fb_at_def)
  show "sub_count 7 0 demo_bus = 1" by (simp add: sub_count_def subscribers_def s)
qed

definition demo_msg :: embediq_msg where "demo_msg = zero_msg\<lparr>msg_id := 7, priority := 1\<rparr>"

lemma publish_delivers_witness:
  "\<exists>m' w'. embediq_publish (Some 0) (Some demo_msg) demo_bus = Some (Some m', w') \<and>
     ep_items w' 0 1 = [demo_msg]"
proof -
  have p: "1 = unat (clamp_priority (priority demo_msg))"
    by (simp add: clamp_priority_def demo_msg_def embediq_const)
  have m: "demo_msg\<lparr>source_endpoint_id := word_of_nat 0\<rparr> = demo_msg"
    by (simp add: demo_msg_def zero_msg_def)
  have c: "sub_count (msg_id demo_msg) 0 demo_bus = 1"
    using demo_bus_simps(7) by (simp add: demo_msg_def)
  obtain w' where "embediq_publish (Some 0) (Some demo_msg) demo_bus = Some (Some demo_msg, w')"
      "\<forall>e < 1. \<forall>q < 3. ep_items w' e q = (if q = 1
         then deliver 1 (sub_count (msg_id demo_msg) e demo_bus) demo_msg (ep_items demo_bus e q)
         else ep_items demo_bus e q)"
    using publish_delivers [OF demo_bus_simps(1,6) _ p, of 0] unfolding m demo_bus_simps(2,3) by auto
  then show ?thesis
    using c demo_bus_simps(4) [of 1] by (auto simp: deliver_def keep_newest_def prio_cap_def)
qed

lemma publish_high_blocks_witness:
  "embediq_publish (Some 0) (Some (demo_msg\<lparr>priority := 0\<rparr>)) demo_bus \<noteq> None"
  using publish_high_blocks [OF demo_bus_simps(1), of "Some 0" "demo_msg\<lparr>priority := 0\<rparr>"]
    demo_bus_simps(3,4,7) by (simp add: demo_msg_def)

lemma recv_ep_takes_oldest_witness: "fst (message_bus_recv_ep 0 1 demo_bus) = None"
  using recv_ep_takes_oldest [OF demo_bus_simps(1), of 0 1] demo_bus_simps(3,4)
  by (simp add: case_prod_beta)

end
