(* ===== verification/Topo.thy ===== *)
theory Topo
  imports Registry
begin

text \<open>
  The topological sort of core/src/registry/fb_engine.c: the depth-first search \<open>topo_dfs\<close> and the
  loop over the FBs of one boot phase. The recursion takes fuel; \<open>topo_enough_fuel\<close> shows that one
  unit more than there are FBs is always enough, so \<open>topo_sort\<close> is total. Contents: the search,
  its invariant (finished nodes are in dependency order, the unfinished path leads to the current
  node), and the result: a topological order, or a cycle.
\<close>

section \<open>Topological sort\<close>

datatype topo_color = COLOR_WHITE | COLOR_GRAY | COLOR_BLACK

type_synonym topo_state = "topo_color list \<times> nat list"

text \<open>The loop over the dependencies is a function of its own; the two call each other.\<close>

function topo_dfs :: "nat \<Rightarrow> fb list \<Rightarrow> bool list \<Rightarrow> nat \<Rightarrow> topo_state \<Rightarrow> (bool \<times> topo_state) option"
  and topo_deps ::
    "nat \<Rightarrow> fb list \<Rightarrow> bool list \<Rightarrow> string list \<Rightarrow> topo_state \<Rightarrow> (bool \<times> topo_state) option"
where
  "topo_dfs 0 reg phase_set idx st = None"
| "topo_dfs (Suc fuel) reg phase_set idx (colors, result) =
     (case topo_deps fuel reg phase_set (cfg_depends (fb_config (reg ! idx)))
             (colors[idx := COLOR_GRAY], result) of
        None \<Rightarrow> None
      | Some (ok, (colors', result')) \<Rightarrow>
          if \<not> ok then Some (False, (colors', result'))
          else Some (True, (colors'[idx := COLOR_BLACK], result' @ [idx])))"
| "topo_deps fuel reg phase_set [] st = Some (True, st)"
| "topo_deps fuel reg phase_set (dep # deps) st =
     (case scan_name dep 0 reg of
        None \<Rightarrow> topo_deps fuel reg phase_set deps st
      | Some j \<Rightarrow>
          if \<not> phase_set ! j then topo_deps fuel reg phase_set deps st
          else if fst st ! j = COLOR_GRAY then Some (False, st)
          else if fst st ! j = COLOR_WHITE then
            (case topo_dfs fuel reg phase_set j st of
               None \<Rightarrow> None
             | Some (ok, st') \<Rightarrow>
                 if \<not> ok then Some (False, st') else topo_deps fuel reg phase_set deps st')
          else topo_deps fuel reg phase_set deps st)"
  by pat_completeness auto

termination
  by (relation "inv_image (less_than <*lex*> less_than)
        (\<lambda>x. case x of Inl (n, _) \<Rightarrow> (n, 0) | Inr (n, _, _, ds, _) \<Rightarrow> (n, Suc (length ds)))")
    auto

text \<open>The loop over the FBs of a phase.\<close>

fun topo_all :: "nat \<Rightarrow> fb list \<Rightarrow> bool list \<Rightarrow> nat list \<Rightarrow> topo_state \<Rightarrow> (bool \<times> topo_state) option" where
  "topo_all fuel reg phase_set [] st = Some (True, st)"
| "topo_all fuel reg phase_set (idx # is) st =
     (if fst st ! idx = COLOR_WHITE then
        (case topo_dfs fuel reg phase_set idx st of
           None \<Rightarrow> None
         | Some (ok, st') \<Rightarrow> if \<not> ok then Some (False, st') else topo_all fuel reg phase_set is st')
      else topo_all fuel reg phase_set is st)"

section \<open>Phases\<close>

definition phase_members :: "nat \<Rightarrow> fb list \<Rightarrow> bool list" where
  "phase_members phase reg = map (\<lambda>f. fc_boot_phase (fb_config f) = phase) reg"

definition phase_indices :: "nat \<Rightarrow> fb list \<Rightarrow> nat list" where
  "phase_indices phase reg = filter (\<lambda>i. fc_boot_phase (fb_config (reg ! i)) = phase) [0..<length reg]"

text \<open>The sort of one phase: false is a cycle.\<close>

definition topo_sort :: "nat \<Rightarrow> fb list \<Rightarrow> (bool \<times> nat list) option" where
  "topo_sort phase reg =
     map_option (\<lambda>(ok, st). (ok, snd st))
       (topo_all (Suc (length reg)) reg (phase_members phase reg) (phase_indices phase reg)
          (replicate (length reg) COLOR_WHITE, []))"

section \<open>Correctness of the search\<close>

definition dep_edges :: "fb list \<Rightarrow> bool list \<Rightarrow> (nat \<times> nat) set" where
  "dep_edges reg ps = {(i, j). i < length reg \<and> ps ! i \<and> ps ! j \<and>
     (\<exists>d \<in> set (cfg_depends (fb_config (reg ! i))). scan_name d 0 reg = Some j)}"

definition whites :: "topo_color list \<Rightarrow> nat set" where
  "whites c = {j. j < length c \<and> c ! j = COLOR_WHITE}"

definition grays :: "topo_color list \<Rightarrow> nat set" where
  "grays c = {j. j < length c \<and> c ! j = COLOR_GRAY}"

lemma finite_whites [simp]: "finite (whites c)"
  by (simp add: whites_def)

lemma scan_name_less: "scan_name d 0 reg = Some j \<Longrightarrow> j < length reg"
  using scan_name_Some [of d 0 reg j] by simp

lemma whites_update: "i < length c \<Longrightarrow> x \<noteq> COLOR_WHITE \<Longrightarrow> whites (c[i := x]) = whites c - {i}"
  by (auto simp: whites_def nth_list_update)

lemma topo_shrinks:
  "topo_dfs fuel reg ps idx st = Some (ok, st') \<Longrightarrow> idx < length (fst st) \<Longrightarrow>
     length (fst st) = length reg \<Longrightarrow> length (fst st') = length reg \<and> whites (fst st') \<subseteq> whites (fst st)"
  "topo_deps fuel reg ps ds st = Some (ok, st') \<Longrightarrow>
     length (fst st) = length reg \<Longrightarrow> length (fst st') = length reg \<and> whites (fst st') \<subseteq> whites (fst st)"
proof (induction fuel reg ps idx st and fuel reg ps ds st arbitrary: ok st' and ok st'
    rule: topo_dfs_topo_deps.induct)
  case (2 fuel reg ps idx c r)
  obtain ok1 c1 r1 where d: "topo_deps fuel reg ps (cfg_depends (fb_config (reg ! idx)))
      (c[idx := COLOR_GRAY], r) = Some (ok1, (c1, r1))"
    using 2(2) by (auto split: option.splits)
  have "length c1 = length reg \<and> whites c1 \<subseteq> whites c"
    using 2(1) [OF d] 2(3,4) by (auto simp: whites_update)
  with 2(2) d show ?case
    using 2(3,4) by (auto simp: whites_update split: if_splits)
next
  case (4 fuel reg ps d ds st)
  show ?case
  proof (cases "scan_name d 0 reg")
    case None
    with 4(1,6,7) show ?thesis by simp
  next
    case (Some j)
    note j = scan_name_less [OF Some]
    consider (skip) "\<not> ps ! j" | (gray) "ps ! j" "fst st ! j = COLOR_GRAY"
      | (white) "ps ! j" "fst st ! j = COLOR_WHITE" | (black) "ps ! j" "fst st ! j = COLOR_BLACK"
      by (cases "fst st ! j") auto
    then show ?thesis
    proof cases
      case white
      then obtain ok1 st1 where d: "topo_dfs fuel reg ps j st = Some (ok1, st1)"
        using 4(6) Some by (auto split: option.splits)
      have s1: "length (fst st1) = length reg \<and> whites (fst st1) \<subseteq> whites (fst st)"
        using 4(3) [OF Some] white d 4(7) j by auto
      show ?thesis
      proof (cases ok1)
        case False
        with 4(6) Some white d s1 show ?thesis by auto
      next
        case True
        then have "topo_deps fuel reg ps ds st1 = Some (ok, st')"
          using 4(6) Some white d by auto
        from 4(4) [OF Some _ _ _ d refl _ this] True white s1 show ?thesis by auto
      qed
    qed (use 4(2,5) [OF Some] 4(6,7) Some in auto)
  qed
qed auto


lemma topo_enough_fuel:
  "idx < length reg \<Longrightarrow> length (fst st) = length reg \<Longrightarrow> fst st ! idx = COLOR_WHITE \<Longrightarrow>
     card (whites (fst st)) < fuel \<Longrightarrow> topo_dfs fuel reg ps idx st \<noteq> None"
  "length (fst st) = length reg \<Longrightarrow> card (whites (fst st)) < fuel \<Longrightarrow>
     topo_deps fuel reg ps ds st \<noteq> None"
proof (induction fuel reg ps idx st and fuel reg ps ds st rule: topo_dfs_topo_deps.induct)
  case (2 fuel reg ps idx c r)
  have idx: "idx \<in> whites c" using 2 by (simp add: whites_def)
  then have "card (whites c) > 0" by (auto simp: card_gt_0_iff)
  then have "card (whites (c[idx := COLOR_GRAY])) < fuel"
    using 2(2,3,5) idx by (simp add: whites_update)
  with 2(1,3) show ?case by (auto split: option.splits)
next
  case (4 fuel reg ps d ds st)
  show ?case
  proof (cases "scan_name d 0 reg")
    case None
    with 4(1,6,7) show ?thesis by simp
  next
    case (Some j)
    note j = scan_name_less [OF Some]
    consider (skip) "\<not> ps ! j" | (gray) "ps ! j" "fst st ! j = COLOR_GRAY"
      | (white) "ps ! j" "fst st ! j = COLOR_WHITE" | (black) "ps ! j" "fst st ! j = COLOR_BLACK"
      by (cases "fst st ! j") auto
    then show ?thesis
    proof cases
      case white
      then obtain ok1 st1 where d: "topo_dfs fuel reg ps j st = Some (ok1, st1)"
        using 4(3) [OF Some] 4(6,7) j by fastforce
      have s1: "length (fst st1) = length reg" "whites (fst st1) \<subseteq> whites (fst st)"
        using topo_shrinks(1) [OF d] 4(6) j by auto
      then have "card (whites (fst st1)) < fuel"
        using 4(7) card_mono [OF finite_whites s1(2)] by simp
      then show ?thesis using 4(4) [OF Some _ _ _ d refl] white s1 d Some by (cases ok1) auto
    qed (use 4(2,5) [OF Some] 4(6,7) Some in auto)
  qed
qed auto

definition topo_inv :: "fb list \<Rightarrow> bool list \<Rightarrow> topo_state \<Rightarrow> bool" where
  "topo_inv reg ps st \<longleftrightarrow> length (fst st) = length reg \<and> distinct (snd st) \<and>
     set (snd st) = {j. j < length reg \<and> fst st ! j = COLOR_BLACK} \<and> (\<forall>j \<in> set (snd st). ps ! j) \<and>
     (\<forall>k < length (snd st). \<forall>j. (snd st ! k, j) \<in> dep_edges reg ps \<longrightarrow> j \<in> set (take k (snd st)))"

text \<open>What a successful call leaves: the invariant, the same path, more finished nodes.\<close>

definition topo_post :: "fb list \<Rightarrow> bool list \<Rightarrow> topo_state \<Rightarrow> topo_state \<Rightarrow> bool" where
  "topo_post reg ps st st' \<longleftrightarrow> topo_inv reg ps st' \<and> grays (fst st') = grays (fst st) \<and>
     (\<exists>s. snd st' = snd st @ s)"

lemma topo_post_trans:
  "topo_post reg ps a b \<Longrightarrow> topo_post reg ps b c \<Longrightarrow> topo_post reg ps a c"
  by (auto simp: topo_post_def)

lemma topo_post_black:
  "topo_post reg ps st st' \<Longrightarrow> topo_inv reg ps st \<Longrightarrow> j < length reg \<Longrightarrow> fst st ! j = COLOR_BLACK \<Longrightarrow>
   fst st' ! j = COLOR_BLACK"
proof -
  assume p: "topo_post reg ps st st'" and i: "topo_inv reg ps st"
    and j: "j < length reg" "fst st ! j = COLOR_BLACK"
  then have "j \<in> set (snd st)" by (simp add: topo_inv_def)
  then have "j \<in> set (snd st')" using p by (auto simp: topo_post_def)
  then show ?thesis using p by (simp add: topo_post_def topo_inv_def)
qed

lemma topo_inv_gray: "topo_inv reg ps (c, r) \<Longrightarrow> c ! i \<noteq> COLOR_BLACK \<Longrightarrow> topo_inv reg ps (c[i := COLOR_GRAY], r)"
  by (cases "i < length c") (auto simp: topo_inv_def nth_list_update)

lemma grays_update_gray: "i < length c \<Longrightarrow> grays (c[i := COLOR_GRAY]) = insert i (grays c)"
  by (auto simp: grays_def nth_list_update)

lemma topo_finish:
  assumes inv: "topo_inv reg ps (c, r)" and idx: "idx < length reg" "ps ! idx" "c ! idx = COLOR_GRAY"
    and deps: "\<And>j. (idx, j) \<in> dep_edges reg ps \<Longrightarrow> c ! j = COLOR_BLACK \<and> j < length reg"
  shows "topo_inv reg ps (c[idx := COLOR_BLACK], r @ [idx])"
proof -
  have notin: "idx \<notin> set r" using inv idx by (simp add: topo_inv_def)
  have len: "length c = length reg" and st: "set r = {j. j < length reg \<and> c ! j = COLOR_BLACK}"
    using inv by (simp_all add: topo_inv_def)
  have "set (r @ [idx]) = {j. j < length reg \<and> c[idx := COLOR_BLACK] ! j = COLOR_BLACK}"
    using st len idx(1) by (auto simp: nth_list_update)
  moreover have "j \<in> set (take k (r @ [idx]))"
    if "k < length (r @ [idx])" "((r @ [idx]) ! k, j) \<in> dep_edges reg ps" for k j
  proof (cases "k < length r")
    case True
    with that inv show ?thesis by (simp add: topo_inv_def nth_append)
  next
    case False
    with that have "k = length r" "(idx, j) \<in> dep_edges reg ps" by (auto simp: nth_append)
    with deps [of j] st show ?thesis by simp
  qed
  moreover have "\<forall>j \<in> set (r @ [idx]). ps ! j" "distinct (r @ [idx])"
    using inv idx notin by (simp_all add: topo_inv_def)
  ultimately show ?thesis using len unfolding topo_inv_def fst_conv snd_conv by simp
qed

text \<open>The path: every gray node leads to \<open>idx\<close>.\<close>

definition on_path :: "fb list \<Rightarrow> bool list \<Rightarrow> topo_color list \<Rightarrow> nat \<Rightarrow> bool" where
  "on_path reg ps c idx \<longleftrightarrow> (\<forall>g \<in> grays c. (g, idx) \<in> (dep_edges reg ps)\<^sup>*)"

definition cyclic :: "fb list \<Rightarrow> bool list \<Rightarrow> bool" where
  "cyclic reg ps \<longleftrightarrow> (\<exists>i. (i, i) \<in> (dep_edges reg ps)\<^sup>+)"

lemma topo_correct:
  "topo_dfs fuel reg ps idx st = Some (ok, st') \<Longrightarrow> idx < length reg \<Longrightarrow> ps ! idx \<Longrightarrow>
     fst st ! idx = COLOR_WHITE \<Longrightarrow> topo_inv reg ps st \<Longrightarrow> on_path reg ps (fst st) idx \<Longrightarrow>
     (if ok then topo_post reg ps st st' \<and> fst st' ! idx = COLOR_BLACK else cyclic reg ps)"
  "topo_deps fuel reg ps ds st = Some (ok, st') \<Longrightarrow> idx < length reg \<Longrightarrow> ps ! idx \<Longrightarrow>
     fst st ! idx = COLOR_GRAY \<Longrightarrow> topo_inv reg ps st \<Longrightarrow> on_path reg ps (fst st) idx \<Longrightarrow>
     set ds \<subseteq> set (cfg_depends (fb_config (reg ! idx))) \<Longrightarrow>
     (if ok then topo_post reg ps st st' \<and>
        (\<forall>d \<in> set ds. \<forall>j. scan_name d 0 reg = Some j \<longrightarrow> ps ! j \<longrightarrow> fst st' ! j = COLOR_BLACK)
      else cyclic reg ps)"
proof (induction fuel reg ps idx st and fuel reg ps ds st arbitrary: ok st' and ok st' idx
    rule: topo_dfs_topo_deps.induct)
  case (2 fuel reg ps idx c r)
  let ?c = "c[idx := COLOR_GRAY]" and ?ds = "cfg_depends (fb_config (reg ! idx))"
  have len: "length c = length reg" and wh: "c ! idx = COLOR_WHITE" using 2 by (simp_all add: topo_inv_def)
  obtain ok1 c1 r1 where d: "topo_deps fuel reg ps ?ds (?c, r) = Some (ok1, (c1, r1))"
    using 2(2) by (auto split: option.splits)
  have inv: "topo_inv reg ps (?c, r)" using 2(6) wh by (intro topo_inv_gray) simp_all
  have path: "on_path reg ps ?c idx"
    using 2(7) 2(3) len by (auto simp: on_path_def grays_update_gray)
  have gray: "?c ! idx = COLOR_GRAY" using 2(3) len by simp
  note IH = 2(1) [OF d 2(3,4) _ inv _ subset_refl, simplified, OF gray path]
  show ?case
  proof (cases ok1)
    case False
    with 2(2) d IH show ?thesis by auto
  next
    case True
    with IH have post: "topo_post reg ps (?c, r) (c1, r1)" and bl:
        "\<forall>d \<in> set ?ds. \<forall>j. scan_name d 0 reg = Some j \<longrightarrow> ps ! j \<longrightarrow> c1 ! j = COLOR_BLACK"
      by auto
    have inv1: "topo_inv reg ps (c1, r1)" and len1: "length c1 = length reg"
      and g1: "grays c1 = insert idx (grays c)" and ext: "\<exists>s. r1 = r @ s"
      using post 2(3) len by (auto simp: topo_post_def topo_inv_def grays_update_gray)
    have "idx \<in> grays c1" using g1 by simp
    then have gr: "c1 ! idx = COLOR_GRAY" by (simp add: grays_def)
    have "topo_inv reg ps (c1[idx := COLOR_BLACK], r1 @ [idx])"
      using bl scan_name_less by (intro topo_finish [OF inv1 2(3,4) gr]) (auto simp: dep_edges_def)
    moreover have "grays (c1[idx := COLOR_BLACK]) = grays c"
    proof -
      have "grays (c1[idx := COLOR_BLACK]) = grays c1 - {idx}"
        using 2(3) len1 by (auto simp: grays_def nth_list_update)
      moreover have "idx \<notin> grays c" using wh by (simp add: grays_def)
      ultimately show ?thesis using g1 by simp
    qed
    moreover have "ok" and "st' = (c1[idx := COLOR_BLACK], r1 @ [idx])" using 2(2) d True by simp_all
    ultimately show ?thesis using 2(3) ext len1 unfolding topo_post_def by auto
  qed
next
  case (4 fuel reg ps d ds st)
  show ?case
  proof (cases "scan_name d 0 reg")
    case None
    then have tail: "topo_deps fuel reg ps ds st = Some (ok, st')" using 4(6) by simp
    have sub: "set ds \<subseteq> set (cfg_depends (fb_config (reg ! idx)))" using 4(12) by simp
    show ?thesis using 4(1) [OF None tail 4(7-11) sub] None by (cases ok) simp_all
  next
    case (Some j)
    note j = scan_name_less [OF Some]
    consider (skip) "\<not> ps ! j" | (gray) "ps ! j" "fst st ! j = COLOR_GRAY"
      | (white) "ps ! j" "fst st ! j = COLOR_WHITE" | (black) "ps ! j" "fst st ! j = COLOR_BLACK"
      by (cases "fst st ! j") auto
    then show ?thesis
    proof cases
      case skip
      have tail: "topo_deps fuel reg ps ds st = Some (ok, st')" using 4(6) Some skip by simp
      have sub: "set ds \<subseteq> set (cfg_depends (fb_config (reg ! idx)))" using 4(12) by simp
      show ?thesis using 4(2) [OF Some skip tail 4(7-11) sub] Some skip by (cases ok) simp_all
    next
      case gray
      have e: "(idx, j) \<in> dep_edges reg ps" using 4(7,8,12) gray Some by (auto simp: dep_edges_def)
      have "j \<in> grays (fst st)" using gray j 4(10) by (simp add: grays_def topo_inv_def)
      then have "(j, idx) \<in> (dep_edges reg ps)\<^sup>*" using 4(11) by (simp add: on_path_def)
      then have "cyclic reg ps" using e unfolding cyclic_def by (meson rtrancl_into_trancl2)
      with 4(6) Some gray show ?thesis by auto
    next
      case black
      have tail: "topo_deps fuel reg ps ds st = Some (ok, st')" using 4(6) Some black by simp
      have sub: "set ds \<subseteq> set (cfg_depends (fb_config (reg ! idx)))" using 4(12) by simp
      have "\<not> \<not> ps ! j" "fst st ! j \<noteq> COLOR_GRAY" "fst st ! j \<noteq> COLOR_WHITE" using black by simp_all
      note IH = 4(5) [OF Some this tail 4(7-11) sub]
      show ?thesis
        using IH black topo_post_black [of reg ps st st' j] j 4(10) Some by auto
    next
      case white
      obtain ok1 st1 where d: "topo_dfs fuel reg ps j st = Some (ok1, st1)"
        using 4(6) Some white by (auto split: option.splits)
      have e: "(idx, j) \<in> dep_edges reg ps" using 4(7,8,12) white Some by (auto simp: dep_edges_def)
      have path: "on_path reg ps (fst st) j"
        using 4(11) e by (auto simp: on_path_def intro: rtrancl.rtrancl_into_rtrancl)
      have nn: "\<not> \<not> ps ! j" "fst st ! j \<noteq> COLOR_GRAY" using white by simp_all
      note IH1 = 4(3) [OF Some nn white(2) d j white(1,2) 4(10) path]
      show ?thesis
      proof (cases ok1)
        case False
        with IH1 4(6) Some white d show ?thesis by auto
      next
        case True
        then have post: "topo_post reg ps st st1" and bl: "fst st1 ! j = COLOR_BLACK" using IH1 by auto
        have inv1: "topo_inv reg ps st1" and g: "grays (fst st1) = grays (fst st)"
          using post by (simp_all add: topo_post_def)
        have gr: "fst st1 ! idx = COLOR_GRAY"
        proof -
          have "idx \<in> grays (fst st)" using 4(7,9,10) by (simp add: grays_def topo_inv_def)
          then show ?thesis using g by (simp add: grays_def set_eq_iff) blast
        qed
        have path1: "on_path reg ps (fst st1) idx" using 4(11) g by (simp add: on_path_def)
        have tail: "topo_deps fuel reg ps ds st1 = Some (ok, st')" using 4(6) Some white d True by simp
        have sub: "set ds \<subseteq> set (cfg_depends (fb_config (reg ! idx)))" using 4(12) by simp
        note IH2 = 4(4) [OF Some nn white(2) d refl _ tail 4(7,8) gr inv1 path1 sub]
        show ?thesis
          using IH2 True post bl topo_post_trans [OF post] topo_post_black [of reg ps st1 st' j] j inv1 Some
          by auto
      qed
    qed
  qed
qed (auto simp: topo_post_def)


lemma topo_all_correct:
  assumes "\<forall>i \<in> set is. i < length reg \<and> ps ! i" and "topo_inv reg ps st"
    and "grays (fst st) = {}" and "card (whites (fst st)) < fuel"
  shows "\<exists>ok st'. topo_all fuel reg ps is st = Some (ok, st') \<and>
    (if ok then topo_post reg ps st st' \<and> (\<forall>i \<in> set is. fst st' ! i = COLOR_BLACK) else cyclic reg ps)"
  using assms
proof (induction "is" arbitrary: st)
  case (Cons i "is")
  have i: "i < length reg" "ps ! i" and len: "length (fst st) = length reg"
    using Cons.prems by (simp_all add: topo_inv_def)
  have tl: "\<forall>i \<in> set is. i < length reg \<and> ps ! i" using Cons.prems(1) by simp
  show ?case
  proof (cases "fst st ! i = COLOR_WHITE")
    case False
    moreover have "fst st ! i \<noteq> COLOR_GRAY" using Cons.prems(3) i len by (auto simp: grays_def)
    ultimately have "fst st ! i = COLOR_BLACK" by (cases "fst st ! i") auto
    moreover obtain ok st' where "topo_all fuel reg ps is st = Some (ok, st')"
      "if ok then topo_post reg ps st st' \<and> (\<forall>i \<in> set is. fst st' ! i = COLOR_BLACK) else cyclic reg ps"
      using Cons.IH [OF tl Cons.prems(2-4)] by blast
    ultimately show ?thesis
      using topo_post_black [OF _ Cons.prems(2) i(1)] False
      by (intro exI [of _ ok] exI [of _ st']) auto
  next
    case True
    obtain ok1 st1 where d: "topo_dfs fuel reg ps i st = Some (ok1, st1)"
      using topo_enough_fuel(1) [OF i(1) len True Cons.prems(4), of ps] by auto
    have "on_path reg ps (fst st) i" using Cons.prems(3) by (simp add: on_path_def)
    note c = topo_correct(1) [OF d i True Cons.prems(2) this]
    show ?thesis
    proof (cases ok1)
      case False
      with c d True show ?thesis by auto
    next
      case ok: True
      with c have post: "topo_post reg ps st st1" and bl: "fst st1 ! i = COLOR_BLACK" by auto
      have inv1: "topo_inv reg ps st1" and g1: "grays (fst st1) = {}"
        using post Cons.prems(3) by (auto simp: topo_post_def)
      have "whites (fst st1) \<subseteq> whites (fst st)" using topo_shrinks(1) [OF d] i len by simp
      then have f1: "card (whites (fst st1)) < fuel"
        using Cons.prems(4) card_mono [OF finite_whites] by (meson le_less_trans)
      from Cons.IH [OF tl inv1 g1 f1] obtain ok2 st2 where t: "topo_all fuel reg ps is st1 = Some (ok2, st2)"
        and r: "if ok2 then topo_post reg ps st1 st2 \<and> (\<forall>i \<in> set is. fst st2 ! i = COLOR_BLACK)
          else cyclic reg ps" by blast
      show ?thesis
        using t r d True ok bl topo_post_trans [OF post] topo_post_black [OF _ inv1 i(1)]
        by (intro exI [of _ ok2] exI [of _ st2]) auto
    qed
  qed
qed (auto simp: topo_post_def)

text \<open>Dependencies between FBs of one phase, by registry index.\<close>

definition phase_deps :: "nat \<Rightarrow> fb list \<Rightarrow> (nat \<times> nat) set" where
  "phase_deps phase reg = dep_edges reg (phase_members phase reg)"

definition topo_order :: "(nat \<times> nat) set \<Rightarrow> nat list \<Rightarrow> bool" where
  "topo_order E xs \<longleftrightarrow> (\<forall>k < length xs. \<forall>j. (xs ! k, j) \<in> E \<longrightarrow> j \<in> set (take k xs))"

lemma topo_order_acyclic:
  assumes "topo_order E xs" and "\<And>i j. (i, j) \<in> E \<Longrightarrow> i \<in> set xs"
  shows "(i, i) \<notin> E\<^sup>+"
proof -
  define pos where "pos i = (LEAST k. k < length xs \<and> xs ! k = i)" for i
  have pos: "pos i < length xs \<and> xs ! pos i = i" if "i \<in> set xs" for i
    using that LeastI_ex [of "\<lambda>k. k < length xs \<and> xs ! k = i"] by (auto simp: pos_def in_set_conv_nth)
  have least: "pos i \<le> k" if "k < length xs" "xs ! k = i" for i k
    using that by (auto simp: pos_def intro: Least_le)
  have step: "pos j < pos i" if "(i, j) \<in> E" for i j
  proof -
    have i: "pos i < length xs" "xs ! pos i = i" using pos assms(2) [OF that] by auto
    then have "j \<in> set (take (pos i) xs)" using assms(1) that by (auto simp: topo_order_def)
    then obtain k where "k < pos i" "xs ! k = j" by (auto simp: in_set_conv_nth)
    then show ?thesis using least [of k j] i by simp
  qed
  have "pos j < pos i" if "(i, j) \<in> E\<^sup>+" for i j
    using that by induction (auto dest: step)
  then show ?thesis by blast
qed

lemma topo_sort_result:
  "\<exists>ok order. topo_sort phase reg = Some (ok, order) \<and>
     (ok \<longleftrightarrow> (\<forall>i. (i, i) \<notin> (phase_deps phase reg)\<^sup>+)) \<and>
     (ok \<longrightarrow> distinct order \<and> topo_order (phase_deps phase reg) order \<and>
        set order = {i. i < length reg \<and> fc_boot_phase (fb_config (reg ! i)) = phase})"
proof -
  let ?ps = "phase_members phase reg" and ?is = "phase_indices phase reg"
  let ?st = "(replicate (length reg) COLOR_WHITE, [] :: nat list)"
  have ps: "?ps ! i \<longleftrightarrow> fc_boot_phase (fb_config (reg ! i)) = phase" if "i < length reg" for i
    using that by (simp add: phase_members_def)
  have "card (whites (fst ?st)) \<le> card {..<length reg}" by (rule card_mono) (auto simp: whites_def)
  then obtain ok st' where t: "topo_all (Suc (length reg)) reg ?ps ?is ?st = Some (ok, st')"
    and r: "if ok then topo_post reg ?ps ?st st' \<and> (\<forall>i \<in> set ?is. fst st' ! i = COLOR_BLACK)
      else cyclic reg ?ps"
    using topo_all_correct [of ?is reg ?ps ?st "Suc (length reg)"] ps
    by (auto simp: phase_indices_def topo_inv_def grays_def)
  show ?thesis
  proof (cases ok)
    case False
    with t r show ?thesis by (auto simp: topo_sort_def cyclic_def phase_deps_def)
  next
    case True
    with r have inv: "topo_inv reg ?ps st'" and bl: "\<forall>i \<in> set ?is. fst st' ! i = COLOR_BLACK"
      by (auto simp: topo_post_def)
    have set: "set (snd st') = {i. i < length reg \<and> fc_boot_phase (fb_config (reg ! i)) = phase}"
      using inv bl ps by (auto simp: topo_inv_def phase_indices_def)
    have ord: "topo_order (phase_deps phase reg) (snd st')"
      using inv by (simp add: topo_inv_def topo_order_def phase_deps_def)
    have "i \<in> set (snd st')" if "(i, j) \<in> phase_deps phase reg" for i j
      using that ps by (auto simp: set phase_deps_def dep_edges_def)
    from topo_order_acyclic [OF ord this] True t set ord inv show ?thesis
      by (auto simp: topo_sort_def topo_inv_def)
  qed
qed

text \<open>C7: the topological sort of a phase always ends; it reports a cycle exactly when the
  dependencies inside the phase are cyclic, and otherwise yields every FB of the phase exactly
  once, behind all the FBs of the phase it depends on.\<close>

theorem topo_sort_correct:
  "\<exists>ok order. topo_sort phase reg = Some (ok, order) \<and>
     (if \<forall>i. (i, i) \<notin> (phase_deps phase reg)\<^sup>+
      then ok \<and> distinct order \<and> topo_order (phase_deps phase reg) order \<and>
        set order = {i. i < length reg \<and> fc_boot_phase (fb_config (reg ! i)) = phase}
      else \<not> ok)"
  using topo_sort_result [of phase reg] by auto

section \<open>Without dependencies\<close>

text \<open>When no FB declares a dependency, a phase is initialised in the order of registration.\<close>

lemma topo_all_independent:
  assumes "\<forall>i \<in> set js. i < length reg \<and> cfg_depends (fb_config (reg ! i)) = []" and "distinct js"
    and "length c = length reg" and "\<forall>i \<in> set js. c ! i = COLOR_WHITE"
  shows "\<exists>c'. topo_all (Suc (Suc fuel)) reg ps js (c, r) = Some (True, (c', r @ js))"
  using assms
proof (induction js arbitrary: c r)
  case (Cons i js)
  let ?c = "c[i := COLOR_GRAY, i := COLOR_BLACK]"
  have "\<exists>c'. topo_all (Suc (Suc fuel)) reg ps js (?c, r @ [i]) = Some (True, (c', (r @ [i]) @ js))"
    using Cons.prems by (intro Cons.IH) (auto simp: nth_list_update)
  with Cons.prems show ?case by simp
qed simp

lemma topo_sort_independent:
  assumes "\<forall>f \<in> set reg. cfg_depends (fb_config f) = []"
  shows "topo_sort p reg = Some (True, phase_indices p reg)"
proof (cases reg)
  case Nil
  then show ?thesis by (simp add: topo_sort_def phase_indices_def)
next
  case (Cons f fs)
  have "\<exists>c'. topo_all (Suc (Suc (length fs))) reg (phase_members p reg) (phase_indices p reg)
      (replicate (length reg) COLOR_WHITE, []) = Some (True, (c', [] @ phase_indices p reg))"
    using assms by (intro topo_all_independent) (auto simp: phase_indices_def)
  then show ?thesis using Cons by (auto simp: topo_sort_def)
qed

end
