(* ===== verification/Engine.thy ===== *)
theory Engine
  imports Bus Topo
begin

text \<open>
  core/src/registry/fb_engine.c: boot (dependency check, phases in order, the sort of theory Topo,
  the calls of the init functions, creation of the dispatch semaphores), message dispatch to
  sub-functions, and reset. Contents: the operations, what a whole boot guarantees, and the
  order in which a message runs the sub-functions that were registered.
\<close>

section \<open>Boot\<close>

text \<open>Step 3 of the boot for one FB; sub-functions can be registered during the init call only.\<close>

definition boot_call_init :: "'u callbacks \<Rightarrow> nat \<Rightarrow> 'u world \<Rightarrow> 'u world option" where
  "boot_call_init cb idx w = (case fc_init_fn (fb_config (fb_at w idx)) of
     None \<Rightarrow> Some w
   | Some fn \<Rightarrow> do {
       w1 \<leftarrow> cb_init cb fn idx (fc_fb_data (fb_config (fb_at w idx)))
              (update_fb idx (\<lambda>f. f\<lparr>fb_registering := True\<rparr>) w);
       Some (update_fb idx (\<lambda>f. f\<lparr>fb_registering := False\<rparr>) w1) })"

text \<open>A state transition with its lifecycle event.\<close>

definition boot_transition :: "nat \<Rightarrow> fb_state \<Rightarrow> 'u world \<Rightarrow> 'u world" where
  "boot_transition idx s w =
     (let w1 = update_fb idx (\<lambda>f. f\<lparr>fb_state := s\<rparr>) w
      in emit EMBEDIQ_OBS_EVT_LIFECYCLE (fb_ep_idx (fb_at w1 idx)) 0xFF (fb_state_code s) 0 w1)"

definition boot_init_fb :: "'u callbacks \<Rightarrow> nat \<Rightarrow> 'u world \<Rightarrow> 'u world option" where
  "boot_init_fb cb idx w = do {
     w1 \<leftarrow> boot_call_init cb idx (boot_transition idx STATE_INITIALISING w);
     let w2 = boot_transition idx STATE_RUNNING w1;
     Some (w2\<lparr>g_boot_order := g_boot_order w2 @ [idx]\<rparr>) }"

fun boot_init_all :: "'u callbacks \<Rightarrow> nat list \<Rightarrow> 'u world \<Rightarrow> 'u world option" where
  "boot_init_all cb [] w = Some w"
| "boot_init_all cb (i # is) w = do { w1 \<leftarrow> boot_init_fb cb i w; boot_init_all cb is w1 }"

text \<open>Step 2 for one phase: 0, or -1 and a fault event for a cycle.\<close>

definition boot_phase :: "'u callbacks \<Rightarrow> nat \<Rightarrow> 'u world \<Rightarrow> (int \<times> 'u world) option" where
  "boot_phase cb phase w =
     (if phase_indices phase (g_registry w) = [] then Some (0, w)
      else case topo_sort phase (g_registry w) of
        None \<Rightarrow> None
      | Some (ok, order) \<Rightarrow>
          if \<not> ok then Some (-1, emit EMBEDIQ_OBS_EVT_FAULT 0xFF 0xFF (fb_state_code STATE_FAULT) 0 w)
          else map_option (\<lambda>w'. (0, w')) (boot_init_all cb order w))"

fun boot_phases :: "'u callbacks \<Rightarrow> nat list \<Rightarrow> 'u world \<Rightarrow> (int \<times> 'u world) option" where
  "boot_phases cb [] w = Some (0, w)"
| "boot_phases cb (p # ps) w = do {
     (r, w1) \<leftarrow> boot_phase cb p w;
     if r \<noteq> 0 then Some (r, w1) else boot_phases cb ps w1 }"

definition k_phases :: "nat list" where
  "k_phases = [EMBEDIQ_BOOT_PHASE_PLATFORM, EMBEDIQ_BOOT_PHASE_INFRASTRUCTURE,
     EMBEDIQ_BOOT_PHASE_APPLICATION, EMBEDIQ_BOOT_PHASE_BRIDGE]"

text \<open>Step 1: the first FB with a dependency that is not registered.\<close>

definition missing_dep :: "fb list \<Rightarrow> nat option" where
  "missing_dep reg = find (\<lambda>i. list_ex (\<lambda>d. scan_name d 0 reg = None) (cfg_depends (fb_config (reg ! i))))
     [0..<length reg]"

definition create_sem :: "(nat \<Rightarrow> bool) \<Rightarrow> nat \<Rightarrow> 'u world \<Rightarrow> 'u world" where
  "create_sem mem i w =
     (if fc_subscription_count (fb_config (fb_at w i)) = 0 then w
      else w\<lparr>g_dispatch_sem := (g_dispatch_sem w)[i :=
               if mem (allocs w) then Some (embediq_sem_create 0 UINT32_MAX) else None],
             allocs := allocs w + 1\<rparr>)"

definition embediq_engine_boot ::
  "(nat \<Rightarrow> bool) \<Rightarrow> 'u callbacks \<Rightarrow> 'u world \<Rightarrow> (int \<times> 'u world) option" where
  "embediq_engine_boot mem cb w =
     (if g_booted w then Some (0, w)
      else let w1 = message_bus_boot mem (w\<lparr>g_boot_order := []\<rparr>)
           in case missing_dep (g_registry w1) of
             Some i \<Rightarrow> Some (-1, emit EMBEDIQ_OBS_EVT_FAULT (fb_ep_idx (fb_at w1 i)) 0xFF
                             (fb_state_code STATE_FAULT) 0 w1)
           | None \<Rightarrow> do {
               (r, w2) \<leftarrow> boot_phases cb k_phases w1;
               if r \<noteq> 0 then Some (r, w2)
               else let w3 = fold (create_sem mem) [0..<length (g_registry w2)] w2
                    in Some (0, (message_bus_set_notify_fn True w3)\<lparr>g_booted := True\<rparr>) })"

section \<open>Dispatch to sub-functions and reset\<close>

text \<open>The loop of \<open>dispatch_msg_to_fb\<close> from sub-function \<open>i\<close> on, for \<open>n\<close> more of them.\<close>

fun dispatch_from :: "'u callbacks \<Rightarrow> nat \<Rightarrow> u16 \<Rightarrow> bytes \<Rightarrow> subfn_config list \<Rightarrow> 'u world \<Rightarrow> 'u world option"
where
  "dispatch_from cb i mid msg [] w = Some w"
| "dispatch_from cb i mid msg (sf # sfs) w = (case sf_run_fn sf of
     None \<Rightarrow> dispatch_from cb i mid msg sfs w
   | Some fn \<Rightarrow>
       if mid \<in> set (subfn_subs sf)
       then do {
         w1 \<leftarrow> cb_run cb fn i msg (fc_fb_data (fb_config (fb_at w i))) (sf_subfn_data sf) w;
         dispatch_from cb i mid msg sfs w1 }
       else dispatch_from cb i mid msg sfs w)"

definition dispatch_msg_to_fb :: "'u callbacks \<Rightarrow> nat \<Rightarrow> u16 \<Rightarrow> bytes \<Rightarrow> 'u world \<Rightarrow> 'u world option" where
  "dispatch_msg_to_fb cb i mid msg w = dispatch_from cb i mid msg (fb_subs (fb_at w i)) w"

definition fb_engine__deliver_msg ::
  "'u callbacks \<Rightarrow> handle \<Rightarrow> u16 \<Rightarrow> bytes \<Rightarrow> 'u world \<Rightarrow> 'u world option" where
  "fb_engine__deliver_msg cb h mid msg w = (case h of
     None \<Rightarrow> Some w | Some i \<Rightarrow> dispatch_msg_to_fb cb i mid msg w)"

text \<open>The loop of a dispatch thread, \<open>fb_dispatch_loop\<close>. Its inner loop may run for ever, if a handler
  keeps publishing to its own FB.\<close>

definition recv_any :: "u8 \<Rightarrow> 'u world \<Rightarrow> embediq_msg option \<times> 'u world" where
  "recv_any ep w = (case message_bus_recv_ep ep 0 w of
     (Some m, w) \<Rightarrow> (Some m, w)
   | (None, w) \<Rightarrow> (case message_bus_recv_ep ep 1 w of
        (Some m, w) \<Rightarrow> (Some m, w)
      | (None, w) \<Rightarrow> message_bus_recv_ep ep 2 w))"

partial_function (option) dispatch_drain :: "'u callbacks \<Rightarrow> nat \<Rightarrow> 'u world \<Rightarrow> 'u world option" where
  "dispatch_drain cb i w =
     (case fst (recv_any (fb_ep_idx (fb_at w i)) w) of
        None \<Rightarrow> Some (snd (recv_any (fb_ep_idx (fb_at w i)) w))
      | Some m \<Rightarrow> Option.bind
          (dispatch_msg_to_fb cb i (msg_id m) (payload m) (snd (recv_any (fb_ep_idx (fb_at w i)) w)))
          (dispatch_drain cb i))"

text \<open>One round of the outer loop: the loop test, the wait for the semaphore, and then the shutdown
  test or the draining of the queues. False: the thread ends. A thread without a semaphore does
  not wait.\<close>

definition dispatch_round :: "'u callbacks \<Rightarrow> nat \<Rightarrow> 'u world \<Rightarrow> (bool \<times> 'u world) option" where
  "dispatch_round cb i w =
     (if \<not> g_dispatch_running w then Some (False, w)
      else do {
        w \<leftarrow> (case g_dispatch_sem w ! i of
              None \<Rightarrow> Some w
            | Some s \<Rightarrow> map_option (\<lambda>s'. w\<lparr>g_dispatch_sem := (g_dispatch_sem w)[i := Some s']\<rparr>)
                (embediq_sem_wait s));
        if g_dispatch_shutdown w then Some (False, w)
        else map_option (Pair True) (dispatch_drain cb i w) })"

definition fb_engine__dispatch_sem :: "u8 \<Rightarrow> 'u world \<Rightarrow> osal_sem option" where
  "fb_engine__dispatch_sem ep w =
     (if unat ep \<ge> EMBEDIQ_MAX_ENDPOINTS then None else g_dispatch_sem w ! unat ep)"

text \<open>\<open>embediq_engine_dispatch_boot\<close>: a task for every FB with subscriptions. \<open>task_ok i\<close> tells
  whether the thread can be created.\<close>

definition embediq_engine_dispatch_boot :: "(nat \<Rightarrow> bool) \<Rightarrow> 'u world \<Rightarrow> 'u world" where
  "embediq_engine_dispatch_boot task_ok w =
     (if g_dispatch_running w then w
      else w\<lparr>g_dispatch_running := True,
             g_dispatch_task := map (\<lambda>i. if i < length (g_registry w) \<and>
                 fc_subscription_count (fb_config (fb_at w i)) \<noteq> 0 then task_ok i
               else g_dispatch_task w ! i) [0..<EMBEDIQ_MAX_ENDPOINTS]\<rparr>)"

text \<open>\<open>embediq_engine_dispatch_shutdown\<close>, once every joined thread has ended.\<close>

definition embediq_engine_dispatch_shutdown :: "'u world \<Rightarrow> int \<times> 'u world" where
  "embediq_engine_dispatch_shutdown w =
     (if \<not> g_dispatch_running w then (0, w)
      else (0, w\<lparr>g_dispatch_sem := map (map_option embediq_sem_post) (g_dispatch_sem w),
                 g_dispatch_task := replicate EMBEDIQ_MAX_ENDPOINTS False,
                 g_dispatch_shutdown := False, g_dispatch_running := False\<rparr>))"

definition fb_engine__reset :: "'u world \<Rightarrow> 'u world" where
  "fb_engine__reset w =
     (let w1 = (if g_dispatch_running w then snd (embediq_engine_dispatch_shutdown w) else w)
      in message_bus__reset (w1\<lparr>g_registry := [], g_boot_order := [],
           g_dispatch_sem := replicate EMBEDIQ_MAX_ENDPOINTS None,
           g_dispatch_task := replicate EMBEDIQ_MAX_ENDPOINTS False, g_booted := False,
           g_dispatch_running := False\<rparr>))"



section \<open>What a boot guarantees\<close>

text \<open>Init functions return and leave configurations, states and the boot order alone (they
  register sub-functions, publish, and use their own data).\<close>

definition init_ok :: "'u callbacks \<Rightarrow> bool" where
  "init_ok cb \<longleftrightarrow> (\<forall>fn i d w. \<exists>w'. cb_init cb fn i d w = Some w' \<and>
     map fb_config (g_registry w') = map fb_config (g_registry w) \<and>
     map fb_state (g_registry w') = map fb_state (g_registry w) \<and> g_boot_order w' = g_boot_order w)"

definition configs :: "'u world \<Rightarrow> fb_config list" where
  "configs w = map fb_config (g_registry w)"

definition states :: "'u world \<Rightarrow> fb_state list" where
  "states w = map fb_state (g_registry w)"

lemma configs_length: "configs w' = configs w \<Longrightarrow> length (g_registry w') = length (g_registry w)"
  unfolding configs_def by (metis length_map)

lemma configs_nth: "configs w' = configs w \<Longrightarrow> i < length (g_registry w) \<Longrightarrow>
   fb_config (g_registry w' ! i) = fb_config (g_registry w ! i)"
  unfolding configs_def by (metis length_map nth_map)

lemma scan_name_cong:
  "map fb_config reg' = map fb_config reg \<Longrightarrow> scan_name d k reg' = scan_name d k reg"
proof (induction reg arbitrary: reg' k)
  case (Cons f fs)
  then obtain f' fs' where "reg' = f' # fs'" "fb_config f' = fb_config f" "map fb_config fs' = map fb_config fs"
    by auto
  with Cons.IH [of fs' "k + 1"] show ?case by simp
qed simp

lemma phase_deps_cong: "configs w' = configs w \<Longrightarrow> phase_deps p (g_registry w') = phase_deps p (g_registry w)"
proof -
  assume c: "configs w' = configs w"
  note l = configs_length [OF c] and n = configs_nth [OF c]
  have s: "scan_name d 0 (g_registry w') = scan_name d 0 (g_registry w)" for d
    using c by (intro scan_name_cong) (simp add: configs_def)
  have "phase_members p (g_registry w') = phase_members p (g_registry w)"
    using n l by (intro nth_equalityI) (simp_all add: phase_members_def)
  then show ?thesis using n l s by (auto simp: phase_deps_def dep_edges_def)
qed

lemma map_update_same: "(map f xs)[i := f (xs ! i)] = map f xs"
  by (metis list_update_id map_update)

lemma update_fb_maps:
  "configs (update_fb i (\<lambda>f. f\<lparr>fb_state := s\<rparr>) w) = configs w"
  "configs (update_fb i (\<lambda>f. f\<lparr>fb_registering := b\<rparr>) w) = configs w"
  "states (update_fb i (\<lambda>f. f\<lparr>fb_state := s\<rparr>) w) = (states w)[i := s]"
  "states (update_fb i (\<lambda>f. f\<lparr>fb_registering := b\<rparr>) w) = states w"
  by (simp_all add: configs_def states_def update_fb_def map_update map_update_same)

lemma emit_maps [simp]: "configs (emit a b c d e w) = configs w" "states (emit a b c d e w) = states w"
  by (simp_all add: configs_def states_def)

lemma boot_transition_maps:
  "configs (boot_transition i s w) = configs w" "states (boot_transition i s w) = (states w)[i := s]"
  "g_boot_order (boot_transition i s w) = g_boot_order w"
  by (simp_all add: boot_transition_def Let_def update_fb_maps)

lemma boot_call_init_maps:
  assumes "init_ok cb"
  shows "\<exists>w'. boot_call_init cb i w = Some w' \<and> configs w' = configs w \<and> states w' = states w \<and>
    g_boot_order w' = g_boot_order w"
proof (cases "fc_init_fn (fb_config (fb_at w i))")
  case (Some fn)
  let ?v = "update_fb i (\<lambda>f. f\<lparr>fb_registering := True\<rparr>) w"
  obtain w1 where "cb_init cb fn i (fc_fb_data (fb_config (fb_at w i))) ?v = Some w1"
      "configs w1 = configs ?v" "states w1 = states ?v" "g_boot_order w1 = g_boot_order ?v"
    using assms unfolding init_ok_def configs_def states_def by blast
  with Some show ?thesis by (simp add: boot_call_init_def update_fb_maps)
qed (simp add: boot_call_init_def)

lemma boot_init_fb_step:
  assumes "init_ok cb"
  shows "\<exists>w'. boot_init_fb cb i w = Some w' \<and> configs w' = configs w \<and>
    states w' = (states w)[i := STATE_RUNNING] \<and> g_boot_order w' = g_boot_order w @ [i]"
proof -
  let ?w = "boot_transition i STATE_INITIALISING w"
  obtain w1 where w1: "boot_call_init cb i ?w = Some w1" "configs w1 = configs ?w"
      "states w1 = states ?w" "g_boot_order w1 = g_boot_order ?w"
    using boot_call_init_maps [OF assms] by blast
  have "configs (w\<lparr>g_boot_order := x\<rparr>) = configs w" "states (w\<lparr>g_boot_order := x\<rparr>) = states w" for w :: "'a world" and x
    by (simp_all add: configs_def states_def)
  with w1 show ?thesis by (simp add: boot_init_fb_def Let_def boot_transition_maps)
qed

lemma boot_init_all_step:
  assumes "init_ok cb"
  shows "\<exists>w'. boot_init_all cb is w = Some w' \<and> configs w' = configs w \<and>
    states w' = fold (\<lambda>i s. s[i := STATE_RUNNING]) is (states w) \<and>
    g_boot_order w' = g_boot_order w @ is"
proof (induction "is" arbitrary: w)
  case (Cons i "is")
  obtain w1 where "boot_init_fb cb i w = Some w1" "configs w1 = configs w"
      "states w1 = (states w)[i := STATE_RUNNING]" "g_boot_order w1 = g_boot_order w @ [i]"
    using boot_init_fb_step [OF assms] by blast
  with Cons.IH [of w1] show ?case by auto
qed simp

lemma fold_running:
  "fold (\<lambda>i s. s[i := x]) is xs = map (\<lambda>i. if i \<in> set is then x else xs ! i) [0..<length xs]"
proof (induction "is" arbitrary: xs)
  case (Cons i "is")
  then show ?case by (auto simp: nth_list_update intro!: nth_equalityI)
qed (simp add: map_nth)


text \<open>The initialisation order up to phase \<open>p\<close>: every FB of the phases 1 to \<open>p\<close> once, phase by phase,
  each behind the FBs it depends on of the same or an earlier phase.\<close>

definition boot_ordered :: "fb list \<Rightarrow> nat \<Rightarrow> nat list \<Rightarrow> bool" where
  "boot_ordered reg p order \<longleftrightarrow> distinct order \<and>
     set order = {i. i < length reg \<and> 1 \<le> fc_boot_phase (fb_config (reg ! i)) \<and>
       fc_boot_phase (fb_config (reg ! i)) \<le> p} \<and>
     sorted (map (\<lambda>i. fc_boot_phase (fb_config (reg ! i))) order) \<and>
     (\<forall>k < length order. \<forall>d \<in> set (cfg_depends (fb_config (reg ! (order ! k)))). \<forall>j.
        scan_name d 0 reg = Some j \<and> 1 \<le> fc_boot_phase (fb_config (reg ! j)) \<and>
        fc_boot_phase (fb_config (reg ! j)) \<le> fc_boot_phase (fb_config (reg ! (order ! k))) \<longrightarrow>
        j \<in> set (take k order))"

definition phase_cyclic :: "nat \<Rightarrow> fb list \<Rightarrow> bool" where
  "phase_cyclic p reg \<longleftrightarrow> (\<exists>i. (i, i) \<in> (phase_deps p reg)\<^sup>+)"

lemma boot_ordered_append:
  assumes b: "boot_ordered reg p xs" and d: "distinct ys"
    and s: "set ys = {i. i < length reg \<and> fc_boot_phase (fb_config (reg ! i)) = Suc p}"
    and t: "topo_order (phase_deps (Suc p) reg) ys"
  shows "boot_ordered reg (Suc p) (xs @ ys)"
proof -
  let ?ph = "\<lambda>i. fc_boot_phase (fb_config (reg ! i))"
  have xs: "set xs = {i. i < length reg \<and> 1 \<le> ?ph i \<and> ?ph i \<le> p}" and dx: "distinct xs"
    and sx: "sorted (map ?ph xs)" using b by (simp_all add: boot_ordered_def)
  have sets: "set (xs @ ys) = {i. i < length reg \<and> 1 \<le> ?ph i \<and> ?ph i \<le> Suc p}"
    unfolding set_append xs s by auto
  moreover have "distinct (xs @ ys)" using dx d unfolding distinct_append xs s by auto
  moreover have "sorted (map ?ph (xs @ ys))"
  proof -
    have "?ph (ys ! i) = Suc p" if "i < length ys" for i using that s nth_mem by blast
    then have "sorted (map ?ph ys)" by (simp add: sorted_iff_nth_mono)
    moreover have "\<forall>x \<in> set xs. \<forall>y \<in> set ys. ?ph x \<le> ?ph y" unfolding xs s by simp
    ultimately show ?thesis using sx by (simp add: sorted_append)
  qed
  moreover have "j \<in> set (take k (xs @ ys))"
    if "k < length (xs @ ys)" "dep \<in> set (cfg_depends (fb_config (reg ! ((xs @ ys) ! k))))"
      "scan_name dep 0 reg = Some j" "1 \<le> ?ph j" "?ph j \<le> ?ph ((xs @ ys) ! k)" for k dep j
  proof (cases "k < length xs")
    case True
    with that b show ?thesis by (simp add: boot_ordered_def nth_append)
  next
    case False
    let ?m = "k - length xs"
    have m: "?m < length ys" "(xs @ ys) ! k = ys ! ?m" using that(1) False by (simp_all add: nth_append)
    then have "ys ! ?m \<in> set ys" by simp
    then have y: "ys ! ?m < length reg" "?ph (ys ! ?m) = Suc p" using s by auto
    have j: "j < length reg" using scan_name_less [OF that(3)] .
    show ?thesis
    proof (cases "?ph j = Suc p")
      case True
      then have "(ys ! ?m, j) \<in> phase_deps (Suc p) reg"
        using that(2,3) y j m(2) by (auto simp: phase_deps_def dep_edges_def phase_members_def)
      then have "j \<in> set (take ?m ys)" using t m(1) by (simp add: topo_order_def)
      with False show ?thesis by simp
    next
      case no: False
      then have "j \<in> set xs" using that(4,5) j y m(2) xs by simp
      with False show ?thesis by simp
    qed
  qed
  ultimately show ?thesis unfolding boot_ordered_def by blast
qed

text \<open>One phase of the boot.\<close>

definition boot_state :: "fb list \<Rightarrow> nat \<Rightarrow> 'u world \<Rightarrow> bool" where
  "boot_state reg p w \<longleftrightarrow> configs w = map fb_config reg \<and> boot_ordered reg p (g_boot_order w) \<and>
     states w = map (\<lambda>i. if i \<in> set (g_boot_order w) then STATE_RUNNING else fb_state (reg ! i)) [0..<length reg]"

lemma boot_phase_step:
  assumes "init_ok cb" and "boot_state reg p w"
  shows "\<exists>r w'. boot_phase cb (Suc p) w = Some (r, w') \<and>
    (if phase_cyclic (Suc p) reg then r = -1 else r = 0 \<and> boot_state reg (Suc p) w')"
proof -
  let ?reg = "g_registry w"
  have c: "configs w = map fb_config reg" and st: "states w =
      map (\<lambda>i. if i \<in> set (g_boot_order w) then STATE_RUNNING else fb_state (reg ! i)) [0..<length reg]"
    using assms(2) by (simp_all add: boot_state_def)
  have deps: "phase_deps (Suc p) ?reg = phase_deps (Suc p) reg"
    using phase_deps_cong [of w "w\<lparr>g_registry := reg\<rparr>" "Suc p"] c by (simp add: configs_def)
  have len: "length ?reg = length reg" and nth: "\<And>i. i < length reg \<Longrightarrow> fb_config (?reg ! i) = fb_config (reg ! i)"
    using configs_length [of w "w\<lparr>g_registry := reg\<rparr>"] configs_nth [of w "w\<lparr>g_registry := reg\<rparr>"] c
    by (simp_all add: configs_def)
  obtain ok order where t: "topo_sort (Suc p) ?reg = Some (ok, order)"
    and ok: "ok \<longleftrightarrow> \<not> phase_cyclic (Suc p) reg"
    and o: "ok \<Longrightarrow> distinct order \<and> topo_order (phase_deps (Suc p) reg) order \<and>
        set order = {i. i < length reg \<and> fc_boot_phase (fb_config (reg ! i)) = Suc p}"
  proof -
    obtain ok order where "topo_sort (Suc p) ?reg = Some (ok, order)"
      "ok \<longleftrightarrow> \<not> phase_cyclic (Suc p) reg"
      "ok \<longrightarrow> distinct order \<and> topo_order (phase_deps (Suc p) reg) order \<and>
        set order = {i. i < length ?reg \<and> fc_boot_phase (fb_config (?reg ! i)) = Suc p}"
      using topo_sort_result [of "Suc p" ?reg] by (auto simp: phase_cyclic_def deps)
    moreover have "{i. i < length ?reg \<and> fc_boot_phase (fb_config (?reg ! i)) = Suc p} =
        {i. i < length reg \<and> fc_boot_phase (fb_config (reg ! i)) = Suc p}"
      using nth len by auto
    ultimately show ?thesis using that by simp
  qed
  have empty: "phase_indices (Suc p) ?reg = [] \<longleftrightarrow>
      {i. i < length reg \<and> fc_boot_phase (fb_config (reg ! i)) = Suc p} = {}"
    using nth len by (auto simp: phase_indices_def filter_empty_conv)
  show ?thesis
  proof (cases ok)
    case False
    have "phase_deps (Suc p) reg \<noteq> {}" using False ok by (auto simp: phase_cyclic_def)
    then have "phase_indices (Suc p) ?reg \<noteq> []"
      unfolding empty by (auto simp: phase_deps_def dep_edges_def phase_members_def)
    with False t ok show ?thesis by (simp add: boot_phase_def)
  next
    case True
    have new: "boot_ordered reg (Suc p) (g_boot_order w @ order)"
      using boot_ordered_append assms(2) o [OF True] by (auto simp: boot_state_def)
    obtain w' where i: "boot_init_all cb order w = Some w'" "configs w' = configs w"
        "states w' = fold (\<lambda>i s. s[i := STATE_RUNNING]) order (states w)"
        "g_boot_order w' = g_boot_order w @ order"
      using boot_init_all_step [OF assms(1)] by blast
    have "boot_state reg (Suc p) w'"
      using i c new st by (auto simp: boot_state_def fold_running)
    moreover have "boot_phase cb (Suc p) w = Some (0, w')"
    proof (cases "phase_indices (Suc p) ?reg = []")
      case e: True
      then have "order = []" using o [OF True] e empty by (metis set_empty)
      with e i show ?thesis by (simp add: boot_phase_def)
    qed (simp add: boot_phase_def t True i)
    ultimately show ?thesis using True ok by auto
  qed
qed


lemma boot_phases_steps:
  assumes "init_ok cb" and "boot_state reg p w"
  shows "\<exists>r w'. boot_phases cb (map Suc [p..<p + n]) w = Some (r, w') \<and>
    (if \<exists>q \<in> {p + 1..p + n}. phase_cyclic q reg then r = -1 else r = 0 \<and> boot_state reg (p + n) w')"
  using assms(2)
proof (induction n arbitrary: p w)
  case (Suc n)
  obtain r w1 where s: "boot_phase cb (Suc p) w = Some (r, w1)"
    and r: "if phase_cyclic (Suc p) reg then r = -1 else r = 0 \<and> boot_state reg (Suc p) w1"
    using boot_phase_step [OF assms(1) Suc.prems] by blast
  have l: "map Suc [p..<p + Suc n] = Suc p # map Suc [Suc p..<Suc p + n]" by (simp add: upt_rec)
  have q: "{p + 1..p + Suc n} = insert (Suc p) {Suc p + 1..Suc p + n}" by auto
  show ?case
  proof (cases "phase_cyclic (Suc p) reg")
    case True
    with s r show ?thesis unfolding l q by simp
  next
    case False
    with r have "r = 0" "boot_state reg (Suc p) w1" by simp_all
    moreover obtain r2 w2 where "boot_phases cb (map Suc [Suc p..<Suc p + n]) w1 = Some (r2, w2)"
      "if \<exists>q \<in> {Suc p + 1..Suc p + n}. phase_cyclic q reg then r2 = -1
       else r2 = 0 \<and> boot_state reg (Suc p + n) w2"
      using Suc.IH [OF \<open>boot_state reg (Suc p) w1\<close>] by blast
    ultimately show ?thesis
      unfolding l q using s False
      by (cases "\<exists>q \<in> {Suc p + 1..Suc p + n}. phase_cyclic q reg") auto
  qed
qed simp

lemma k_phases_eq: "k_phases = map Suc [0..<0 + 4]"
  by (simp add: k_phases_def embediq_const upt_rec)

lemma bus_boot_keeps [simp]:
  "g_registry (message_bus_boot mem w) = g_registry w"
  "g_boot_order (message_bus_boot mem w) = g_boot_order w"
  "g_notify_fn (message_bus_boot mem w) = g_notify_fn w"
  "user (message_bus_boot mem w) = user w"
  "g_dispatch_sem (message_bus_boot mem w) = g_dispatch_sem w"
  "g_dispatch_running (message_bus_boot mem w) = g_dispatch_running w"
  "g_dispatch_shutdown (message_bus_boot mem w) = g_dispatch_shutdown w"
proof -
  have "g_registry ((boot_endpoint mem ^^ k) w) = g_registry w \<and>
      g_boot_order ((boot_endpoint mem ^^ k) w) = g_boot_order w \<and>
      g_notify_fn ((boot_endpoint mem ^^ k) w) = g_notify_fn w \<and>
      user ((boot_endpoint mem ^^ k) w) = user w \<and>
      g_dispatch_sem ((boot_endpoint mem ^^ k) w) = g_dispatch_sem w \<and>
      g_dispatch_running ((boot_endpoint mem ^^ k) w) = g_dispatch_running w \<and>
      g_dispatch_shutdown ((boot_endpoint mem ^^ k) w) = g_dispatch_shutdown w" for k and w :: "'a world"
    by (induction k) (simp_all add: boot_endpoint_def bus_queue_create_def Let_def)
  then show "g_registry (message_bus_boot mem w) = g_registry w"
    and "g_boot_order (message_bus_boot mem w) = g_boot_order w"
    and "g_notify_fn (message_bus_boot mem w) = g_notify_fn w"
    and "user (message_bus_boot mem w) = user w"
    and "g_dispatch_sem (message_bus_boot mem w) = g_dispatch_sem w"
    and "g_dispatch_running (message_bus_boot mem w) = g_dispatch_running w"
    and "g_dispatch_shutdown (message_bus_boot mem w) = g_dispatch_shutdown w"
    by (simp_all add: message_bus_boot_def sub_sort_def Let_def)
qed

lemma create_sems_keep:
  "g_registry (fold (create_sem mem) is w) = g_registry w \<and>
   g_boot_order (fold (create_sem mem) is w) = g_boot_order w \<and>
   user (fold (create_sem mem) is w) = user w"
  by (induction "is" arbitrary: w) (simp_all add: create_sem_def)

lemma map_nth_fb_state: "map (\<lambda>i. fb_state (xs ! i)) [0..<length xs] = map fb_state xs"
  by (auto intro: nth_equalityI)

lemma missing_dep_iff: "missing_dep reg = None \<longleftrightarrow>
   (\<forall>f \<in> set reg. \<forall>d \<in> set (cfg_depends (fb_config f)). scan_name d 0 reg \<noteq> None)"
  unfolding missing_dep_def find_None_iff list_ex_iff
  by (simp add: all_set_conv_all_nth [of reg])

section \<open>The calls of the init functions\<close>

text \<open>Init functions can be observed if the program's own state has a log to which each of them
  adds its identifier, its FB and data, and what it finds: the state of its FB and whether
  sub-functions can be registered.\<close>

type_synonym init_call = "nat \<times> nat \<times> nat \<times> fb_state \<times> bool"

definition init_logged :: "('u \<Rightarrow> init_call list) \<Rightarrow> 'u callbacks \<Rightarrow> bool" where
  "init_logged calls cb \<longleftrightarrow> (\<forall>fn i d w w'. cb_init cb fn i d w = Some w' \<longrightarrow>
     calls (user w') = calls (user w) @ [(fn, i, d, fb_state (fb_at w i), fb_registering (fb_at w i))])"

text \<open>The calls that an initialisation order stands for.\<close>

definition init_calls :: "fb_config list \<Rightarrow> nat list \<Rightarrow> init_call list" where
  "init_calls cfgs order = concat (map (\<lambda>i. case fc_init_fn (cfgs ! i) of None \<Rightarrow> []
     | Some fn \<Rightarrow> [(fn, i, fc_fb_data (cfgs ! i), STATE_INITIALISING, True)]) order)"

lemma init_calls_simps [simp]:
  "init_calls cfgs [] = []"
  "init_calls cfgs (xs @ ys) = init_calls cfgs xs @ init_calls cfgs ys"
  by (simp_all add: init_calls_def)

lemma boot_init_fb_logged:
  assumes "init_logged calls cb" and "i < length (g_registry w)" and "boot_init_fb cb i w = Some w'"
  shows "calls (user w') = calls (user w) @ init_calls (configs w) [i]"
proof -
  let ?w = "boot_transition i STATE_INITIALISING w"
  have t: "user (boot_transition i s v) = user v" "length (g_registry (boot_transition i s v)) = length (g_registry v)"
    for s and v :: "'a world" by (simp_all add: boot_transition_def Let_def)
  have f: "fb_at ?w i = (fb_at w i)\<lparr>fb_state := STATE_INITIALISING\<rparr>" and l: "i < length (g_registry ?w)"
    using assms(2) t by (simp_all add: boot_transition_def Let_def)
  obtain w1 where w1: "boot_call_init cb i ?w = Some w1" and u: "user w' = user w1"
    using assms(3) t(1) by (auto simp: boot_init_fb_def Let_def bind_eq_Some_conv)
  have c: "configs w ! i = fb_config (fb_at w i)" using assms(2) by (simp add: configs_def fb_at_def)
  show ?thesis
  proof (cases "fc_init_fn (fb_config (fb_at w i))")
    case None
    then have "w1 = ?w" using w1 f by (simp add: boot_call_init_def)
    with u t(1) None c show ?thesis by (simp add: init_calls_def)
  next
    case (Some fn)
    let ?v = "update_fb i (\<lambda>f. f\<lparr>fb_registering := True\<rparr>) ?w"
    obtain w2 where w2: "cb_init cb fn i (fc_fb_data (fb_config (fb_at w i))) ?v = Some w2" "user w1 = user w2"
      using w1 f Some by (auto simp: boot_call_init_def bind_eq_Some_conv)
    have "calls (user w2) = calls (user ?v) @
        [(fn, i, fc_fb_data (fb_config (fb_at w i)), fb_state (fb_at ?v i), fb_registering (fb_at ?v i))]"
      using assms(1) w2(1) unfolding init_logged_def by blast
    then show ?thesis
      using w2(2) u t(1) Some c f l by (simp add: init_calls_def)
  qed
qed

lemma boot_init_all_logged:
  assumes "init_ok cb" and "init_logged calls cb" and "\<forall>i \<in> set is. i < length (g_registry w)"
    and "boot_init_all cb is w = Some w'"
  shows "calls (user w') = calls (user w) @ init_calls (configs w) is"
  using assms(3,4)
proof (induction "is" arbitrary: w)
  case (Cons i "is")
  obtain w1 where w1: "boot_init_fb cb i w = Some w1" "configs w1 = configs w"
    using boot_init_fb_step [OF assms(1)] by blast
  with Cons.IH [of w1] Cons.prems configs_length [OF w1(2)] boot_init_fb_logged [OF assms(2) _ w1(1)]
  show ?case using init_calls_simps(2) [of "configs w" "[i]" "is"] by simp
qed simp

text \<open>All init calls made so far are those of the boot order.\<close>

definition boot_logged :: "('u \<Rightarrow> init_call list) \<Rightarrow> init_call list \<Rightarrow> 'u world \<Rightarrow> bool" where
  "boot_logged calls cs w \<longleftrightarrow> calls (user w) = cs @ init_calls (configs w) (g_boot_order w)"

lemma boot_phase_logged:
  assumes "init_ok cb" and "init_logged calls cb" and "boot_logged calls cs w"
    and "boot_phase cb p w = Some (0, w')"
  shows "boot_logged calls cs w'"
proof (cases "phase_indices p (g_registry w) = []")
  case True
  then show ?thesis using assms(3,4) by (simp add: boot_phase_def)
next
  case False
  obtain ok order where t: "topo_sort p (g_registry w) = Some (ok, order)"
    and o: "ok \<longrightarrow> set order = {i. i < length (g_registry w) \<and> fc_boot_phase (fb_config (g_registry w ! i)) = p}"
    using topo_sort_result [of p "g_registry w"] by blast
  have ok: ok and i: "boot_init_all cb order w = Some w'"
    using False t assms(4) by (auto simp: boot_phase_def split: if_splits)
  have "calls (user w') = calls (user w) @ init_calls (configs w) order"
    using boot_init_all_logged [OF assms(1,2) _ i] o ok by blast
  moreover have "configs w' = configs w" "g_boot_order w' = g_boot_order w @ order"
    using boot_init_all_step [OF assms(1), of order w] i by auto
  ultimately show ?thesis using assms(3) by (simp add: boot_logged_def)
qed

lemma boot_phases_logged:
  assumes "init_ok cb" and "init_logged calls cb" and "boot_logged calls cs w"
    and "boot_phases cb ps w = Some (0, w')"
  shows "boot_logged calls cs w'"
  using assms(3,4)
proof (induction ps arbitrary: w)
  case (Cons p ps)
  then obtain r w1 where w1: "boot_phase cb p w = Some (r, w1)" by (auto simp: bind_eq_Some_conv)
  with Cons.prems(2) have "r = 0" "boot_phases cb ps w1 = Some (0, w')" by (auto split: if_splits)
  with Cons.IH boot_phase_logged [OF assms(1,2) Cons.prems(1)] w1 show ?case by blast
qed simp

text \<open>C2: a first boot with init functions that return and leave the registry's configurations and
  states and the boot order alone (init_ok) always returns. It fails exactly when a dependency
  names no registered FB or the dependencies inside a phase are cyclic; a dependency on a later
  phase, which embediq_fb.h calls a boot fault, is no reason to fail. Otherwise every FB of the
  phases 1 to 4 runs, the boot order has each of them once, by phases and, up to the FB's own
  phase, behind its dependencies; FBs of other phase numbers are left as they were, and the bus is
  connected to the dispatchers. Any log that the init functions keep shows that the boot called
  exactly the init functions of these FBs, once each in this order, with their data, in state
  INITIALISING and with the registration of sub-functions open.\<close>

theorem engine_boot_correct:
  assumes "init_ok cb" and "\<not> g_booted w"
  shows "\<exists>r w'. embediq_engine_boot mem cb w = Some (r, w') \<and>
    (if (\<exists>f \<in> set (g_registry w). \<exists>d \<in> set (cfg_depends (fb_config f)). scan_name d 0 (g_registry w) = None) \<or>
        (\<exists>p \<in> {1..4}. phase_cyclic p (g_registry w))
     then r = -1
     else r = 0 \<and> g_booted w' \<and> g_notify_fn w' \<and> boot_ordered (g_registry w) 4 (g_boot_order w') \<and>
       map fb_state (g_registry w') =
         map (\<lambda>i. if i \<in> set (g_boot_order w') then STATE_RUNNING else fb_state (g_registry w ! i))
           [0..<length (g_registry w)] \<and>
       (\<forall>calls. init_logged calls cb \<longrightarrow> calls (user w') =
          calls (user w) @ init_calls (map fb_config (g_registry w)) (g_boot_order w')))"
proof -
  let ?w1 = "message_bus_boot mem (w\<lparr>g_boot_order := []\<rparr>)" and ?reg = "g_registry w"
  show ?thesis
  proof (cases "missing_dep ?reg")
    case (Some i)
    then have "\<exists>f \<in> set ?reg. \<exists>d \<in> set (cfg_depends (fb_config f)). scan_name d 0 ?reg = None"
      using missing_dep_iff [of ?reg] by auto
    with Some assms(2) show ?thesis by (simp add: embediq_engine_boot_def Let_def)
  next
    case None
    have nomiss: "\<not> (\<exists>f \<in> set ?reg. \<exists>d \<in> set (cfg_depends (fb_config f)). scan_name d 0 ?reg = None)"
      using None missing_dep_iff [of ?reg] by auto
    have "{i. i < length ?reg \<and> 1 \<le> fc_boot_phase (fb_config (?reg ! i)) \<and>
        fc_boot_phase (fb_config (?reg ! i)) \<le> 0} = {}" by auto
    then have "boot_state ?reg 0 ?w1"
      by (simp add: boot_state_def boot_ordered_def configs_def states_def map_nth_fb_state)
    from boot_phases_steps [OF assms(1) this, of 4, folded k_phases_eq, unfolded add_0]
    obtain r w2 where p: "boot_phases cb k_phases ?w1 = Some (r, w2)"
      and r: "if \<exists>q \<in> {1..4}. phase_cyclic q ?reg then r = -1 else r = 0 \<and> boot_state ?reg 4 w2"
      by blast
    show ?thesis
    proof (cases "\<exists>q \<in> {1..4}. phase_cyclic q ?reg")
      case True
      with p r None assms(2) show ?thesis by (simp add: embediq_engine_boot_def)
    next
      case False
      let ?w3 = "fold (create_sem mem) [0..<length (g_registry w2)] w2"
      have k: "g_registry ?w3 = g_registry w2" "g_boot_order ?w3 = g_boot_order w2" "user ?w3 = user w2"
        using create_sems_keep [of mem _ w2] by blast+
      have "embediq_engine_boot mem cb w = Some (0, (message_bus_set_notify_fn True ?w3)\<lparr>g_booted := True\<rparr>)"
        using p r False None assms(2) by (simp add: embediq_engine_boot_def)
      moreover have st: "boot_state ?reg 4 w2" using r False by simp
      moreover have "calls (user w2) = calls (user w) @ init_calls (map fb_config ?reg) (g_boot_order w2)"
        if "init_logged calls cb" for calls
      proof -
        have "boot_phases cb k_phases ?w1 = Some (0, w2)" using p r False by simp
        from boot_phases_logged [OF assms(1) that _ this, of "calls (user w)"] st show ?thesis
          by (simp add: boot_logged_def boot_state_def)
      qed
      ultimately show ?thesis
        using False nomiss k by (simp add: message_bus_set_notify_fn_def boot_state_def states_def)
    qed
  qed
qed


text \<open>Init functions that only keep such a log, and an FB with one of them.\<close>

definition logging_callbacks :: "init_call list callbacks" where
  "logging_callbacks = \<lparr>cb_init = (\<lambda>fn i d w. Some (w\<lparr>user := user w @
       [(fn, i, d, fb_state (fb_at w i), fb_registering (fb_at w i))]\<rparr>)),
     cb_fault = (\<lambda>fn i d r w. Some w), cb_run = (\<lambda>fn i msg d s w. Some w)\<rparr>"

lemma logging_ok: "init_ok logging_callbacks" "init_logged id logging_callbacks"
  by (simp_all add: init_ok_def init_logged_def logging_callbacks_def)

lemma engine_boot_correct_witness:
  "\<exists>w'. embediq_engine_boot (\<lambda>n. True) logging_callbacks ((world_initial [])\<lparr>g_registry :=
       [demo_fb\<lparr>fb_config := (fb_config demo_fb)\<lparr>fc_init_fn := Some 5, fc_fb_data := 9\<rparr>\<rparr>]\<rparr>) = Some (0, w') \<and>
     g_boot_order w' = [0] \<and> map fb_state (g_registry w') = [STATE_RUNNING] \<and>
     user w' = [(5, 0, 9, STATE_INITIALISING, True)]"
proof -
  define f where "f = demo_fb\<lparr>fb_config := (fb_config demo_fb)\<lparr>fc_init_fn := Some 5, fc_fb_data := 9\<rparr>\<rparr>"
  define w :: "init_call list world" where "w = (world_initial [])\<lparr>g_registry := [f]\<rparr>"
  have w: "g_registry w = [f]" "\<not> g_booted w" "user w = []" by (simp_all add: w_def world_initial_def)
  have deps: "cfg_depends (fb_config f) = []" "fc_boot_phase (fb_config f) = 3"
    by (simp_all add: f_def demo_fb_def cfg_depends_def)
  have "dep_edges [f] ps = {}" for ps using deps by (auto simp: dep_edges_def nth_Cons split: nat.splits)
  then have "\<not> phase_cyclic p [f]" for p by (simp add: phase_cyclic_def phase_deps_def)
  with engine_boot_correct [OF logging_ok(1) w(2), of "\<lambda>n. True"] deps logging_ok(2) obtain w' where
    b: "embediq_engine_boot (\<lambda>n. True) logging_callbacks w = Some (0, w')" "boot_ordered [f] 4 (g_boot_order w')"
      "map fb_state (g_registry w') = map (\<lambda>i. if i \<in> set (g_boot_order w') then STATE_RUNNING
          else fb_state ([f] ! i)) [0..<length [f]]"
      "id (user w') = id [] @ init_calls [fb_config f] (g_boot_order w')"
    unfolding w by auto
  have "set (g_boot_order w') = {i. i < length [f] \<and> 1 \<le> fc_boot_phase (fb_config ([f] ! i)) \<and>
      fc_boot_phase (fb_config ([f] ! i)) \<le> 4}" "distinct (g_boot_order w')"
    using b(2) by (simp_all add: boot_ordered_def)
  moreover have "{i. i < length [f] \<and> 1 \<le> fc_boot_phase (fb_config ([f] ! i)) \<and>
      fc_boot_phase (fb_config ([f] ! i)) \<le> 4} = {0}" using deps by auto
  ultimately have "g_boot_order w' = [0]"
    by (cases "g_boot_order w'"; cases "tl (g_boot_order w')") (auto simp: insert_eq_iff)
  with b show ?thesis by (simp add: w_def f_def init_calls_def)
qed

section \<open>Dispatch order\<close>

fun run_subfns :: "'u callbacks \<Rightarrow> nat \<Rightarrow> bytes \<Rightarrow> subfn_config list \<Rightarrow> 'u world \<Rightarrow> 'u world option" where
  "run_subfns cb i msg [] w = Some w"
| "run_subfns cb i msg (sf # sfs) w = do {
     w1 \<leftarrow> cb_run cb (the (sf_run_fn sf)) i msg (fc_fb_data (fb_config (fb_at w i))) (sf_subfn_data sf) w;
     run_subfns cb i msg sfs w1 }"

definition handles :: "u16 \<Rightarrow> subfn_config \<Rightarrow> bool" where
  "handles mid sf \<longleftrightarrow> sf_run_fn sf \<noteq> None \<and> mid \<in> set (subfn_subs sf)"

lemma dispatch_from_run:
  "dispatch_from cb i mid msg sfs = run_subfns cb i msg (filter (handles mid) sfs)"
proof (induction sfs)
  case (Cons sf sfs)
  show ?case
    by (rule ext) (cases "sf_run_fn sf"; simp add: Cons handles_def)
qed (simp add: fun_eq_iff)

text \<open>What an FB's init function does when it registers sub-functions one after the other.\<close>

definition register_all :: "nat \<Rightarrow> subfn_config list \<Rightarrow> 'u world \<Rightarrow> 'u world" where
  "register_all i cs w = fold (\<lambda>c w. snd (embediq_subfn_register (Some i) (Some c) w)) cs w"

lemma register_all_sorted:
  assumes "registry_inv w" and "i < length (g_registry w)" and "fb_registering (fb_at w i)"
    and "fb_subs (fb_at w i) = []"
  shows "registry_inv (register_all i cs w) \<and> i < length (g_registry (register_all i cs w)) \<and>
    fb_registering (fb_at (register_all i cs w) i) \<and>
    fb_subs (fb_at (register_all i cs w) i) = sort_key sf_init_order (take 16 cs)"
proof (induction cs rule: rev_induct)
  case Nil
  then show ?case using assms by (simp add: register_all_def)
next
  case (snoc c cs)
  let ?v = "register_all i cs w"
  have step: "register_all i (cs @ [c]) w = snd (embediq_subfn_register (Some i) (Some c) ?v)"
    by (simp add: register_all_def)
  note ih = snoc.IH
  note r = subfn_register_ordered [OF ih [THEN conjunct1] ih [THEN conjunct2, THEN conjunct1], of c]
  have f: "i < length (g_registry (snd (embediq_subfn_register (Some i) (Some c) ?v)))"
    "fb_registering (fb_at (snd (embediq_subfn_register (Some i) (Some c) ?v)) i)"
    using ih r by auto
  have "fb_subs (fb_at (snd (embediq_subfn_register (Some i) (Some c) ?v)) i) =
      sort_key sf_init_order (take 16 (cs @ [c]))"
    using ih r [THEN conjunct2, THEN conjunct2] sort_key_snoc [of sf_init_order cs c] by simp
  then show ?case using f r [THEN conjunct2, THEN conjunct1] unfolding step by blast
qed

text \<open>Handlers that return, leave the configurations alone and keep a log of their calls.\<close>

type_synonym run_call = "nat \<times> nat \<times> bytes \<times> nat \<times> nat"

definition run_logged :: "('u \<Rightarrow> run_call list) \<Rightarrow> 'u callbacks \<Rightarrow> bool" where
  "run_logged calls cb \<longleftrightarrow> (\<forall>fn i msg d sd w. \<exists>w'. cb_run cb fn i msg d sd w = Some w' \<and>
     configs w' = configs w \<and> calls (user w') = calls (user w) @ [(fn, i, msg, d, sd)])"

lemma run_subfns_logged:
  assumes "run_logged calls cb" and "i < length (g_registry w)"
  shows "\<exists>w'. run_subfns cb i msg sfs w = Some w' \<and> calls (user w') = calls (user w) @
    map (\<lambda>c. (the (sf_run_fn c), i, msg, fc_fb_data (fb_config (fb_at w i)), sf_subfn_data c)) sfs"
  using assms(2)
proof (induction sfs arbitrary: w)
  case (Cons sf sfs)
  obtain w1 where w1: "cb_run cb (the (sf_run_fn sf)) i msg (fc_fb_data (fb_config (fb_at w i))) (sf_subfn_data sf) w = Some w1"
      "configs w1 = configs w" "calls (user w1) = calls (user w) @
        [(the (sf_run_fn sf), i, msg, fc_fb_data (fb_config (fb_at w i)), sf_subfn_data sf)]"
    using assms(1) unfolding run_logged_def by blast
  have "i < length (g_registry w1)" "fb_config (fb_at w1 i) = fb_config (fb_at w i)"
    using configs_length [OF w1(2)] configs_nth [OF w1(2)] Cons.prems by (simp_all add: fb_at_def)
  with Cons.IH [of w1] w1 show ?case by auto
qed simp

text \<open>C23: let an init function register the sub-functions cs of its FB, and let v be any later
  world in which the FB still has what this registered. A message dispatched to the FB in v
  calls, once each, exactly those of the first 16 registered sub-functions that have a handler
  and subscribe to it, with their data, by ascending init_order and, where that is equal, in the
  order of registration. The handlers are assumed to return and to keep a log.\<close>

theorem dispatch_runs_in_order:
  assumes "registry_inv w" and "i < length (g_registry w)" and "fb_registering (fb_at w i)"
    and "fb_subs (fb_at w i) = []" and "fb_subs (fb_at v i) = fb_subs (fb_at (register_all i cs w) i)"
    and "i < length (g_registry v)" and "run_logged calls cb"
  shows "\<exists>v'. dispatch_msg_to_fb cb i mid msg v = Some v' \<and> calls (user v') = calls (user v) @
    map (\<lambda>c. (the (sf_run_fn c), i, msg, fc_fb_data (fb_config (fb_at v i)), sf_subfn_data c))
      (filter (\<lambda>c. sf_run_fn c \<noteq> None \<and> mid \<in> set (subfn_subs c)) (sort_key sf_init_order (take 16 cs)))"
proof -
  have "(\<lambda>c. sf_run_fn c \<noteq> None \<and> mid \<in> set (subfn_subs c)) = handles mid"
    by (simp add: handles_def fun_eq_iff)
  then show ?thesis
    using run_subfns_logged [OF assms(7,6), of msg "filter (handles mid) (sort_key sf_init_order (take 16 cs))"]
      register_all_sorted [OF assms(1-4), of cs] assms(5)
    by (simp add: dispatch_msg_to_fb_def dispatch_from_run)
qed

text \<open>Handlers that only log; two sub-functions registered in the reverse of their init_order, and a
  third for another message.\<close>

definition run_logging :: "run_call list callbacks" where
  "run_logging = \<lparr>cb_init = (\<lambda>fn i d w. Some w), cb_fault = (\<lambda>fn i d r w. Some w),
     cb_run = (\<lambda>fn i msg d sd w. Some (w\<lparr>user := user w @ [(fn, i, msg, d, sd)]\<rparr>))\<rparr>"

definition demo_subfn :: "u8 \<Rightarrow> nat \<Rightarrow> u16 \<Rightarrow> subfn_config" where
  "demo_subfn ord fn mid = zero_subfn\<lparr>sf_init_order := ord, sf_run_fn := Some fn,
     sf_subscriptions := [mid], sf_subscription_count := 1\<rparr>"

lemma dispatch_runs_in_order_witness:
  "\<exists>v. dispatch_msg_to_fb run_logging 0 7 [42] (register_all 0 [demo_subfn 2 21 7, demo_subfn 1 22 7, demo_subfn 3 23 8]
     ((world_initial [])\<lparr>g_registry := [demo_fb]\<rparr>)) = Some v \<and>
     user v = [(22, 0, [42], 0, 0), (21, 0, [42], 0, 0)]"
proof -
  define w :: "run_call list world" where "w = (world_initial [])\<lparr>g_registry := [demo_fb]\<rparr>"
  define cs where "cs = [demo_subfn 2 21 7, demo_subfn 1 22 7, demo_subfn 3 23 8]"
  have w: "registry_inv w" "0 < length (g_registry w)" "fb_registering (fb_at w 0)" "fb_subs (fb_at w 0) = []"
    "fc_fb_data (fb_config (fb_at w 0)) = 0" "user w = []"
    using demo_world_simps by (simp_all add: w_def registry_inv_def fb_at_def demo_fb_def world_initial_def)
  have l: "run_logged id run_logging"
    by (simp add: run_logged_def run_logging_def configs_def)
  have "user (register_all i xs v) = user v \<and> configs (register_all i xs v) = configs v"
    for i xs and v :: "run_call list world"
  proof (induction xs arbitrary: v)
    case (Cons x xs)
    have "user (snd (embediq_subfn_register (Some i) (Some x) v)) = user v"
      "configs (snd (embediq_subfn_register (Some i) (Some x) v)) = configs v"
      by (simp_all add: embediq_subfn_register_def configs_def update_fb_def map_update map_update_same)
    with Cons [of "snd (embediq_subfn_register (Some i) (Some x) v)"] show ?case by (simp add: register_all_def)
  qed (simp add: register_all_def)
  then have u: "user (register_all i xs v) = user v" "configs (register_all i xs v) = configs v"
    for i xs and v :: "run_call list world" by blast+
  have v: "0 < length (g_registry (register_all 0 cs w))"
    "fc_fb_data (fb_config (fb_at (register_all 0 cs w) 0)) = 0" "user (register_all 0 cs w) = []"
    using configs_length [OF u(2)] configs_nth [OF u(2)] w u(1) by (simp_all add: fb_at_def)
  have k: "sort_key sf_init_order (take 16 cs) = [demo_subfn 1 22 7, demo_subfn 2 21 7, demo_subfn 3 23 8]"
    by (simp add: cs_def demo_subfn_def zero_subfn_def word_le_nat_alt)
  show ?thesis
    using dispatch_runs_in_order [OF w(1-4) refl v(1) l, of 7 "[42]"] v(2,3)
    unfolding k by (simp add: demo_subfn_def zero_subfn_def subfn_subs_def w_def cs_def)
qed

end
