(* ===== verification/Dispatch.thy ===== *)
theory Dispatch
  imports Engine
begin

text \<open>
  The dispatch thread of one FB (\<open>fb_dispatch_loop\<close> in core/src/registry/fb_engine.c) running
  beside the publishers of core/src/bus/message_bus.c, as a step relation: every access to the
  shared semaphore, flag or queue is one step, and steps of the two sides interleave freely. A
  publisher enqueues and notifies in two separate steps; on a full NORMAL queue its first send,
  the removal of the oldest message and its second send are three more, so the second send may
  find the queue full again. The queues are lists
  with the capacities of theory Bus, the semaphore is that of theory Osal. Contents: the
  relation, the no-lost-wakeup invariant, shutdown, order, and what happens to a message that
  was queued before the notify callback was registered.
\<close>

section \<open>The step relation\<close>

text \<open>Where the dispatch thread is: at the loop test, in \<open>embediq_sem_wait\<close>, at the shutdown test,
  trying the queue of a priority, in the handlers of a message, or finished.\<close>

datatype disp_pc = At_Loop | At_Wait | At_Check | At_Recv nat | At_Run embediq_msg | At_Exit

record disp_state =
  d_pc :: disp_pc
  d_items :: "nat \<Rightarrow> embediq_msg list"
  d_sem :: osal_sem
  d_running :: bool \<comment> \<open>g_dispatch_running\<close>
  d_shutdown :: bool \<comment> \<open>g_dispatch_shutdown\<close>
  d_pending :: nat \<comment> \<open>publishers between their enqueue and their notify\<close>
  d_full :: "embediq_msg list" \<comment> \<open>whose NORMAL publishers found the queue full\<close>
  d_retry :: "embediq_msg list" \<comment> \<open>whose publishers have then removed a message\<close>
  d_posted :: bool \<comment> \<open>dispatch_shutdown has posted the semaphore\<close>
  d_done :: "embediq_msg list" \<comment> \<open>messages handled\<close>

inductive disp_step :: "disp_state \<Rightarrow> disp_state \<Rightarrow> bool" where
  loop_on: "d_pc s = At_Loop \<Longrightarrow> d_running s \<Longrightarrow> disp_step s (s\<lparr>d_pc := At_Wait\<rparr>)"
| loop_off: "d_pc s = At_Loop \<Longrightarrow> \<not> d_running s \<Longrightarrow> disp_step s (s\<lparr>d_pc := At_Exit\<rparr>)"
| wait: "d_pc s = At_Wait \<Longrightarrow> embediq_sem_wait (d_sem s) = Some sem \<Longrightarrow>
    disp_step s (s\<lparr>d_pc := At_Check, d_sem := sem\<rparr>)"
| check_off: "d_pc s = At_Check \<Longrightarrow> d_shutdown s \<Longrightarrow> disp_step s (s\<lparr>d_pc := At_Exit\<rparr>)"
| check_on: "d_pc s = At_Check \<Longrightarrow> \<not> d_shutdown s \<Longrightarrow> disp_step s (s\<lparr>d_pc := At_Recv 0\<rparr>)"
| recv_got: "d_pc s = At_Recv p \<Longrightarrow> p < 3 \<Longrightarrow> d_items s p = m # ms \<Longrightarrow>
    disp_step s (s\<lparr>d_pc := At_Run m, d_items := (d_items s)(p := ms)\<rparr>)"
| recv_none: "d_pc s = At_Recv p \<Longrightarrow> p < 3 \<Longrightarrow> d_items s p = [] \<Longrightarrow>
    disp_step s (s\<lparr>d_pc := At_Recv (p + 1)\<rparr>)"
| drained: "d_pc s = At_Recv 3 \<Longrightarrow> disp_step s (s\<lparr>d_pc := At_Loop\<rparr>)"
| run: "d_pc s = At_Run m \<Longrightarrow> disp_step s (s\<lparr>d_pc := At_Recv 0, d_done := d_done s @ [m]\<rparr>)"

text \<open>Publishers and the shutdown call. A full HIGH queue makes the publisher wait. A LOW message
  that finds its queue full is dropped without a notification, which changes nothing here. A
  NORMAL publisher notifies even when its second send failed.\<close>

inductive pub_step :: "disp_state \<Rightarrow> disp_state \<Rightarrow> bool" where
  enqueue: "p < 3 \<Longrightarrow> length (d_items s p) < prio_cap p \<Longrightarrow>
    pub_step s (s\<lparr>d_items := (d_items s)(p := d_items s p @ [m]), d_pending := d_pending s + 1\<rparr>)"
| send_full: "length (d_items s 1) = prio_cap 1 \<Longrightarrow> pub_step s (s\<lparr>d_full := m # d_full s\<rparr>)"
| drop_oldest: "m \<in> set (d_full s) \<Longrightarrow>
    pub_step s (s\<lparr>d_items := (d_items s)(1 := tl (d_items s 1)),
                  d_full := remove1 m (d_full s), d_retry := m # d_retry s\<rparr>)"
| resend: "m \<in> set (d_retry s) \<Longrightarrow>
    pub_step s (s\<lparr>d_items := (d_items s)(1 := (if length (d_items s 1) < prio_cap 1
                    then d_items s 1 @ [m] else d_items s 1)),
                  d_retry := remove1 m (d_retry s), d_pending := d_pending s + 1\<rparr>)"
| notify: "d_pending s = Suc n \<Longrightarrow>
    pub_step s (s\<lparr>d_pending := n, d_sem := embediq_sem_post (d_sem s)\<rparr>)"
| shutdown_flag: "pub_step s (s\<lparr>d_shutdown := True\<rparr>)"
| shutdown_post: "d_shutdown s \<Longrightarrow>
    pub_step s (s\<lparr>d_posted := True, d_sem := embediq_sem_post (d_sem s)\<rparr>)"

inductive_cases disp_stepE: "disp_step s t"
inductive_cases pub_stepE: "pub_step s t"
inductive_simps disp_step_wait: "disp_step (s\<lparr>d_pc := At_Wait\<rparr>) t"

text \<open>Dispatch starts with empty queues and the semaphore of \<open>embediq_engine_boot\<close>.\<close>

definition disp_initial :: disp_state where
  "disp_initial = \<lparr>d_pc = At_Loop, d_items = (\<lambda>p. []), d_sem = embediq_sem_create 0 UINT32_MAX,
     d_running = True, d_shutdown = False, d_pending = 0, d_full = [], d_retry = [], d_posted = False, d_done = []\<rparr>"

inductive disp_reachable :: "disp_state \<Rightarrow> bool" where
  start: "disp_reachable disp_initial"
| disp: "disp_reachable s \<Longrightarrow> disp_step s t \<Longrightarrow> disp_reachable t"
| pub: "disp_reachable s \<Longrightarrow> pub_step s t \<Longrightarrow> disp_reachable t"

section \<open>No lost wakeup\<close>

text \<open>A queued message is covered: its publisher has still to notify, or a token is in the
  semaphore, or the thread is on its way to look at that queue.\<close>

definition covered :: "disp_state \<Rightarrow> nat \<Rightarrow> bool" where
  "covered s p \<longleftrightarrow> d_pending s > 0 \<or> s_count (d_sem s) > 0 \<or> d_pc s = At_Check \<or>
     (\<exists>m. d_pc s = At_Run m) \<or> (\<exists>q \<le> p. d_pc s = At_Recv q) \<or> d_pc s = At_Exit"

definition disp_inv :: "disp_state \<Rightarrow> bool" where
  "disp_inv s \<longleftrightarrow> s_max_count (d_sem s) = UINT32_MAX \<and> d_running s \<and>
     (\<forall>p < 3. d_items s p \<noteq> [] \<longrightarrow> covered s p) \<and> (\<forall>q. d_pc s = At_Recv q \<longrightarrow> q \<le> 3) \<and>
     (d_pc s = At_Exit \<longrightarrow> d_shutdown s) \<and> (d_posted s \<longrightarrow> d_shutdown s) \<and>
     (d_posted s \<longrightarrow> d_pc s = At_Exit \<or> d_pc s = At_Check \<or> s_count (d_sem s) > 0)"

lemma disp_inv_initial: "disp_inv disp_initial"
  by (simp add: disp_inv_def disp_initial_def embediq_sem_create_def)

lemma sem_wait_max: "embediq_sem_wait s = Some s' \<Longrightarrow> s_max_count s' = s_max_count s"
  by (auto simp: embediq_sem_wait_def split: if_splits)

lemma post_pos: "s_max_count s = UINT32_MAX \<Longrightarrow> s_count (embediq_sem_post s) > 0"
  by (rule sem_post_positive) simp

lemma disp_step_inv: "disp_step s t \<Longrightarrow> disp_inv s \<Longrightarrow> disp_inv t"
proof (induction rule: disp_step.induct)
  case (recv_got s p m ms)
  then show ?case by (auto simp: disp_inv_def covered_def)
next
  case (recv_none s p)
  let ?t = "s\<lparr>d_pc := At_Recv (p + 1)\<rparr>"
  have "covered ?t p'" if "p' < 3" "d_items s p' \<noteq> []" for p'
  proof -
    have "covered s p'" using recv_none.prems that by (simp add: disp_inv_def)
    moreover have "p' \<noteq> p" using recv_none.hyps(3) that(2) by auto
    ultimately show ?thesis using recv_none.hyps(1) by (auto simp: covered_def)
  qed
  moreover have "d_posted s \<longrightarrow> s_count (d_sem s) > 0"
    using recv_none by (auto simp: disp_inv_def)
  ultimately show ?case using recv_none by (simp add: disp_inv_def)
next
  case (drained s)
  then show ?case by (auto simp: disp_inv_def covered_def)
next
  case (wait s sem)
  then show ?case by (auto simp: disp_inv_def covered_def sem_wait_max)
qed (auto simp: disp_inv_def covered_def)

lemma pub_step_inv: "pub_step s t \<Longrightarrow> disp_inv s \<Longrightarrow> disp_inv t"
proof (induction rule: pub_step.induct)
  case (drop_oldest m s)
  have "d_items s 1 \<noteq> []" if "tl (d_items s 1) \<noteq> []" using that by auto
  with drop_oldest show ?case by (simp add: disp_inv_def covered_def)
qed (auto simp: disp_inv_def covered_def post_pos)

lemma disp_reachable_inv: "disp_reachable s \<Longrightarrow> disp_inv s"
  by (induction rule: disp_reachable.induct) (auto intro: disp_inv_initial disp_step_inv pub_step_inv)

text \<open>C4: no wakeup is lost. In every reachable state, if the dispatch thread waits for its
  semaphore while a message is queued and no publisher is between enqueue and notify, then the
  semaphore has a token, so the wait returns and the queues are looked at.\<close>

theorem dispatch_no_lost_wakeup:
  assumes "disp_reachable s" and "d_pc s = At_Wait" and "d_pending s = 0" and "p < 3"
    and "d_items s p \<noteq> []"
  shows "\<exists>t. disp_step s t \<and> d_pc t = At_Check"
proof -
  have "covered s p" using disp_reachable_inv [OF assms(1)] assms(4,5) by (simp add: disp_inv_def)
  then have "s_count (d_sem s) > 0" using assms(2,3) by (simp add: covered_def)
  then obtain sem where "embediq_sem_wait (d_sem s) = Some sem" using sem_wait_Some by blast
  from disp_step.wait [OF assms(2) this] show ?thesis by force
qed

text \<open>C24: shutdown ends the thread. Once the shutdown call has set the flag and posted the
  semaphore, the thread can always take a step until it has left its loop: it never sleeps again.\<close>

theorem dispatch_shutdown_progress:
  assumes "disp_reachable s" and "d_posted s" and "d_pc s \<noteq> At_Exit"
  shows "\<exists>t. disp_step s t"
proof -
  have inv: "disp_inv s" using disp_reachable_inv [OF assms(1)] .
  show ?thesis
  proof (cases "d_pc s")
    case At_Wait
    then have "s_count (d_sem s) > 0" using inv assms(2,3) by (simp add: disp_inv_def)
    then show ?thesis using sem_wait_Some disp_step.wait [OF At_Wait] by blast
  next
    case (At_Recv p)
    then have "p \<le> 3" using inv by (simp add: disp_inv_def)
    then show ?thesis
      using disp_step.recv_got [OF At_Recv] disp_step.recv_none [OF At_Recv] disp_step.drained [of s] At_Recv
      by (cases "p = 3"; cases "d_items s p") auto
  next
    case At_Loop
    then show ?thesis using disp_step.loop_on disp_step.loop_off by blast
  next
    case At_Check
    then show ?thesis using disp_step.check_on disp_step.check_off by blast
  next
    case (At_Run m)
    then show ?thesis using disp_step.run by blast
  qed (use assms in simp)
qed

text \<open>A run: the thread goes to sleep, one publisher delivers a message and notifies.\<close>

definition demo_asleep :: disp_state where
  "demo_asleep = disp_initial\<lparr>d_pc := At_Wait\<rparr>"

definition demo_queued :: disp_state where
  "demo_queued = demo_asleep\<lparr>d_items := (d_items demo_asleep)(1 := [demo_msg]),
     d_pending := 1\<rparr>"

definition demo_signalled :: disp_state where
  "demo_signalled = demo_queued\<lparr>d_pending := 0, d_sem := embediq_sem_post (d_sem demo_queued)\<rparr>"

lemma demo_reachable: "disp_reachable demo_asleep" "disp_reachable demo_signalled"
proof -
  show a: "disp_reachable demo_asleep"
    unfolding demo_asleep_def
    by (rule disp_reachable.disp [OF disp_reachable.start], rule disp_step.loop_on)
      (simp_all add: disp_initial_def)
  have "pub_step demo_asleep demo_queued"
    using pub_step.enqueue [of 1 demo_asleep demo_msg]
    by (simp add: demo_queued_def demo_asleep_def disp_initial_def prio_cap_def)
  then have q: "disp_reachable demo_queued" using a by (rule disp_reachable.pub [rotated])
  have "pub_step demo_queued demo_signalled"
    using pub_step.notify [of demo_queued 0] by (simp add: demo_signalled_def demo_queued_def)
  then show "disp_reachable demo_signalled" using q by (rule disp_reachable.pub [rotated])
qed

lemma dispatch_no_lost_wakeup_witness: "\<exists>t. disp_step demo_signalled t \<and> d_pc t = At_Check"
  using dispatch_no_lost_wakeup [OF demo_reachable(2), of 1]
  by (simp add: demo_signalled_def demo_queued_def demo_asleep_def)

definition demo_stopping :: disp_state where
  "demo_stopping = demo_asleep\<lparr>d_shutdown := True, d_posted := True,
     d_sem := embediq_sem_post (d_sem demo_asleep)\<rparr>"

lemma dispatch_shutdown_progress_witness: "\<exists>t. disp_step demo_stopping t"
proof -
  have f: "disp_reachable (demo_asleep\<lparr>d_shutdown := True\<rparr>)"
    using disp_reachable.pub [OF demo_reachable(1) pub_step.shutdown_flag] .
  have "disp_reachable demo_stopping"
    using disp_reachable.pub [OF f pub_step.shutdown_post] by (simp add: demo_stopping_def)
  then show ?thesis
    using dispatch_shutdown_progress by (simp add: demo_stopping_def demo_asleep_def)
qed

section \<open>Messages published before the callback is registered\<close>

lemma unnotified_sems:
  "\<not> g_notify_fn w \<Longrightarrow> g_dispatch_sem (enqueued m p ep q w) = g_dispatch_sem w \<and>
     \<not> g_notify_fn (enqueued m p ep q w)"
  by (simp add: enqueued_def bus_notify_def)

lemma route_one_unnotified:
  "\<not> g_notify_fn w \<Longrightarrow> route_one m prio ep w = Some w' \<Longrightarrow>
   g_dispatch_sem w' = g_dispatch_sem w \<and> \<not> g_notify_fn w'"
  by (auto simp: route_one_def bind_eq_Some_conv unnotified_sems split: if_splits option.splits)

lemma route_from_unnotified:
  "\<not> g_notify_fn w \<Longrightarrow> route_from m prio ss w = Some w' \<Longrightarrow> g_dispatch_sem w' = g_dispatch_sem w"
proof (induction ss arbitrary: w)
  case (Cons s ss)
  then show ?case
    using route_one_unnotified [of w m prio "sub_ep_id s"]
    by (fastforce simp: bind_eq_Some_conv split: if_splits)
qed simp

text \<open>Until boot has registered the notify callback, publishing signals no dispatcher: the
  message is queued and every semaphore keeps its count. Since the semaphores are created with
  count 0 after the init functions ran, a message published from an init function stays queued
  until some later publication to the same FB.\<close>

theorem publish_before_notify_unsignalled:
  assumes "\<not> g_notify_fn w" and "embediq_publish h msg w = Some (msg', w')"
  shows "g_dispatch_sem w' = g_dispatch_sem w"
  using assms route_from_unnotified [OF assms(1)]
  by (auto simp: embediq_publish_def route_message_def Let_def split: option.splits if_splits)

lemma demo_bus_publish: "\<exists>r. embediq_publish (Some 0) (Some demo_msg) demo_bus = Some r"
proof -
  let ?m = "demo_msg\<lparr>source_endpoint_id := fb_engine__get_ep_id (Some 0) demo_bus\<rparr>"
  have "priority ?m = 1" by (simp add: demo_msg_def)
  then have "\<not> route_blocks (clamp_priority (priority ?m)) eps demo_bus" for eps
    by (simp add: route_blocks_def clamp_priority_def embediq_const)
  with route_message_items [OF demo_bus_simps(1), of ?m]
  obtain w' where "route_message ?m demo_bus = Some w'" by auto
  then show ?thesis by (simp add: embediq_publish_def Let_def)
qed

lemma publish_before_notify_unsignalled_witness:
  "\<exists>msg' w'. embediq_publish (Some 0) (Some demo_msg) demo_bus = Some (msg', w') \<and>
     g_dispatch_sem w' = g_dispatch_sem demo_bus"
proof -
  obtain msg' w' where p: "embediq_publish (Some 0) (Some demo_msg) demo_bus = Some (msg', w')"
    using demo_bus_publish by auto
  have "\<not> g_notify_fn demo_bus"
    by (simp add: demo_bus_def demo_world_def world_initial_def)
  with p show ?thesis using publish_before_notify_unsignalled [OF _ p] by blast
qed

text \<open>And the thread does not look at it: with an empty semaphore no step of a waiting dispatch
  thread is possible, whatever its queues hold.\<close>

theorem dispatch_unsignalled_stuck:
  assumes "d_pc s = At_Wait" and "s_count (d_sem s) = 0"
  shows "\<not> disp_step s t"
  using assms by (auto elim!: disp_stepE simp: embediq_sem_wait_def)

lemma dispatch_unsignalled_stuck_witness: "\<not> disp_step demo_queued demo_queued"
  by (rule dispatch_unsignalled_stuck)
    (simp_all add: demo_queued_def demo_asleep_def disp_initial_def embediq_sem_create_def)

end
