(* ===== verification/Crc.thy ===== *)
theory Crc
  imports Prelude
begin

text \<open>
  The CRC component: components/embediq_crc/embediq_crc.c. Each of the three variants has a table
  that its first call builds; the state below holds the three tables and their flags. The locale
  \<open>crc_engine\<close> states what the error detection of a CRC rests on, linearity and injectivity of
  the one-bit division step, and the three variants are its interpretations.
\<close>

unbundle bit_operations_syntax

section \<open>State\<close>

record crc_state =
  s_crc8_table :: "u8 list"
  s_crc8_ready :: bool
  s_crc16_table :: "u16 list"
  s_crc16_ready :: bool
  s_crc32_table :: "u32 list"
  s_crc32_ready :: bool

definition crc_initial :: crc_state where
  "crc_initial = \<lparr>s_crc8_table = replicate 256 0, s_crc8_ready = False,
     s_crc16_table = replicate 256 0, s_crc16_ready = False,
     s_crc32_table = replicate 256 0, s_crc32_ready = False\<rparr>"

definition CRC8_POLY :: u8 where [embediq_const]: "CRC8_POLY = 0x07"
definition CRC16_POLY :: u16 where [embediq_const]: "CRC16_POLY = 0x1021"
definition CRC32_POLY :: u32 where [embediq_const]: "CRC32_POLY = 0xEDB88320"
definition CRC_TABLE_SIZE :: nat where [embediq_const]: "CRC_TABLE_SIZE = 256"

section \<open>CRC-8\<close>

text \<open>One round of the inner loop of \<open>crc8_build\<close>.\<close>

definition crc8_bit :: "u8 \<Rightarrow> u8" where
  "crc8_bit crc = (if crc AND 0x80 \<noteq> 0 then push_bit 1 crc XOR CRC8_POLY else push_bit 1 crc)"

definition crc8_build :: "crc_state \<Rightarrow> crc_state" where
  "crc8_build st = st\<lparr>
     s_crc8_table := map (\<lambda>i. (crc8_bit ^^ 8) (word_of_nat i)) [0..<CRC_TABLE_SIZE],
     s_crc8_ready := True\<rparr>"

definition crc8_lazy :: "crc_state \<Rightarrow> crc_state" where
  "crc8_lazy st = (if s_crc8_ready st then st else crc8_build st)"

definition embediq_crc8_init :: "crc_state \<Rightarrow> u8 \<times> crc_state" where
  "embediq_crc8_init st = (0, crc8_lazy st)"

definition embediq_crc8_update :: "u8 \<Rightarrow> bytes \<Rightarrow> crc_state \<Rightarrow> u8 \<times> crc_state" where
  "embediq_crc8_update crc data st =
     (let st = crc8_lazy st
      in (foldl (\<lambda>crc b. s_crc8_table st ! unat (crc XOR b)) crc data, st))"

definition embediq_crc8_final :: "u8 \<Rightarrow> u8" where "embediq_crc8_final crc = crc"

definition embediq_crc8 :: "bytes \<Rightarrow> crc_state \<Rightarrow> u8 \<times> crc_state" where
  "embediq_crc8 data st =
     (let (crc, st) = embediq_crc8_init st; (crc, st) = embediq_crc8_update crc data st
      in (embediq_crc8_final crc, st))"

section \<open>CRC-16/CCITT-FALSE\<close>

definition crc16_bit :: "u16 \<Rightarrow> u16" where
  "crc16_bit crc =
     (if crc AND 0x8000 \<noteq> 0 then push_bit 1 crc XOR CRC16_POLY else push_bit 1 crc)"

definition crc16_build :: "crc_state \<Rightarrow> crc_state" where
  "crc16_build st = st\<lparr>
     s_crc16_table := map (\<lambda>i. (crc16_bit ^^ 8) (push_bit 8 (word_of_nat i))) [0..<CRC_TABLE_SIZE],
     s_crc16_ready := True\<rparr>"

definition crc16_lazy :: "crc_state \<Rightarrow> crc_state" where
  "crc16_lazy st = (if s_crc16_ready st then st else crc16_build st)"

definition embediq_crc16_init :: "crc_state \<Rightarrow> u16 \<times> crc_state" where
  "embediq_crc16_init st = (0xFFFF, crc16_lazy st)"

definition embediq_crc16_update :: "u16 \<Rightarrow> bytes \<Rightarrow> crc_state \<Rightarrow> u16 \<times> crc_state" where
  "embediq_crc16_update crc data st =
     (let st = crc16_lazy st
      in (foldl (\<lambda>crc b. push_bit 8 crc XOR
            s_crc16_table st ! unat ((drop_bit 8 crc XOR ucast b) AND 0xFF)) crc data, st))"

definition embediq_crc16_final :: "u16 \<Rightarrow> u16" where "embediq_crc16_final crc = crc"

definition embediq_crc16 :: "bytes \<Rightarrow> crc_state \<Rightarrow> u16 \<times> crc_state" where
  "embediq_crc16 data st =
     (let (crc, st) = embediq_crc16_init st; (crc, st) = embediq_crc16_update crc data st
      in (embediq_crc16_final crc, st))"

section \<open>CRC-32/ISO-HDLC\<close>

definition crc32_bit :: "u32 \<Rightarrow> u32" where
  "crc32_bit crc = (if crc AND 1 \<noteq> 0 then CRC32_POLY XOR drop_bit 1 crc else drop_bit 1 crc)"

definition crc32_build :: "crc_state \<Rightarrow> crc_state" where
  "crc32_build st = st\<lparr>
     s_crc32_table := map (\<lambda>i. (crc32_bit ^^ 8) (word_of_nat i)) [0..<CRC_TABLE_SIZE],
     s_crc32_ready := True\<rparr>"

definition crc32_lazy :: "crc_state \<Rightarrow> crc_state" where
  "crc32_lazy st = (if s_crc32_ready st then st else crc32_build st)"

definition embediq_crc32_init :: "crc_state \<Rightarrow> u32 \<times> crc_state" where
  "embediq_crc32_init st = (0xFFFFFFFF, crc32_lazy st)"

definition embediq_crc32_update :: "u32 \<Rightarrow> bytes \<Rightarrow> crc_state \<Rightarrow> u32 \<times> crc_state" where
  "embediq_crc32_update crc data st =
     (let st = crc32_lazy st
      in (foldl (\<lambda>crc b. drop_bit 8 crc XOR
            s_crc32_table st ! unat ((crc XOR ucast b) AND 0xFF)) crc data, st))"

definition embediq_crc32_final :: "u32 \<Rightarrow> u32" where
  "embediq_crc32_final crc = crc XOR 0xFFFFFFFF"

definition embediq_crc32 :: "bytes \<Rightarrow> crc_state \<Rightarrow> u32 \<times> crc_state" where
  "embediq_crc32 data st =
     (let (crc, st) = embediq_crc32_init st; (crc, st) = embediq_crc32_update crc data st
      in (embediq_crc32_final crc, st))"

section \<open>Invariant of the lazily built tables\<close>

definition crc_inv :: "crc_state \<Rightarrow> bool" where
  "crc_inv st \<longleftrightarrow>
     (s_crc8_ready st \<longrightarrow> s_crc8_table st = s_crc8_table (crc8_build st)) \<and>
     (s_crc16_ready st \<longrightarrow> s_crc16_table st = s_crc16_table (crc16_build st)) \<and>
     (s_crc32_ready st \<longrightarrow> s_crc32_table st = s_crc32_table (crc32_build st))"

lemma crc_inv_initial: "crc_inv crc_initial"
  by (simp add: crc_inv_def crc_initial_def)

lemma crc_lazy_inv [simp]:
  assumes "crc_inv st"
  shows "crc_inv (crc8_lazy st)" and "crc_inv (crc16_lazy st)" and "crc_inv (crc32_lazy st)"
  using assms
  by (simp_all add: crc_inv_def crc8_lazy_def crc8_build_def crc16_lazy_def crc16_build_def
      crc32_lazy_def crc32_build_def)

lemma crc_lazy_idem [simp]:
  "crc8_lazy (crc8_lazy st) = crc8_lazy st" "crc16_lazy (crc16_lazy st) = crc16_lazy st"
  "crc32_lazy (crc32_lazy st) = crc32_lazy st"
  by (simp_all add: crc8_lazy_def crc8_build_def crc16_lazy_def crc16_build_def crc32_lazy_def
      crc32_build_def)

lemma crc_tables:
  assumes "crc_inv st"
  shows "s_crc8_table (crc8_lazy st) = map (\<lambda>i. (crc8_bit ^^ 8) (word_of_nat i)) [0..<256]"
    and "s_crc16_table (crc16_lazy st) =
      map (\<lambda>i. (crc16_bit ^^ 8) (push_bit 8 (word_of_nat i))) [0..<256]"
    and "s_crc32_table (crc32_lazy st) = map (\<lambda>i. (crc32_bit ^^ 8) (word_of_nat i)) [0..<256]"
  using assms
  by (simp_all add: crc_inv_def crc8_lazy_def crc8_build_def crc16_lazy_def crc16_build_def
      crc32_lazy_def crc32_build_def embediq_const)

section \<open>The division step as an interface\<close>

lemma xor_cancel_right: "(c XOR a = d XOR a) \<longleftrightarrow> c = d" for a c d :: "'c::len word"
  by (auto simp: bit_eq_iff bit_xor_iff)

lemma xor_cancel_left: "(a XOR c = a XOR d) \<longleftrightarrow> c = d" for a c d :: "'c::len word"
  by (auto simp: bit_eq_iff bit_xor_iff)

locale crc_engine =
  fixes step :: "'c::len word \<Rightarrow> 'c word"
    and inp :: "u8 \<Rightarrow> 'c word"
  assumes step_xor: "step (x XOR y) = step x XOR step y"
    and step_inj: "step x = step y \<Longrightarrow> x = y"
    and inp_inj: "inp a = inp b \<Longrightarrow> a = b"
begin

lemma steps_xor: "(step ^^ n) (x XOR y) = (step ^^ n) x XOR (step ^^ n) y"
  by (induction n) (simp_all add: step_xor)

lemma steps_inj: "(step ^^ n) x = (step ^^ n) y \<longleftrightarrow> x = y"
  by (induction n) (auto dest: step_inj)

lemma division_inj:
  "foldl (\<lambda>c b. (step ^^ 8) (c XOR inp b)) c xs = foldl (\<lambda>c b. (step ^^ 8) (c XOR inp b)) d xs
     \<longleftrightarrow> c = d"
  by (induction xs arbitrary: c d) (auto simp: steps_inj xor_cancel_right)

lemma detects_byte_change:
  assumes "a \<noteq> b"
  shows "foldl (\<lambda>c b. (step ^^ 8) (c XOR inp b)) c (xs @ a # ys) \<noteq>
    foldl (\<lambda>c b. (step ^^ 8) (c XOR inp b)) c (xs @ b # ys)"
  using assms by (auto simp: division_inj steps_inj xor_cancel_left dest: inp_inj)

end

lemma crc8_bit_alt: "crc8_bit x = push_bit 1 x XOR (if bit x 7 then CRC8_POLY else 0)"
proof -
  have "(0x80 :: u8) = push_bit 7 1" by simp
  then show ?thesis
    unfolding crc8_bit_def bit_iff_and_push_bit_not_eq_0 by simp
qed

lemma crc16_bit_alt: "crc16_bit x = push_bit 1 x XOR (if bit x 15 then CRC16_POLY else 0)"
proof -
  have "(0x8000 :: u16) = push_bit 15 1" by simp
  then show ?thesis
    unfolding crc16_bit_def bit_iff_and_push_bit_not_eq_0 by simp
qed

lemma crc32_bit_alt: "crc32_bit x = drop_bit 1 x XOR (if bit x 0 then CRC32_POLY else 0)"
  by (simp add: crc32_bit_def and_one_eq bit_0 odd_iff_mod_2_eq_one xor.commute)

lemma push_bit_1_inj:
  fixes x y :: "'c::len word"
  assumes "push_bit 1 x = push_bit 1 y" and "bit x (LENGTH('c) - 1) = bit y (LENGTH('c) - 1)"
  shows "x = y"
proof (rule bit_word_eqI)
  fix n assume n: "n < LENGTH('c)"
  show "bit x n = bit y n"
  proof (cases "n = LENGTH('c) - 1")
    case True
    then show ?thesis using assms(2) by simp
  next
    case False
    then have "bit (push_bit 1 x) (Suc n) = bit x n" and "bit (push_bit 1 y) (Suc n) = bit y n"
      unfolding bit_push_bit_iff using n by auto
    then show ?thesis using assms(1) by simp
  qed
qed

lemma drop_bit_1_inj:
  fixes x y :: "'c::len word"
  assumes "drop_bit 1 x = drop_bit 1 y" and "bit x 0 = bit y 0"
  shows "x = y"
proof (rule bit_word_eqI)
  fix n assume "n < LENGTH('c)"
  have "bit (drop_bit 1 x) (n - 1) = bit (drop_bit 1 y) (n - 1)" using assms(1) by simp
  then show "bit x n = bit y n"
    using assms(2) by (cases n) (simp_all add: bit_drop_bit_eq)
qed

lemma crc8_bit_inj:
  assumes "crc8_bit x = crc8_bit y"
  shows "x = y"
proof (rule push_bit_1_inj)
  have "bit (crc8_bit z) 0 = bit z 7" for z
    unfolding crc8_bit_alt bit_xor_iff bit_push_bit_iff by (simp add: CRC8_POLY_def bit_0)
  then have b: "bit x 7 = bit y 7"
    using assms by metis
  then show "bit x (LENGTH(8) - 1) = bit y (LENGTH(8) - 1)" by simp
  show "push_bit 1 x = push_bit 1 y"
    using assms unfolding crc8_bit_alt b xor_cancel_right .
qed

lemma crc16_bit_inj:
  assumes "crc16_bit x = crc16_bit y"
  shows "x = y"
proof (rule push_bit_1_inj)
  have "bit (crc16_bit z) 0 = bit z 15" for z
    unfolding crc16_bit_alt bit_xor_iff bit_push_bit_iff by (simp add: CRC16_POLY_def bit_0)
  then have b: "bit x 15 = bit y 15"
    using assms by metis
  then show "bit x (LENGTH(16) - 1) = bit y (LENGTH(16) - 1)" by simp
  show "push_bit 1 x = push_bit 1 y"
    using assms unfolding crc16_bit_alt b xor_cancel_right .
qed

lemma crc32_bit_inj:
  assumes "crc32_bit x = crc32_bit y"
  shows "x = y"
proof (rule drop_bit_1_inj)
  have "bit CRC32_POLY 31" by (simp add: CRC32_POLY_def bit_numeral_rec)
  then have "bit (crc32_bit z) 31 = bit z 0" for z
    unfolding crc32_bit_alt bit_xor_iff bit_drop_bit_eq by (auto dest: bit_imp_le_length)
  then show b: "bit x 0 = bit y 0"
    using assms by metis
  show "drop_bit 1 x = drop_bit 1 y"
    using assms unfolding crc32_bit_alt b xor_cancel_right .
qed

interpretation crc8_engine: crc_engine crc8_bit "\<lambda>b. b"
proof
  show "crc8_bit (x XOR y) = crc8_bit x XOR crc8_bit y" for x y
    unfolding crc8_bit_alt push_bit_xor bit_xor_iff by (simp add: ac_simps)
qed (auto intro: crc8_bit_inj)

interpretation crc16_engine: crc_engine crc16_bit "\<lambda>b. push_bit 8 (ucast b)"
proof
  show "crc16_bit (x XOR y) = crc16_bit x XOR crc16_bit y" for x y
    unfolding crc16_bit_alt push_bit_xor bit_xor_iff by (simp add: ac_simps)
next
  fix a b :: u8
  assume "push_bit 8 (ucast a) = (push_bit 8 (ucast b) :: u16)"
  then have "ucast (drop_bit 8 (push_bit 8 (ucast a) :: u16)) =
      (ucast (drop_bit 8 (push_bit 8 (ucast b) :: u16)) :: u8)" by simp
  moreover have "ucast (drop_bit 8 (push_bit 8 (ucast z) :: u16)) = (z :: u8)" for z :: u8
    by (rule bit_word_eqI) (simp add: bit_simps)
  ultimately show "a = b" by simp
qed (auto intro: crc16_bit_inj)

interpretation crc32_engine: crc_engine crc32_bit "\<lambda>b. ucast b"
proof
  show "crc32_bit (x XOR y) = crc32_bit x XOR crc32_bit y" for x y
    unfolding crc32_bit_alt drop_bit_xor bit_xor_iff by (simp add: ac_simps)
next
  fix a b :: u8
  assume "ucast a = (ucast b :: u32)"
  then have "ucast (ucast a :: u32) = (ucast (ucast b :: u32) :: u8)" by simp
  moreover have "ucast (ucast z :: u32) = (z :: u8)" for z :: u8
    by (rule bit_word_eqI) (simp add: bit_simps)
  ultimately show "a = b" by simp
qed (auto intro: crc32_bit_inj)

section \<open>Eight steps on a byte\<close>

lemma crc16_shift:
  assumes "\<And>j. j < k \<Longrightarrow> \<not> bit x (15 - j)" and "k \<le> 16"
  shows "(crc16_bit ^^ k) x = push_bit k x"
  using assms
proof (induction k)
  case (Suc k)
  have "\<not> bit x (15 - k)" using Suc.prems(1)[of k] by simp
  then have "\<not> bit (push_bit k x) 15"
    unfolding bit_push_bit_iff using Suc.prems(2) by simp
  then show ?case using Suc by (simp add: crc16_bit_alt del: push_bit_Suc)
qed simp

lemma crc32_shift:
  assumes "\<And>j. j < k \<Longrightarrow> \<not> bit x j"
  shows "(crc32_bit ^^ k) x = drop_bit k x"
  using assms
proof (induction k)
  case (Suc k)
  have "\<not> bit (drop_bit k x) 0" using Suc.prems[of k] by (simp add: bit_drop_bit_eq)
  then show ?case using Suc by (simp add: crc32_bit_alt del: drop_bit_Suc)
qed simp

lemma crc16_byte:
  "push_bit 8 c XOR (crc16_bit ^^ 8) (push_bit 8 (drop_bit 8 c XOR ucast b)) =
     (crc16_bit ^^ 8) (c XOR push_bit 8 (ucast b))"
  for b :: u8
proof -
  have "c XOR push_bit 8 (ucast b) = push_bit 8 (drop_bit 8 c XOR ucast b) XOR take_bit 8 c"
    by (rule bit_word_eqI) (auto simp: bit_simps)
  moreover have "(crc16_bit ^^ 8) (take_bit 8 c) = push_bit 8 (take_bit 8 c)"
    by (rule crc16_shift, unfold bit_take_bit_iff, linarith, simp)
  moreover have "push_bit 8 (take_bit 8 c) = push_bit 8 c"
    by (rule bit_word_eqI) (auto simp: bit_simps)
  ultimately show ?thesis
    by (simp add: crc16_engine.steps_xor xor.commute del: push_bit_numeral)
qed

lemma crc32_byte:
  "drop_bit 8 c XOR (crc32_bit ^^ 8) ((c XOR ucast b) AND 0xFF) = (crc32_bit ^^ 8) (c XOR ucast b)"
  for b :: u8
proof -
  have FF: "(0xFF :: u32) = mask 8" by (simp add: mask_eq_exp_minus_1)
  have b8: "bit b n \<Longrightarrow> n < 8" for n
    using bit_imp_le_length[of b n] by simp
  have "c XOR ucast b = push_bit 8 (drop_bit 8 c) XOR ((c XOR ucast b) AND 0xFF)"
    unfolding FF by (rule bit_word_eqI) (auto simp: bit_simps dest: b8)
  moreover have "(crc32_bit ^^ 8) (push_bit 8 (drop_bit 8 c)) = drop_bit 8 (push_bit 8 (drop_bit 8 c))"
    by (rule crc32_shift) (simp add: bit_push_bit_iff)
  moreover have "drop_bit 8 (push_bit 8 (drop_bit 8 c)) = drop_bit 8 c"
    by (rule bit_word_eqI) (auto simp: bit_simps dest: bit_imp_le_length)
  ultimately show ?thesis
    by (metis crc32_engine.steps_xor)
qed

section \<open>The tables compute the division\<close>

text \<open>Reference: the division of the message, one bit at a time, without a table.\<close>

definition crc8_division :: "u8 \<Rightarrow> bytes \<Rightarrow> u8" where
  "crc8_division = foldl (\<lambda>c b. (crc8_bit ^^ 8) (c XOR b))"

definition crc16_division :: "u16 \<Rightarrow> bytes \<Rightarrow> u16" where
  "crc16_division = foldl (\<lambda>c b. (crc16_bit ^^ 8) (c XOR push_bit 8 (ucast b)))"

definition crc32_division :: "u32 \<Rightarrow> bytes \<Rightarrow> u32" where
  "crc32_division = foldl (\<lambda>c b. (crc32_bit ^^ 8) (c XOR ucast b))"

lemma crc8_update_eq:
  assumes "crc_inv st"
  shows "embediq_crc8_update c data st = (crc8_division c data, crc8_lazy st)"
proof -
  have "map (\<lambda>i. (crc8_bit ^^ 8) (word_of_nat i)) [0..<256] ! unat w = (crc8_bit ^^ 8) w" for w
  proof -
    have "unat w < 2 ^ LENGTH(8)" by (rule unsigned_less)
    then show ?thesis by simp
  qed
  then show ?thesis
    by (simp add: embediq_crc8_update_def crc8_division_def crc_tables[OF assms] Let_def)
qed

lemma crc16_update_eq:
  assumes "crc_inv st"
  shows "embediq_crc16_update c data st = (crc16_division c data, crc16_lazy st)"
proof -
  have FF: "(0xFF :: u16) = mask 8" by (simp add: mask_eq_exp_minus_1)
  have "map (\<lambda>i. (crc16_bit ^^ 8) (push_bit 8 (word_of_nat i))) [0..<256] ! unat (w AND 0xFF) =
      (crc16_bit ^^ 8) (push_bit 8 w)" for w :: u16
  proof -
    have "unat (w AND 0xFF) < 256"
      unfolding FF take_bit_eq_mask[symmetric] using take_bit_nat_less_exp[of 8 "unat w"]
      by (simp add: unsigned_take_bit_eq)
    moreover have "push_bit 8 (w AND 0xFF) = push_bit 8 w"
      unfolding FF by (rule bit_word_eqI) (auto simp: bit_simps)
    ultimately show ?thesis by (simp del: push_bit_numeral)
  qed
  then show ?thesis
    by (simp only: embediq_crc16_update_def crc16_division_def crc_tables[OF assms] Let_def crc16_byte)
qed

lemma crc32_update_eq:
  assumes "crc_inv st"
  shows "embediq_crc32_update c data st = (crc32_division c data, crc32_lazy st)"
proof -
  have FF: "(0xFF :: u32) = mask 8" by (simp add: mask_eq_exp_minus_1)
  have "map (\<lambda>i. (crc32_bit ^^ 8) (word_of_nat i)) [0..<256] ! unat (w AND 0xFF) =
      (crc32_bit ^^ 8) (w AND 0xFF)" for w :: u32
  proof -
    have "unat (w AND 0xFF) < 256"
      unfolding FF take_bit_eq_mask[symmetric] using take_bit_nat_less_exp[of 8 "unat w"]
      by (simp add: unsigned_take_bit_eq)
    then show ?thesis by simp
  qed
  then show ?thesis
    by (simp only: embediq_crc32_update_def crc32_division_def crc_tables[OF assms] Let_def crc32_byte)
qed

text \<open>C28: in every state of the tables (built or not yet built) the three table-driven updates
  compute the bit-by-bit division by their polynomial, and leave the tables in such a state.\<close>

theorem crc_update_is_division:
  assumes "crc_inv st"
  shows "embediq_crc8_update c8 data st = (crc8_division c8 data, crc8_lazy st) \<and>
    embediq_crc16_update c16 data st = (crc16_division c16 data, crc16_lazy st) \<and>
    embediq_crc32_update c32 data st = (crc32_division c32 data, crc32_lazy st) \<and>
    crc_inv (crc8_lazy st) \<and> crc_inv (crc16_lazy st) \<and> crc_inv (crc32_lazy st)"
  using assms by (simp add: crc8_update_eq crc16_update_eq crc32_update_eq)

theorem crc_update_is_division_witness:
  "embediq_crc32_update 0 [1] crc_initial = (crc32_division 0 [1], crc32_lazy crc_initial)"
  using crc_update_is_division[OF crc_inv_initial] by blast

section \<open>Incremental use\<close>

text \<open>Feeding a message in two parts gives the CRC of the whole message, for all three
  variants, whichever call builds the table.\<close>

theorem crc_incremental:
  assumes "crc_inv st"
  shows "(let (c, st1) = embediq_crc8_init st; (c, st2) = embediq_crc8_update c xs st1;
            (c, st3) = embediq_crc8_update c ys st2
          in (embediq_crc8_final c, st3)) = embediq_crc8 (xs @ ys) st \<and>
    (let (c, st1) = embediq_crc16_init st; (c, st2) = embediq_crc16_update c xs st1;
            (c, st3) = embediq_crc16_update c ys st2
          in (embediq_crc16_final c, st3)) = embediq_crc16 (xs @ ys) st \<and>
    (let (c, st1) = embediq_crc32_init st; (c, st2) = embediq_crc32_update c xs st1;
            (c, st3) = embediq_crc32_update c ys st2
          in (embediq_crc32_final c, st3)) = embediq_crc32 (xs @ ys) st"
  using assms
  by (simp add: embediq_crc8_init_def embediq_crc16_init_def embediq_crc32_init_def
      embediq_crc8_def embediq_crc16_def embediq_crc32_def crc8_update_eq crc16_update_eq
      crc32_update_eq crc8_division_def crc16_division_def crc32_division_def Let_def)

theorem crc_incremental_witness:
  "(let (c, st1) = embediq_crc32_init crc_initial; (c, st2) = embediq_crc32_update c [1] st1;
        (c, st3) = embediq_crc32_update c [2] st2
    in (embediq_crc32_final c, st3)) = embediq_crc32 ([1] @ [2]) crc_initial"
  using crc_incremental[OF crc_inv_initial] by blast

section \<open>Check values\<close>

definition check_string :: bytes where
  "check_string = [0x31, 0x32, 0x33, 0x34, 0x35, 0x36, 0x37, 0x38, 0x39]"

text \<open>The states of the three divisions after each byte of the check string.\<close>

lemma crc8_states:
  "(crc8_bit ^^ 8) (0x0 XOR 0x31) = 0x97"
  "(crc8_bit ^^ 8) (0x97 XOR 0x32) = 0x72"
  "(crc8_bit ^^ 8) (0x72 XOR 0x33) = 0xC0"
  "(crc8_bit ^^ 8) (0xC0 XOR 0x34) = 0xC2"
  "(crc8_bit ^^ 8) (0xC2 XOR 0x35) = 0xCB"
  "(crc8_bit ^^ 8) (0xCB XOR 0x36) = 0xFD"
  "(crc8_bit ^^ 8) (0xFD XOR 0x37) = 0x78"
  "(crc8_bit ^^ 8) (0x78 XOR 0x38) = 0xC7"
  "(crc8_bit ^^ 8) (0xC7 XOR 0x39) = 0xF4"
  by code_simp+

lemma crc16_states:
  "(crc16_bit ^^ 8) (0xFFFF XOR push_bit 8 (ucast (0x31 :: u8))) = 0xC782"
  "(crc16_bit ^^ 8) (0xC782 XOR push_bit 8 (ucast (0x32 :: u8))) = 0x3DBA"
  "(crc16_bit ^^ 8) (0x3DBA XOR push_bit 8 (ucast (0x33 :: u8))) = 0x5BCE"
  "(crc16_bit ^^ 8) (0x5BCE XOR push_bit 8 (ucast (0x34 :: u8))) = 0x5349"
  "(crc16_bit ^^ 8) (0x5349 XOR push_bit 8 (ucast (0x35 :: u8))) = 0x4560"
  "(crc16_bit ^^ 8) (0x4560 XOR push_bit 8 (ucast (0x36 :: u8))) = 0x2EF4"
  "(crc16_bit ^^ 8) (0x2EF4 XOR push_bit 8 (ucast (0x37 :: u8))) = 0x7718"
  "(crc16_bit ^^ 8) (0x7718 XOR push_bit 8 (ucast (0x38 :: u8))) = 0xA12B"
  "(crc16_bit ^^ 8) (0xA12B XOR push_bit 8 (ucast (0x39 :: u8))) = 0x29B1"
  by code_simp+

lemma crc32_states:
  "(crc32_bit ^^ 8) (0xFFFFFFFF XOR ucast (0x31 :: u8)) = 0x7C231048"
  "(crc32_bit ^^ 8) (0x7C231048 XOR ucast (0x32 :: u8)) = 0xB0ACBB32"
  "(crc32_bit ^^ 8) (0xB0ACBB32 XOR ucast (0x33 :: u8)) = 0x77B79C2D"
  "(crc32_bit ^^ 8) (0x77B79C2D XOR ucast (0x34 :: u8)) = 0x641C1F5C"
  "(crc32_bit ^^ 8) (0x641C1F5C XOR ucast (0x35 :: u8)) = 0x340AC5E3"
  "(crc32_bit ^^ 8) (0x340AC5E3 XOR ucast (0x36 :: u8)) = 0xF68D2C9E"
  "(crc32_bit ^^ 8) (0xF68D2C9E XOR ucast (0x37 :: u8)) = 0xAFFC9660"
  "(crc32_bit ^^ 8) (0xAFFC9660 XOR ucast (0x38 :: u8)) = 0x651F2550"
  "(crc32_bit ^^ 8) (0x651F2550 XOR ucast (0x39 :: u8)) = 0x340BC6D9"
  by code_simp+

lemma crc8_division_check: "crc8_division 0 check_string = 0xF4"
  unfolding crc8_division_def check_string_def foldl.simps crc8_states ..

lemma crc16_division_check: "crc16_division 0xFFFF check_string = 0x29B1"
  unfolding crc16_division_def check_string_def foldl.simps crc16_states ..

lemma crc32_division_check: "crc32_division 0xFFFFFFFF check_string = 0x340BC6D9"
  unfolding crc32_division_def check_string_def foldl.simps crc32_states ..

text \<open>On the standard check string "123456789" the three variants return the published check
  values of CRC-8 (0xF4), CRC-16/CCITT-FALSE (0x29B1) and CRC-32/ISO-HDLC (0xCBF43926).\<close>

theorem crc_check_values:
  "fst (embediq_crc8 check_string crc_initial) = 0xF4 \<and>
   fst (embediq_crc16 check_string crc_initial) = 0x29B1 \<and>
   fst (embediq_crc32 check_string crc_initial) = 0xCBF43926"
  by (simp add: embediq_crc8_def embediq_crc16_def embediq_crc32_def embediq_crc8_init_def
      embediq_crc16_init_def embediq_crc32_init_def crc8_update_eq crc16_update_eq crc32_update_eq
      crc_inv_initial embediq_crc8_final_def embediq_crc16_final_def embediq_crc32_final_def
      crc8_division_check crc16_division_check crc32_division_check)

section \<open>Error detection\<close>

lemma crc32_steps_byte: "(crc32_bit ^^ 8) (x XOR push_bit 8 y) = (crc32_bit ^^ 8) x XOR y"
  if "drop_bit 24 y = 0" for x y :: u32
proof -
  have y: "n < 24" if "bit y n" for n
  proof (rule ccontr)
    assume "\<not> n < 24"
    then have "bit (drop_bit 24 y) (n - 24)"
      unfolding bit_drop_bit_eq using \<open>bit y n\<close> by simp
    then show False using \<open>drop_bit 24 y = 0\<close> by simp
  qed
  have "(crc32_bit ^^ 8) (push_bit 8 y) = drop_bit 8 (push_bit 8 y)"
    by (rule crc32_shift) (simp add: bit_push_bit_iff)
  also have "\<dots> = y"
    by (rule bit_word_eqI) (auto simp: bit_simps dest: y)
  finally show ?thesis by (simp add: crc32_engine.steps_xor)
qed

text \<open>The bytes of a window as one word, the first byte lowest.\<close>

fun window :: "bytes \<Rightarrow> u32" where
  "window [] = 0"
| "window (b # bs) = ucast b XOR push_bit 8 (window bs)"

lemma window_bit:
  assumes "bit (window bs) n"
  shows "n < 8 * length bs"
  using assms
proof (induction bs arbitrary: n)
  case (Cons b bs)
  have "n < 8 \<or> n - 8 < 8 * length bs \<and> 8 \<le> n"
    using Cons.prems bit_imp_le_length[of b n] Cons.IH[of "n - 8"]
    by (auto simp: bit_xor_iff bit_push_bit_iff bit_ucast_iff simp del: push_bit_numeral)
  then show ?case by auto
qed simp

lemma crc32_division_window:
  assumes "length bs \<le> 4"
  shows "crc32_division c bs = (crc32_bit ^^ (8 * length bs)) (c XOR window bs)"
  using assms
proof (induction bs arbitrary: c)
  case Nil
  then show ?case by (simp add: crc32_division_def)
next
  case (Cons b bs)
  have "drop_bit 24 (window bs) = 0"
    using Cons.prems window_bit[of bs] by (intro bit_word_eqI) (force simp: bit_drop_bit_eq)
  then have "(crc32_bit ^^ 8) (c XOR ucast b) XOR window bs =
      (crc32_bit ^^ 8) (c XOR window (b # bs))"
    by (simp add: crc32_steps_byte xor.assoc[symmetric] del: push_bit_numeral)
  moreover have "crc32_division c (b # bs) =
      crc32_division ((crc32_bit ^^ 8) (c XOR ucast b)) bs"
    by (simp add: crc32_division_def)
  ultimately show ?case
    using Cons by (simp add: funpow_add[of "8 * length bs" 8, simplified add.commute] add.commute
        del: window.simps)
qed

lemma window_inj:
  assumes "window xs = window ys" and "length xs = length ys" and "length xs \<le> 4"
  shows "xs = ys"
  using assms
proof (induction xs arbitrary: ys)
  case (Cons a xs)
  then obtain b zs where ys: "ys = b # zs" by (cases ys) auto
  have low: "take_bit 8 (window (c # cs)) = ucast c" for c cs
    using bit_imp_le_length[of c]
    by (intro bit_word_eqI) (auto simp: bit_take_bit_iff bit_xor_iff bit_push_bit_iff bit_ucast_iff
        simp del: push_bit_numeral)
  have "ucast a = (ucast b :: u32)"
    using Cons.prems(1) low[of a xs] low[of b zs] unfolding ys by simp
  then have ab: "a = b" by (rule crc32_engine.inp_inj)
  have high: "drop_bit 8 (push_bit 8 (window cs)) = window cs" if "length cs \<le> 3" for cs
    using that window_bit[of cs]
    by (intro bit_word_eqI) (force simp: bit_drop_bit_eq bit_push_bit_iff simp del: push_bit_numeral)
  have "push_bit 8 (window xs) = push_bit 8 (window zs)"
    using Cons.prems(1) unfolding ys window.simps ab xor_cancel_left .
  moreover have "length xs \<le> 3" and "length zs \<le> 3"
    using Cons.prems(2,3) unfolding ys by simp_all
  ultimately have "window xs = window zs" by (metis high)
  then have "xs = zs" using Cons.prems(2,3) unfolding ys by (intro Cons.IH) simp_all
  then show ?case unfolding ys ab by simp
qed simp

definition crc32_of :: "bytes \<Rightarrow> u32" where
  "crc32_of data = crc32_division 0xFFFFFFFF data XOR 0xFFFFFFFF"

lemma embediq_crc32_eq:
  "crc_inv st \<Longrightarrow> embediq_crc32 data st = (crc32_of data, crc32_lazy st)"
  by (simp add: embediq_crc32_def embediq_crc32_init_def embediq_crc32_final_def crc32_update_eq
      crc32_of_def)

lemma crc32_of_burst:
  assumes "length u = length v" and "length u \<le> 4" and "u \<noteq> v"
  shows "crc32_of (xs @ u @ ys) \<noteq> crc32_of (xs @ v @ ys)"
proof -
  have "crc32_division c u \<noteq> crc32_division c v" for c
    using assms window_inj[of u v]
    by (auto simp: crc32_division_window crc32_engine.steps_inj xor_cancel_left)
  then have "crc32_division 0xFFFFFFFF (xs @ u @ ys) \<noteq> crc32_division 0xFFFFFFFF (xs @ v @ ys)"
    using crc32_engine.division_inj unfolding crc32_division_def foldl_append by blast
  then show ?thesis by (simp add: crc32_of_def xor_cancel_right)
qed

text \<open>Two messages of the same length that differ, and only inside a window of at most four
  consecutive bytes (a burst of at most 32 bits on byte boundaries), have different CRC-32.\<close>

theorem crc32_detects_burst:
  assumes "crc_inv st" and "length u = length v" and "length u \<le> 4" and "u \<noteq> v"
  shows "fst (embediq_crc32 (xs @ u @ ys) st) \<noteq> fst (embediq_crc32 (xs @ v @ ys) st)"
  using crc32_of_burst[OF assms(2-4)] by (simp add: embediq_crc32_eq assms(1))

theorem crc32_detects_burst_witness:
  "fst (embediq_crc32 ([1] @ [2, 3] @ [4]) crc_initial) \<noteq>
     fst (embediq_crc32 ([1] @ [3, 2] @ [4]) crc_initial)"
  by (rule crc32_detects_burst[OF crc_inv_initial]) simp_all

text \<open>Every change of a single byte of a message changes its CRC-8 and its CRC-16.\<close>

theorem crc_detects_byte_change:
  assumes "crc_inv st" and "a \<noteq> b"
  shows "fst (embediq_crc8 (xs @ a # ys) st) \<noteq> fst (embediq_crc8 (xs @ b # ys) st) \<and>
    fst (embediq_crc16 (xs @ a # ys) st) \<noteq> fst (embediq_crc16 (xs @ b # ys) st)"
  using crc8_engine.detects_byte_change[OF assms(2)] crc16_engine.detects_byte_change[OF assms(2)]
    assms(1)
  by (simp add: embediq_crc8_def embediq_crc8_init_def embediq_crc8_final_def crc8_update_eq
      crc8_division_def embediq_crc16_def embediq_crc16_init_def embediq_crc16_final_def
      crc16_update_eq crc16_division_def)

theorem crc_detects_byte_change_witness:
  "fst (embediq_crc8 ([1] @ 2 # [3]) crc_initial) \<noteq> fst (embediq_crc8 ([1] @ 4 # [3]) crc_initial)"
  using crc_detects_byte_change[OF crc_inv_initial, of 2 4 "[1]" "[3]"] by simp

end
