(* ===== verification/Flash.thy ===== *)
theory Flash
  imports Prelude
begin

text \<open>
  The simulated flash of the host: hal/posix/peripherals/hal_flash_posix.c, one backing file that
  every write replaces by writing a temporary file and renaming it. The state is the content of
  the two files; the environment decides, for each write, whether the temporary file opens, how
  much of it is written, whether the rename succeeds, and whether the bytes get from the buffers of
  \<open>stdio\<close> and the kernel to the disk: the code ignores the result of \<open>fclose\<close> and does not call
  \<open>fsync\<close>, so that bytes lost there go unnoticed. An existing file is read completely.
  Which paths the two files have is a function of two environment variables.
\<close>

text \<open>The outcomes of the file operations of one write. \<open>Io_Lost n\<close>: the write and the rename succeed,
  but only \<open>n\<close> bytes reach the disk.\<close>

datatype flash_io = Io_Ok | Io_No_Open | Io_Short nat | Io_No_Rename | Io_Lost nat

fun io_reported :: "flash_io \<Rightarrow> bool" where
  "io_reported (Io_Lost n) = False"
| "io_reported io = True"

record flash_state =
  fl_file :: "bytes option"
  fl_tmp :: "bytes option"
  fl_io :: "nat \<Rightarrow> flash_io"
  fl_writes :: nat
  fl_log :: "obs_call list"

definition HAL_FLASH_PAGE_SIZE :: u32 where [embediq_const]: "HAL_FLASH_PAGE_SIZE = 256"
definition HAL_FLASH_POSIX_MAX_SIZE :: nat where
  [embediq_const]: "HAL_FLASH_POSIX_MAX_SIZE = 64 * 1024"

text \<open>\<open>read_file\<close>: what \<open>fread\<close> puts into a buffer of the given size; empty without a file.\<close>

definition read_file :: "nat \<Rightarrow> flash_state \<Rightarrow> bytes" where
  "read_file buf_size fl = (case fl_file fl of None \<Rightarrow> [] | Some bs \<Rightarrow> take buf_size bs)"

definition flash_error :: "int \<Rightarrow> flash_state \<Rightarrow> int \<times> flash_state" where
  "flash_error rc fl =
     (rc, fl\<lparr>fl_log := fl_log fl @ [EMBEDIQ_HAL_OBS_EMIT_ERROR EMBEDIQ_HAL_SRC_FLASH rc]\<rparr>)"

definition write_file :: "bytes \<Rightarrow> flash_state \<Rightarrow> int \<times> flash_state" where
  "write_file buf fl0 =
     (let io = fl_io fl0 (fl_writes fl0); fl = fl0\<lparr>fl_writes := fl_writes fl0 + 1\<rparr> in
      case io of
        Io_No_Open \<Rightarrow> flash_error HAL_ERR_IO fl
      | Io_Short n \<Rightarrow>
          if n < length buf then flash_error HAL_ERR_IO (fl\<lparr>fl_tmp := Some (take n buf)\<rparr>)
          else (HAL_OK, fl\<lparr>fl_file := Some buf, fl_tmp := None\<rparr>)
      | Io_No_Rename \<Rightarrow> flash_error HAL_ERR_IO (fl\<lparr>fl_tmp := Some buf\<rparr>)
      | Io_Lost n \<Rightarrow> (HAL_OK, fl\<lparr>fl_file := Some (take n buf), fl_tmp := None\<rparr>)
      | Io_Ok \<Rightarrow> (HAL_OK, fl\<lparr>fl_file := Some buf, fl_tmp := None\<rparr>))"

text \<open>\<open>hal_flash_read\<close>: \<open>buf\<close> tells whether the caller passed a buffer; the second component is
  the content of the buffer afterwards.\<close>

definition hal_flash_read :: "u32 \<Rightarrow> bool \<Rightarrow> nat \<Rightarrow> flash_state \<Rightarrow> (int \<times> bytes) \<times> flash_state" where
  "hal_flash_read addr buf len fl =
     (if \<not> buf then (let (rc, fl) = flash_error HAL_ERR_INVALID fl in ((rc, []), fl))
      else let file_buf = read_file HAL_FLASH_POSIX_MAX_SIZE fl; zeroed = replicate len 0 in
        if length file_buf > unat addr
        then let avail = length file_buf - unat addr;
                 copy = (if avail < len then avail else len)
             in ((HAL_OK, take copy (drop (unat addr) file_buf) @ drop copy zeroed), fl)
        else ((HAL_OK, zeroed), fl))"

text \<open>The buffer of 64 KiB holding the file, padded with zeros, with a region replaced.\<close>

definition overlay :: "u32 \<Rightarrow> bytes \<Rightarrow> bytes \<Rightarrow> bytes" where
  "overlay addr buf file =
     (let n = length file; needed = unat addr + length buf;
          file_buf = file @ replicate (HAL_FLASH_POSIX_MAX_SIZE - n) 0
      in take (max n needed) (take (unat addr) file_buf @ buf @ drop needed file_buf))"

definition hal_flash_write :: "u32 \<Rightarrow> bytes option \<Rightarrow> flash_state \<Rightarrow> int \<times> flash_state" where
  "hal_flash_write addr buf fl =
     (case buf of
        None \<Rightarrow> flash_error HAL_ERR_INVALID fl
      | Some bs \<Rightarrow>
          let file = read_file HAL_FLASH_POSIX_MAX_SIZE fl in
          if unat addr + length bs > HAL_FLASH_POSIX_MAX_SIZE then flash_error HAL_ERR_INVALID fl
          else write_file (overlay addr bs file) fl)"

definition hal_flash_erase :: "u32 \<Rightarrow> nat \<Rightarrow> flash_state \<Rightarrow> int \<times> flash_state" where
  "hal_flash_erase addr len fl =
     (let file = read_file HAL_FLASH_POSIX_MAX_SIZE fl in
      if unat addr + len > HAL_FLASH_POSIX_MAX_SIZE then flash_error HAL_ERR_INVALID fl
      else write_file (overlay addr (replicate len 0xFF) file) fl)"

definition hal_flash_page_size :: u32 where "hal_flash_page_size = HAL_FLASH_PAGE_SIZE"

section \<open>Reading what was written\<close>

text \<open>The flash as an array of bytes: what a read of any region sees.\<close>

definition flash_byte :: "flash_state \<Rightarrow> nat \<Rightarrow> u8" where
  "flash_byte fl i =
     (let file = read_file HAL_FLASH_POSIX_MAX_SIZE fl in if i < length file then file ! i else 0)"

lemma flash_read_bytes:
  "hal_flash_read addr True len fl = ((HAL_OK, map (\<lambda>i. flash_byte fl (unat addr + i)) [0..<len]), fl)"
  by (auto simp: hal_flash_read_def flash_byte_def Let_def nth_append intro!: nth_equalityI)

lemma length_read_file: "length (read_file n fl) \<le> n"
  by (simp add: read_file_def split: option.split)

lemma overlay_nth:
  assumes "unat addr + length bs \<le> HAL_FLASH_POSIX_MAX_SIZE"
    and "length file \<le> HAL_FLASH_POSIX_MAX_SIZE"
  shows "length (overlay addr bs file) = max (length file) (unat addr + length bs)"
    and "i < length (overlay addr bs file) \<Longrightarrow> overlay addr bs file ! i =
      (if unat addr \<le> i \<and> i < unat addr + length bs then bs ! (i - unat addr)
       else if i < length file then file ! i else 0)"
proof -
  let ?n = "length file" and ?a = "unat addr"
  have "min ?n ?a + (?a - ?n) = ?a" by simp
  then show "length (overlay addr bs file) = max ?n (?a + length bs)"
    and "i < length (overlay addr bs file) \<Longrightarrow> overlay addr bs file ! i =
      (if ?a \<le> i \<and> i < ?a + length bs then bs ! (i - ?a) else if i < ?n then file ! i else 0)"
    using assms by (auto simp: overlay_def Let_def nth_append)
qed

lemma write_file_cases:
  "write_file buf fl = (rc, fl') \<Longrightarrow> io_reported (fl_io fl (fl_writes fl)) \<Longrightarrow>
     rc = HAL_OK \<and> fl_file fl' = Some buf \<and> fl_log fl' = fl_log fl \<or>
     rc = HAL_ERR_IO \<and> fl_file fl' = fl_file fl \<and>
     fl_log fl' = fl_log fl @ [EMBEDIQ_HAL_OBS_EMIT_ERROR EMBEDIQ_HAL_SRC_FLASH HAL_ERR_IO]"
  by (auto simp: write_file_def flash_error_def Let_def split: flash_io.splits if_splits)

lemma write_file_ok: "fl_io fl (fl_writes fl) = Io_Ok \<Longrightarrow> fst (write_file buf fl) = HAL_OK"
  by (simp add: write_file_def)

lemma flash_write_cases:
  assumes "hal_flash_write addr (Some bs) fl = (rc, fl')" and "io_reported (fl_io fl (fl_writes fl))"
  shows "rc = HAL_OK \<and> fl_log fl' = fl_log fl \<and>
      (\<forall>i < HAL_FLASH_POSIX_MAX_SIZE. flash_byte fl' i =
        (if unat addr \<le> i \<and> i < unat addr + length bs then bs ! (i - unat addr)
         else flash_byte fl i))
    \<or> rc \<noteq> HAL_OK \<and> (\<forall>i. flash_byte fl' i = flash_byte fl i) \<and>
      fl_log fl' = fl_log fl @ [EMBEDIQ_HAL_OBS_EMIT_ERROR EMBEDIQ_HAL_SRC_FLASH rc]"
proof (cases "unat addr + length bs > HAL_FLASH_POSIX_MAX_SIZE")
  case True
  then show ?thesis
    using assms by (auto simp: hal_flash_write_def flash_error_def embediq_const flash_byte_def
        read_file_def)
next
  case False
  let ?f = "read_file HAL_FLASH_POSIX_MAX_SIZE fl"
  have w: "write_file (overlay addr bs ?f) fl = (rc, fl')"
    using assms False by (simp add: hal_flash_write_def Let_def)
  note ov = overlay_nth[of addr bs ?f]
  have len: "length (overlay addr bs ?f) = max (length ?f) (unat addr + length bs)"
    using ov(1) False length_read_file by simp
  show ?thesis
  proof (cases "rc = HAL_OK")
    case True
    then have f: "fl_file fl' = Some (overlay addr bs ?f)" and "fl_log fl' = fl_log fl"
      using write_file_cases[OF w assms(2)] by (auto simp: embediq_const)
    moreover have "read_file HAL_FLASH_POSIX_MAX_SIZE fl' = overlay addr bs ?f"
      using f len False length_read_file[of HAL_FLASH_POSIX_MAX_SIZE fl]
      by (simp add: read_file_def)
    ultimately show ?thesis
      using True len False ov(2) length_read_file[of HAL_FLASH_POSIX_MAX_SIZE fl]
      by (auto simp: flash_byte_def Let_def)
  next
    case rc: False
    then show ?thesis
      using write_file_cases[OF w assms(2)] by (auto simp: embediq_const flash_byte_def read_file_def)
  qed
qed

text \<open>As long as the system reports the loss of bytes before the rename, a flash write is all or
  nothing. It answers HAL_OK, and then exactly the bytes of the
  written region have the new values for every later read; or it answers an error, reports it
  to the Observatory, and no byte of the flash has changed, at whatever point of the temporary
  file's life the write failed.\<close>

theorem flash_write_atomic:
  assumes "hal_flash_write addr (Some bs) fl = (rc, fl')" and "io_reported (fl_io fl (fl_writes fl))"
  shows "rc = HAL_OK \<and> fl_log fl' = fl_log fl \<and>
      (\<forall>i < HAL_FLASH_POSIX_MAX_SIZE. flash_byte fl' i =
        (if unat addr \<le> i \<and> i < unat addr + length bs then bs ! (i - unat addr)
         else flash_byte fl i))
    \<or> rc \<noteq> HAL_OK \<and> (\<forall>i. flash_byte fl' i = flash_byte fl i) \<and>
      fl_log fl' = fl_log fl @ [EMBEDIQ_HAL_OBS_EMIT_ERROR EMBEDIQ_HAL_SRC_FLASH rc]"
  using flash_write_cases[OF assms] .

definition demo_flash :: flash_state where
  "demo_flash = \<lparr>fl_file = None, fl_tmp = None, fl_io = (\<lambda>n. if n = 1 then Io_No_Rename else Io_Ok),
     fl_writes = 0, fl_log = []\<rparr>"

theorem flash_write_atomic_witness:
  "fst (hal_flash_write 2 (Some [5]) demo_flash) = HAL_OK \<and>
     flash_byte (snd (hal_flash_write 2 (Some [5]) demo_flash)) 2 = 5"
  using flash_write_atomic[of 2 "[5]" demo_flash "fst (hal_flash_write 2 (Some [5]) demo_flash)"
      "snd (hal_flash_write 2 (Some [5]) demo_flash)"]
  by (auto simp: hal_flash_write_def demo_flash_def embediq_const write_file_def flash_error_def Let_def)

section \<open>The paths of the two files\<close>

definition PATH_BUF :: nat where [embediq_const]: "PATH_BUF = 4096"

record flash_paths =
  s_path :: string
  s_tmp_path :: string
  made_dir :: "string option" \<comment> \<open>the argument of \<open>mkdir\<close>, if it is called\<close>

text \<open>\<open>resolve_paths\<close> for the values of \<open>EMBEDIQ_NVM_PATH\<close> and \<open>HOME\<close>.\<close>

definition resolve_paths :: "string option \<Rightarrow> string option \<Rightarrow> flash_paths" where
  "resolve_paths env home =
     (if env \<noteq> None \<and> env \<noteq> Some []
      then \<lparr>s_path = snprintf_n PATH_BUF (the env), s_tmp_path = snprintf_n PATH_BUF (the env @ ''.tmp''),
            made_dir = None\<rparr>
      else let home = (case home of None \<Rightarrow> ''/tmp'' | Some h \<Rightarrow> h);
               home_max = PATH_BUF - Suc (length ''/.embediq/nvm_store.bin.tmp'');
               dir = snprintf_n PATH_BUF (take home_max home @ ''/.embediq'');
               dir_max = PATH_BUF - Suc (length ''/nvm_store.bin.tmp'')
           in \<lparr>s_path = snprintf_n PATH_BUF (take dir_max dir @ ''/nvm_store.bin''),
               s_tmp_path = snprintf_n PATH_BUF (take dir_max dir @ ''/nvm_store.bin.tmp''),
               made_dir = Some dir\<rparr>)"

text \<open>\<open>strrchr\<close> for a slash, and the directory that \<open>ensure_parent_dir\<close> makes.\<close>

definition last_slash :: "string \<Rightarrow> nat option" where
  "last_slash s = (let js = filter (\<lambda>i. s ! i = CHR ''/'') [0..<length s]
     in if js = [] then None else Some (last js))"

definition ensure_parent_dir :: "string \<Rightarrow> string option" where
  "ensure_parent_dir path =
     (let dir = take (PATH_BUF - 1) path in
      case last_slash dir of
        None \<Rightarrow> None
      | Some i \<Rightarrow> if i = 0 then None else Some (take i dir))"

lemma last_slash_append:
  assumes "CHR ''/'' \<notin> set t"
  shows "last_slash (s @ t) = last_slash s"
proof -
  have "filter (\<lambda>i. (s @ t) ! i = CHR ''/'') [0..<length (s @ t)] =
      filter (\<lambda>i. (s @ t) ! i = CHR ''/'') [0..<length s] @
      filter (\<lambda>i. (s @ t) ! i = CHR ''/'') [length s..<length s + length t]"
    unfolding length_append upt_add_eq_append[OF le0] filter_append by (rule refl)
  also have "filter (\<lambda>i. (s @ t) ! i = CHR ''/'') [length s..<length s + length t] = []"
    using assms by (auto simp: filter_empty_conv nth_append in_set_conv_nth)
  also have "filter (\<lambda>i. (s @ t) ! i = CHR ''/'') [0..<length s] = filter (\<lambda>i. s ! i = CHR ''/'') [0..<length s]"
    by (intro filter_cong) (simp_all add: nth_append)
  finally show ?thesis by (simp add: last_slash_def Let_def)
qed

lemma last_slash_bound: "last_slash s = Some i \<Longrightarrow> i < length s"
  using last_in_set[of "filter (\<lambda>i. s ! i = CHR ''/'') [0..<length s]"]
  by (auto simp: last_slash_def Let_def split: if_splits)

text \<open>A path that leaves room for the suffix, or none at all: the temporary file stands beside the
  store under the name with the suffix, in full, so that the rename replaces the store.\<close>

lemma flash_paths_beside:
  assumes "env = None \<or> (\<exists>e. env = Some e \<and> length e + 5 \<le> PATH_BUF)"
  shows "let p = resolve_paths env home in s_tmp_path p = s_path p @ ''.tmp'' \<and>
    length (s_tmp_path p) < PATH_BUF \<and> ensure_parent_dir (s_tmp_path p) = ensure_parent_dir (s_path p)"
proof -
  let ?p = "resolve_paths env home"
  have p: "s_tmp_path ?p = s_path ?p @ ''.tmp'' \<and> length (s_tmp_path ?p) < PATH_BUF"
  proof (cases "env = None \<or> env = Some []")
    case True
    define h where "h = (case home of None \<Rightarrow> ''/tmp'' | Some h \<Rightarrow> h)"
    define dir where "dir = take 4068 h @ ''/.embediq''"
    have d: "length dir \<le> 4077" by (simp add: dir_def)
    then have "take 4095 dir = dir" by simp
    then have "?p = \<lparr>s_path = dir @ ''/nvm_store.bin'', s_tmp_path = dir @ ''/nvm_store.bin.tmp'', made_dir = Some dir\<rparr>"
      using d True
      by (auto simp: resolve_paths_def snprintf_n_def PATH_BUF_def Let_def dir_def[symmetric] h_def[symmetric])
    then show ?thesis using d by (simp add: PATH_BUF_def)
  next
    case False
    then obtain e where "env = Some e" "e \<noteq> []" "length e \<le> 4091" using assms by (auto simp: PATH_BUF_def)
    then show ?thesis by (simp add: resolve_paths_def snprintf_n_def PATH_BUF_def)
  qed
  then have tmp: "s_tmp_path ?p = s_path ?p @ ''.tmp''" and len: "length (s_tmp_path ?p) < PATH_BUF"
    by (rule conjunct1, rule conjunct2)
  have "last_slash (s_path ?p @ ''.tmp'') = last_slash (s_path ?p)"
    by (rule last_slash_append) simp
  then have "ensure_parent_dir (s_tmp_path ?p) = ensure_parent_dir (s_path ?p)"
    using tmp len last_slash_bound[of "s_path ?p"] by (auto simp: ensure_parent_dir_def Let_def split: option.split)
  then show ?thesis using tmp len by (simp add: Let_def)
qed

text \<open>A value of \<open>EMBEDIQ_NVM_PATH\<close> that fills the buffer loses the suffix: the temporary file is the
  store itself, which a failing write then truncates.\<close>

lemma flash_tmp_collides:
  assumes "length e + 1 \<ge> PATH_BUF"
  shows "s_tmp_path (resolve_paths (Some e) home) = s_path (resolve_paths (Some e) home)"
  using assms by (auto simp: resolve_paths_def snprintf_n_def PATH_BUF_def)

end
