(* ===== verification/Schema.thy ===== *)
theory Schema
  imports Prelude
begin

text \<open>
  The generated configuration schema: generated/embediq_cfg_validate.c and its header, the table
  of keys with their types, mutability classes and bounds.
\<close>

datatype cfg_mut = CFG_MUT_FACTORY | CFG_MUT_FLEET | CFG_MUT_USER | CFG_MUT_FIRMWARE

datatype cfg_type = CFG_TYPE_U32 | CFG_TYPE_I32 | CFG_TYPE_F32 | CFG_TYPE_BOOL | CFG_TYPE_STR

text \<open>The union of default and bounds; floats as their 32 bits.\<close>

datatype cfg_val =
    Val_U32 (dflt_u32: u32) (min_u32: u32) (max_u32: u32)
  | Val_I32 u32 u32 u32
  | Val_F32 u32 u32 u32
  | Val_B bool
  | Val_Str string u8

record cfg_schema_entry =
  sch_key :: string
  sch_type :: cfg_type
  sch_mutability :: cfg_mut
  sch_sensitive :: bool
  sch_val :: cfg_val

definition schema_row :: "string \<Rightarrow> cfg_type \<Rightarrow> cfg_mut \<Rightarrow> bool \<Rightarrow> cfg_val \<Rightarrow> cfg_schema_entry" where
  "schema_row k t m s v = \<lparr>sch_key = k, sch_type = t, sch_mutability = m, sch_sensitive = s,
     sch_val = v\<rparr>"

definition k_cfg_schema :: "cfg_schema_entry list" where
  "k_cfg_schema =
    [schema_row ''mqtt.host'' CFG_TYPE_STR CFG_MUT_FLEET False (Val_Str '''' 63),
     schema_row ''mqtt.port'' CFG_TYPE_U32 CFG_MUT_FLEET False (Val_U32 1883 1 65535),
     schema_row ''report_interval_ms'' CFG_TYPE_U32 CFG_MUT_FLEET False (Val_U32 30000 100 86400000),
     schema_row ''device_id'' CFG_TYPE_STR CFG_MUT_FACTORY False (Val_Str '''' 63),
     schema_row ''log_level'' CFG_TYPE_U32 CFG_MUT_FLEET False (Val_U32 1 0 3),
     schema_row ''wifi.ssid'' CFG_TYPE_STR CFG_MUT_USER False (Val_Str '''' 63),
     schema_row ''wifi.psk'' CFG_TYPE_STR CFG_MUT_USER True (Val_Str '''' 63),
     schema_row ''boot_count'' CFG_TYPE_U32 CFG_MUT_FIRMWARE False (Val_U32 0 0 UINT32_MAX)]"

fun schema_scan :: "string \<Rightarrow> cfg_schema_entry list \<Rightarrow> cfg_schema_entry option" where
  "schema_scan key [] = None"
| "schema_scan key (e # es) = (if key = sch_key e then Some e else schema_scan key es)"

definition cfg_schema_lookup :: "string \<Rightarrow> cfg_schema_entry option" where
  "cfg_schema_lookup key = schema_scan key k_cfg_schema"

definition factory_key :: "string \<Rightarrow> bool" where
  "factory_key key \<longleftrightarrow>
     (case cfg_schema_lookup key of Some e \<Rightarrow> sch_mutability e = CFG_MUT_FACTORY | None \<Rightarrow> False)"

lemma factory_key_iff: "factory_key key \<longleftrightarrow> key = ''device_id''"
  by (simp add: factory_key_def cfg_schema_lookup_def k_cfg_schema_def schema_row_def)

end
