(* ===== verification/Store.thy ===== *)
theory Store
  imports Prelude
begin

text \<open>
  The interface between the configuration module and the non-volatile store: a key-value store
  whose set may be refused. Theory Nvm provides it, theory Cfg uses it.
\<close>

datatype kv_op = Kv_Put string bytes | Kv_Del string

text \<open>A sequence of calls; a call that does not return ends it.\<close>

fun kv_run :: "(string \<Rightarrow> bytes \<Rightarrow> 's \<Rightarrow> (bool \<times> 's) option) \<Rightarrow> (string \<Rightarrow> 's \<Rightarrow> (bool \<times> 's) option) \<Rightarrow>
    kv_op list \<Rightarrow> 's \<Rightarrow> (bool list \<times> 's) option" where
  "kv_run put del [] s = Some ([], s)"
| "kv_run put del (Kv_Put k v # ops) s =
     do { (r, s) \<leftarrow> put k v s; (rs, s) \<leftarrow> kv_run put del ops s; Some (r # rs, s) }"
| "kv_run put del (Kv_Del k # ops) s =
     do { (r, s) \<leftarrow> del k s; (rs, s) \<leftarrow> kv_run put del ops s; Some (r # rs, s) }"

text \<open>What the calls mean, given which of them answered success.\<close>

fun kv_spec :: "kv_op list \<Rightarrow> bool list \<Rightarrow> (string \<Rightarrow> bytes option) \<Rightarrow> (string \<Rightarrow> bytes option)" where
  "kv_spec (Kv_Put k v # ops) (r # rs) m = kv_spec ops rs (if r then m(k \<mapsto> v) else m)"
| "kv_spec (Kv_Del k # ops) (r # rs) m = kv_spec ops rs (if r then m(k := None) else m)"
| "kv_spec ops rs m = m"

fun kv_op_valid :: "(string \<Rightarrow> bytes \<Rightarrow> bool) \<Rightarrow> kv_op \<Rightarrow> bool" where
  "kv_op_valid valid (Kv_Put k v) = valid k v"
| "kv_op_valid valid (Kv_Del k) = valid k []"

locale kv_store =
  fixes inv :: "'s \<Rightarrow> bool"
    and contents :: "'s \<Rightarrow> string \<Rightarrow> bytes option"
    and valid :: "string \<Rightarrow> bytes \<Rightarrow> bool"
    and accepts :: "string \<Rightarrow> bytes \<Rightarrow> 's \<Rightarrow> bool"
    and put :: "string \<Rightarrow> bytes \<Rightarrow> 's \<Rightarrow> (bool \<times> 's) option"
    and get :: "string \<Rightarrow> u32 \<Rightarrow> 's \<Rightarrow> (bytes option \<times> 's) option"
    and del :: "string \<Rightarrow> 's \<Rightarrow> (bool \<times> 's) option"
  assumes put_law: "inv s \<Longrightarrow> valid k v \<Longrightarrow> \<exists>s'. put k v s = Some (accepts k v s, s') \<and> inv s' \<and>
      contents s' = (if accepts k v s then (contents s)(k \<mapsto> v) else contents s)"
    and get_law: "inv s \<Longrightarrow> valid k [] \<Longrightarrow> get k cap s = Some
      (case contents s k of
         Some v \<Rightarrow> if length v \<le> unat cap then Some v else None | None \<Rightarrow> None, s)"
    and del_law: "inv s \<Longrightarrow> valid k [] \<Longrightarrow> \<exists>s'. del k s = Some (True, s') \<and> inv s' \<and>
      contents s' = (contents s)(k := None)"
begin

lemma put_get:
  assumes "inv s" and "valid k v" and "valid k []" and "put k v s = Some (True, s')"
    and "length v \<le> unat cap"
  shows "get k cap s' = Some (Some v, s')"
  using put_law[OF assms(1,2)] assms by (auto simp: get_law)

lemma put_get_other:
  assumes "inv s" and "valid k v" and "valid k' []" and "put k v s = Some (r, s')" and "k' \<noteq> k"
  shows "map_option fst (get k' cap s') = map_option fst (get k' cap s)"
  using put_law[OF assms(1,2)] assms by (auto simp: get_law)

lemma put_refused:
  assumes "inv s" and "valid k v" and "put k v s = Some (False, s')"
  shows "contents s' = contents s"
  using put_law[OF assms(1,2)] assms by (auto split: if_splits)

text \<open>Every sequence of calls returns and means what it says.\<close>

lemma run_refines:
  assumes "inv s" and "\<forall>op \<in> set ops. kv_op_valid valid op"
  shows "\<exists>rs s'. kv_run put del ops s = Some (rs, s') \<and> length rs = length ops \<and> inv s' \<and>
    contents s' = kv_spec ops rs (contents s)"
  using assms
proof (induction ops arbitrary: s)
  case (Cons op ops)
  show ?case
  proof (cases op)
    case (Kv_Put k v)
    then obtain s1 where s1: "put k v s = Some (accepts k v s, s1)" "inv s1"
      "contents s1 = (if accepts k v s then (contents s)(k \<mapsto> v) else contents s)"
      using put_law[of s k v] Cons.prems by auto
    then show ?thesis
      using Cons.IH[OF s1(2)] Cons.prems(2) Kv_Put by (auto simp del: fun_upd_apply)
  next
    case (Kv_Del k)
    then obtain s1 where s1: "del k s = Some (True, s1)" "inv s1" "contents s1 = (contents s)(k := None)"
      using del_law[of s k] Cons.prems by auto
    then show ?thesis
      using Cons.IH[OF s1(2)] Cons.prems(2) Kv_Del by (auto simp del: fun_upd_apply)
  qed
qed simp

end

end
