(* ===== verification/Nvm.thy ===== *)
theory Nvm
  imports Crc Flash Schema Store
begin

text \<open>
  The non-volatile store: fbs/drivers/fb_nvm.c on the flash of theory Flash. The state is the
  table of 64 entries, the mutex and the flash behind it; the persisted blob is the header of 16
  bytes and the memory image of the table, 134 bytes an entry. A call that would wait for the
  mutex for ever, or copy past the end of an entry's value, is None.
\<close>

section \<open>Blob and entries\<close>

definition NVM_KEY_SIZE :: nat where [embediq_const]: "NVM_KEY_SIZE = EMBEDIQ_NVM_KEY_SIZE"
definition NVM_VAL_SIZE :: nat where [embediq_const]: "NVM_VAL_SIZE = EMBEDIQ_NVM_VAL_SIZE"
definition NVM_MAX_KEYS :: nat where [embediq_const]: "NVM_MAX_KEYS = EMBEDIQ_NVM_MAX_KEYS"
definition NVM_BLOB_VER_MAJOR :: u8 where [embediq_const]: "NVM_BLOB_VER_MAJOR = 1"
definition NVM_BLOB_VER_MINOR :: u8 where [embediq_const]: "NVM_BLOB_VER_MINOR = 0"

definition k_nvm_blob_magic :: bytes where "k_nvm_blob_magic = [0x45, 0x49, 0x51, 0]"

record nvm_blob_header =
  hdr_magic :: bytes
  hdr_version_major :: u8
  hdr_version_minor :: u8
  hdr_entry_count :: u16
  hdr_crc32 :: u32
  hdr_reserved :: bytes

text \<open>
  The entry with its padding byte; the flag \<open>active\<close> is the byte that is stored for it.
\<close>

record nvm_entry =
  e_key :: string
  e_val :: bytes
  e_val_len :: u16
  e_schema_id :: u16
  e_active :: u8
  e_pad :: u8

definition zero_entry :: nvm_entry where
  "zero_entry = \<lparr>e_key = replicate NVM_KEY_SIZE (CHR 0x00), e_val = replicate NVM_VAL_SIZE 0,
     e_val_len = 0, e_schema_id = 0, e_active = 0, e_pad = 0\<rparr>"

text \<open>Characters are bytes.\<close>

definition byte_of_char :: "char \<Rightarrow> u8" where "byte_of_char c = word_of_nat (of_char c)"
definition char_of_byte :: "u8 \<Rightarrow> char" where "char_of_byte b = char_of (unat b)"

lemma char_of_byte_of_char [simp]: "char_of_byte (byte_of_char c) = c"
proof -
  have "unat (word_of_nat (of_char c) :: u8) = of_char c"
    by (rule unat_of_nat_small) simp
  then show ?thesis by (simp only: char_of_byte_def byte_of_char_def char_of_char)
qed

lemma byte_of_char_of_byte [simp]: "byte_of_char (char_of_byte b) = b"
proof -
  have "unat b < 2 ^ LENGTH(8)" by (rule unsigned_less)
  then show ?thesis by (simp add: char_of_byte_def byte_of_char_def of_char_of)
qed

definition NVM_ENTRY_SIZE :: nat where [embediq_const]: "NVM_ENTRY_SIZE = 134"
definition NVM_HEADER_SIZE :: nat where [embediq_const]: "NVM_HEADER_SIZE = 16"

definition header_bytes :: "nvm_blob_header \<Rightarrow> bytes" where
  "header_bytes h = hdr_magic h @ [hdr_version_major h, hdr_version_minor h] @
     le16 (hdr_entry_count h) @ le32 (hdr_crc32 h) @ hdr_reserved h"

definition header_of :: "bytes \<Rightarrow> nvm_blob_header" where
  "header_of bs = \<lparr>hdr_magic = take 4 bs, hdr_version_major = bs ! 4, hdr_version_minor = bs ! 5,
     hdr_entry_count = of_le16 (drop 6 bs), hdr_crc32 = of_le32 (drop 8 bs),
     hdr_reserved = take 4 (drop 12 bs)\<rparr>"

definition entry_bytes :: "nvm_entry \<Rightarrow> bytes" where
  "entry_bytes e = map byte_of_char (e_key e) @ e_val e @ le16 (e_val_len e) @ le16 (e_schema_id e) @
     [e_active e, e_pad e]"

definition entry_of :: "bytes \<Rightarrow> nvm_entry" where
  "entry_of bs = \<lparr>e_key = map char_of_byte (take 64 bs), e_val = take 64 (drop 64 bs),
     e_val_len = of_le16 (drop 128 bs), e_schema_id = of_le16 (drop 130 bs),
     e_active = bs ! 132, e_pad = bs ! 133\<rparr>"

definition entries_bytes :: "nvm_entry list \<Rightarrow> bytes" where
  "entries_bytes es = concat (map entry_bytes es)"

definition entries_of :: "bytes \<Rightarrow> nvm_entry list" where
  "entries_of bs = map (\<lambda>i. entry_of (take NVM_ENTRY_SIZE (drop (NVM_ENTRY_SIZE * i) bs)))
     [0..<NVM_MAX_KEYS]"

section \<open>State\<close>

record nvm_state =
  g_nvm :: "nvm_entry list"
  g_mutex :: "bool option" \<comment> \<open>None: not created; Some b: created, locked or not\<close>
  g_nvm_fb :: "nat option"
  nvm_flash :: flash_state
  nvm_crc :: crc_state

definition empty_nvm :: "nvm_entry list" where
  "empty_nvm = replicate NVM_MAX_KEYS zero_entry"

definition nvm_emit :: "obs_call \<Rightarrow> nvm_state \<Rightarrow> nvm_state" where
  "nvm_emit c st = st\<lparr>nvm_flash := (nvm_flash st)\<lparr>fl_log := fl_log (nvm_flash st) @ [c]\<rparr>\<rparr>"

definition nvm_crc32 :: "bytes \<Rightarrow> nvm_state \<Rightarrow> u32 \<times> nvm_state" where
  "nvm_crc32 data st = (let (c, cs) = embediq_crc32 data (nvm_crc st) in (c, st\<lparr>nvm_crc := cs\<rparr>))"

text \<open>\<open>embediq_osal_mutex_lock\<close> with an infinite timeout, and \<open>embediq_osal_mutex_unlock\<close>.\<close>

definition nvm_lock :: "nvm_state \<Rightarrow> nvm_state option" where
  "nvm_lock st = (if g_mutex st = Some False then Some (st\<lparr>g_mutex := Some True\<rparr>) else None)"

definition nvm_unlock :: "nvm_state \<Rightarrow> nvm_state" where
  "nvm_unlock st = st\<lparr>g_mutex := Some False\<rparr>"

section \<open>Slots\<close>

text \<open>\<open>strncmp a b n == 0\<close>; an exhausted list is a string at its terminating NUL.\<close>

fun strncmp_eq :: "nat \<Rightarrow> string \<Rightarrow> string \<Rightarrow> bool" where
  "strncmp_eq 0 a b = True"
| "strncmp_eq (Suc n) a b =
     (let x = (case a of [] \<Rightarrow> CHR 0x00 | c # _ \<Rightarrow> c); y = (case b of [] \<Rightarrow> CHR 0x00 | c # _ \<Rightarrow> c)
      in x = y \<and> (x = CHR 0x00 \<or> strncmp_eq n (tl a) (tl b)))"

fun slot_scan :: "(nvm_entry \<Rightarrow> bool) \<Rightarrow> nat \<Rightarrow> nvm_entry list \<Rightarrow> nat" where
  "slot_scan P i [] = NVM_MAX_KEYS"
| "slot_scan P i (e # es) = (if P e then i else slot_scan P (i + 1) es)"

definition find_slot :: "string \<Rightarrow> nvm_state \<Rightarrow> nat" where
  "find_slot key st = slot_scan (\<lambda>e. e_active e \<noteq> 0 \<and> strncmp_eq NVM_KEY_SIZE (e_key e) key) 0 (g_nvm st)"

definition find_free_slot :: "nvm_state \<Rightarrow> nat" where
  "find_free_slot st = slot_scan (\<lambda>e. e_active e = 0) 0 (g_nvm st)"

section \<open>Persistence\<close>

definition nvm_header :: "u32 \<Rightarrow> nvm_blob_header" where
  "nvm_header crc = \<lparr>hdr_magic = k_nvm_blob_magic, hdr_version_major = NVM_BLOB_VER_MAJOR,
     hdr_version_minor = NVM_BLOB_VER_MINOR, hdr_entry_count = word_of_nat NVM_MAX_KEYS,
     hdr_crc32 = crc, hdr_reserved = replicate 4 0\<rparr>"

definition nvm_persist :: "nvm_state \<Rightarrow> nvm_state" where
  "nvm_persist st0 =
     (let entries = entries_bytes (g_nvm st0);
          (crc, st) = nvm_crc32 entries st0;
          (rc, fl) = hal_flash_write 0 (Some (header_bytes (nvm_header crc) @ entries)) (nvm_flash st)
      in st\<lparr>nvm_flash := fl\<rparr>)"

definition CFG_BLOB_INVALID :: "u8 \<Rightarrow> obs_call" where
  "CFG_BLOB_INVALID reason = Obs_Call EMBEDIQ_OBS_EVT_CFG_BLOB_INVALID 0 0 reason 0"

definition nvm_load :: "nvm_state \<Rightarrow> nvm_state" where
  "nvm_load st0 =
     (let ((rc, buf), fl) = hal_flash_read 0 True (NVM_HEADER_SIZE + NVM_ENTRY_SIZE * NVM_MAX_KEYS)
            (nvm_flash st0);
          st = st0\<lparr>nvm_flash := fl\<rparr>;
          hdr = header_of (take NVM_HEADER_SIZE buf); entries = drop NVM_HEADER_SIZE buf
      in if rc \<noteq> HAL_OK then st\<lparr>g_nvm := empty_nvm\<rparr>
      else if hdr_magic hdr \<noteq> k_nvm_blob_magic
      then (nvm_emit (CFG_BLOB_INVALID 0) st)\<lparr>g_nvm := empty_nvm\<rparr>
      else let (computed, st) = nvm_crc32 entries st in
        if computed \<noteq> hdr_crc32 hdr
        then (nvm_emit (CFG_BLOB_INVALID 1) st)\<lparr>g_nvm := empty_nvm\<rparr>
        else st\<lparr>g_nvm := entries_of entries\<rparr>)"

section \<open>Life cycle\<close>

text \<open>\<open>mem\<close> tells whether the allocation of the mutex succeeds.\<close>

definition nvm_create_mutex :: "bool \<Rightarrow> nvm_state \<Rightarrow> nvm_state" where
  "nvm_create_mutex mem st =
     (if g_mutex st = None \<and> mem then st\<lparr>g_mutex := Some False\<rparr> else st)"

definition nvm_init :: "bool \<Rightarrow> nat option \<Rightarrow> nvm_state \<Rightarrow> nvm_state" where
  "nvm_init mem h st = nvm_load (nvm_create_mutex mem (st\<lparr>g_nvm_fb := h\<rparr>))"

definition nvm__init_state :: "bool \<Rightarrow> nvm_state \<Rightarrow> nvm_state" where
  "nvm__init_state mem st = nvm_create_mutex mem (st\<lparr>g_nvm := empty_nvm, g_nvm_fb := None\<rparr>)"

definition nvm__load_state :: "nvm_state \<Rightarrow> nvm_state" where
  "nvm__load_state st = nvm_load st"

section \<open>Operations\<close>

text \<open>What \<open>strncpy\<close> and the store of the last byte leave in the key array.\<close>

definition key_array :: "string \<Rightarrow> string" where
  "key_array key = take (NVM_KEY_SIZE - 1) (key @ replicate (NVM_KEY_SIZE - 1) (CHR 0x00)) @ [CHR 0x00]"

definition MUTABILITY_REJECT :: "u16 \<Rightarrow> obs_call" where
  "MUTABILITY_REJECT key_crc = Obs_Call EMBEDIQ_OBS_EVT_CFG_MUTABILITY_REJECT 0 0 0 key_crc"

text \<open>The value written by \<open>embediq_nvm_set\<close> into a slot.\<close>

definition store_value :: "bytes \<Rightarrow> nat \<Rightarrow> nvm_entry \<Rightarrow> nvm_entry" where
  "store_value val len e = e\<lparr>e_val := take len val @ drop len (e_val e),
     e_val_len := word_of_nat len, e_schema_id := 0\<rparr>"

definition set_slot :: "nat \<Rightarrow> nvm_entry \<Rightarrow> nvm_state \<Rightarrow> nvm_state" where
  "set_slot i e st = st\<lparr>g_nvm := (g_nvm st)[i := e]\<rparr>"

text \<open>The caller's buffer holds at least \<open>len\<close> bytes.\<close>

definition embediq_nvm_set ::
  "string option \<Rightarrow> bytes option \<Rightarrow> u32 \<Rightarrow> nvm_state \<Rightarrow> (embediq_err \<times> nvm_state) option" where
  "embediq_nvm_set key val len st =
     (case (key, val) of
        (Some k, Some v) \<Rightarrow>
          if unat len > NVM_VAL_SIZE then Some (EMBEDIQ_ERR, st)
          else if length k \<ge> NVM_KEY_SIZE then Some (EMBEDIQ_ERR, st)
          else if g_mutex st = None then Some (EMBEDIQ_ERR, st)
          else do {
            st \<leftarrow> nvm_lock st;
            if factory_key k
            then let (crc, st) = nvm_crc32 (map byte_of_char k) st
                 in Some (EMBEDIQ_ERR, nvm_unlock (nvm_emit (MUTABILITY_REJECT (ucast crc)) st))
            else let slot = find_slot k st;
                     fresh = (slot = NVM_MAX_KEYS);
                     slot = (if fresh then find_free_slot st else slot)
              in if slot = NVM_MAX_KEYS then Some (EMBEDIQ_ERR, nvm_unlock st)
              else let e = g_nvm st ! slot;
                       e = (if fresh then e\<lparr>e_key := key_array k, e_active := 1\<rparr> else e);
                       st = set_slot slot (store_value v (unat len) e) st
                in Some (EMBEDIQ_OK, nvm_unlock (nvm_persist st))
          }
      | _ \<Rightarrow> Some (EMBEDIQ_ERR, st))"

text \<open>
  \<open>buf\<close>: the caller passed a value buffer; \<open>len\<close>: the buffer's size, unless the pointer is NULL.
  The middle result is what is written to the buffer and to the length.
\<close>

definition embediq_nvm_get ::
  "string option \<Rightarrow> bool \<Rightarrow> u32 option \<Rightarrow> nvm_state \<Rightarrow>
     (embediq_err \<times> (bytes \<times> u32) option \<times> nvm_state) option" where
  "embediq_nvm_get key buf len st =
     (case (key, len) of
        (Some k, Some n) \<Rightarrow>
          if \<not> buf then Some (EMBEDIQ_ERR, None, st)
          else if g_mutex st = None then Some (EMBEDIQ_ERR, None, st)
          else do {
            st \<leftarrow> nvm_lock st;
            let slot = find_slot k st;
            if slot = NVM_MAX_KEYS then Some (EMBEDIQ_ERR, None, nvm_unlock st)
            else let e = g_nvm st ! slot in
              if ucast (e_val_len e) > n then Some (EMBEDIQ_ERR, None, nvm_unlock st)
              else if unat (e_val_len e) > NVM_VAL_SIZE then None
              else Some (EMBEDIQ_OK, Some (take (unat (e_val_len e)) (e_val e), ucast (e_val_len e)),
                     nvm_unlock st)
          }
      | _ \<Rightarrow> Some (EMBEDIQ_ERR, None, st))"

definition embediq_nvm_delete :: "string option \<Rightarrow> nvm_state \<Rightarrow> (embediq_err \<times> nvm_state) option" where
  "embediq_nvm_delete key st =
     (case key of
        None \<Rightarrow> Some (EMBEDIQ_ERR, st)
      | Some k \<Rightarrow>
          if g_mutex st = None then Some (EMBEDIQ_ERR, st)
          else do {
            st \<leftarrow> nvm_lock st;
            let slot = find_slot k st;
            if slot = NVM_MAX_KEYS then Some (EMBEDIQ_OK, nvm_unlock st)
            else Some (EMBEDIQ_OK, nvm_unlock (nvm_persist (set_slot slot zero_entry st)))
          })"

definition embediq_nvm_flush :: "nvm_state \<Rightarrow> (embediq_err \<times> nvm_state) option" where
  "embediq_nvm_flush st =
     (if g_mutex st = None then Some (EMBEDIQ_ERR, st)
      else do { st \<leftarrow> nvm_lock st; Some (EMBEDIQ_OK, nvm_unlock (nvm_persist st)) })"

definition embediq_nvm_reset :: "nvm_state \<Rightarrow> (embediq_err \<times> nvm_state) option" where
  "embediq_nvm_reset st =
     (if g_mutex st = None then Some (EMBEDIQ_ERR, st)
      else do {
        st \<leftarrow> nvm_lock st;
        Some (EMBEDIQ_OK, nvm_unlock (nvm_persist (st\<lparr>g_nvm := empty_nvm\<rparr>))) })"

section \<open>Keys and slots\<close>

definition c_string :: "string \<Rightarrow> bool" where "c_string k \<longleftrightarrow> CHR 0x00 \<notin> set k"

definition entry_key :: "nvm_entry \<Rightarrow> string" where
  "entry_key e = takeWhile (\<lambda>c. c \<noteq> CHR 0x00) (e_key e)"

lemma strncmp_eq_string:
  assumes "CHR 0x00 \<in> set a" and "length a \<le> n" and "c_string b"
  shows "strncmp_eq n a b \<longleftrightarrow> takeWhile (\<lambda>c. c \<noteq> CHR 0x00) a = b"
  using assms
proof (induction n arbitrary: a b)
  case (Suc n)
  then obtain c cs where a: "a = c # cs" by (cases a) auto
  show ?case
  proof (cases b)
    case Nil
    then show ?thesis by (simp add: a)
  next
    case (Cons d ds)
    then show ?thesis
      using Suc by (auto simp: a c_string_def)
  qed
qed simp

lemma key_array_props:
  assumes "c_string k" and "length k < NVM_KEY_SIZE"
  shows "length (key_array k) = 64" and "CHR 0x00 \<in> set (key_array k)"
    and "takeWhile (\<lambda>c. c \<noteq> CHR 0x00) (key_array k) = k"
proof -
  have k: "key_array k = k @ replicate (63 - length k) (CHR 0x00) @ [CHR 0x00]"
    using assms(2) by (simp add: key_array_def embediq_const)
  show "length (key_array k) = 64" "CHR 0x00 \<in> set (key_array k)"
    using assms by (simp_all add: k embediq_const)
  have "takeWhile (\<lambda>c. c \<noteq> CHR 0x00) (replicate m (CHR 0x00) @ [CHR 0x00]) = []" for m
    by (cases m) auto
  then show "takeWhile (\<lambda>c. c \<noteq> CHR 0x00) (key_array k) = k"
    using assms(1) unfolding k c_string_def by (subst takeWhile_append2) auto
qed

definition entry_shape :: "nvm_entry \<Rightarrow> bool" where
  "entry_shape e \<longleftrightarrow> length (e_key e) = 64 \<and> length (e_val e) = 64"

definition entry_ok :: "nvm_entry \<Rightarrow> bool" where
  "entry_ok e \<longleftrightarrow> entry_shape e \<and>
     (e_active e \<noteq> 0 \<longrightarrow> CHR 0x00 \<in> set (e_key e) \<and> unat (e_val_len e) \<le> 64)"

definition active_keys :: "nvm_entry list \<Rightarrow> string list" where
  "active_keys es = map entry_key (filter (\<lambda>e. e_active e \<noteq> 0) es)"

text \<open>The invariant: 64 entries of the right shape, terminated keys and bounded lengths in the
  active ones, and no key twice.\<close>

definition table_ok :: "nvm_entry list \<Rightarrow> bool" where
  "table_ok es \<longleftrightarrow> length es = 64 \<and> (\<forall>e \<in> set es. entry_ok e) \<and> distinct (active_keys es)"

definition nvm_inv :: "nvm_state \<Rightarrow> bool" where
  "nvm_inv st \<longleftrightarrow> table_ok (g_nvm st) \<and> crc_inv (nvm_crc st) \<and> g_mutex st = Some False"

text \<open>The abstract store: a finite map from keys to values.\<close>

definition entry_value :: "nvm_entry \<Rightarrow> bytes" where
  "entry_value e = take (unat (e_val_len e)) (e_val e)"

fun table_map :: "nvm_entry list \<Rightarrow> string \<Rightarrow> bytes option" where
  "table_map [] k = None"
| "table_map (e # es) k =
     (if e_active e \<noteq> 0 \<and> entry_key e = k then Some (entry_value e) else table_map es k)"

definition nvm_map :: "nvm_state \<Rightarrow> string \<Rightarrow> bytes option" where
  "nvm_map st = table_map (g_nvm st)"

lemma slot_scan_found:
  assumes "j < length es" and "P (es ! j)" and "\<And>i. i < j \<Longrightarrow> \<not> P (es ! i)"
  shows "slot_scan P n es = n + j"
  using assms
proof (induction es arbitrary: j n)
  case (Cons e es)
  show ?case
  proof (cases j)
    case (Suc j')
    have "\<not> P e" using Cons.prems(3)[of 0] Suc by simp
    moreover have "\<not> P (es ! i)" if "i < j'" for i
      using Cons.prems(3)[of "Suc i"] Suc that by simp
    then have "slot_scan P (n + 1) es = (n + 1) + j'"
      using Cons.prems(1,2) Suc by (intro Cons.IH) auto
    ultimately show ?thesis using Suc by simp
  qed (use Cons in auto)
qed simp

lemma slot_scan_cases:
  obtains "slot_scan P n es = NVM_MAX_KEYS" and "\<forall>e \<in> set es. \<not> P e"
  | j where "slot_scan P n es = n + j" and "j < length es" and "P (es ! j)"
      and "\<And>i. i < j \<Longrightarrow> \<not> P (es ! i)"
proof (cases "\<exists>j < length es. P (es ! j)")
  case True
  define j where "j = (LEAST j. j < length es \<and> P (es ! j))"
  have j: "j < length es \<and> P (es ! j)"
    unfolding j_def using True by (rule LeastI_ex)
  have "\<not> P (es ! i)" if "i < j" for i
    using that j not_less_Least[of i "\<lambda>j. j < length es \<and> P (es ! j)"] unfolding j_def by auto
  then show ?thesis using j slot_scan_found[of j es P n] that(2) by blast
next
  case False
  then have "\<forall>e \<in> set es. \<not> P e" by (auto simp: in_set_conv_nth)
  moreover have "\<forall>e \<in> set es. \<not> P e \<Longrightarrow> slot_scan P n es = NVM_MAX_KEYS"
    by (induction es arbitrary: n) auto
  ultimately show ?thesis using that(1) by blast
qed

lemma active_key_unique:
  assumes "distinct (active_keys es)" and "i < length es" and "j < length es"
    and "e_active (es ! i) \<noteq> 0" and "e_active (es ! j) \<noteq> 0"
    and "entry_key (es ! i) = entry_key (es ! j)"
  shows "i = j"
  using assms
proof (induction es arbitrary: i j)
  case (Cons e es)
  have key: "entry_key (es ! n) \<in> set (active_keys es)" if "n < length es" "e_active (es ! n) \<noteq> 0" for n
    using that by (auto simp: active_keys_def)
  have d: "distinct (active_keys es)" "e_active e \<noteq> 0 \<Longrightarrow> entry_key e \<notin> set (active_keys es)"
    using Cons.prems(1) by (auto simp: active_keys_def split: if_splits)
  show ?case
  proof (cases i; cases j)
    fix n m
    assume "i = Suc n" "j = Suc m"
    then show ?thesis using Cons.IH[OF d(1), of n m] Cons.prems by simp
  next
    fix m
    assume "i = 0" "j = Suc m"
    then show ?thesis using Cons.prems key[of m] d(2) by simp
  next
    fix n
    assume "i = Suc n" "j = 0"
    then show ?thesis using Cons.prems key[of n] d(2) by simp
  qed simp
qed simp

lemma table_map_at:
  assumes "distinct (active_keys es)" and "i < length es" and "e_active (es ! i) \<noteq> 0"
  shows "table_map es (entry_key (es ! i)) = Some (entry_value (es ! i))"
  using assms
proof (induction es arbitrary: i)
  case (Cons e es)
  show ?case
  proof (cases i)
    case 0
    then show ?thesis using Cons.prems by simp
  next
    case (Suc n)
    then have "entry_key (es ! n) \<in> set (active_keys es)"
      using Cons.prems by (auto simp: active_keys_def)
    then have "\<not> (e_active e \<noteq> 0 \<and> entry_key e = entry_key (es ! n))"
      using Cons.prems(1) by (auto simp: active_keys_def)
    moreover have "distinct (active_keys es)"
      using Cons.prems(1) by (auto simp: active_keys_def split: if_splits)
    ultimately show ?thesis using Cons.IH[of n] Cons.prems Suc by auto
  qed
qed simp

lemma table_map_None:
  "table_map es k = None \<longleftrightarrow> (\<forall>e \<in> set es. e_active e \<noteq> 0 \<longrightarrow> entry_key e \<noteq> k)"
  by (induction es) auto

lemma find_slot_cases:
  assumes "table_ok (g_nvm st)" and "c_string k"
  obtains "find_slot k st = NVM_MAX_KEYS" and "nvm_map st k = None"
  | j where "find_slot k st = j" and "j < 64" and "e_active (g_nvm st ! j) \<noteq> 0"
      and "entry_key (g_nvm st ! j) = k" and "nvm_map st k = Some (entry_value (g_nvm st ! j))"
proof -
  have key: "strncmp_eq NVM_KEY_SIZE (e_key e) k \<longleftrightarrow> entry_key e = k"
    if "e \<in> set (g_nvm st)" "e_active e \<noteq> 0" for e
    using assms that strncmp_eq_string[of "e_key e" NVM_KEY_SIZE k]
    by (simp add: table_ok_def entry_ok_def entry_shape_def embediq_const entry_key_def)
  have len: "length (g_nvm st) = 64" using assms(1) by (simp add: table_ok_def)
  show ?thesis
  proof (rule slot_scan_cases[of "\<lambda>e. e_active e \<noteq> 0 \<and> strncmp_eq NVM_KEY_SIZE (e_key e) k" 0 "g_nvm st"])
    assume "slot_scan (\<lambda>e. e_active e \<noteq> 0 \<and> strncmp_eq NVM_KEY_SIZE (e_key e) k) 0 (g_nvm st) = NVM_MAX_KEYS"
      and "\<forall>e\<in>set (g_nvm st). \<not> (e_active e \<noteq> 0 \<and> strncmp_eq NVM_KEY_SIZE (e_key e) k)"
    then show ?thesis
      using key that(1) by (auto simp: find_slot_def nvm_map_def table_map_None)
  next
    fix j
    assume "slot_scan (\<lambda>e. e_active e \<noteq> 0 \<and> strncmp_eq NVM_KEY_SIZE (e_key e) k) 0 (g_nvm st) = 0 + j"
      and j: "j < length (g_nvm st)"
      and "e_active (g_nvm st ! j) \<noteq> 0 \<and> strncmp_eq NVM_KEY_SIZE (e_key (g_nvm st ! j)) k"
    moreover from this have "entry_key (g_nvm st ! j) = k" using key[of "g_nvm st ! j"] by simp
    moreover from calculation have "nvm_map st k = Some (entry_value (g_nvm st ! j))"
      using table_map_at[of "g_nvm st" j] assms(1) by (auto simp: nvm_map_def table_ok_def)
    ultimately show ?thesis using that(2)[of j] len by (simp add: find_slot_def)
  qed
qed

lemma active_keys_distinct:
  "distinct (active_keys es) \<longleftrightarrow> (\<forall>i < length es. \<forall>j < length es.
     e_active (es ! i) \<noteq> 0 \<and> e_active (es ! j) \<noteq> 0 \<and> entry_key (es ! i) = entry_key (es ! j) \<longrightarrow> i = j)"
  (is "_ \<longleftrightarrow> ?R es")
proof
  assume "distinct (active_keys es)"
  then show "?R es" using active_key_unique by blast
next
  assume "?R es"
  then show "distinct (active_keys es)"
  proof (induction es)
    case (Cons e es)
    have "?R es"
    proof (intro allI impI)
      fix i j
      assume "i < length es" "j < length es"
        "e_active (es ! i) \<noteq> 0 \<and> e_active (es ! j) \<noteq> 0 \<and> entry_key (es ! i) = entry_key (es ! j)"
      then show "i = j" using Cons.prems[rule_format, of "Suc i" "Suc j"] by simp
    qed
    moreover have "entry_key e \<noteq> entry_key x" if x: "e_active e \<noteq> 0" "x \<in> set es" "e_active x \<noteq> 0" for x
    proof -
      obtain n where "n < length es" "es ! n = x" using x(2) by (auto simp: in_set_conv_nth)
      then show ?thesis using Cons.prems[rule_format, of 0 "Suc n"] x by auto
    qed
    ultimately show ?case using Cons.IH by (auto simp: active_keys_def)
  qed (simp add: active_keys_def)
qed

lemma table_map_Some:
  assumes "distinct (active_keys es)"
  shows "table_map es k = Some v \<longleftrightarrow>
    (\<exists>i < length es. e_active (es ! i) \<noteq> 0 \<and> entry_key (es ! i) = k \<and> entry_value (es ! i) = v)"
proof
  assume "table_map es k = Some v"
  then obtain e where "e \<in> set es" "e_active e \<noteq> 0" "entry_key e = k"
    using table_map_None[of es k] by auto
  then obtain i where i: "i < length es" "es ! i = e" by (auto simp: in_set_conv_nth)
  then have "table_map es k = Some (entry_value (es ! i))"
    using table_map_at[OF assms i(1)] \<open>e_active e \<noteq> 0\<close> \<open>entry_key e = k\<close> by simp
  then show "\<exists>i < length es. e_active (es ! i) \<noteq> 0 \<and> entry_key (es ! i) = k \<and> entry_value (es ! i) = v"
    using i \<open>table_map es k = Some v\<close> \<open>e_active e \<noteq> 0\<close> \<open>entry_key e = k\<close> by auto
qed (use table_map_at[OF assms] in auto)

lemma map_eqI:
  assumes "\<And>k v. m k = Some v \<longleftrightarrow> m' k = Some v"
  shows "m = m'"
proof
  fix k
  show "m k = m' k" by (metis assms not_None_eq)
qed

text \<open>Writing an entry for a key that no other slot holds.\<close>

lemma table_store:
  assumes "table_ok es" and i: "i < 64" and e: "entry_ok e" "e_active e \<noteq> 0" "entry_key e = k"
    and other: "\<And>j. j < 64 \<Longrightarrow> j \<noteq> i \<Longrightarrow> e_active (es ! j) \<noteq> 0 \<Longrightarrow> entry_key (es ! j) \<noteq> k"
    and old: "e_active (es ! i) = 0 \<or> entry_key (es ! i) = k"
  shows "table_ok (es[i := e])" and "table_map (es[i := e]) = (table_map es)(k \<mapsto> entry_value e)"
proof -
  have len: "length es = 64" and d: "distinct (active_keys es)" and ok: "\<forall>e \<in> set es. entry_ok e"
    using assms(1) by (auto simp: table_ok_def)
  have uniq: "a = b" if "a < 64" "b < 64" "e_active (es ! a) \<noteq> 0" "e_active (es ! b) \<noteq> 0"
    "entry_key (es ! a) = entry_key (es ! b)" for a b
    using active_key_unique[OF d, of a b] that len by simp
  have d': "distinct (active_keys (es[i := e]))"
    unfolding active_keys_distinct using len i e other uniq
    by (simp add: nth_list_update) metis
  moreover have "\<forall>x \<in> set (es[i := e]). entry_ok x"
    using ok e(1) set_update_subset_insert[of es i e] by blast
  ultimately show "table_ok (es[i := e])" by (simp add: table_ok_def len)
  have "table_map (es[i := e]) k' = Some v \<longleftrightarrow> ((table_map es)(k \<mapsto> entry_value e)) k' = Some v" for k' v
  proof (cases "k' = k")
    case True
    then show ?thesis
      unfolding table_map_Some[OF d'] using len e i other by (auto simp: nth_list_update)
  next
    case False
    then show ?thesis
      using len e i other old
      by (auto simp: table_map_Some[OF d'] table_map_Some[OF d] nth_list_update) metis+
  qed
  then show "table_map (es[i := e]) = (table_map es)(k \<mapsto> entry_value e)"
    by (rule map_eqI)
qed

lemma table_clear:
  assumes "table_ok es" and i: "i < 64" and a: "e_active (es ! i) \<noteq> 0" and k: "entry_key (es ! i) = k"
  shows "table_ok (es[i := zero_entry])" and "table_map (es[i := zero_entry]) = (table_map es)(k := None)"
proof -
  have len: "length es = 64" and d: "distinct (active_keys es)" and ok: "\<forall>e \<in> set es. entry_ok e"
    using assms(1) by (auto simp: table_ok_def)
  have z: "entry_ok zero_entry" "e_active zero_entry = 0"
    by (simp_all add: entry_ok_def entry_shape_def zero_entry_def embediq_const)
  have uniq: "a = b" if "a < 64" "b < 64" "e_active (es ! a) \<noteq> 0" "e_active (es ! b) \<noteq> 0"
    "entry_key (es ! a) = entry_key (es ! b)" for a b
    using active_key_unique[OF d, of a b] that len by simp
  have d': "distinct (active_keys (es[i := zero_entry]))"
    unfolding active_keys_distinct using len i z uniq by (auto simp: nth_list_update)
  moreover have "\<forall>x \<in> set (es[i := zero_entry]). entry_ok x"
    using ok z(1) set_update_subset_insert[of es i zero_entry] by blast
  ultimately show "table_ok (es[i := zero_entry])" by (simp add: table_ok_def len)
  have "table_map (es[i := zero_entry]) k' = Some v \<longleftrightarrow> ((table_map es)(k := None)) k' = Some v" for k' v
    using len z i a k uniq
    by (auto simp: table_map_Some[OF d'] table_map_Some[OF d] nth_list_update) metis+
  then show "table_map (es[i := zero_entry]) = (table_map es)(k := None)"
    by (rule map_eqI)
qed

section \<open>The blob\<close>

definition nvm_blob :: "nvm_entry list \<Rightarrow> bytes" where
  "nvm_blob es = header_bytes (nvm_header (crc32_of (entries_bytes es))) @ entries_bytes es"

lemma nvm_crc32_eq:
  "crc_inv (nvm_crc st) \<Longrightarrow>
     nvm_crc32 data st = (crc32_of data, st\<lparr>nvm_crc := crc32_lazy (nvm_crc st)\<rparr>)"
  by (simp add: nvm_crc32_def embediq_crc32_eq)

lemma nvm_persist_eq:
  assumes "crc_inv (nvm_crc st)"
  shows "nvm_persist st = st\<lparr>nvm_crc := crc32_lazy (nvm_crc st),
     nvm_flash := snd (hal_flash_write 0 (Some (nvm_blob (g_nvm st))) (nvm_flash st))\<rparr>"
  using assms by (simp add: nvm_persist_def nvm_crc32_eq nvm_blob_def Let_def split: prod.split)

lemma nvm_persist_keeps:
  assumes "crc_inv (nvm_crc st)"
  shows "g_nvm (nvm_persist st) = g_nvm st" and "g_mutex (nvm_persist st) = g_mutex st"
    and "g_nvm_fb (nvm_persist st) = g_nvm_fb st" and "crc_inv (nvm_crc (nvm_persist st))"
  using assms by (simp_all add: nvm_persist_eq)

lemma nvm_blob_magic_length [simp]: "length k_nvm_blob_magic = 4"
  by (simp add: k_nvm_blob_magic_def)

lemma length_header_bytes [simp]: "length (header_bytes (nvm_header crc)) = 16"
  by (simp add: header_bytes_def nvm_header_def)

lemma header_of_bytes: "header_of (header_bytes (nvm_header crc)) = nvm_header crc"
  by (simp add: header_bytes_def nvm_header_def header_of_def nth_append of_le16_le16 of_le32_le32)

lemma header_fields:
  "hdr_magic (header_of (header_bytes (nvm_header crc))) = k_nvm_blob_magic"
  "hdr_crc32 (header_of (header_bytes (nvm_header crc))) = crc"
  unfolding header_of_bytes by (simp_all add: nvm_header_def)

lemma length_entry_bytes: "entry_shape e \<Longrightarrow> length (entry_bytes e) = 134"
  by (simp add: entry_bytes_def entry_shape_def)

lemma entry_of_bytes:
  assumes "entry_shape e"
  shows "entry_of (entry_bytes e) = e"
  using assms
  by (simp add: entry_of_def entry_bytes_def entry_shape_def comp_def nth_append of_le16_le16)

lemma length_entries_bytes:
  assumes "\<forall>e \<in> set es. entry_shape e"
  shows "length (entries_bytes es) = 134 * length es"
  using assms by (induction es) (auto simp: entries_bytes_def length_entry_bytes)

lemma entries_nth:
  assumes "\<forall>e \<in> set es. entry_shape e" and "i < length es"
  shows "take 134 (drop (134 * i) (entries_bytes es)) = entry_bytes (es ! i)"
  using assms
proof (induction es arbitrary: i)
  case (Cons e es)
  have l: "length (entry_bytes e) = 134" using Cons.prems by (simp add: length_entry_bytes)
  show ?case
  proof (cases i)
    case 0
    then show ?thesis by (simp add: entries_bytes_def l)
  next
    case (Suc n)
    then have "drop (134 * i) (entries_bytes (e # es)) = drop (134 * n) (entries_bytes es)"
      by (simp add: entries_bytes_def l)
    then show ?thesis using Cons Suc by simp
  qed
qed simp

lemma entries_of_bytes:
  assumes "\<forall>e \<in> set es. entry_shape e" and "length es = 64"
  shows "entries_of (entries_bytes es) = es"
  using assms
  by (intro nth_equalityI) (simp_all add: entries_of_def embediq_const entries_nth entry_of_bytes)

definition persisted :: "nvm_entry list \<Rightarrow> flash_state \<Rightarrow> bool" where
  "persisted es fl \<longleftrightarrow> (\<forall>i < length (nvm_blob es). flash_byte fl i = nvm_blob es ! i)"

lemma table_shapes: "table_ok es \<Longrightarrow> \<forall>e \<in> set es. entry_shape e"
  by (simp add: table_ok_def entry_ok_def)

lemma length_nvm_blob:
  assumes "table_ok es"
  shows "length (nvm_blob es) = 8592" and "length (entries_bytes es) = 8576"
  using length_entries_bytes[OF table_shapes[OF assms]] assms
  by (simp_all add: nvm_blob_def table_ok_def)

lemma flash_read_blob:
  assumes "length blob = n" and "\<forall>i < n. flash_byte fl i = blob ! i"
  shows "hal_flash_read 0 True n fl = ((HAL_OK, blob), fl)"
  unfolding flash_read_bytes using assms by (auto intro!: nth_equalityI)

text \<open>What a load does with 8592 bytes.\<close>

lemma nvm_load_bytes:
  assumes "length entries = 8576" and "length hdr = 16" and "crc_inv (nvm_crc st)"
    and "\<forall>i < 8592. flash_byte (nvm_flash st) i = (hdr @ entries) ! i"
  shows "nvm_load st =
    (if hdr_magic (header_of hdr) \<noteq> k_nvm_blob_magic
     then (nvm_emit (CFG_BLOB_INVALID 0) st)\<lparr>g_nvm := empty_nvm\<rparr>
     else if crc32_of entries \<noteq> hdr_crc32 (header_of hdr)
     then (nvm_emit (CFG_BLOB_INVALID 1) (st\<lparr>nvm_crc := crc32_lazy (nvm_crc st)\<rparr>))\<lparr>g_nvm := empty_nvm\<rparr>
     else st\<lparr>nvm_crc := crc32_lazy (nvm_crc st), g_nvm := entries_of entries\<rparr>)"
proof -
  have "hal_flash_read 0 True 8592 (nvm_flash st) = ((HAL_OK, hdr @ entries), nvm_flash st)"
    using assms by (intro flash_read_blob) simp_all
  then show ?thesis
    using assms by (simp add: nvm_load_def embediq_const nvm_crc32_eq Let_def)
qed

lemma nvm_load_persisted:
  assumes "table_ok es" and "crc_inv (nvm_crc st)" and "persisted es (nvm_flash st)"
  shows "nvm_load st = st\<lparr>nvm_crc := crc32_lazy (nvm_crc st), g_nvm := es\<rparr>"
proof -
  have "entries_of (entries_bytes es) = es"
    using entries_of_bytes table_shapes[OF assms(1)] assms(1) by (simp add: table_ok_def)
  moreover have "\<forall>i < 8592. flash_byte (nvm_flash st) i =
      (header_bytes (nvm_header (crc32_of (entries_bytes es))) @ entries_bytes es) ! i"
    using assms(3) length_nvm_blob(1)[OF assms(1)] by (simp add: persisted_def nvm_blob_def)
  ultimately show ?thesis
    using nvm_load_bytes[OF length_nvm_blob(2)[OF assms(1)]
        length_header_bytes[of "crc32_of (entries_bytes es)"] assms(2)]
    by (simp add: header_fields)
qed

lemma nvm_persist_flash:
  assumes "table_ok (g_nvm st)" and "crc_inv (nvm_crc st)"
  shows "io_reported (fl_io (nvm_flash st) (fl_writes (nvm_flash st))) \<Longrightarrow>
      persisted (g_nvm st) (nvm_flash (nvm_persist st)) \<or>
      (\<forall>i. flash_byte (nvm_flash (nvm_persist st)) i = flash_byte (nvm_flash st) i)"
    and "fl_io (nvm_flash st) (fl_writes (nvm_flash st)) = Io_Ok \<Longrightarrow>
      persisted (g_nvm st) (nvm_flash (nvm_persist st))"
proof -
  obtain rc fl where w: "hal_flash_write 0 (Some (nvm_blob (g_nvm st))) (nvm_flash st) = (rc, fl)"
    by fastforce
  then have fl: "nvm_flash (nvm_persist st) = fl" by (simp add: nvm_persist_eq[OF assms(2)])
  note l = length_nvm_blob(1)[OF assms(1)]
  note cases = flash_write_cases[OF w]
  show "persisted (g_nvm st) (nvm_flash (nvm_persist st)) \<or>
      (\<forall>i. flash_byte (nvm_flash (nvm_persist st)) i = flash_byte (nvm_flash st) i)"
    if "io_reported (fl_io (nvm_flash st) (fl_writes (nvm_flash st)))"
    using cases[OF that] l by (auto simp: fl persisted_def embediq_const)
  assume ok: "fl_io (nvm_flash st) (fl_writes (nvm_flash st)) = Io_Ok"
  then have "rc = HAL_OK"
    using w l by (simp add: hal_flash_write_def embediq_const write_file_def Let_def)
  then show "persisted (g_nvm st) (nvm_flash (nvm_persist st))"
    using cases l ok by (auto simp: fl persisted_def embediq_const)
qed

section \<open>Correctness of the operations\<close>

definition has_free_slot :: "nvm_state \<Rightarrow> bool" where
  "has_free_slot st \<longleftrightarrow> (\<exists>e \<in> set (g_nvm st). e_active e = 0)"

definition set_accepts :: "string \<Rightarrow> nat \<Rightarrow> nvm_state \<Rightarrow> bool" where
  "set_accepts k len st \<longleftrightarrow> len \<le> 64 \<and> length k < 64 \<and> \<not> factory_key k \<and>
     (k \<in> dom (nvm_map st) \<or> has_free_slot st)"

lemma find_free_slot_cases:
  assumes "table_ok (g_nvm st)"
  obtains "find_free_slot st = NVM_MAX_KEYS" and "\<not> has_free_slot st"
  | j where "find_free_slot st = j" and "j < 64" and "e_active (g_nvm st ! j) = 0" and "has_free_slot st"
proof (rule slot_scan_cases[of "\<lambda>e. e_active e = 0" 0 "g_nvm st"])
  fix j
  assume "slot_scan (\<lambda>e. e_active e = 0) 0 (g_nvm st) = 0 + j" "j < length (g_nvm st)"
    "e_active (g_nvm st ! j) = 0"
  moreover from this have "has_free_slot st" unfolding has_free_slot_def by (metis nth_mem)
  ultimately show ?thesis
    using that(2)[of j] assms by (simp add: find_free_slot_def table_ok_def)
qed (use that(1) in \<open>auto simp: find_free_slot_def has_free_slot_def\<close>)

text \<open>The table after a successful set into slot \<open>j\<close>.\<close>

lemma store_slot:
  assumes "table_ok es" and "j < 64" and "len \<le> 64" and "len \<le> length v"
    and "e_key e = key_array k \<and> e_active e = 1 \<and> e_active (es ! j) = 0 \<and> c_string k \<and>
        length k < 64 \<and> table_map es k = None \<or>
      e_key e = e_key (es ! j) \<and> e_active e = e_active (es ! j) \<and> e_active (es ! j) \<noteq> 0 \<and>
        entry_key (es ! j) = k"
    and "e_val e = e_val (es ! j)"
  shows "table_ok (es[j := store_value v len e])"
    and "table_map (es[j := store_value v len e]) = (table_map es)(k \<mapsto> take len v)"
proof -
  let ?e = "store_value v len e"
  have j: "j < length es" "entry_ok (es ! j)" using assms(1,2) by (auto simp: table_ok_def)
  have e: "entry_ok ?e" "e_active ?e \<noteq> 0" "entry_key ?e = k" "entry_value ?e = take len v"
    using j(2) assms(3-6) key_array_props[of k]
    by (auto simp: entry_ok_def entry_shape_def store_value_def entry_key_def entry_value_def
        embediq_const unat_of_nat_small)
  have other: "entry_key (es ! i) \<noteq> k" if "i < 64" "i \<noteq> j" "e_active (es ! i) \<noteq> 0" for i
  proof (cases "e_active (es ! j) = 0")
    case True
    then have "table_map es k = None" using assms(5) by auto
    then show ?thesis using that assms(1) nth_mem[of i es] by (auto simp: table_map_None table_ok_def)
  next
    case False
    then have "entry_key (es ! j) = k" using assms(5) by auto
    moreover have "distinct (active_keys es)" "length es = 64" using assms(1) by (auto simp: table_ok_def)
    ultimately show ?thesis using that False j active_key_unique[of es i j] by auto
  qed
  have old: "e_active (es ! j) = 0 \<or> entry_key (es ! j) = k" using assms(5) by auto
  show "table_ok (es[j := ?e])"
    using table_store(1)[OF assms(1,2) e(1-3) other old] .
  show "table_map (es[j := ?e]) = (table_map es)(k \<mapsto> take len v)"
    using table_store(2)[OF assms(1,2) e(1-3) other old] e(4) by simp
qed

text \<open>Storing a slot and persisting, between the lock and the unlock.\<close>

definition nvm_put :: "nvm_state \<Rightarrow> nat \<Rightarrow> nvm_entry \<Rightarrow> bytes \<Rightarrow> nat \<Rightarrow> nvm_state" where
  "nvm_put st j e v len =
     nvm_unlock (nvm_persist (set_slot j (store_value v len e) (st\<lparr>g_mutex := Some True\<rparr>)))"

lemma nvm_put_result:
  assumes "nvm_inv st" and "table_ok ((g_nvm st)[j := store_value v len e])"
    and "table_map ((g_nvm st)[j := store_value v len e]) = (table_map (g_nvm st))(k \<mapsto> x)"
  shows "nvm_inv (nvm_put st j e v len) \<and> nvm_map (nvm_put st j e v len) = (nvm_map st)(k \<mapsto> x) \<and>
    (\<exists>st1. nvm_flash st1 = nvm_flash st \<and> nvm_put st j e v len = nvm_unlock (nvm_persist st1) \<and>
       table_ok (g_nvm st1) \<and> crc_inv (nvm_crc st1))"
proof -
  let ?s = "set_slot j (store_value v len e) (st\<lparr>g_mutex := Some True\<rparr>)"
  have "crc_inv (nvm_crc ?s)" "g_nvm ?s = (g_nvm st)[j := store_value v len e]"
    "nvm_flash ?s = nvm_flash st"
    using assms(1) by (simp_all add: set_slot_def nvm_inv_def)
  then show ?thesis
    using assms nvm_persist_keeps[of ?s]
    by (auto simp: nvm_put_def nvm_unlock_def nvm_inv_def nvm_map_def)
qed

lemma nvm_set_result:
  assumes inv: "nvm_inv st" and k: "c_string k" and len: "unat len \<le> length v"
  shows "\<exists>r st'. embediq_nvm_set (Some k) (Some v) len st = Some (r, st') \<and> nvm_inv st' \<and>
    (if set_accepts k (unat len) st
     then r = EMBEDIQ_OK \<and> nvm_map st' = (nvm_map st)(k \<mapsto> take (unat len) v) \<and>
       (\<exists>st1. nvm_flash st1 = nvm_flash st \<and> st' = nvm_unlock (nvm_persist st1) \<and>
          table_ok (g_nvm st1) \<and> crc_inv (nvm_crc st1))
     else r = EMBEDIQ_ERR \<and> g_nvm st' = g_nvm st)"
proof -
  have m: "g_mutex st = Some False" and t: "table_ok (g_nvm st)" and c: "crc_inv (nvm_crc st)"
    using inv by (auto simp: nvm_inv_def)
  show ?thesis
  proof (cases "unat len > 64 \<or> length k \<ge> 64 \<or> factory_key k")
    case True
    then show ?thesis
      using inv m c
      by (auto simp: embediq_nvm_set_def embediq_const set_accepts_def nvm_lock_def nvm_crc32_eq
          nvm_emit_def nvm_unlock_def nvm_inv_def)
  next
    case False
    define st1 where "st1 = st\<lparr>g_mutex := Some True\<rparr>"
    have t1: "table_ok (g_nvm st1)" and m1: "nvm_map st1 = nvm_map st" and c1: "crc_inv (nvm_crc st1)"
      and lock: "nvm_lock st = Some st1" and free: "has_free_slot st1 = has_free_slot st"
      using m t c by (simp_all add: st1_def nvm_map_def nvm_lock_def has_free_slot_def)
    have put: "nvm_put st j e v (unat len) = nvm_unlock (nvm_persist (set_slot j (store_value v (unat len) e) st1))"
      for j e by (simp add: nvm_put_def st1_def)
    note stored = nvm_put_result[OF inv, of _ v "unat len" _ k]
    show ?thesis
    proof (rule find_slot_cases[OF t1 k])
      fix j
      assume j: "find_slot k st1 = j" "j < 64" "e_active (g_nvm st1 ! j) \<noteq> 0"
        "entry_key (g_nvm st1 ! j) = k" "nvm_map st1 k = Some (entry_value (g_nvm st1 ! j))"
      have "embediq_nvm_set (Some k) (Some v) len st = Some (EMBEDIQ_OK, nvm_put st j (g_nvm st ! j) v (unat len))"
        using False lock m j by (simp add: embediq_nvm_set_def embediq_const put st1_def Let_def)
      moreover have "set_accepts k (unat len) st"
        using False j m1 by (auto simp: set_accepts_def)
      moreover have "table_ok ((g_nvm st)[j := store_value v (unat len) (g_nvm st ! j)])"
        "table_map ((g_nvm st)[j := store_value v (unat len) (g_nvm st ! j)]) =
          (table_map (g_nvm st))(k \<mapsto> take (unat len) v)"
        using store_slot[OF t j(2) _ len, of "g_nvm st ! j" k] False j by (simp_all add: st1_def)
      ultimately show ?thesis using stored by auto
    next
      assume none: "find_slot k st1 = NVM_MAX_KEYS" "nvm_map st1 k = None"
      show ?thesis
      proof (rule find_free_slot_cases[OF t1])
        assume "find_free_slot st1 = NVM_MAX_KEYS" "\<not> has_free_slot st1"
        then show ?thesis
          using False lock m none m1 free inv
          by (auto simp: embediq_nvm_set_def embediq_const set_accepts_def nvm_unlock_def nvm_inv_def
              st1_def Let_def)
      next
        fix j
        assume j: "find_free_slot st1 = j" "j < 64" "e_active (g_nvm st1 ! j) = 0" "has_free_slot st1"
        let ?e = "(g_nvm st ! j)\<lparr>e_key := key_array k, e_active := 1\<rparr>"
        have "embediq_nvm_set (Some k) (Some v) len st = Some (EMBEDIQ_OK, nvm_put st j ?e v (unat len))"
          using False lock m j none by (simp add: embediq_nvm_set_def embediq_const put st1_def Let_def)
        moreover have "set_accepts k (unat len) st"
          using False j free by (auto simp: set_accepts_def)
        moreover have "table_ok ((g_nvm st)[j := store_value v (unat len) ?e])"
          "table_map ((g_nvm st)[j := store_value v (unat len) ?e]) =
            (table_map (g_nvm st))(k \<mapsto> take (unat len) v)"
          using store_slot[OF t j(2) _ len, of ?e k] False j none m1 k
          by (simp_all add: st1_def nvm_map_def)
        ultimately show ?thesis using stored by auto
      qed
    qed
  qed
qed

lemma nvm_get_result:
  assumes inv: "nvm_inv st" and k: "c_string k"
  shows "embediq_nvm_get (Some k) True (Some cap) st =
    (case nvm_map st k of
       Some v \<Rightarrow> if length v \<le> unat cap
                  then Some (EMBEDIQ_OK, Some (v, word_of_nat (length v)), st)
                  else Some (EMBEDIQ_ERR, None, st)
     | None \<Rightarrow> Some (EMBEDIQ_ERR, None, st))"
proof -
  have m: "g_mutex st = Some False" and t: "table_ok (g_nvm st)"
    using inv by (auto simp: nvm_inv_def)
  define st1 where "st1 = st\<lparr>g_mutex := Some True\<rparr>"
  have t1: "table_ok (g_nvm st1)" and m1: "nvm_map st1 = nvm_map st" and lock: "nvm_lock st = Some st1"
    and unlock: "nvm_unlock st1 = st"
    using m t by (simp_all add: st1_def nvm_map_def nvm_lock_def nvm_unlock_def)
  show ?thesis
  proof (rule find_slot_cases[OF t1 k])
    assume "find_slot k st1 = NVM_MAX_KEYS" "nvm_map st1 k = None"
    then show ?thesis using m lock unlock m1 by (simp add: embediq_nvm_get_def Let_def)
  next
    fix j
    assume j: "find_slot k st1 = j" "j < 64" "e_active (g_nvm st1 ! j) \<noteq> 0"
      "entry_key (g_nvm st1 ! j) = k" "nvm_map st1 k = Some (entry_value (g_nvm st1 ! j))"
    let ?e = "g_nvm st ! j"
    have "entry_ok ?e" using t j(2) by (simp add: table_ok_def)
    then have l: "unat (e_val_len ?e) \<le> 64" "length (entry_value ?e) = unat (e_val_len ?e)"
      using j(3) by (auto simp: entry_ok_def entry_shape_def entry_value_def st1_def)
    have cap: "(ucast (e_val_len ?e) > cap) = (unat (e_val_len ?e) > unat cap)"
      by (simp add: word_less_nat_alt unat_ucast_up)
    have w: "word_of_nat (length (entry_value ?e)) = (ucast (e_val_len ?e) :: u32)"
      unfolding l(2) by simp
    have "embediq_nvm_get (Some k) True (Some cap) st =
        (if unat (e_val_len ?e) > unat cap then Some (EMBEDIQ_ERR, None, st)
         else Some (EMBEDIQ_OK, Some (entry_value ?e, ucast (e_val_len ?e)), st))"
      using m lock unlock j l(1)
      by (simp add: embediq_nvm_get_def Let_def embediq_const st1_def entry_value_def cap)
    also have "\<dots> = (if length (entry_value ?e) \<le> unat cap
        then Some (EMBEDIQ_OK, Some (entry_value ?e, word_of_nat (length (entry_value ?e))), st)
        else Some (EMBEDIQ_ERR, None, st))"
      unfolding w l(2) by (simp add: not_le)
    finally show ?thesis using j(5) by (simp add: m1[symmetric] st1_def)
  qed
qed

text \<open>C26: with a C string as key and a large enough buffer, a set always returns and keeps the
  store's invariant (the mutex is free again on every path). It answers OK exactly when the value
  has at most 64 bytes, the key fewer than 64 characters, the key is not factory-class and it is
  present or a slot is free; then the store in memory maps the key to the value and every other key
  as before. Otherwise it answers with an error and the entries are unchanged. These are the
  conditions of the code: it also answers OK for a user-class key and when writing the flash
  fails, where embediq_obs.h and embediq_nvm.h document an error.\<close>

theorem nvm_set_correct:
  assumes "nvm_inv st" and "c_string k" and "unat len \<le> length v"
  shows "\<exists>r st'. embediq_nvm_set (Some k) (Some v) len st = Some (r, st') \<and> nvm_inv st' \<and>
    (if set_accepts k (unat len) st
     then r = EMBEDIQ_OK \<and> nvm_map st' = (nvm_map st)(k \<mapsto> take (unat len) v)
     else r = EMBEDIQ_ERR \<and> g_nvm st' = g_nvm st)"
  using nvm_set_result[OF assms] by (auto split: if_splits)

text \<open>A get returns without changing anything: the value of the key and its length if the
  store has one that fits the buffer, an error otherwise.\<close>

theorem nvm_get_correct:
  assumes "nvm_inv st" and "c_string k"
  shows "embediq_nvm_get (Some k) True (Some cap) st =
    (case nvm_map st k of
       Some v \<Rightarrow> if length v \<le> unat cap
                  then Some (EMBEDIQ_OK, Some (v, word_of_nat (length v)), st)
                  else Some (EMBEDIQ_ERR, None, st)
     | None \<Rightarrow> Some (EMBEDIQ_ERR, None, st))"
  using nvm_get_result[OF assms] .

lemma nvm_delete_result:
  assumes inv: "nvm_inv st" and k: "c_string k"
  shows "\<exists>st'. embediq_nvm_delete (Some k) st = Some (EMBEDIQ_OK, st') \<and> nvm_inv st' \<and>
    nvm_map st' = (nvm_map st)(k := None)"
proof -
  have m: "g_mutex st = Some False" and t: "table_ok (g_nvm st)" and c: "crc_inv (nvm_crc st)"
    using inv by (auto simp: nvm_inv_def)
  define st1 where "st1 = st\<lparr>g_mutex := Some True\<rparr>"
  have t1: "table_ok (g_nvm st1)" and m1: "nvm_map st1 = nvm_map st" and lock: "nvm_lock st = Some st1"
    and unlock: "nvm_unlock st1 = st"
    using m t by (simp_all add: st1_def nvm_map_def nvm_lock_def nvm_unlock_def)
  show ?thesis
  proof (rule find_slot_cases[OF t1 k])
    assume "find_slot k st1 = NVM_MAX_KEYS" "nvm_map st1 k = None"
    then show ?thesis
      using m lock unlock m1 inv by (simp add: embediq_nvm_delete_def Let_def fun_upd_idem)
  next
    fix j
    assume j: "find_slot k st1 = j" "j < 64" "e_active (g_nvm st1 ! j) \<noteq> 0"
      "entry_key (g_nvm st1 ! j) = k" "nvm_map st1 k = Some (entry_value (g_nvm st1 ! j))"
    let ?s = "set_slot j zero_entry st1"
    have "crc_inv (nvm_crc ?s)" using c by (simp add: set_slot_def st1_def)
    note keeps = nvm_persist_keeps[OF this]
    show ?thesis
      using m lock j keeps table_clear[OF t1 j(2-4)]
      by (simp add: embediq_nvm_delete_def Let_def embediq_const nvm_inv_def nvm_map_def
          nvm_unlock_def set_slot_def st1_def)
  qed
qed

text \<open>A delete always succeeds and removes exactly the given key; this includes factory-class
  keys, which a set refuses to touch.\<close>

theorem nvm_delete_correct:
  assumes "nvm_inv st" and "c_string k"
  shows "\<exists>st'. embediq_nvm_delete (Some k) st = Some (EMBEDIQ_OK, st') \<and> nvm_inv st' \<and>
    nvm_map st' = (nvm_map st)(k := None)"
  using nvm_delete_result[OF assms] .

section \<open>Persistence\<close>

lemma persisted_flash_cong:
  assumes "\<forall>i. flash_byte fl' i = flash_byte fl i"
  shows "persisted es fl' = persisted es fl"
  using assms by (simp add: persisted_def)

text \<open>Power loss: the memory is gone, the flash stays; the driver starts and loads.\<close>

definition nvm_power_cycle :: "nvm_state \<Rightarrow> nvm_state" where
  "nvm_power_cycle st = nvm_init True (Some 0)
     \<lparr>g_nvm = empty_nvm, g_mutex = None, g_nvm_fb = None, nvm_flash = nvm_flash st,
      nvm_crc = crc_initial\<rparr>"

lemma power_cycle_persisted:
  assumes "table_ok es" and "persisted es (nvm_flash st)"
  shows "g_nvm (nvm_power_cycle st) = es" and "nvm_inv (nvm_power_cycle st)"
  using assms
  by (simp_all add: nvm_power_cycle_def nvm_init_def nvm_create_mutex_def nvm_load_persisted
      crc_inv_initial nvm_inv_def)

text \<open>C10: power-loss atomicity. If the flash held the table before a successful set, and the system
  reports the loss of written bytes, then after a power cycle the store holds either the new mapping
  or the old one, complete, wherever the write failed; and the new one if the file operations
  of the write succeed.\<close>

theorem nvm_set_power_cycle:
  assumes "nvm_inv st" and "c_string k" and "unat len \<le> length v"
    and "persisted (g_nvm st) (nvm_flash st)"
    and "embediq_nvm_set (Some k) (Some v) len st = Some (EMBEDIQ_OK, st')"
    and "io_reported (fl_io (nvm_flash st) (fl_writes (nvm_flash st)))"
  shows "nvm_inv (nvm_power_cycle st') \<and>
    (nvm_map (nvm_power_cycle st') = (nvm_map st)(k \<mapsto> take (unat len) v) \<or>
     nvm_map (nvm_power_cycle st') = nvm_map st \<and>
       fl_io (nvm_flash st) (fl_writes (nvm_flash st)) \<noteq> Io_Ok)"
proof -
  obtain st1 where st1: "nvm_flash st1 = nvm_flash st" "st' = nvm_unlock (nvm_persist st1)"
    "table_ok (g_nvm st1)" "crc_inv (nvm_crc st1)"
    and new: "nvm_map st' = (nvm_map st)(k \<mapsto> take (unat len) v)"
    using nvm_set_result[OF assms(1-3)] assms(5) by (auto split: if_splits)
  have g: "g_nvm st' = g_nvm st1" and fl: "nvm_flash st' = nvm_flash (nvm_persist st1)"
    using nvm_persist_keeps[OF st1(4)] by (simp_all add: st1(2) nvm_unlock_def)
  have t: "table_ok (g_nvm st)" using assms(1) by (simp add: nvm_inv_def)
  note disj = nvm_persist_flash[OF st1(3,4)]
  show ?thesis
  proof (cases "persisted (g_nvm st1) (nvm_flash st')")
    case True
    then show ?thesis
      using power_cycle_persisted[OF st1(3)] new g by (simp add: nvm_map_def)
  next
    case False
    then have "\<forall>i. flash_byte (nvm_flash st') i = flash_byte (nvm_flash st) i"
      using disj(1) assms(6) by (simp add: fl st1(1))
    then have "persisted (g_nvm st) (nvm_flash st')"
      using assms(4) persisted_flash_cong by blast
    then show ?thesis
      using power_cycle_persisted[OF t] False disj(2) by (auto simp: nvm_map_def fl st1(1))
  qed
qed

text \<open>Without the hypothesis on the system's reports the store can be lost: the code neither looks at
  the result of \<open>fclose\<close> nor synchronises the file before it renames it. A set that answers
  EMBEDIQ_OK then leaves an empty file, and the next start finds an empty store, whatever the
  store and the flash held before.\<close>

lemma nvm_lost_write_empties:
  assumes "nvm_inv st" and "c_string k" and "unat len \<le> length v"
    and "embediq_nvm_set (Some k) (Some v) len st = Some (EMBEDIQ_OK, st')"
    and "fl_io (nvm_flash st) (fl_writes (nvm_flash st)) = Io_Lost 0"
  shows "nvm_map (nvm_power_cycle st') = (\<lambda>k. None)"
proof -
  obtain st1 where st1: "nvm_flash st1 = nvm_flash st" "st' = nvm_unlock (nvm_persist st1)"
    "table_ok (g_nvm st1)" "crc_inv (nvm_crc st1)"
    using nvm_set_result[OF assms(1-3)] assms(4) by (auto split: if_splits)
  note l = length_nvm_blob(1)[OF st1(3)]
  have "fl_file (nvm_flash st') = Some []"
    using assms(5) l st1(1)
    by (simp add: st1(2) nvm_unlock_def nvm_persist_eq[OF st1(4)] hal_flash_write_def embediq_const
        write_file_def Let_def)
  then have z: "\<forall>i < 8592. flash_byte (nvm_flash st') i = (replicate 16 0 @ replicate 8576 0) ! i"
    by (simp add: flash_byte_def read_file_def nth_append)
  let ?off = "\<lparr>g_nvm = empty_nvm, g_mutex = Some False, g_nvm_fb = Some 0, nvm_flash = nvm_flash st',
      nvm_crc = crc_initial\<rparr>"
  have "replicate 4 (0::u8) = [0, 0, 0, 0]" by (simp add: numeral_eq_Suc)
  then have "hdr_magic (header_of (replicate 16 0)) \<noteq> k_nvm_blob_magic"
    by (simp add: header_of_def k_nvm_blob_magic_def)
  then have "g_nvm (nvm_load ?off) = empty_nvm"
    using nvm_load_bytes[of "replicate 8576 0" "replicate 16 0" ?off] z
    by (simp add: crc_inv_initial)
  moreover have "nvm_power_cycle st' = nvm_load ?off"
    by (simp add: nvm_power_cycle_def nvm_init_def nvm_create_mutex_def)
  ultimately show ?thesis
    by (intro ext) (simp add: nvm_map_def table_map_None empty_nvm_def zero_entry_def)
qed

text \<open>C27: a flipped or overwritten stretch of at most four bytes in the persisted table is noticed:
  the load falls back to the empty store and reports a CRC failure to the Observatory.\<close>

theorem nvm_load_rejects_burst:
  assumes "table_ok es" and "crc_inv (nvm_crc st)"
    and "entries_bytes es = xs @ u @ ys" and "length v = length u" and "length u \<le> 4" and "u \<noteq> v"
    and "\<forall>i < 8592. flash_byte (nvm_flash st) i =
      (header_bytes (nvm_header (crc32_of (entries_bytes es))) @ xs @ v @ ys) ! i"
  shows "g_nvm (nvm_load st) = empty_nvm \<and> nvm_map (nvm_load st) = (\<lambda>k. None) \<and>
    fl_log (nvm_flash (nvm_load st)) = fl_log (nvm_flash st) @ [CFG_BLOB_INVALID 1]"
proof -
  have l: "length (xs @ v @ ys) = 8576"
    using length_nvm_blob(2)[OF assms(1)] assms(3,4) by simp
  have "crc32_of (xs @ v @ ys) \<noteq> crc32_of (entries_bytes es)"
    unfolding assms(3) using assms(4-6) by (intro crc32_of_burst) simp_all
  then have "nvm_load st =
      (nvm_emit (CFG_BLOB_INVALID 1) (st\<lparr>nvm_crc := crc32_lazy (nvm_crc st)\<rparr>))\<lparr>g_nvm := empty_nvm\<rparr>"
    using nvm_load_bytes[OF l length_header_bytes assms(2), of "crc32_of (entries_bytes es)"] assms(7)
    by (simp add: header_fields)
  then show ?thesis
    by (auto simp: nvm_emit_def nvm_map_def table_map_None empty_nvm_def zero_entry_def)
qed

text \<open>A flush answers OK although the file operations failed and the flash still holds what it
  held before.\<close>

theorem nvm_flush_hides_io_error:
  assumes "nvm_inv st" and "fl_io (nvm_flash st) (fl_writes (nvm_flash st)) = Io_No_Open"
  shows "\<exists>st'. embediq_nvm_flush st = Some (EMBEDIQ_OK, st') \<and>
    (\<forall>i. flash_byte (nvm_flash st') i = flash_byte (nvm_flash st) i)"
proof -
  define st1 where "st1 = st\<lparr>g_mutex := Some True\<rparr>"
  have c: "crc_inv (nvm_crc st1)" and fl: "nvm_flash st1 = nvm_flash st"
    and "embediq_nvm_flush st = Some (EMBEDIQ_OK, nvm_unlock (nvm_persist st1))"
    using assms(1) by (simp_all add: embediq_nvm_flush_def nvm_inv_def nvm_lock_def st1_def)
  moreover have "fl_file (nvm_flash (nvm_persist st1)) = fl_file (nvm_flash st)"
    using assms(2)
    by (simp add: nvm_persist_eq[OF c] fl hal_flash_write_def write_file_def flash_error_def Let_def)
  ultimately show ?thesis
    by (simp add: nvm_unlock_def flash_byte_def read_file_def)
qed

text \<open>The load looks at the magic, the checksum and the table only: a blob of another major
  version, or with another entry count, is loaded as if it were of this one.\<close>

theorem nvm_load_ignores_version:
  assumes "crc_inv (nvm_crc st)" and "table_ok es"
    and "hdr = (nvm_header (crc32_of (entries_bytes es)))\<lparr>hdr_version_major := ver, hdr_entry_count := n\<rparr>"
    and "\<forall>i < 8592. flash_byte (nvm_flash st) i = (header_bytes hdr @ entries_bytes es) ! i"
  shows "g_nvm (nvm_load st) = es"
proof -
  have h: "length (header_bytes hdr) = 16" "header_of (header_bytes hdr) = hdr"
    using assms(3)
    by (simp_all add: header_bytes_def nvm_header_def header_of_def nth_append of_le16_le16 of_le32_le32)
  have "entries_of (entries_bytes es) = es"
    using entries_of_bytes table_shapes[OF assms(2)] assms(2) by (simp add: table_ok_def)
  then show ?thesis
    using nvm_load_bytes[OF length_nvm_blob(2)[OF assms(2)] h(1) assms(1,4)] h(2) assms(3)
    by (simp add: nvm_header_def)
qed

section \<open>The store as a provider of the interface\<close>

definition nvm_valid :: "string \<Rightarrow> bytes \<Rightarrow> bool" where
  "nvm_valid k v \<longleftrightarrow> c_string k \<and> length v < 2 ^ 32"

definition nvm_put_bool :: "string \<Rightarrow> bytes \<Rightarrow> nvm_state \<Rightarrow> (bool \<times> nvm_state) option" where
  "nvm_put_bool k v st = map_option (\<lambda>(r, st). (r = EMBEDIQ_OK, st))
     (embediq_nvm_set (Some k) (Some v) (word_of_nat (length v)) st)"

definition nvm_get_opt :: "string \<Rightarrow> u32 \<Rightarrow> nvm_state \<Rightarrow> (bytes option \<times> nvm_state) option" where
  "nvm_get_opt k cap st = map_option
     (\<lambda>(r, out, st). (if r = EMBEDIQ_OK then map_option fst out else None, st))
     (embediq_nvm_get (Some k) True (Some cap) st)"

definition nvm_del_bool :: "string \<Rightarrow> nvm_state \<Rightarrow> (bool \<times> nvm_state) option" where
  "nvm_del_bool k st = map_option (\<lambda>(r, st). (r = EMBEDIQ_OK, st)) (embediq_nvm_delete (Some k) st)"

lemma nvm_put_law:
  assumes "nvm_inv st" and "nvm_valid k v"
  shows "\<exists>st'. nvm_put_bool k v st = Some (set_accepts k (length v) st, st') \<and> nvm_inv st' \<and>
    nvm_map st' = (if set_accepts k (length v) st then (nvm_map st)(k \<mapsto> v) else nvm_map st)"
proof -
  have l: "unat (word_of_nat (length v) :: u32) = length v"
    using assms(2) by (intro unat_of_nat_small) (simp add: nvm_valid_def)
  show ?thesis
    using nvm_set_result[OF assms(1), of k "word_of_nat (length v)" v] assms(2)
    by (auto simp: l nvm_put_bool_def nvm_valid_def nvm_map_def split: if_splits)
qed

interpretation nvm_store: kv_store nvm_inv nvm_map nvm_valid "\<lambda>k v st. set_accepts k (length v) st"
  nvm_put_bool nvm_get_opt nvm_del_bool
proof
  fix s k v cap
  assume inv: "nvm_inv s"
  show "nvm_valid k v \<Longrightarrow> \<exists>s'. nvm_put_bool k v s = Some (set_accepts k (length v) s, s') \<and> nvm_inv s' \<and>
      nvm_map s' = (if set_accepts k (length v) s then (nvm_map s)(k \<mapsto> v) else nvm_map s)"
    by (rule nvm_put_law[OF inv])
  assume "nvm_valid k []"
  then have k: "c_string k" by (simp add: nvm_valid_def)
  show "nvm_get_opt k cap s = Some (case nvm_map s k of
      Some v \<Rightarrow> if length v \<le> unat cap then Some v else None | None \<Rightarrow> None, s)"
    by (cases "nvm_map s k") (auto simp: nvm_get_opt_def nvm_get_result[OF inv k])
  show "\<exists>s'. nvm_del_bool k s = Some (True, s') \<and> nvm_inv s' \<and> nvm_map s' = (nvm_map s)(k := None)"
    using nvm_delete_result[OF inv k] by (auto simp: nvm_del_bool_def)
qed

text \<open>C9: every sequence of sets and deletes, with C strings as keys, returns; the store then holds
  what the calls that answered OK say, in their order, and nothing else.\<close>

theorem nvm_run_refines_map:
  assumes "nvm_inv st" and "\<forall>op \<in> set ops. kv_op_valid nvm_valid op"
  shows "\<exists>rs st'. kv_run nvm_put_bool nvm_del_bool ops st = Some (rs, st') \<and>
    length rs = length ops \<and> nvm_inv st' \<and> nvm_map st' = kv_spec ops rs (nvm_map st)"
  using nvm_store.run_refines[OF assms] .

section \<open>Witnesses\<close>

definition disk :: "bytes option \<Rightarrow> flash_io \<Rightarrow> flash_state" where
  "disk f io = \<lparr>fl_file = f, fl_tmp = None, fl_io = (\<lambda>n. io), fl_writes = 0, fl_log = []\<rparr>"

definition demo_nvm :: "flash_state \<Rightarrow> nvm_state" where
  "demo_nvm fl = \<lparr>g_nvm = empty_nvm, g_mutex = Some False, g_nvm_fb = Some 0, nvm_flash = fl,
     nvm_crc = crc_initial\<rparr>"

lemma empty_table: "table_ok empty_nvm"
  by (simp add: table_ok_def empty_nvm_def active_keys_def entry_ok_def entry_shape_def
      zero_entry_def embediq_const)

lemma empty_map: "nvm_map (demo_nvm fl) = (\<lambda>k. None)"
  by (rule ext) (simp add: nvm_map_def demo_nvm_def table_map_None empty_nvm_def zero_entry_def)

lemma demo_nvm_inv: "nvm_inv (demo_nvm fl)"
  using empty_table by (simp add: nvm_inv_def demo_nvm_def crc_inv_initial)

lemma demo_accepts: "set_accepts ''log_level'' n (demo_nvm fl)" if "n \<le> 64"
  using that by (auto simp: set_accepts_def factory_key_iff has_free_slot_def demo_nvm_def
      empty_nvm_def zero_entry_def embediq_const)

lemma demo_disk_bytes:
  assumes "length bs = 8592" and "i < 8592"
  shows "flash_byte (disk (Some bs) io) i = bs ! i"
  using assms by (simp add: flash_byte_def read_file_def disk_def embediq_const)

theorem nvm_set_correct_witness:
  "\<exists>st'. embediq_nvm_set (Some ''log_level'') (Some [2]) 1 (demo_nvm (disk None Io_Ok)) =
      Some (EMBEDIQ_OK, st') \<and> nvm_map st' = [''log_level'' \<mapsto> [2]]"
  using nvm_set_correct[of "demo_nvm (disk None Io_Ok)" "''log_level''" 1 "[2]"] demo_nvm_inv
    demo_accepts[of 1 "disk None Io_Ok"]
  by (auto simp: c_string_def empty_map)

theorem nvm_get_correct_witness:
  "embediq_nvm_get (Some ''boot_count'') True (Some 4) (demo_nvm (disk None Io_Ok)) =
     Some (EMBEDIQ_ERR, None, demo_nvm (disk None Io_Ok))"
  using nvm_get_correct[OF demo_nvm_inv, of "''boot_count''" 4 "disk None Io_Ok"]
  by (simp add: c_string_def empty_map)

theorem nvm_delete_correct_witness:
  "\<exists>st'. embediq_nvm_delete (Some ''device_id'') (demo_nvm (disk None Io_Ok)) = Some (EMBEDIQ_OK, st')"
  using nvm_delete_correct[OF demo_nvm_inv, of "''device_id''" "disk None Io_Ok"]
  by (auto simp: c_string_def)

theorem nvm_set_power_cycle_witness:
  "let st = demo_nvm (disk (Some (nvm_blob empty_nvm)) Io_No_Rename) in
   \<exists>st'. embediq_nvm_set (Some ''log_level'') (Some [2]) 1 st = Some (EMBEDIQ_OK, st') \<and>
     nvm_inv (nvm_power_cycle st')"
proof -
  let ?d = "disk (Some (nvm_blob empty_nvm)) Io_No_Rename"
  obtain st' where "embediq_nvm_set (Some ''log_level'') (Some [2]) 1 (demo_nvm ?d) = Some (EMBEDIQ_OK, st')"
    using nvm_set_result[OF demo_nvm_inv[of ?d], of "''log_level''" 1 "[2]"] demo_accepts[of 1 ?d]
    by (auto simp: c_string_def)
  moreover have "persisted (g_nvm (demo_nvm ?d)) (nvm_flash (demo_nvm ?d))"
    using demo_disk_bytes length_nvm_blob(1)[OF empty_table] by (simp add: persisted_def demo_nvm_def)
  moreover have "io_reported (fl_io (nvm_flash (demo_nvm ?d)) (fl_writes (nvm_flash (demo_nvm ?d))))"
    by (simp add: demo_nvm_def disk_def)
  ultimately show ?thesis
    using nvm_set_power_cycle[OF demo_nvm_inv, of "''log_level''" 1 "[2]" ?d st']
    by (auto simp: c_string_def Let_def)
qed

theorem nvm_load_rejects_burst_witness:
  "let hdr = header_bytes (nvm_header (crc32_of (entries_bytes empty_nvm)));
       u = take 1 (entries_bytes empty_nvm); ys = drop 1 (entries_bytes empty_nvm)
   in g_nvm (nvm_load (demo_nvm (disk (Some (hdr @ [] @ map ((+) 1) u @ ys)) Io_Ok))) = empty_nvm"
proof -
  let ?hdr = "header_bytes (nvm_header (crc32_of (entries_bytes empty_nvm)))"
  let ?u = "take 1 (entries_bytes empty_nvm)" and ?ys = "drop 1 (entries_bytes empty_nvm)"
  let ?st = "demo_nvm (disk (Some (?hdr @ [] @ map ((+) 1) ?u @ ?ys)) Io_Ok)"
  have l: "length (entries_bytes empty_nvm) = 8576" by (rule length_nvm_blob(2)[OF empty_table])
  then obtain x where u: "?u = [x]" by (cases "entries_bytes empty_nvm") auto
  have "\<forall>i<8592. flash_byte (nvm_flash ?st) i = (?hdr @ [] @ map ((+) 1) ?u @ ?ys) ! i"
    using demo_disk_bytes[of "?hdr @ [] @ map ((+) 1) ?u @ ?ys"] l by (simp add: demo_nvm_def)
  moreover have "entries_bytes empty_nvm = [] @ ?u @ ?ys" by simp
  moreover have "crc_inv (nvm_crc ?st)" by (simp add: demo_nvm_def crc_inv_initial)
  moreover have "?u \<noteq> map ((+) 1) ?u" unfolding u by simp
  ultimately show ?thesis
    using nvm_load_rejects_burst[OF empty_table, of ?st "[]" ?u ?ys "map ((+) 1) ?u"] l
    by (simp add: Let_def)
qed

theorem nvm_flush_hides_io_error_witness:
  "\<exists>st'. embediq_nvm_flush (demo_nvm (disk None Io_No_Open)) = Some (EMBEDIQ_OK, st') \<and>
     (\<forall>i. flash_byte (nvm_flash st') i = 0)"
  using nvm_flush_hides_io_error[OF demo_nvm_inv, of "disk None Io_No_Open"]
  by (auto simp: demo_nvm_def disk_def flash_byte_def read_file_def)

theorem nvm_load_ignores_version_witness:
  "let hdr = (nvm_header (crc32_of (entries_bytes empty_nvm)))\<lparr>hdr_version_major := 9, hdr_entry_count := 3\<rparr>
   in g_nvm (nvm_load (demo_nvm (disk (Some (header_bytes hdr @ entries_bytes empty_nvm)) Io_Ok))) = empty_nvm"
proof -
  let ?hdr = "(nvm_header (crc32_of (entries_bytes empty_nvm)))\<lparr>hdr_version_major := 9, hdr_entry_count := 3\<rparr>"
  let ?st = "demo_nvm (disk (Some (header_bytes ?hdr @ entries_bytes empty_nvm)) Io_Ok)"
  have "length (header_bytes ?hdr @ entries_bytes empty_nvm) = 8592"
    using length_nvm_blob(2)[OF empty_table] by (simp add: header_bytes_def nvm_header_def)
  then have "\<forall>i<8592. flash_byte (nvm_flash ?st) i = (header_bytes ?hdr @ entries_bytes empty_nvm) ! i"
    using demo_disk_bytes by (simp add: demo_nvm_def)
  moreover have "crc_inv (nvm_crc ?st)" by (simp add: demo_nvm_def crc_inv_initial)
  ultimately show ?thesis
    using nvm_load_ignores_version[OF _ empty_table refl, of ?st 3 9] by (simp add: Let_def)
qed

theorem nvm_run_refines_map_witness:
  "\<exists>rs st'. kv_run nvm_put_bool nvm_del_bool [Kv_Put ''a'' [1], Kv_Del ''a'']
     (demo_nvm (disk None Io_Ok)) = Some (rs, st') \<and> length rs = 2"
  using nvm_run_refines_map[OF demo_nvm_inv, of "[Kv_Put ''a'' [1], Kv_Del ''a'']" "disk None Io_Ok"]
  by (auto simp: nvm_valid_def c_string_def)

end
