(* ===== verification/Cfg.thy ===== *)
theory Cfg
  imports Nvm
begin

text \<open>
  Typed configuration: core/src/cfg/embediq_cfg.c and the generated accessors of
  generated/embediq_cfg_generated.h, on the store of theory Nvm. A float and a signed integer are
  their 32 bits, as the code copies them with memcpy. None is a call of the store that does not
  return.
\<close>

section \<open>Typed getters\<close>

type_synonym float_bits = u32

text \<open>The common shape of the four-byte getters: read four bytes, check the length, copy.\<close>

definition cfg_get_word :: "string option \<Rightarrow> u32 \<Rightarrow> nvm_state \<Rightarrow> (u32 \<times> nvm_state) option" where
  "cfg_get_word key default_val st =
     (case key of
        None \<Rightarrow> Some (default_val, st)
      | Some k \<Rightarrow> do {
          (r, out, st) \<leftarrow> embediq_nvm_get (Some k) True (Some 4) st;
          Some (case (r, out) of
              (EMBEDIQ_OK, Some (buf, len)) \<Rightarrow> if len \<noteq> 4 then default_val else of_le32 buf
            | _ \<Rightarrow> default_val, st) })"

definition embediq_cfg_get_float :: "string option \<Rightarrow> float_bits \<Rightarrow> nvm_state \<Rightarrow> (float_bits \<times> nvm_state) option" where
  "embediq_cfg_get_float = cfg_get_word"

definition embediq_cfg_get_i32 :: "string option \<Rightarrow> u32 \<Rightarrow> nvm_state \<Rightarrow> (u32 \<times> nvm_state) option" where
  "embediq_cfg_get_i32 = cfg_get_word"

definition embediq_cfg_get_u32 :: "string option \<Rightarrow> u32 \<Rightarrow> nvm_state \<Rightarrow> (u32 \<times> nvm_state) option" where
  "embediq_cfg_get_u32 = cfg_get_word"

definition embediq_cfg_get_bool :: "string option \<Rightarrow> bool \<Rightarrow> nvm_state \<Rightarrow> (bool \<times> nvm_state) option" where
  "embediq_cfg_get_bool key default_val st =
     (case key of
        None \<Rightarrow> Some (default_val, st)
      | Some k \<Rightarrow> do {
          (r, out, st) \<leftarrow> embediq_nvm_get (Some k) True (Some 1) st;
          Some (case (r, out) of
              (EMBEDIQ_OK, Some (raw, len)) \<Rightarrow> if len \<noteq> 1 then default_val else raw ! 0 \<noteq> 0
            | _ \<Rightarrow> default_val, st) })"

text \<open>
  The result of the string getter: the returned length and the bytes written to the caller's
  buffer. A character string is converted byte by byte.
\<close>

definition cfg_copy :: "bytes \<Rightarrow> nat \<Rightarrow> nat \<times> bytes" where
  "cfg_copy raw capacity =
     (let n = length raw; n = (if n > capacity then capacity else n) in (n, take n raw @ [0]))"

definition cfg_default :: "string option \<Rightarrow> nat \<Rightarrow> nat \<times> bytes" where
  "cfg_default default_str capacity =
     (case default_str of Some s \<Rightarrow> cfg_copy (map byte_of_char s) capacity | None \<Rightarrow> (0, [0]))"

definition embediq_cfg_get_str ::
  "string option \<Rightarrow> bool \<Rightarrow> nat \<Rightarrow> string option \<Rightarrow> nvm_state \<Rightarrow> ((nat \<times> bytes) \<times> nvm_state) option" where
  "embediq_cfg_get_str key buf buf_len default_str st =
     (if \<not> buf \<or> buf_len = 0 then Some ((0, []), st)
      else let capacity = buf_len - 1 in
        case key of
          None \<Rightarrow> Some (cfg_default default_str capacity, st)
        | Some k \<Rightarrow> do {
            (r, out, st) \<leftarrow> embediq_nvm_get (Some k) True (Some 64) st;
            Some (case (r, out) of
                (EMBEDIQ_OK, Some (raw, len)) \<Rightarrow> cfg_copy (take (unat len) raw) capacity
              | _ \<Rightarrow> cfg_default default_str capacity, st) })"

section \<open>Typed setters\<close>

definition cfg_set_bytes :: "string option \<Rightarrow> bytes \<Rightarrow> u32 \<Rightarrow> nvm_state \<Rightarrow> (bool \<times> nvm_state) option" where
  "cfg_set_bytes key buf len st =
     (case key of
        None \<Rightarrow> Some (False, st)
      | Some k \<Rightarrow> do {
          (r, st) \<leftarrow> embediq_nvm_set (Some k) (Some buf) len st;
          Some (r = EMBEDIQ_OK, st) })"

definition embediq_cfg_set_float :: "string option \<Rightarrow> float_bits \<Rightarrow> nvm_state \<Rightarrow> (bool \<times> nvm_state) option" where
  "embediq_cfg_set_float key v = cfg_set_bytes key (le32 v) 4"

definition embediq_cfg_set_i32 :: "string option \<Rightarrow> u32 \<Rightarrow> nvm_state \<Rightarrow> (bool \<times> nvm_state) option" where
  "embediq_cfg_set_i32 key v = cfg_set_bytes key (le32 v) 4"

definition embediq_cfg_set_u32 :: "string option \<Rightarrow> u32 \<Rightarrow> nvm_state \<Rightarrow> (bool \<times> nvm_state) option" where
  "embediq_cfg_set_u32 key v = cfg_set_bytes key (le32 v) 4"

definition embediq_cfg_set_bool :: "string option \<Rightarrow> bool \<Rightarrow> nvm_state \<Rightarrow> (bool \<times> nvm_state) option" where
  "embediq_cfg_set_bool key v = cfg_set_bytes key [if v then 1 else 0] 1"

definition embediq_cfg_set_str ::
  "string option \<Rightarrow> string option \<Rightarrow> nvm_state \<Rightarrow> (bool \<times> nvm_state) option" where
  "embediq_cfg_set_str key val st =
     (case (key, val) of
        (Some k, Some v) \<Rightarrow> cfg_set_bytes key (map byte_of_char v) (word_of_nat (length v)) st
      | _ \<Rightarrow> Some (False, st))"

definition embediq_cfg_delete :: "string option \<Rightarrow> nvm_state \<Rightarrow> (bool \<times> nvm_state) option" where
  "embediq_cfg_delete key st =
     (case key of
        None \<Rightarrow> Some (False, st)
      | Some k \<Rightarrow> do { (r, st) \<leftarrow> embediq_nvm_delete (Some k) st; Some (r = EMBEDIQ_OK, st) })"

section \<open>Generated accessors\<close>

definition cfg_err :: "(bool \<times> nvm_state) option \<Rightarrow> (embediq_err \<times> nvm_state) option" where
  "cfg_err = map_option (\<lambda>(ok, st). (if ok then EMBEDIQ_OK else EMBEDIQ_ERR, st))"

text \<open>A string getter: \<open>out\<close> tells whether a buffer was passed, \<open>len\<close> is its size.\<close>

definition cfg_str_getter ::
  "string \<Rightarrow> bool \<Rightarrow> nat \<Rightarrow> nvm_state \<Rightarrow> (embediq_err \<times> bytes \<times> nvm_state) option" where
  "cfg_str_getter k out len st =
     (if \<not> out \<or> len = 0 then Some (EMBEDIQ_ERR, [], st)
      else map_option (\<lambda>((n, bs), st). (EMBEDIQ_OK, bs, st))
        (embediq_cfg_get_str (Some k) out len (Some '''') st))"

definition cfg_u32_getter ::
  "string \<Rightarrow> u32 \<Rightarrow> bool \<Rightarrow> nvm_state \<Rightarrow> (embediq_err \<times> u32 option \<times> nvm_state) option" where
  "cfg_u32_getter k d out st =
     (if \<not> out then Some (EMBEDIQ_ERR, None, st)
      else map_option (\<lambda>(v, st). (EMBEDIQ_OK, Some v, st)) (embediq_cfg_get_u32 (Some k) d st))"

definition embediq_cfg_get_mqtt_host where
  "embediq_cfg_get_mqtt_host = cfg_str_getter ''mqtt.host''"
definition embediq_cfg_set_mqtt_host where
  "embediq_cfg_set_mqtt_host v st = cfg_err (embediq_cfg_set_str (Some ''mqtt.host'') v st)"
definition embediq_cfg_get_mqtt_port where
  "embediq_cfg_get_mqtt_port = cfg_u32_getter ''mqtt.port'' 1883"
definition embediq_cfg_set_mqtt_port where
  "embediq_cfg_set_mqtt_port v st = cfg_err (embediq_cfg_set_u32 (Some ''mqtt.port'') v st)"
definition embediq_cfg_get_report_interval_ms where
  "embediq_cfg_get_report_interval_ms = cfg_u32_getter ''report_interval_ms'' 30000"
definition embediq_cfg_set_report_interval_ms where
  "embediq_cfg_set_report_interval_ms v st =
     cfg_err (embediq_cfg_set_u32 (Some ''report_interval_ms'') v st)"
definition embediq_cfg_get_device_id where
  "embediq_cfg_get_device_id = cfg_str_getter ''device_id''"
definition embediq_cfg_get_log_level where
  "embediq_cfg_get_log_level = cfg_u32_getter ''log_level'' 1"
definition embediq_cfg_set_log_level where
  "embediq_cfg_set_log_level v st = cfg_err (embediq_cfg_set_u32 (Some ''log_level'') v st)"
definition embediq_cfg_get_wifi_ssid where
  "embediq_cfg_get_wifi_ssid = cfg_str_getter ''wifi.ssid''"
definition embediq_cfg_set_wifi_ssid where
  "embediq_cfg_set_wifi_ssid v st = cfg_err (embediq_cfg_set_str (Some ''wifi.ssid'') v st)"
definition embediq_cfg_get_wifi_psk where
  "embediq_cfg_get_wifi_psk = cfg_str_getter ''wifi.psk''"
definition embediq_cfg_set_wifi_psk where
  "embediq_cfg_set_wifi_psk v st = cfg_err (embediq_cfg_set_str (Some ''wifi.psk'') v st)"
definition embediq_cfg_get_boot_count where
  "embediq_cfg_get_boot_count = cfg_u32_getter ''boot_count'' 0"

section \<open>The store seen through the types\<close>

lemma unat_word32_eq: "(word_of_nat n :: u32) = 4 \<longleftrightarrow> n = 4" if "n \<le> 64"
  using that by (auto simp: word_unat_eq_iff unat_of_nat take_bit_nat_eq_self)

lemma nvm_value_bounded: "nvm_inv st \<Longrightarrow> nvm_map st k = Some v \<Longrightarrow> length v \<le> 64"
  by (auto simp: nvm_inv_def nvm_map_def table_ok_def table_map_Some entry_value_def entry_ok_def)

lemma cfg_get_word_eq:
  assumes "nvm_inv st" and "c_string k"
  shows "cfg_get_word (Some k) d st =
    Some (case nvm_map st k of Some v \<Rightarrow> if length v = 4 then of_le32 v else d | None \<Rightarrow> d, st)"
  using nvm_get_result[OF assms, of 4] nvm_value_bounded[OF assms(1), of k]
  by (cases "nvm_map st k") (auto simp: cfg_get_word_def unat_word32_eq)

lemma cfg_set_bytes_eq:
  assumes "nvm_inv st" and "c_string k" and "unat len = length buf"
  shows "\<exists>st'. cfg_set_bytes (Some k) buf len st = Some (set_accepts k (length buf) st, st') \<and>
    nvm_inv st' \<and>
    nvm_map st' = (if set_accepts k (length buf) st then (nvm_map st)(k \<mapsto> buf) else nvm_map st)"
  using nvm_set_result[OF assms(1,2), of len buf] assms(3)
  by (auto simp: cfg_set_bytes_def nvm_map_def split: if_splits)

text \<open>A four-byte getter returns the stored word if the key has a value of exactly four bytes and
  the default in every other case (no key, another width, a NULL key); it changes nothing. The
  Boolean getter does the same with one byte.\<close>

theorem cfg_get_correct:
  assumes "nvm_inv st" and "c_string k"
  shows "embediq_cfg_get_u32 (Some k) d st = Some
      (case nvm_map st k of Some v \<Rightarrow> if length v = 4 then of_le32 v else d | None \<Rightarrow> d, st) \<and>
    embediq_cfg_get_bool (Some k) b st = Some
      (case nvm_map st k of Some v \<Rightarrow> if length v = 1 then v ! 0 \<noteq> 0 else b | None \<Rightarrow> b, st) \<and>
    embediq_cfg_get_u32 None d st = Some (d, st)"
proof (intro conjI)
  have one: "(word_of_nat n :: u32) = 1 \<longleftrightarrow> n = 1" if "n \<le> 64" for n
    using that by (auto simp: word_unat_eq_iff unat_of_nat take_bit_nat_eq_self)
  show "embediq_cfg_get_bool (Some k) b st = Some
      (case nvm_map st k of Some v \<Rightarrow> if length v = 1 then v ! 0 \<noteq> 0 else b | None \<Rightarrow> b, st)"
    using nvm_get_result[OF assms, of 1] nvm_value_bounded[OF assms(1), of k]
    by (cases "nvm_map st k") (auto simp: embediq_cfg_get_bool_def one le_Suc_eq)
next
  show "embediq_cfg_get_u32 (Some k) d st = Some
      (case nvm_map st k of Some v \<Rightarrow> if length v = 4 then of_le32 v else d | None \<Rightarrow> d, st)"
    by (simp add: embediq_cfg_get_u32_def cfg_get_word_eq[OF assms])
qed (simp add: embediq_cfg_get_u32_def cfg_get_word_def)

theorem cfg_get_correct_witness:
  "embediq_cfg_get_u32 (Some ''log_level'') 1 (demo_nvm (disk None Io_Ok)) =
     Some (1, demo_nvm (disk None Io_Ok))"
  using cfg_get_correct[OF demo_nvm_inv, of "''log_level''" 1 "disk None Io_Ok"]
  by (simp add: c_string_def empty_map)

text \<open>C29: a value that a typed setter accepts is what the typed getter of the same key returns, for
  words, Booleans and strings; a string is cut to the buffer and always terminated.\<close>

theorem cfg_roundtrip:
  assumes "nvm_inv st" and "c_string k" and "set_accepts k 4 st" and "set_accepts k 1 st"
    and "set_accepts k (length s) st" and "0 < n"
  shows "(\<exists>st'. embediq_cfg_set_u32 (Some k) x st = Some (True, st') \<and>
      embediq_cfg_get_u32 (Some k) d st' = Some (x, st')) \<and>
    (\<exists>st'. embediq_cfg_set_bool (Some k) y st = Some (True, st') \<and>
      embediq_cfg_get_bool (Some k) b st' = Some (y, st')) \<and>
    (\<exists>st'. embediq_cfg_set_str (Some k) (Some s) st = Some (True, st') \<and>
      embediq_cfg_get_str (Some k) True n ds st' = Some
        ((min (length s) (n - 1), map byte_of_char (take (n - 1) s) @ [0]), st'))"
proof (intro conjI)
  obtain st' where st': "cfg_set_bytes (Some k) (le32 x) 4 st = Some (True, st')" "nvm_inv st'"
    "nvm_map st' = (nvm_map st)(k \<mapsto> le32 x)"
    using cfg_set_bytes_eq[OF assms(1,2), of 4 "le32 x"] assms(3) by auto
  then show "\<exists>st'. embediq_cfg_set_u32 (Some k) x st = Some (True, st') \<and>
      embediq_cfg_get_u32 (Some k) d st' = Some (x, st')"
    by (auto simp: embediq_cfg_set_u32_def embediq_cfg_get_u32_def cfg_get_word_eq[OF st'(2) assms(2)]
        of_le32_le32_Nil)
next
  obtain st' where st': "cfg_set_bytes (Some k) [if y then 1 else 0] 1 st = Some (True, st')"
    "nvm_inv st'" "nvm_map st' = (nvm_map st)(k \<mapsto> [if y then 1 else 0])"
    using cfg_set_bytes_eq[OF assms(1,2), of 1 "[if y then 1 else 0]"] assms(4) by auto
  then show "\<exists>st'. embediq_cfg_set_bool (Some k) y st = Some (True, st') \<and>
      embediq_cfg_get_bool (Some k) b st' = Some (y, st')"
    using nvm_get_result[OF st'(2) assms(2), of 1]
    by (auto simp: embediq_cfg_set_bool_def embediq_cfg_get_bool_def)
next
  have l: "length s \<le> 64" using assms(5) by (simp add: set_accepts_def)
  then have w: "unat (word_of_nat (length s) :: u32) = length s" by (intro unat_of_nat_small) simp
  obtain st' where st': "cfg_set_bytes (Some k) (map byte_of_char s) (word_of_nat (length s)) st = Some (True, st')"
    "nvm_inv st'" "nvm_map st' = (nvm_map st)(k \<mapsto> map byte_of_char s)"
    using cfg_set_bytes_eq[OF assms(1,2), of "word_of_nat (length s)" "map byte_of_char s"] assms(5) w
    by auto
  then show "\<exists>st'. embediq_cfg_set_str (Some k) (Some s) st = Some (True, st') \<and>
      embediq_cfg_get_str (Some k) True n ds st' = Some
        ((min (length s) (n - 1), map byte_of_char (take (n - 1) s) @ [0]), st')"
    using nvm_get_result[OF st'(2) assms(2), of 64] l w assms(6)
    by (auto simp: embediq_cfg_set_str_def embediq_cfg_get_str_def cfg_copy_def Let_def take_map min_def)
qed

theorem cfg_roundtrip_witness:
  "\<exists>st'. embediq_cfg_set_u32 (Some ''log_level'') 3 (demo_nvm (disk None Io_Ok)) = Some (True, st') \<and>
     embediq_cfg_get_u32 (Some ''log_level'') 1 st' = Some (3, st')"
  using cfg_roundtrip[OF demo_nvm_inv, of "''log_level''" "disk None Io_Ok" "''on''" 1 3 1]
    demo_accepts[of _ "disk None Io_Ok"]
  by (auto simp: c_string_def)

text \<open>The generated setters do not look at the bounds of the schema: a report interval of 0 ms,
  below the minimum of 100, is stored and comes back from the generated getter.\<close>

theorem cfg_setter_ignores_bounds:
  assumes "nvm_inv st" and "set_accepts ''report_interval_ms'' 4 st"
  shows "\<exists>e st'. cfg_schema_lookup ''report_interval_ms'' = Some e \<and> 0 < min_u32 (sch_val e) \<and>
    embediq_cfg_set_report_interval_ms 0 st = Some (EMBEDIQ_OK, st') \<and>
    embediq_cfg_get_report_interval_ms True st' = Some (EMBEDIQ_OK, Some 0, st')"
proof -
  let ?k = "''report_interval_ms''"
  have k: "c_string ?k" by (simp add: c_string_def)
  obtain st' where st': "cfg_set_bytes (Some ?k) (le32 0) 4 st = Some (True, st')" "nvm_inv st'"
    "nvm_map st' = (nvm_map st)(?k \<mapsto> le32 0)"
    using cfg_set_bytes_eq[OF assms(1) k, of 4 "le32 0"] assms(2) by auto
  then show ?thesis
    by (auto simp: cfg_schema_lookup_def k_cfg_schema_def schema_row_def cfg_err_def
        embediq_cfg_set_report_interval_ms_def embediq_cfg_get_report_interval_ms_def
        embediq_cfg_set_u32_def embediq_cfg_get_u32_def cfg_u32_getter_def
        cfg_get_word_eq[OF st'(2) k] of_le32_le32_Nil)
qed

theorem cfg_setter_ignores_bounds_witness:
  "\<exists>st'. embediq_cfg_set_report_interval_ms 0 (demo_nvm (disk None Io_Ok)) = Some (EMBEDIQ_OK, st')"
proof -
  have "set_accepts ''report_interval_ms'' 4 (demo_nvm (disk None Io_Ok))"
    by (auto simp: set_accepts_def factory_key_iff has_free_slot_def demo_nvm_def empty_nvm_def
        zero_entry_def embediq_const)
  then show ?thesis using cfg_setter_ignores_bounds[OF demo_nvm_inv] by blast
qed

end
