(* ===== verification/Publish.thy ===== *)
theory Publish
  imports Bus
begin

text \<open>
  What the function blocks rely on when they publish: the interface \<open>bus_client\<close>, its lemma on
  sequences of publications, and the message bus as its provider. A publication of NORMAL
  priority always returns; this is what a timer callback or a handler needs to make progress.
\<close>

text \<open>A sequence of steps that may fail to return.\<close>

fun run_list :: "('m \<Rightarrow> 'w \<Rightarrow> 'w option) \<Rightarrow> 'm list \<Rightarrow> 'w \<Rightarrow> 'w option" where
  "run_list f [] w = Some w"
| "run_list f (m # ms) w = do { w \<leftarrow> f m w; run_list f ms w }"

lemma run_list_append:
  "run_list f (xs @ ys) w = do { w \<leftarrow> run_list f xs w; run_list f ys w }"
  by (induction xs arbitrary: w) (auto split: bind_splits)

locale bus_client =
  fixes ready :: "'w \<Rightarrow> bool"
    and quiet :: "'m \<Rightarrow> bool"
    and pub :: "'m \<Rightarrow> 'w \<Rightarrow> 'w option"
    and waiting :: "'w \<Rightarrow> nat \<Rightarrow> 'm list"
    and effect :: "'w \<Rightarrow> nat \<Rightarrow> 'm \<Rightarrow> 'm list \<Rightarrow> 'm list"
  assumes pub_quiet: "ready w \<Longrightarrow> quiet m \<Longrightarrow> \<exists>w'. pub m w = Some w' \<and> ready w' \<and>
      effect w' = effect w \<and> (\<forall>e. waiting w' e = effect w e m (waiting w e))"
begin

lemma pub_all:
  assumes "ready w" and "\<forall>m \<in> set ms. quiet m"
  shows "\<exists>w'. run_list pub ms w = Some w' \<and> ready w' \<and> effect w' = effect w \<and>
    (\<forall>e. waiting w' e = fold (effect w e) ms (waiting w e))"
  using assms
proof (induction ms arbitrary: w)
  case (Cons m ms)
  obtain w1 where w1: "pub m w = Some w1" "ready w1" "effect w1 = effect w"
    "\<forall>e. waiting w1 e = effect w e m (waiting w e)"
    using pub_quiet[of w m] Cons.prems by auto
  then show ?case using Cons.IH[OF w1(2)] Cons.prems(2) by auto
qed simp

end

section \<open>The message bus as provider\<close>

definition publish_msg :: "nat \<Rightarrow> embediq_msg \<Rightarrow> 'u world \<Rightarrow> 'u world option" where
  "publish_msg i m w = map_option snd (embediq_publish (Some i) (Some m) w)"

definition bus_ready :: "nat \<Rightarrow> 'u world \<Rightarrow> bool" where
  "bus_ready i w \<longleftrightarrow> bus_inv w \<and> registry_inv w \<and> i < length (g_registry w)"

definition normal_msg :: "embediq_msg \<Rightarrow> bool" where
  "normal_msg m \<longleftrightarrow> clamp_priority (priority m) = EMBEDIQ_MSG_PRIORITY_NORMAL"

definition normal_queue :: "'u world \<Rightarrow> nat \<Rightarrow> embediq_msg list" where
  "normal_queue w e = (if e < length (g_ep w) then ep_items w e 1 else [])"

definition publish_effect :: "nat \<Rightarrow> 'u world \<Rightarrow> nat \<Rightarrow> embediq_msg \<Rightarrow> embediq_msg list \<Rightarrow> embediq_msg list" where
  "publish_effect i w e m xs =
     (if e < length (g_ep w)
      then deliver 1 (sub_count (msg_id m) e w) (m\<lparr>source_endpoint_id := word_of_nat i\<rparr>) xs
      else xs)"

lemma publish_msg_routed:
  assumes "bus_ready i w" and "normal_msg m"
  shows "publish_msg i m w = route_message (m\<lparr>source_endpoint_id := word_of_nat i\<rparr>) w"
    and "\<exists>w'. publish_msg i m w = Some w' \<and> bus_ready i w' \<and>
      routed_all 1 (\<lambda>e. sub_count (msg_id m) e w) (m\<lparr>source_endpoint_id := word_of_nat i\<rparr>) w w'"
proof -
  let ?m = "m\<lparr>source_endpoint_id := word_of_nat i\<rparr>"
  have inv: "bus_inv w" and src: "fb_engine__get_ep_id (Some i) w = word_of_nat i"
    using assms(1) by (simp_all add: bus_ready_def fb_engine__get_ep_id_def registry_inv_def)
  show pub: "publish_msg i m w = route_message ?m w"
    by (simp add: publish_msg_def embediq_publish_def src Let_def option.map_comp comp_def option.map_ident)
  have p: "unat (clamp_priority (priority ?m)) = 1"
    using assms(2) by (simp add: normal_msg_def embediq_const)
  then have "\<not> route_blocks (clamp_priority (priority ?m)) (subscribers (msg_id ?m) w) w"
    by (auto simp: route_blocks_def)
  with route_message_items[OF inv, of ?m] obtain w' where w': "route_message ?m w = Some w'"
    "routed_all 1 (\<lambda>e. sub_count (msg_id m) e w) ?m w w'"
    using p by auto
  then have "bus_ready i w'"
    using assms(1) by (simp add: routed_all_def bus_ready_def bus_frame_def registry_inv_def fb_at_def)
  then show "\<exists>w'. publish_msg i m w = Some w' \<and> bus_ready i w' \<and>
      routed_all 1 (\<lambda>e. sub_count (msg_id m) e w) ?m w w'"
    using w' pub by auto
qed

lemma publish_msg_frame:
  assumes "bus_ready i w" and "normal_msg m"
  shows "\<exists>w'. publish_msg i m w = Some w' \<and> bus_ready i w' \<and> bus_frame w w' \<and>
    (\<forall>e. normal_queue w' e = publish_effect i w e m (normal_queue w e))"
  using publish_msg_routed(2)[OF assms]
  by (auto simp: normal_queue_def publish_effect_def routed_all_def bus_frame_def)

lemma publish_effect_frame: "bus_frame w w' \<Longrightarrow> publish_effect i w' = publish_effect i w"
  by (intro ext) (simp add: publish_effect_def bus_frame_def sub_count_def subscribers_def)

interpretation bus_pub: bus_client "bus_ready i" normal_msg "publish_msg i" normal_queue
  "publish_effect i" for i
proof
  fix w :: "'a world" and m
  assume "bus_ready i w" "normal_msg m"
  then show "\<exists>w'. publish_msg i m w = Some w' \<and> bus_ready i w' \<and> publish_effect i w' = publish_effect i w \<and>
      (\<forall>e. normal_queue w' e = publish_effect i w e m (normal_queue w e))"
    using publish_msg_frame[of i w m] publish_effect_frame by blast
qed

text \<open>The message a function block starts from: all zero but identifier and priority.\<close>

definition plain_msg :: "u16 \<Rightarrow> embediq_msg" where
  "plain_msg mid = zero_msg\<lparr>msg_id := mid, priority := EMBEDIQ_MSG_PRIORITY_NORMAL\<rparr>"

lemma plain_msg_normal [simp]: "normal_msg (plain_msg mid)" "msg_id (plain_msg mid) = mid"
  by (simp_all add: plain_msg_def normal_msg_def clamp_priority_def embediq_const)

text \<open>The bytes of \<open>m->payload\<close> when a handler takes its argument for an \<open>EmbedIQ_Msg_t\<close>: its header has
  20 bytes.\<close>

definition msg_payload_at :: "bytes \<Rightarrow> bytes" where "msg_payload_at p = drop 20 p"

text \<open>Publishing for a handle that may be NULL, when the stamped message is not used.\<close>

definition publish_to :: "handle \<Rightarrow> embediq_msg \<Rightarrow> 'u world \<Rightarrow> 'u world option" where
  "publish_to h m w = map_option snd (embediq_publish h (Some m) w)"

lemma publish_to_Some [simp]: "publish_to (Some i) = publish_msg i"
  by (intro ext) (simp add: publish_to_def publish_msg_def)

text \<open>A payload struct at the start of a cleared message.\<close>

definition with_payload :: "bytes \<Rightarrow> embediq_msg \<Rightarrow> embediq_msg" where
  "with_payload bs m = m\<lparr>payload := bs @ drop (length bs) (payload m),
     payload_len := word_of_nat (length bs)\<rparr>"

text \<open>A message of NORMAL priority without subscribers, and one with a single subscriber that has
  room and is then woken.\<close>

lemma publish_unsubscribed:
  assumes "bus_inv w" and "\<forall>s \<in> set (g_subs w). sub_msg_id s \<noteq> msg_id m"
  shows "embediq_publish h (Some m) w = Some (Some (m\<lparr>source_endpoint_id := fb_engine__get_ep_id h w\<rparr>), w)"
proof -
  have "sub_first (msg_id m) w = -1" using assms by (simp add: sub_first_eq bus_inv_def)
  then show ?thesis by (simp add: embediq_publish_def Let_def route_message_def)
qed

lemma publish_single:
  assumes "bus_ready i w" and "normal_msg m" and "subscribers (msg_id m) w = [ep]"
    and "length (ep_items w (unat ep) 1) < 32" and "unat ep < length (g_ep w)"
  shows "\<exists>w'. publish_msg i m w = Some w' \<and>
    routed (unat ep) 1 1 (m\<lparr>source_endpoint_id := word_of_nat i\<rparr>) w w' \<and>
    g_dispatch_sem w' = g_dispatch_sem (bus_notify ep w)"
proof -
  let ?m = "m\<lparr>source_endpoint_id := word_of_nat i\<rparr>"
  have inv: "bus_inv w" using assms(1) by (simp add: bus_ready_def)
  have p: "clamp_priority (priority m) = 1"
    using assms(2) by (simp add: normal_msg_def embediq_const)
  have "publish_msg i m w = route_one ?m 1 ep w"
    unfolding publish_msg_routed(1)[OF assms(1,2)]
    using inv
    by (subst route_message_all; cases "route_one ?m 1 ep w") (simp_all add: bus_inv_def assms(3) p)
  with route_one_room[OF inv assms(5), of 1 ?m] assms(4) show ?thesis by (auto simp: prio_cap_def)
qed

section \<open>Everything on the bus is a message\<close>

text \<open>The calls that put messages into the queues or take them out.\<close>

datatype bus_op =
    B_Publish handle embediq_msg
  | B_Bridge u8 embediq_msg
  | B_Inject embediq_msg
  | B_Recv u8 u8

fun op_msg :: "bus_op \<Rightarrow> embediq_msg option" where
  "op_msg (B_Publish h m) = Some m"
| "op_msg (B_Bridge v m) = Some m"
| "op_msg (B_Inject m) = Some m"
| "op_msg (B_Recv e p) = None"

definition bus_exec :: "bus_op \<Rightarrow> 'u world \<Rightarrow> 'u world option" where
  "bus_exec c w = (case c of
     B_Publish h m \<Rightarrow> publish_to h m w
   | B_Bridge v m \<Rightarrow> map_option snd (embediq_bus_bridge_route v (Some m) w)
   | B_Inject m \<Rightarrow> bus_inject m w
   | B_Recv e p \<Rightarrow> Some (snd (message_bus_recv_ep e p w)))"

definition bus_typed :: "'u world \<Rightarrow> bool" where
  "bus_typed w \<longleftrightarrow> bus_inv w \<and>
     (\<forall>e < length (g_ep w). \<forall>p < 3. \<forall>m \<in> set (ep_items w e p). wf_msg m)"

lemma set_deliver: "set (deliver p k m xs) \<subseteq> insert m (set xs)"
proof -
  have "set (xs @ replicate k m) \<subseteq> insert m (set xs)" by auto
  then show ?thesis
    unfolding deliver_def keep_newest_def using set_drop_subset set_take_subset by (auto split: if_splits dest: in_set_dropD in_set_takeD)
qed

lemma route_typed:
  assumes "bus_typed w" and "wf_msg m" and "route_message m w = Some w'"
  shows "bus_typed w'"
proof -
  have inv: "bus_inv w" using assms(1) by (simp add: bus_typed_def)
  obtain p k where r: "routed_all p k m w w'"
    using route_message_items[OF inv, of m] assms(3) by (auto split: if_splits)
  have "wf_msg x" if "e < length (g_ep w')" "q < 3" "x \<in> set (ep_items w' e q)" for e q x
  proof -
    have "x \<in> insert m (set (ep_items w e q))"
      using that r set_deliver[of p "k e" m "ep_items w e q"] by (auto simp: routed_all_def bus_frame_def split: if_splits)
    then show ?thesis using that assms(1,2) r by (auto simp: bus_typed_def routed_all_def bus_frame_def)
  qed
  then show ?thesis using r by (simp add: bus_typed_def routed_all_def)
qed

lemma recv_typed:
  assumes "bus_typed w"
  shows "bus_typed (snd (message_bus_recv_ep e p w)) \<and> (\<forall>m. fst (message_bus_recv_ep e p w) = Some m \<longrightarrow> wf_msg m)"
proof (cases "unat e < length (g_ep w) \<and> p \<le> 2")
  case False
  then show ?thesis using assms by (auto simp: message_bus_recv_ep_def not_le not_less)
next
  case True
  have inv: "bus_inv w" using assms by (simp add: bus_typed_def)
  have p3: "unat p < 3" using unat_prio(1) True by blast
  obtain r w' where rw: "message_bus_recv_ep e p w = (r, w')" by fastforce
  have t: "bus_inv w'" "bus_frame w w'" "r = (case ep_items w (unat e) (unat p) of [] \<Rightarrow> None | m # ms \<Rightarrow> Some m)"
    "\<forall>x q. ep_items w' x q = (if x = unat e \<and> q = unat p then tl (ep_items w x q) else ep_items w x q)"
    using recv_ep_takes_oldest[OF inv, of e p] True rw by (auto simp: case_prod_beta)
  have tl: "m \<in> set (tl xs) \<Longrightarrow> m \<in> set xs" for m and xs :: "embediq_msg list" by (cases xs) auto
  have "wf_msg m" if "x < length (g_ep w')" "q < 3" "m \<in> set (ep_items w' x q)" for x q m
  proof -
    have "m \<in> set (ep_items w x q)" using that(3) t(4) tl by (metis (no_types, lifting))
    then show ?thesis using that(1,2) t(2) assms by (simp add: bus_typed_def bus_frame_def)
  qed
  moreover have "wf_msg m" if "r = Some m" for m
    using that t(3) assms True p3 by (auto simp: bus_typed_def split: list.splits)
  ultimately show ?thesis using rw t(1) by (simp add: bus_typed_def)
qed

lemma bus_exec_typed:
  assumes "bus_typed w" and "\<forall>m. op_msg c = Some m \<longrightarrow> wf_msg m" and "bus_exec c w = Some w'"
  shows "bus_typed w'"
proof -
  have r: "wf_msg m \<Longrightarrow> route_message (m\<lparr>source_endpoint_id := x\<rparr>) w = Some w' \<Longrightarrow> bus_typed w'" for m x
    using route_typed[OF assms(1), of "m\<lparr>source_endpoint_id := x\<rparr>"] by (simp add: wf_msg_def)
  show ?thesis
    using assms(2,3) recv_typed[OF assms(1)] r
    by (cases c) (auto simp: bus_exec_def publish_to_def embediq_publish_def embediq_bus_bridge_route_def
        bus_inject_def Let_def)
qed

text \<open>C22: whatever is published, bridged, injected and received, in any order: as long as the messages
  that go in have their 3 reserved and 64 payload bytes, so has every message in every queue, no
  queue exceeds its capacity, and what a receive delivers is such a message.\<close>

theorem bus_keeps_messages:
  assumes "bus_typed w" and "\<forall>c \<in> set cs. \<forall>m. op_msg c = Some m \<longrightarrow> wf_msg m"
    and "run_list bus_exec cs w = Some w'"
  shows "(\<forall>e < length (g_ep w'). \<forall>p < 3. length (ep_items w' e p) \<le> prio_cap p \<and>
      (\<forall>m \<in> set (ep_items w' e p). wf_msg m)) \<and>
    (\<forall>e p m. fst (message_bus_recv_ep e p w') = Some m \<longrightarrow> wf_msg m)"
proof -
  have t: "bus_typed w'"
    using assms
  proof (induction cs arbitrary: w)
    case (Cons c cs)
    then show ?case using bus_exec_typed[of w c] by (auto split: bind_splits)
  qed simp
  then have "\<forall>e < length (g_ep w'). \<forall>p < 3. length (ep_items w' e p) \<le> prio_cap p \<and>
      (\<forall>m \<in> set (ep_items w' e p). wf_msg m)"
    using ep_items_bounded by (auto simp: bus_typed_def)
  then show ?thesis using recv_typed[OF t] by blast
qed

lemma bus_keeps_messages_witness:
  "\<exists>w'. run_list bus_exec [B_Publish (Some 0) demo_msg] demo_bus = Some w' \<and>
     length (ep_items w' 0 1) \<le> prio_cap 1 \<and> (\<forall>m \<in> set (ep_items w' 0 1). wf_msg m)"
proof -
  have n: "normal_msg demo_msg" by (simp add: normal_msg_def demo_msg_def clamp_priority_def embediq_const)
  have r: "bus_ready 0 demo_bus" by (simp add: bus_ready_def demo_bus_simps)
  obtain w' where w': "publish_msg 0 demo_msg demo_bus = Some w'" "bus_frame demo_bus w'"
    using publish_msg_frame[OF r n] by blast
  have t: "bus_typed demo_bus"
    using demo_bus_simps(4) by (simp add: bus_typed_def demo_bus_simps(1,3))
  have wf: "\<forall>c \<in> set [B_Publish (Some 0) demo_msg]. \<forall>m. op_msg c = Some m \<longrightarrow> wf_msg m"
    by (simp add: demo_msg_def wf_msg_def zero_msg_def embediq_const)
  have run: "run_list bus_exec [B_Publish (Some 0) demo_msg] demo_bus = Some w'"
    using w'(1) by (simp add: bus_exec_def)
  have "0 < length (g_ep w')" using w'(2) demo_bus_simps(3) by (simp add: bus_frame_def)
  then have "\<forall>p < 3. length (ep_items w' 0 p) \<le> prio_cap p \<and> (\<forall>m \<in> set (ep_items w' 0 p). wf_msg m)"
    using bus_keeps_messages[OF t wf run] by blast
  then have "length (ep_items w' 0 1) \<le> prio_cap 1 \<and> (\<forall>m \<in> set (ep_items w' 0 1). wf_msg m)"
    by (rule allE[of _ 1]) simp
  then show ?thesis using run by blast
qed

end
