(* ===== verification/Timer.thy ===== *)
theory Timer
  imports Publish OsalTime
begin

text \<open>
  The timer function block fbs/drivers/fb_timer.c on the POSIX timer
  hal/posix/peripherals/hal_timer_posix.c. The timer thread is one call of \<open>hal_timer_fire\<close> for
  each round of its loop; its arithmetic of absolute deadlines is modelled on the seconds and
  nanoseconds of the code, the clock readings are arguments. The functions work on the timer's
  state and the world of theory Registry.
\<close>

definition MSG_TIMER_1MS :: u16 where [embediq_const]: "MSG_TIMER_1MS = 0x04B0"
definition MSG_TIMER_10MS :: u16 where [embediq_const]: "MSG_TIMER_10MS = 0x04B1"
definition MSG_TIMER_100MS :: u16 where [embediq_const]: "MSG_TIMER_100MS = 0x04B2"
definition MSG_TIMER_1SEC :: u16 where [embediq_const]: "MSG_TIMER_1SEC = 0x04B3"

section \<open>The POSIX timer\<close>

text \<open>State of hal_timer_posix.c: the callback is \<open>timer_callback\<close> or none.\<close>

record hal_timer =
  ht_cb :: bool
  ht_period_us :: u32
  ht_thread :: bool \<comment> \<open>a thread was created and not joined\<close>
  ht_running :: bool
  ht_inited :: bool

definition hal_timer_off :: hal_timer where
  "hal_timer_off = \<lparr>ht_cb = False, ht_period_us = 0, ht_thread = False, ht_running = False,
     ht_inited = False\<rparr>"

type_synonym hal_result = "int \<times> hal_timer \<times> obs_call list"

definition hal_timer_error :: "int \<Rightarrow> hal_timer \<Rightarrow> hal_result" where
  "hal_timer_error rc h = (rc, h, [EMBEDIQ_HAL_OBS_EMIT_ERROR EMBEDIQ_HAL_SRC_TIMER rc])"

definition hal_timer_init :: "u32 \<Rightarrow> bool \<Rightarrow> hal_timer \<Rightarrow> hal_result" where
  "hal_timer_init period_us cb h =
     (if \<not> cb then hal_timer_error HAL_ERR_INVALID h
      else (HAL_OK, h\<lparr>ht_cb := cb, ht_period_us := period_us, ht_inited := True\<rparr>, []))"

text \<open>\<open>thr\<close> tells whether \<open>pthread_create\<close> succeeds.\<close>

definition hal_timer_start :: "bool \<Rightarrow> hal_timer \<Rightarrow> hal_result" where
  "hal_timer_start thr h =
     (if \<not> ht_inited h then hal_timer_error HAL_ERR_INVALID h
      else if \<not> thr then hal_timer_error HAL_ERR_IO (h\<lparr>ht_running := False\<rparr>)
      else (HAL_OK, h\<lparr>ht_running := True, ht_thread := True\<rparr>, []))"

definition hal_timer_stop :: "hal_timer \<Rightarrow> hal_result" where
  "hal_timer_stop h =
     (if \<not> ht_inited h then hal_timer_error HAL_ERR_INVALID h
      else (HAL_OK, h\<lparr>ht_running := False\<rparr>, []))"

text \<open>After \<open>pthread_join\<close> there is no thread.\<close>

definition hal_timer_deinit :: "hal_timer \<Rightarrow> hal_timer" where
  "hal_timer_deinit h = (if \<not> ht_inited h then h else hal_timer_off)"

text \<open>Whether a round of the thread's loop calls the callback.\<close>

definition hal_timer_fires :: "hal_timer \<Rightarrow> bool" where
  "hal_timer_fires h \<longleftrightarrow> ht_running h \<and> ht_cb h"

text \<open>The deadline arithmetic of \<open>timer_thread\<close>.\<close>

function carry_ns :: "timespec \<Rightarrow> timespec" where
  "carry_ns (sec, nsec) =
     (if nsec \<ge> 1000000000 then carry_ns (sec + 1, nsec - 1000000000) else (sec, nsec))"
  by pat_completeness auto
termination by (relation "measure (\<lambda>(sec, nsec). nat nsec)") auto

declare carry_ns.simps [simp del]

definition next_fire :: "u32 \<Rightarrow> timespec \<Rightarrow> timespec" where
  "next_fire period_us = (\<lambda>(sec, nsec). carry_ns (sec, nsec + uint period_us * 1000))"

text \<open>The argument of \<open>nanosleep\<close>, if it is called.\<close>

definition sleep_dur :: "timespec \<Rightarrow> timespec \<Rightarrow> timespec option" where
  "sleep_dur nxt now =
     (let diff_ns = (fst nxt - fst now) * 1000000000 + (snd nxt - snd now)
      in if diff_ns > 0 then Some (diff_ns div 1000000000, diff_ns mod 1000000000) else None)"

lemma carry_ns_total: "total_ns (carry_ns t) = total_ns t"
proof (induction t rule: carry_ns.induct)
  case (1 sec nsec)
  then show ?case
    by (subst carry_ns.simps) (auto simp: total_ns_def algebra_simps)
qed

lemma carry_ns_normal: "0 \<le> snd t \<Longrightarrow> 0 \<le> snd (carry_ns t) \<and> snd (carry_ns t) < 1000000000"
proof (induction t rule: carry_ns.induct)
  case (1 sec nsec)
  then show ?case by (subst carry_ns.simps, subst (2) carry_ns.simps) auto
qed

text \<open>The deadlines of the timer thread do not drift. Starting from a normalised time, the n-th
  deadline is exactly n periods after the start, in normalised form, whatever the clock readings
  in between; and when a sleep is called for, it ends exactly at the deadline, so lateness of one
  round is made up in the next.\<close>

theorem timer_no_drift:
  assumes "0 \<le> snd t0" and "snd t0 < 1000000000"
  shows "let t = (next_fire period ^^ n) t0 in
    total_ns t = total_ns t0 + int n * (uint period * 1000) \<and> 0 \<le> snd t \<and> snd t < 1000000000 \<and>
    (case sleep_dur t now of
       Some d \<Rightarrow> total_ns now + total_ns d = total_ns t \<and> 0 \<le> snd d \<and> snd d < 1000000000
     | None \<Rightarrow> total_ns t \<le> total_ns now)"
proof -
  let ?t = "(next_fire period ^^ n) t0"
  have step: "total_ns (next_fire period t) = total_ns t + uint period * 1000"
    and norm: "0 \<le> snd t \<Longrightarrow> 0 \<le> snd (next_fire period t) \<and> snd (next_fire period t) < 1000000000" for t
    using carry_ns_total carry_ns_normal by (simp_all add: next_fire_def case_prod_beta total_ns_def)
  have "total_ns ?t = total_ns t0 + int n * (uint period * 1000)"
    by (induction n) (simp_all add: step algebra_simps)
  moreover have "0 \<le> snd ?t \<and> snd ?t < 1000000000"
    using assms norm by (induction n) simp_all
  moreover have "case sleep_dur ?t now of
       Some d \<Rightarrow> total_ns now + total_ns d = total_ns ?t \<and> 0 \<le> snd d \<and> snd d < 1000000000
     | None \<Rightarrow> total_ns ?t \<le> total_ns now"
    by (auto simp: sleep_dur_def total_ns_def Let_def algebra_simps)
  ultimately show ?thesis by (simp add: Let_def)
qed

theorem timer_no_drift_witness:
  "total_ns ((next_fire 1000 ^^ 5) (7, 999999999)) = total_ns (7, 999999999) + 5000000"
  using timer_no_drift[of "(7, 999999999)" 5 1000 "(0, 0)"] by (simp add: Let_def)

section \<open>The function block\<close>

record timer_state =
  t_fb :: handle
  t_running :: bool
  t_has_1ms_sub :: bool
  t_tick :: u32
  t_cnt_1ms :: u32
  t_cnt_10ms :: u32
  t_cnt_100ms :: u32
  t_cnt_1sec :: u32
  t_hal :: hal_timer

definition timer_off :: timer_state where
  "timer_off = \<lparr>t_fb = None, t_running = False, t_has_1ms_sub = False, t_tick = 0, t_cnt_1ms = 0,
     t_cnt_10ms = 0, t_cnt_100ms = 0, t_cnt_1sec = 0, t_hal = hal_timer_off\<rparr>"

text \<open>Publishing one of the timer's messages, if the FB is known.\<close>

definition timer_publish :: "handle \<Rightarrow> u16 \<Rightarrow> 'u world \<Rightarrow> 'u world option" where
  "timer_publish h mid w =
     (if h = None then Some w else map_option snd (embediq_publish h (Some (plain_msg mid)) w))"

definition timer_callback :: "timer_state \<times> 'u world \<Rightarrow> (timer_state \<times> 'u world) option" where
  "timer_callback = (\<lambda>(ts, w).
     if \<not> t_running ts then Some (ts, w)
     else do {
       let tick = t_tick ts + 1;
       let ts = ts\<lparr>t_tick := tick, t_cnt_1ms := t_cnt_1ms ts + 1\<rparr>;
       w \<leftarrow> (if t_has_1ms_sub ts then timer_publish (t_fb ts) MSG_TIMER_1MS w else Some w);
       let ts = (if tick mod 10 = 0 then ts\<lparr>t_cnt_10ms := t_cnt_10ms ts + 1\<rparr> else ts);
       w \<leftarrow> (if tick mod 10 = 0 then timer_publish (t_fb ts) MSG_TIMER_10MS w else Some w);
       let ts = (if tick mod 100 = 0 then ts\<lparr>t_cnt_100ms := t_cnt_100ms ts + 1\<rparr> else ts);
       w \<leftarrow> (if tick mod 100 = 0 then timer_publish (t_fb ts) MSG_TIMER_100MS w else Some w);
       let ts = (if tick mod 1000 = 0 then ts\<lparr>t_cnt_1sec := t_cnt_1sec ts + 1\<rparr> else ts);
       w \<leftarrow> (if tick mod 1000 = 0 then timer_publish (t_fb ts) MSG_TIMER_1SEC w else Some w);
       Some (ts, w)
     })"

text \<open>One round of the timer thread after its sleep.\<close>

definition hal_timer_fire :: "timer_state \<times> 'u world \<Rightarrow> (timer_state \<times> 'u world) option" where
  "hal_timer_fire = (\<lambda>(ts, w). if hal_timer_fires (t_hal ts) then timer_callback (ts, w) else Some (ts, w))"

text \<open>Running a HAL call for its state and its events; the caller ignores the return code.\<close>

definition timer_hal :: "(hal_timer \<Rightarrow> hal_result) \<Rightarrow> timer_state \<times> 'u world \<Rightarrow> timer_state \<times> 'u world" where
  "timer_hal f = (\<lambda>(ts, w). let (rc, h, ev) = f (t_hal ts) in (ts\<lparr>t_hal := h\<rparr>, log_calls ev w))"

definition has_1ms_subscriber :: "'u world \<Rightarrow> bool" where
  "has_1ms_subscriber w = list_ex (\<lambda>f. MSG_TIMER_1MS \<in> set (cfg_subs (fb_config f))) (g_registry w)"

definition timer_init :: "bool \<Rightarrow> handle \<Rightarrow> timer_state \<times> 'u world \<Rightarrow> timer_state \<times> 'u world" where
  "timer_init thr h = (\<lambda>(ts, w).
     timer_hal (hal_timer_start thr) (timer_hal (hal_timer_init 1000 True)
       (ts\<lparr>t_fb := h, t_has_1ms_sub := has_1ms_subscriber w, t_running := True\<rparr>, w)))"

definition timer_exit :: "timer_state \<times> 'u world \<Rightarrow> timer_state \<times> 'u world" where
  "timer_exit = (\<lambda>(ts, w).
     case timer_hal hal_timer_stop (ts\<lparr>t_running := False\<rparr>, w) of
       (ts, w) \<Rightarrow> (ts\<lparr>t_hal := hal_timer_deinit (t_hal ts)\<rparr>, w))"

definition FN_timer_init :: nat where "FN_timer_init = 61"
definition FN_timer_exit :: nat where "FN_timer_exit = 64"

definition timer_config :: fb_config where
  "timer_config = \<lparr>fc_name = Some ''fb_timer'', fc_priority = 0, fc_stack_size = 0,
     fc_init_fn = Some FN_timer_init, fc_run_fn = None, fc_exit_fn = Some FN_timer_exit, fc_fault_fn = None,
     fc_fb_data = 0, fc_subscriptions = None, fc_subscription_count = 0,
     fc_publications = Some [MSG_TIMER_1MS, MSG_TIMER_10MS, MSG_TIMER_100MS, MSG_TIMER_1SEC],
     fc_publication_count = 4, fc_depends_on = [], fc_depends_count = 0,
     fc_boot_phase = EMBEDIQ_BOOT_PHASE_PLATFORM\<rparr>"

definition fb_timer_register :: "'u world \<Rightarrow> handle \<times> 'u world" where
  "fb_timer_register = embediq_fb_register (Some timer_config)"

definition fb_timer__start :: "bool \<Rightarrow> timer_state \<times> 'u world \<Rightarrow> timer_state \<times> 'u world" where
  "fb_timer__start thr = (\<lambda>(ts, w).
     timer_hal (hal_timer_start thr) (timer_hal (hal_timer_init 1000 True) (ts\<lparr>t_running := True\<rparr>, w)))"

definition fb_timer__stop_and_wait :: "timer_state \<times> 'u world \<Rightarrow> timer_state \<times> 'u world" where
  "fb_timer__stop_and_wait = timer_exit"

definition fb_timer__reset_counts :: "timer_state \<Rightarrow> timer_state" where
  "fb_timer__reset_counts ts = ts\<lparr>t_tick := 0, t_cnt_1ms := 0, t_cnt_10ms := 0, t_cnt_100ms := 0,
     t_cnt_1sec := 0\<rparr>"

definition fb_timer__count_1ms :: "timer_state \<Rightarrow> u32" where "fb_timer__count_1ms ts = t_cnt_1ms ts"
definition fb_timer__count_10ms :: "timer_state \<Rightarrow> u32" where "fb_timer__count_10ms ts = t_cnt_10ms ts"
definition fb_timer__count_100ms :: "timer_state \<Rightarrow> u32" where
  "fb_timer__count_100ms ts = t_cnt_100ms ts"
definition fb_timer__count_1sec :: "timer_state \<Rightarrow> u32" where "fb_timer__count_1sec ts = t_cnt_1sec ts"
definition fb_timer__has_1ms_sub :: "timer_state \<Rightarrow> bool" where
  "fb_timer__has_1ms_sub ts = t_has_1ms_sub ts"

section \<open>What a run of the timer publishes\<close>

text \<open>The messages of one tick, and of the ticks 1 to n.\<close>

definition tick_msgs :: "bool \<Rightarrow> nat \<Rightarrow> u16 list" where
  "tick_msgs has_1ms n = (if has_1ms then [MSG_TIMER_1MS] else []) @
     (if n mod 10 = 0 then [MSG_TIMER_10MS] else []) @
     (if n mod 100 = 0 then [MSG_TIMER_100MS] else []) @
     (if n mod 1000 = 0 then [MSG_TIMER_1SEC] else [])"

definition timer_trace :: "bool \<Rightarrow> nat \<Rightarrow> u16 list" where
  "timer_trace has_1ms n = concat (map (tick_msgs has_1ms) [1..<Suc n])"

fun timer_run :: "nat \<Rightarrow> timer_state \<times> 'u world \<Rightarrow> (timer_state \<times> 'u world) option" where
  "timer_run 0 s = Some s"
| "timer_run (Suc n) s = do { s \<leftarrow> timer_run n s; hal_timer_fire s }"

lemma timer_trace_counts:
  "count_list (timer_trace h n) MSG_TIMER_1MS = (if h then n else 0)"
  "count_list (timer_trace h n) MSG_TIMER_10MS = n div 10"
  "count_list (timer_trace h n) MSG_TIMER_100MS = n div 100"
  "count_list (timer_trace h n) MSG_TIMER_1SEC = n div 1000"
  by (induction n) (simp_all add: timer_trace_def tick_msgs_def embediq_const div_Suc mod_Suc)

lemma timer_publish_some: "timer_publish (Some i) mid = publish_msg i (plain_msg mid)"
  by (rule ext) (simp add: timer_publish_def publish_msg_def)

lemma word_mod_nat:
  fixes c :: u32
  assumes "n < 2 ^ 32"
  shows "word_of_nat n mod c = 0 \<longleftrightarrow> n mod unat c = 0"
  using assms
  by (simp add: word_unat_eq_iff unat_mod_distrib unat_of_nat_small)

definition counts_at :: "nat \<Rightarrow> timer_state \<Rightarrow> timer_state" where
  "counts_at n ts = ts\<lparr>t_tick := word_of_nat n, t_cnt_1ms := word_of_nat n,
     t_cnt_10ms := word_of_nat (n div 10), t_cnt_100ms := word_of_nat (n div 100),
     t_cnt_1sec := word_of_nat (n div 1000)\<rparr>"

text \<open>A started timer of a registered FB, right after a reset of the counters.\<close>

definition timer_live :: "nat \<Rightarrow> timer_state \<Rightarrow> bool" where
  "timer_live i ts \<longleftrightarrow> t_fb ts = Some i \<and> t_running ts \<and> hal_timer_fires (t_hal ts)"

text \<open>The callback as a run over the messages of the tick.\<close>

lemma timer_callback_run:
  assumes "t_running ts" and "t_fb ts = Some i" and "tick = t_tick ts + 1"
  shows "timer_callback (ts, w) = map_option
    (Pair (ts\<lparr>t_tick := tick, t_cnt_1ms := t_cnt_1ms ts + 1,
       t_cnt_10ms := (if tick mod 10 = 0 then t_cnt_10ms ts + 1 else t_cnt_10ms ts),
       t_cnt_100ms := (if tick mod 100 = 0 then t_cnt_100ms ts + 1 else t_cnt_100ms ts),
       t_cnt_1sec := (if tick mod 1000 = 0 then t_cnt_1sec ts + 1 else t_cnt_1sec ts)\<rparr>))
    (run_list (publish_msg i) (map plain_msg ((if t_has_1ms_sub ts then [MSG_TIMER_1MS] else []) @
       (if tick mod 10 = 0 then [MSG_TIMER_10MS] else []) @
       (if tick mod 100 = 0 then [MSG_TIMER_100MS] else []) @
       (if tick mod 1000 = 0 then [MSG_TIMER_1SEC] else []))) w)"
proof -
  define a b c where "a \<longleftrightarrow> tick mod 10 = 0" and "b \<longleftrightarrow> tick mod 100 = 0" and "c \<longleftrightarrow> tick mod 1000 = 0"
  show ?thesis
    unfolding timer_callback_def map_conv_bind_option
    using assms(1,2)
    by (cases "t_has_1ms_sub ts"; cases a; cases b; cases c)
      (simp_all add: a_def[symmetric] b_def[symmetric] c_def[symmetric] assms(3)[symmetric]
        timer_publish_some comp_def Let_def)
qed

lemma timer_step:
  assumes "timer_live i ts" and "Suc n < 2 ^ 32"
  shows "hal_timer_fire (counts_at n ts, w) =
    map_option (Pair (counts_at (Suc n) ts))
      (run_list (publish_msg i) (map plain_msg (tick_msgs (t_has_1ms_sub ts) (Suc n))) w)"
proof -
  let ?t = "word_of_nat (Suc n) :: u32"
  have tick: "?t = t_tick (counts_at n ts) + 1" by (simp add: counts_at_def add.commute)
  have m: "?t mod 10 = 0 \<longleftrightarrow> Suc n mod 10 = 0" "?t mod 100 = 0 \<longleftrightarrow> Suc n mod 100 = 0"
    "?t mod 1000 = 0 \<longleftrightarrow> Suc n mod 1000 = 0"
    using word_mod_nat[OF assms(2), of 10] word_mod_nat[OF assms(2), of 100]
      word_mod_nat[OF assms(2), of 1000] by (simp_all del: of_nat_Suc)
  have live: "t_running (counts_at n ts)" "t_fb (counts_at n ts) = Some i"
    "hal_timer_fires (t_hal (counts_at n ts))" "t_has_1ms_sub (counts_at n ts) = t_has_1ms_sub ts"
    using assms(1) by (simp_all add: timer_live_def counts_at_def)
  have "hal_timer_fire (counts_at n ts, w) = timer_callback (counts_at n ts, w)"
    using live by (simp add: hal_timer_fire_def)
  also have "\<dots> = map_option (Pair (counts_at (Suc n) ts))
      (run_list (publish_msg i) (map plain_msg (tick_msgs (t_has_1ms_sub ts) (Suc n))) w)"
    unfolding timer_callback_run[OF live(1,2) tick] m live(4) tick_msgs_def
    by (intro arg_cong2[where f = map_option] arg_cong[where f = Pair] refl)
      (simp add: counts_at_def div_Suc add.commute)
  finally show ?thesis .
qed

lemma timer_run_from:
  assumes "timer_live i ts" and "n + k < 2 ^ 32"
  shows "timer_run k (counts_at n ts, w) = map_option (Pair (counts_at (n + k) ts))
    (run_list (publish_msg i)
      (map plain_msg (concat (map (tick_msgs (t_has_1ms_sub ts)) [Suc n..<Suc (n + k)]))) w)"
  using assms(2)
proof (induction k)
  case (Suc k)
  have step: "Suc (n + k) < 2 ^ 32" using Suc.prems by simp
  have "concat (map (tick_msgs h) [Suc n..<Suc (n + Suc k)]) =
      concat (map (tick_msgs h) [Suc n..<Suc (n + k)]) @ tick_msgs h (Suc (n + k))" for h
    by simp
  then show ?case
    using Suc
    by (simp add: timer_step[OF assms(1) step] run_list_append map_conv_bind_option comp_def
        del: upt_Suc)
qed simp

lemma timer_run_trace:
  assumes "timer_live i ts" and "n < 2 ^ 32"
  shows "timer_run n (fb_timer__reset_counts ts, w) = map_option (Pair (counts_at n ts))
    (run_list (publish_msg i) (map plain_msg (timer_trace (t_has_1ms_sub ts) n)) w)"
  using timer_run_from[OF assms(1), of 0 n w] assms(2)
  by (simp add: timer_trace_def counts_at_def fb_timer__reset_counts_def del: upt_Suc)

text \<open>C36: the timer keeps its schedule. From a reset on, any number n below 2^32 of rounds of a live
  timer return; the counters then read n, n/10, n/100 and n/1000, exactly as many messages of each period were
  published, in the order of the ticks, and the NORMAL queue of every endpoint is what those
  publications make of it.\<close>

theorem timer_keeps_schedule:
  assumes "timer_live i ts" and "bus_ready i w" and "n < 2 ^ 32"
  shows "let trace = timer_trace (t_has_1ms_sub ts) n in
    (\<exists>w'. timer_run n (fb_timer__reset_counts ts, w) = Some (counts_at n ts, w') \<and> bus_ready i w' \<and>
      (\<forall>e. normal_queue w' e =
         fold (publish_effect i w e) (map plain_msg trace) (normal_queue w e))) \<and>
    count_list trace MSG_TIMER_1MS = (if t_has_1ms_sub ts then n else 0) \<and>
    count_list trace MSG_TIMER_10MS = n div 10 \<and> count_list trace MSG_TIMER_100MS = n div 100 \<and>
    count_list trace MSG_TIMER_1SEC = n div 1000"
  using bus_pub.pub_all[OF assms(2), of "map plain_msg (timer_trace (t_has_1ms_sub ts) n)"]
  by (auto simp: timer_run_trace[OF assms(1,3)] timer_trace_counts Let_def)

definition demo_timer :: timer_state where
  "demo_timer = fst (timer_init True (Some 0) (timer_off, demo_bus))"

lemma demo_timer_live: "timer_live 0 demo_timer"
  by (simp add: demo_timer_def timer_init_def timer_hal_def hal_timer_init_def hal_timer_start_def
      timer_live_def hal_timer_fires_def timer_off_def hal_timer_off_def)

theorem timer_keeps_schedule_witness:
  "\<exists>w'. timer_run 2500 (fb_timer__reset_counts demo_timer, demo_bus) =
      Some (counts_at 2500 demo_timer, w')"
  using timer_keeps_schedule[OF demo_timer_live, of demo_bus 2500] demo_bus_simps
  by (auto simp: bus_ready_def Let_def)

text \<open>One round of a timer without an FB to publish for.\<close>

lemma timer_fire_mute:
  assumes "t_running ts" and "hal_timer_fires (t_hal ts)" and "t_fb ts = None"
  shows "\<exists>ts'. hal_timer_fire (ts, w) = Some (ts', w) \<and> t_tick ts' = t_tick ts + 1 \<and>
    t_cnt_10ms ts' = t_cnt_10ms ts + of_bool ((t_tick ts + 1) mod 10 = 0) \<and>
    t_cnt_1sec ts' = t_cnt_1sec ts + of_bool ((t_tick ts + 1) mod 1000 = 0) \<and>
    t_running ts' \<and> t_hal ts' = t_hal ts \<and> t_fb ts' = None"
  using assms by (simp add: hal_timer_fire_def timer_callback_def timer_publish_def Let_def)

text \<open>The tick counter is a 32-bit word and 2^32 is not a multiple of 10: six rounds after a
  10 ms event at tick 4294967290 the counter wraps to 0 and the 10 ms, 100 ms and 1 s events all
  fire, 4 ms too early.\<close>

theorem timer_wrap_short_period:
  assumes "t_running ts" and "hal_timer_fires (t_hal ts)" and "t_fb ts = None"
    and "t_tick ts = 4294967290"
  shows "t_tick ts mod 10 = 0 \<and> (\<exists>ts'. timer_run 6 (ts, w) = Some (ts', w) \<and>
    t_tick ts' = 0 \<and> t_cnt_10ms ts' = t_cnt_10ms ts + 1 \<and> t_cnt_1sec ts' = t_cnt_1sec ts + 1)"
proof -
  have "\<exists>ts'. timer_run k (ts, w) = Some (ts', w) \<and> t_tick ts' = 4294967290 + word_of_nat k \<and>
      t_cnt_10ms ts' = t_cnt_10ms ts \<and> t_cnt_1sec ts' = t_cnt_1sec ts \<and>
      t_running ts' \<and> t_hal ts' = t_hal ts \<and> t_fb ts' = None" if "k < 6" for k
    using that
  proof (induction k)
    case (Suc k)
    then obtain ts1 where ts1: "timer_run k (ts, w) = Some (ts1, w)"
      "t_tick ts1 = 4294967290 + word_of_nat k" "t_cnt_10ms ts1 = t_cnt_10ms ts"
      "t_cnt_1sec ts1 = t_cnt_1sec ts" "t_running ts1" "t_hal ts1 = t_hal ts" "t_fb ts1 = None"
      by auto
    have "k = 0 \<or> k = 1 \<or> k = 2 \<or> k = 3 \<or> k = 4" using Suc.prems by auto
    then have "(t_tick ts1 + 1) mod 10 \<noteq> 0" "(t_tick ts1 + 1) mod 1000 \<noteq> 0"
      unfolding ts1(2) by (elim disjE; simp add: word_unat_eq_iff unat_mod_distrib)+
    then show ?case
      using timer_fire_mute[of ts1 w] ts1 assms(2) by (auto simp: add.assoc add.commute)
  qed (use assms in simp)
  from this[of 5] obtain ts1 where ts1: "timer_run 5 (ts, w) = Some (ts1, w)"
    "t_tick ts1 = 4294967295" "t_cnt_10ms ts1 = t_cnt_10ms ts" "t_cnt_1sec ts1 = t_cnt_1sec ts"
    "t_running ts1" "t_hal ts1 = t_hal ts" "t_fb ts1 = None"
    by auto
  have "timer_run 6 (ts, w) = hal_timer_fire (ts1, w)"
    using ts1(1) timer_run.simps(2)[of 5 "(ts, w)"] by simp
  then show ?thesis using timer_fire_mute[of ts1 w] ts1 assms by auto
qed

theorem timer_wrap_short_period_witness:
  "\<exists>ts'. timer_run 6 (demo_timer\<lparr>t_fb := None, t_tick := 4294967290\<rparr>, demo_bus) = Some (ts', demo_bus)"
  using timer_wrap_short_period[of "demo_timer\<lparr>t_fb := None, t_tick := 4294967290\<rparr>" demo_bus]
    demo_timer_live by (auto simp: timer_live_def)

end
