(* ===== verification/Watchdog.thy ===== *)
theory Watchdog
  imports Publish
begin

text \<open>
  The watchdog function block fbs/drivers/fb_watchdog.c on hal/posix/peripherals/hal_wdg_posix.c.
  The slots are the first \<open>g_slot_count\<close> cells of the array (the others are never read); clock
  readings are arguments. A scan either ends or waits inside a HIGH publication; then the state
  in which it waits is the result, because it holds the mutex. Contents: the operations; what a
  scan does and when it waits for ever; the slots as a map; the deadline of a slot.
\<close>

definition MSG_WDG_MISSED_CHECKIN :: u16 where [embediq_const]: "MSG_WDG_MISSED_CHECKIN = 0x047E"
definition MSG_WDG_RESET_REASON :: u16 where [embediq_const]: "MSG_WDG_RESET_REASON = 0x047F"
definition WDG_MAX_SLOTS :: nat where [embediq_const]: "WDG_MAX_SLOTS = EMBEDIQ_MAX_ENDPOINTS"
definition WDG_REASON_MISSED_CHECKIN :: u32 where [embediq_const]: "WDG_REASON_MISSED_CHECKIN = 1"
definition WDG_REASON_RESET_DETECTED :: u32 where [embediq_const]: "WDG_REASON_RESET_DETECTED = 2"

record wdg_slot =
  sl_handle :: nat
  sl_timeout_ms :: u32
  sl_last_checkin_us :: u32
  sl_active :: bool

record wdg_state =
  w_slots :: "wdg_slot list"
  w_mutex :: "bool option"
  w_task :: bool
  w_fb :: handle
  w_running :: bool
  w_kick_seq :: u32
  w_fault_count :: u32
  hw_inited :: bool \<comment> \<open>hal_wdg_posix.c\<close>
  hw_timeout_ms :: u32
  hw_kicks :: nat \<comment> \<open>kicks acknowledged; the hardware's side, no variable of the simulation\<close>

section \<open>The HAL watchdog\<close>

definition hal_wdg_init :: "u32 \<Rightarrow> wdg_state \<Rightarrow> int \<times> wdg_state" where
  "hal_wdg_init timeout_ms ws = (HAL_OK, ws\<lparr>hw_timeout_ms := timeout_ms, hw_inited := True\<rparr>)"

definition hal_wdg_kick :: "wdg_state \<times> 'u world \<Rightarrow> int \<times> wdg_state \<times> 'u world" where
  "hal_wdg_kick = (\<lambda>(ws, w).
     if \<not> hw_inited ws
     then (HAL_ERR_INVALID, ws, log_calls [EMBEDIQ_HAL_OBS_EMIT_ERROR EMBEDIQ_HAL_SRC_WDG HAL_ERR_INVALID] w)
     else (HAL_OK, ws\<lparr>hw_kicks := hw_kicks ws + 1\<rparr>, w))"

definition hal_wdg_deinit :: "wdg_state \<Rightarrow> wdg_state" where
  "hal_wdg_deinit ws = ws\<lparr>hw_inited := False, hw_timeout_ms := 0\<rparr>"

section \<open>The monitor scan\<close>

definition overdue :: "u32 \<Rightarrow> wdg_slot \<Rightarrow> bool" where
  "overdue now_us s \<longleftrightarrow> sl_active s \<and> now_us - sl_last_checkin_us s > sl_timeout_ms s * 1000"

definition missed_msg :: "u8 \<Rightarrow> embediq_msg" where
  "missed_msg ep = zero_msg\<lparr>msg_id := MSG_WDG_MISSED_CHECKIN, priority := EMBEDIQ_MSG_PRIORITY_HIGH,
     payload := (payload zero_msg)[0 := ep], payload_len := 1\<rparr>"

text \<open>What is done for an overdue slot; None if the publication waits.\<close>

definition report_missed :: "'u callbacks \<Rightarrow> wdg_slot \<Rightarrow> wdg_state \<times> 'u world \<Rightarrow> (wdg_state \<times> 'u world) option" where
  "report_missed cb s = (\<lambda>(ws, w). do {
     let ep = fb_engine__get_ep_id (Some (sl_handle s)) w;
     let w = emit EMBEDIQ_OBS_EVT_FAULT ep 0xFF 0 MSG_WDG_MISSED_CHECKIN w;
     w \<leftarrow> (if w_fb ws \<noteq> None then embediq_fb_report_fault cb (w_fb ws) WDG_REASON_MISSED_CHECKIN w
           else Some w);
     w \<leftarrow> (if w_fb ws \<noteq> None then map_option snd (embediq_publish (w_fb ws) (Some (missed_msg ep)) w)
           else Some w);
     let ws = ws\<lparr>w_fault_count := w_fault_count ws + 1\<rparr>;
     Some (ws, emit EMBEDIQ_OBS_EVT_FAULT ep 0xFF (ucast (sl_timeout_ms s)) MSG_WDG_MISSED_CHECKIN w)
   })"

text \<open>The loop over the slots; the flag is \<open>all_ok\<close>. \<open>Inl\<close> is the state in which it waits.\<close>

fun scan_slots :: "'u callbacks \<Rightarrow> u32 \<Rightarrow> wdg_slot list \<Rightarrow> bool \<Rightarrow> wdg_state \<times> 'u world \<Rightarrow>
    wdg_state + bool \<times> wdg_state \<times> 'u world" where
  "scan_slots cb now_us [] all_ok st = Inr (all_ok, st)"
| "scan_slots cb now_us (s # ss) all_ok st =
     (if overdue now_us s
      then case report_missed cb s st of
          None \<Rightarrow> Inl (fst st)
        | Some st' \<Rightarrow> scan_slots cb now_us ss False st'
      else scan_slots cb now_us ss all_ok st)"

text \<open>The ways a call that locks the mutex can go: it ends, or its thread waits for ever in a
  state that the other threads see, or it locks a mutex that was never created.\<close>

datatype 'a outcome = Done 'a | Waits wdg_state | Null_Mutex

definition wdg_kick :: "wdg_state \<times> 'u world \<Rightarrow> wdg_state \<times> 'u world" where
  "wdg_kick = (\<lambda>(ws, w).
     let (rc, ws, w) = hal_wdg_kick (ws, w); ws = ws\<lparr>w_kick_seq := w_kick_seq ws + 1\<rparr>;
         src = (if w_fb ws \<noteq> None then fb_engine__get_ep_id (w_fb ws) w else 0xFF)
     in (ws, if EMBEDIQ_TRACE_LEVEL \<ge> 2
             then emit EMBEDIQ_OBS_EVT_WDG_CHECKIN src 0xFF (ucast (w_kick_seq ws AND 0xFF)) 0 w else w))"

definition monitor_scan :: "'u callbacks \<Rightarrow> u32 \<Rightarrow> wdg_state \<times> 'u world \<Rightarrow> (wdg_state \<times> 'u world) outcome" where
  "monitor_scan cb now_us = (\<lambda>(ws, w).
     case w_mutex ws of
       None \<Rightarrow> Null_Mutex
     | Some True \<Rightarrow> Waits ws
     | Some False \<Rightarrow>
         (case scan_slots cb now_us (w_slots ws) True (ws\<lparr>w_mutex := Some True\<rparr>, w) of
            Inl ws' \<Rightarrow> Waits ws'
          | Inr (all_ok, ws', w') \<Rightarrow>
              let ws' = ws'\<lparr>w_mutex := Some False\<rparr>
              in Done (if all_ok then wdg_kick (ws', w') else (ws', w'))))"

text \<open>One round of the monitor task after its delay.\<close>

definition monitor_round :: "'u callbacks \<Rightarrow> u32 \<Rightarrow> wdg_state \<times> 'u world \<Rightarrow> (wdg_state \<times> 'u world) outcome" where
  "monitor_round cb now_us st = (if w_running (fst st) then monitor_scan cb now_us st else Done st)"

section \<open>Life cycle\<close>

definition wdg_create_mutex :: "bool \<Rightarrow> wdg_state \<Rightarrow> wdg_state" where
  "wdg_create_mutex mem ws =
     (if w_mutex ws = None \<and> mem then ws\<lparr>w_mutex := Some False\<rparr> else ws)"

definition reset_reason_msg :: embediq_msg where
  "reset_reason_msg = (plain_msg MSG_WDG_RESET_REASON)\<lparr>
     payload := (payload zero_msg)[0 := 0], payload_len := 1\<rparr>"

definition wdg_init :: "bool \<Rightarrow> bool \<Rightarrow> handle \<Rightarrow> wdg_state \<times> 'u world \<Rightarrow> (wdg_state \<times> 'u world) option" where
  "wdg_init mem thr h = (\<lambda>(ws, w). do {
     let ws = wdg_create_mutex mem (ws\<lparr>w_fb := h\<rparr>);
     let (rc, ws) = hal_wdg_init 5000 ws;
     (m, w) \<leftarrow> embediq_publish (w_fb ws) (Some reset_reason_msg) w;
     Some (ws\<lparr>w_running := True, w_task := thr\<rparr>, w) })"

definition FN_wdg_init :: nat where "FN_wdg_init = 63"
definition FN_wdg_exit :: nat where "FN_wdg_exit = 66"

definition wdg_config :: fb_config where
  "wdg_config = \<lparr>fc_name = Some ''fb_watchdog'', fc_priority = 0, fc_stack_size = 0,
     fc_init_fn = Some FN_wdg_init, fc_run_fn = None, fc_exit_fn = Some FN_wdg_exit, fc_fault_fn = None,
     fc_fb_data = 0, fc_subscriptions = None, fc_subscription_count = 0,
     fc_publications = Some [MSG_WDG_MISSED_CHECKIN, MSG_WDG_RESET_REASON], fc_publication_count = 2,
     fc_depends_on = [], fc_depends_count = 0, fc_boot_phase = EMBEDIQ_BOOT_PHASE_INFRASTRUCTURE\<rparr>"

definition fb_watchdog_register :: "'u world \<Rightarrow> handle \<times> 'u world" where
  "fb_watchdog_register = embediq_fb_register (Some wdg_config)"

definition wdg_exit :: "wdg_state \<Rightarrow> wdg_state" where
  "wdg_exit ws = hal_wdg_deinit (ws\<lparr>w_running := False\<rparr>)"

section \<open>Registration and check-in\<close>

text \<open>Updating the first slot that satisfies a condition; None if there is none.\<close>

fun update_first :: "('a \<Rightarrow> bool) \<Rightarrow> ('a \<Rightarrow> 'a) \<Rightarrow> 'a list \<Rightarrow> 'a list option" where
  "update_first P f [] = None"
| "update_first P f (x # xs) = (if P x then Some (f x # xs) else map_option ((#) x) (update_first P f xs))"

fun remove_first :: "('a \<Rightarrow> bool) \<Rightarrow> 'a list \<Rightarrow> 'a list" where
  "remove_first P [] = []"
| "remove_first P (x # xs) = (if P x then xs else x # remove_first P xs)"

definition is_slot_of :: "nat \<Rightarrow> wdg_slot \<Rightarrow> bool" where
  "is_slot_of h s \<longleftrightarrow> sl_handle s = h \<and> sl_active s"

text \<open>A call that takes the mutex for a short update of the slots.\<close>

definition wdg_locked :: "(wdg_state \<Rightarrow> wdg_state) \<Rightarrow> wdg_state \<Rightarrow> wdg_state outcome" where
  "wdg_locked f ws = (case w_mutex ws of
     None \<Rightarrow> Null_Mutex | Some True \<Rightarrow> Waits ws | Some False \<Rightarrow> Done (f ws))"

definition embediq_wdg_register :: "bool \<Rightarrow> u32 \<Rightarrow> handle \<Rightarrow> u32 \<Rightarrow> wdg_state \<Rightarrow> wdg_state outcome" where
  "embediq_wdg_register mem now_us fb timeout_ms ws =
     (case fb of
        None \<Rightarrow> Done ws
      | Some h \<Rightarrow>
          if timeout_ms = 0 then Done ws
          else wdg_locked (\<lambda>ws.
            case update_first (is_slot_of h)
                (\<lambda>s. s\<lparr>sl_timeout_ms := timeout_ms, sl_last_checkin_us := now_us\<rparr>) (w_slots ws) of
              Some ss \<Rightarrow> ws\<lparr>w_slots := ss\<rparr>
            | None \<Rightarrow>
                if length (w_slots ws) < WDG_MAX_SLOTS
                then ws\<lparr>w_slots := w_slots ws @ [\<lparr>sl_handle = h, sl_timeout_ms = timeout_ms,
                       sl_last_checkin_us = now_us, sl_active = True\<rparr>]\<rparr>
                else ws) (wdg_create_mutex mem ws))"

definition embediq_wdg_checkin :: "u32 \<Rightarrow> handle \<Rightarrow> wdg_state \<Rightarrow> wdg_state outcome" where
  "embediq_wdg_checkin now_us fb ws =
     (case fb of
        None \<Rightarrow> Done ws
      | Some h \<Rightarrow>
          if w_mutex ws = None then Done ws
          else wdg_locked (\<lambda>ws.
            case update_first (is_slot_of h) (\<lambda>s. s\<lparr>sl_last_checkin_us := now_us\<rparr>) (w_slots ws) of
              Some ss \<Rightarrow> ws\<lparr>w_slots := ss\<rparr> | None \<Rightarrow> ws) ws)"

definition embediq_wdg_unregister :: "handle \<Rightarrow> wdg_state \<Rightarrow> wdg_state outcome" where
  "embediq_wdg_unregister fb ws =
     (case fb of
        None \<Rightarrow> Done ws
      | Some h \<Rightarrow>
          if w_mutex ws = None then Done ws
          else wdg_locked (\<lambda>ws. ws\<lparr>w_slots := remove_first (is_slot_of h) (w_slots ws)\<rparr>) ws)"

definition wdg__init_state :: "bool \<Rightarrow> wdg_state \<Rightarrow> wdg_state" where
  "wdg__init_state mem ws = wdg_create_mutex mem (ws\<lparr>w_running := False, w_slots := [],
     w_kick_seq := 0, w_fault_count := 0, w_fb := None\<rparr>)"

definition wdg__trigger_check ::
  "'u callbacks \<Rightarrow> u32 \<Rightarrow> wdg_state \<times> 'u world \<Rightarrow> (wdg_state \<times> 'u world) outcome" where
  "wdg__trigger_check = monitor_scan"

definition wdg__fault_count :: "wdg_state \<Rightarrow> u32" where "wdg__fault_count ws = w_fault_count ws"


section \<open>The scan\<close>

definition overdue_count :: "u32 \<Rightarrow> wdg_slot list \<Rightarrow> nat" where
  "overdue_count now_us ss = length (filter (overdue now_us) ss)"

lemma overdue_count_simps [simp]:
  "overdue_count t [] = 0"
  "overdue_count t (s # ss) = of_bool (overdue t s) + overdue_count t ss"
  by (simp_all add: overdue_count_def)
















lemma report_missed_waits:
  assumes "w_fb ws = Some h" and "fc_fault_fn (fb_config (fb_at w h)) = None"
    and "h < length (g_registry w)" and "bus_inv w" and "e < length (g_ep w)"
    and "sub_count MSG_WDG_MISSED_CHECKIN e w > 0" and "length (ep_items w e 0) = 16"
  shows "report_missed cb s (ws, w) = None"
proof -
  define ep where "ep = fb_engine__get_ep_id (Some (sl_handle s)) w"
  define w1 where "w1 = emit EMBEDIQ_OBS_EVT_FAULT ep 0xFF 0 MSG_WDG_MISSED_CHECKIN w"
  obtain w2 where w2: "embediq_fb_report_fault cb (Some h) WDG_REASON_MISSED_CHECKIN w1 = Some w2"
    and f: "g_ep w2 = g_ep w" "g_subs w2 = g_subs w"
    using assms(2,3) by (auto simp: embediq_fb_report_fault_def w1_def Let_def)
  have "bus_inv w2" "ep_items w2 = ep_items w" "sub_count t a w2 = sub_count t a w" for t a
    using assms(4) f bus_inv_cong[of w2 w] ep_items_cong[of w2 w]
    by (simp_all add: sub_count_def subscribers_def)
  moreover have "msg_id (missed_msg ep) = MSG_WDG_MISSED_CHECKIN" "priority (missed_msg ep) = 0"
    by (simp_all add: missed_msg_def embediq_const)
  ultimately have "embediq_publish (Some h) (Some (missed_msg ep)) w2 = None"
    using assms(5-7) f by (subst publish_waits_iff) auto
  then show ?thesis
    using assms(1) w2 by (simp add: report_missed_def ep_def[symmetric] w1_def[symmetric] Let_def)
qed

lemma scan_slots_waits:
  assumes "\<And>s. overdue now_us s \<Longrightarrow> s \<in> set ss \<Longrightarrow> report_missed cb s st = None"
    and "overdue_count now_us ss > 0"
  shows "scan_slots cb now_us ss ok st = Inl (fst st)"
  using assms by (induction ss arbitrary: ok) (auto split: if_splits)

text \<open>C33: the monitor holds the mutex while it publishes at HIGH priority. If a slot is overdue and
  the HIGH queue of a subscriber of the missed check-in message is full, the scan waits with the
  mutex locked; from then on every check-in, registration and scan of another thread waits as
  well, and no call frees the mutex. If the subscriber that has to drain the queue checks in,
  neither goes on.\<close>

theorem wdg_scan_deadlock:
  assumes "w_mutex ws = Some False" and "w_fb ws = Some h"
    and "h < length (g_registry w)" and "fc_fault_fn (fb_config (fb_at w h)) = None"
    and "bus_inv w" and "overdue_count now_us (w_slots ws) > 0"
    and "e < length (g_ep w)" and "sub_count MSG_WDG_MISSED_CHECKIN e w > 0"
    and "length (ep_items w e 0) = 16"
  shows "\<exists>ws'. monitor_scan cb now_us (ws, w) = Waits ws' \<and>
    embediq_wdg_checkin t (Some fb) ws' = Waits ws' \<and>
    embediq_wdg_unregister (Some fb) ws' = Waits ws' \<and>
    (tm \<noteq> 0 \<longrightarrow> embediq_wdg_register mem t (Some fb) tm ws' = Waits ws') \<and>
    monitor_scan cb t (ws', w) = Waits ws'"
proof -
  let ?ws = "ws\<lparr>w_mutex := Some True\<rparr>"
  have "scan_slots cb now_us (w_slots ws) True (?ws, w) = Inl (fst (?ws, w))"
    using assms by (intro scan_slots_waits report_missed_waits) auto
  then have "monitor_scan cb now_us (ws, w) = Waits ?ws"
    using assms(1) by (simp add: monitor_scan_def)
  then show ?thesis
    by (intro exI[of _ ?ws]) (auto simp: embediq_wdg_checkin_def embediq_wdg_unregister_def
        embediq_wdg_register_def wdg_locked_def monitor_scan_def wdg_create_mutex_def)
qed


section \<open>The slots as a map\<close>

definition slot_kv :: "wdg_slot \<Rightarrow> nat \<times> u32 \<times> u32" where
  "slot_kv s = (sl_handle s, sl_timeout_ms s, sl_last_checkin_us s)"

definition slots_map :: "wdg_slot list \<Rightarrow> nat \<rightharpoonup> u32 \<times> u32" where
  "slots_map ss = map_of (map slot_kv ss)"

definition wdg_ok :: "wdg_state \<Rightarrow> bool" where
  "wdg_ok ws \<longleftrightarrow> w_mutex ws = Some False \<and> length (w_slots ws) \<le> 64 \<and>
     distinct (map sl_handle (w_slots ws)) \<and> (\<forall>s \<in> set (w_slots ws). sl_active s)"

lemma slots_map_simps [simp]:
  "slots_map [] = Map.empty"
  "slots_map (s # ss) = (slots_map ss)(sl_handle s \<mapsto> (sl_timeout_ms s, sl_last_checkin_us s))"
  by (simp_all add: slots_map_def slot_kv_def)

lemma dom_slots_map: "dom (slots_map ss) = sl_handle ` set ss"
  by (simp add: slots_map_def dom_map_of_conv_image_fst image_image slot_kv_def)

lemma slots_map_None: "slots_map ss h = None \<longleftrightarrow> h \<notin> sl_handle ` set ss"
  using dom_slots_map[of ss] by blast

lemma slots_map_snoc:
  "sl_handle s \<notin> sl_handle ` set ss \<Longrightarrow>
   slots_map (ss @ [s]) = (slots_map ss)(sl_handle s \<mapsto> (sl_timeout_ms s, sl_last_checkin_us s))"
  by (induction ss) (auto simp: fun_upd_twist)

lemma update_first_None: "update_first P f xs = None \<longleftrightarrow> (\<forall>x \<in> set xs. \<not> P x)"
  by (induction xs) auto

lemma update_first_slots:
  assumes "update_first (is_slot_of h) f ss = Some ss'" and "\<forall>s \<in> set ss. sl_active s"
    and "\<And>s. sl_handle (f s) = sl_handle s" and "\<And>s. sl_active (f s) = sl_active s"
  shows "map sl_handle ss' = map sl_handle ss \<and> (\<forall>s \<in> set ss'. sl_active s) \<and>
    (\<exists>s \<in> set ss. slots_map ss h = Some (sl_timeout_ms s, sl_last_checkin_us s) \<and>
       slots_map ss' = (slots_map ss)(h \<mapsto> (sl_timeout_ms (f s), sl_last_checkin_us (f s))))"
  using assms(1,2)
proof (induction ss arbitrary: ss')
  case (Cons s ss)
  show ?case
  proof (cases "sl_handle s = h")
    case True
    then show ?thesis using Cons.prems assms(3,4) by (auto simp: is_slot_of_def)
  next
    case False
    then have "\<not> is_slot_of h s" by (simp add: is_slot_of_def)
    then obtain ss1 where ss1: "update_first (is_slot_of h) f ss = Some ss1" "ss' = s # ss1"
      using Cons.prems by auto
    have act: "\<forall>s \<in> set ss. sl_active s" using Cons.prems(2) by simp
    from Cons.IH[OF ss1(1) act] obtain r where r: "r \<in> set ss"
        "slots_map ss h = Some (sl_timeout_ms r, sl_last_checkin_us r)"
        "slots_map ss1 = (slots_map ss)(h \<mapsto> (sl_timeout_ms (f r), sl_last_checkin_us (f r)))"
      and m: "map sl_handle ss1 = map sl_handle ss" "\<forall>s \<in> set ss1. sl_active s" by blast
    have "slots_map ss' = (slots_map (s # ss))(h \<mapsto> (sl_timeout_ms (f r), sl_last_checkin_us (f r)))"
      using False by (simp add: ss1(2) r(3) fun_upd_twist)
    then show ?thesis
      using m r(1,2) False Cons.prems(2) ss1(2) by (intro conjI bexI[of _ r]) auto
  qed
qed simp

lemma remove_first_slots:
  assumes "distinct (map sl_handle ss)" and "\<forall>s \<in> set ss. sl_active s"
  shows "slots_map (remove_first (is_slot_of h) ss) = (slots_map ss)(h := None) \<and>
    distinct (map sl_handle (remove_first (is_slot_of h) ss)) \<and>
    set (remove_first (is_slot_of h) ss) \<subseteq> set ss \<and>
    length (remove_first (is_slot_of h) ss) \<le> length ss"
  using assms
proof (induction ss)
  case (Cons s ss)
  have "slots_map ss (sl_handle s) = None"
    using Cons.prems(1) by (simp add: slots_map_None)
  then show ?case
    using Cons by (auto simp: is_slot_of_def fun_upd_twist fun_upd_idem)
qed simp

text \<open>The interface as one type of calls, and what each promises on a map from function blocks to
  timeout and time of the last check-in.\<close>

datatype wdg_call = Register handle u32 | Checkin handle | Unregister handle

fun wdg_exec :: "bool \<Rightarrow> u32 \<Rightarrow> wdg_call \<Rightarrow> wdg_state \<Rightarrow> wdg_state outcome" where
  "wdg_exec mem now (Register fb tm) ws = embediq_wdg_register mem now fb tm ws"
| "wdg_exec mem now (Checkin fb) ws = embediq_wdg_checkin now fb ws"
| "wdg_exec mem now (Unregister fb) ws = embediq_wdg_unregister fb ws"

fun wdg_spec :: "u32 \<Rightarrow> wdg_call \<Rightarrow> (nat \<rightharpoonup> u32 \<times> u32) \<Rightarrow> nat \<rightharpoonup> u32 \<times> u32" where
  "wdg_spec now (Register (Some h) tm) m =
     (if tm \<noteq> 0 \<and> (h \<in> dom m \<or> card (dom m) < 64) then m(h \<mapsto> (tm, now)) else m)"
| "wdg_spec now (Checkin (Some h)) m =
     (case m h of None \<Rightarrow> m | Some (tm, t) \<Rightarrow> m(h \<mapsto> (tm, now)))"
| "wdg_spec now (Unregister (Some h)) m = m(h := None)"
| "wdg_spec now _ m = m"

lemma wdg_exec_map:
  assumes "wdg_ok ws"
  shows "\<exists>ws'. wdg_exec mem now c ws = Done ws' \<and> wdg_ok ws' \<and>
    slots_map (w_slots ws') = wdg_spec now c (slots_map (w_slots ws))"
proof -
  note ok = assms[unfolded wdg_ok_def]
  have card: "card (dom (slots_map (w_slots ws))) = length (w_slots ws)"
    using ok distinct_card[of "map sl_handle (w_slots ws)"] by (simp add: dom_slots_map)
  have nd: "h \<notin> sl_handle ` set (w_slots ws)" "slots_map (w_slots ws) h = None"
    if "update_first (is_slot_of h) f (w_slots ws) = None" for h f
    using that ok by (auto simp: update_first_None is_slot_of_def slots_map_None)
  have upd: "wdg_ok (ws\<lparr>w_slots := ss'\<rparr>) \<and> h \<in> dom (slots_map (w_slots ws)) \<and>
      (\<exists>s. slots_map (w_slots ws) h = Some (sl_timeout_ms s, sl_last_checkin_us s) \<and>
       slots_map ss' = (slots_map (w_slots ws))(h \<mapsto> (sl_timeout_ms (f s), sl_last_checkin_us (f s))))"
    if "update_first (is_slot_of h) f (w_slots ws) = Some ss'"
      "\<And>s. sl_handle (f s) = sl_handle s" "\<And>s. sl_active (f s) = sl_active s" for h f ss'
    using update_first_slots[OF that(1) _ that(2,3)] ok
    by (auto simp: wdg_ok_def dest: map_eq_imp_length_eq)
  show ?thesis
  proof (cases "(now, c, slots_map (w_slots ws))" rule: wdg_spec.cases)
    case (1 n h tm m)
    then have c: "c = Register (Some h) tm" by simp
    let ?f = "\<lambda>s. s\<lparr>sl_timeout_ms := tm, sl_last_checkin_us := now\<rparr>"
    show ?thesis
    proof (cases "update_first (is_slot_of h) ?f (w_slots ws)")
      case None
      let ?s = "\<lparr>sl_handle = h, sl_timeout_ms = tm, sl_last_checkin_us = now, sl_active = True\<rparr>"
      show ?thesis
        using None nd[OF None] ok card slots_map_snoc[of ?s "w_slots ws"] assms
        by (auto simp: c embediq_wdg_register_def wdg_locked_def wdg_create_mutex_def wdg_ok_def
            embediq_const domIff)
    next
      case (Some ss')
      from upd[OF this] Some ok assms show ?thesis
        by (auto simp: c embediq_wdg_register_def wdg_locked_def wdg_create_mutex_def)
    qed
  next
    case (2 n h m)
    then have c: "c = Checkin (Some h)" by simp
    let ?f = "\<lambda>s. s\<lparr>sl_last_checkin_us := now\<rparr>"
    show ?thesis
    proof (cases "update_first (is_slot_of h) ?f (w_slots ws)")
      case None
      then show ?thesis
        using nd[OF None] ok assms by (auto simp: c embediq_wdg_checkin_def wdg_locked_def)
    next
      case (Some ss')
      from upd[OF this] Some ok show ?thesis
        by (auto simp: c embediq_wdg_checkin_def wdg_locked_def)
    qed
  next
    case (3 n h m)
    then show ?thesis
      using remove_first_slots[of "w_slots ws" h] ok
      by (auto simp: embediq_wdg_unregister_def wdg_locked_def wdg_ok_def)
  qed (use assms in \<open>auto simp: embediq_wdg_register_def embediq_wdg_checkin_def embediq_wdg_unregister_def\<close>)
qed

text \<open>C34: with the mutex free, every call of the interface ends, keeps at most 64 slots, one per
  function block, and does to the map of the watched function blocks what its contract says: a
  registration with a timeout enters or renews, if there is room; a check-in renews the time of a
  watched block only; an unregistration removes.\<close>

theorem wdg_calls_refine_map:
  assumes "wdg_ok ws"
  shows "\<exists>ws'. wdg_exec mem now c ws = Done ws' \<and> wdg_ok ws' \<and>
    slots_map (w_slots ws') = wdg_spec now c (slots_map (w_slots ws))"
  by (rule wdg_exec_map[OF assms])

section \<open>The deadline\<close>

lemma unat_times_1000: "unat (tm * 1000 :: u32) = unat tm * 1000 mod 2 ^ 32"
  by (simp add: unat_word_ariths)

text \<open>A slot last checked in at time t is overdue d microseconds later, the wrap of the
  clock included, exactly when d exceeds the timeout in microseconds taken modulo 2^32. Up to
  4294967 ms that is the timeout; a timeout of 4294968 ms expires after 705 microseconds.\<close>

theorem wdg_deadline_exact:
  assumes "sl_active s" and "d < 2 ^ 32" and "sl_last_checkin_us s = t"
  shows "(overdue (t + word_of_nat d) s \<longleftrightarrow> d > unat (sl_timeout_ms s) * 1000 mod 2 ^ 32) \<and>
    (unat (sl_timeout_ms s) \<le> 4294967 \<longrightarrow>
       (overdue (t + word_of_nat d) s \<longleftrightarrow> d > unat (sl_timeout_ms s) * 1000)) \<and>
    (unat (sl_timeout_ms s) = 4294968 \<and> d = 705 \<longrightarrow> overdue (t + word_of_nat d) s)"
proof -
  have "overdue (t + word_of_nat d) s \<longleftrightarrow> d > unat (sl_timeout_ms s) * 1000 mod 2 ^ 32"
    using assms unat_of_nat_small[of d, where 'a = 32]
    by (simp add: overdue_def word_less_nat_alt unat_times_1000)
  then show ?thesis by auto
qed

section \<open>Witnesses\<close>

definition demo_wdg :: wdg_state where
  "demo_wdg = \<lparr>w_slots = [\<lparr>sl_handle = 0, sl_timeout_ms = 10, sl_last_checkin_us = 0, sl_active = True\<rparr>],
     w_mutex = Some False, w_task = True, w_fb = Some 0, w_running = True, w_kick_seq = 0,
     w_fault_count = 0, hw_inited = True, hw_timeout_ms = 5000, hw_kicks = 0\<rparr>"

lemma demo_wdg_facts: "overdue_count 5000 (w_slots demo_wdg) = 0"
  "overdue_count 20000 (w_slots demo_wdg) = 1" "w_mutex demo_wdg = Some False" "wdg_ok demo_wdg"
  "w_fb demo_wdg = Some 0" "w_kick_seq demo_wdg = 0" "w_fault_count demo_wdg = 0"
  by (simp_all add: demo_wdg_def overdue_def wdg_ok_def)

text \<open>A bus whose only endpoint subscribes to the missed check-in message and has its HIGH queue
  full.\<close>

definition stuck_bus :: "unit world" where
  "stuck_bus = demo_world\<lparr>
     g_subs := [\<lparr>sub_msg_id = MSG_WDG_MISSED_CHECKIN, sub_ep_id = 0\<rparr>],
     g_ep := [empty_ep\<lparr>ep_q := (ep_q empty_ep)[0 := Some \<lparr>q_depth = 16, q_count = 16, q_head = 0,
       q_tail = 0, q_buf = replicate 16 (Some zero_msg)\<rparr>]\<rparr>]\<rparr>"

lemma stuck_bus_facts: "bus_inv stuck_bus" "length (ep_items stuck_bus 0 0) = 16"
  "sub_count MSG_WDG_MISSED_CHECKIN 0 stuck_bus = 1" "g_registry stuck_bus = [demo_fb]"
  "length (g_ep stuck_bus) = 1" "fb_at stuck_bus 0 = demo_fb"
proof -
  have "\<exists>q. ep_q (g_ep stuck_bus ! 0) ! p = Some q \<and> queue_inv q \<and> queue_cap q = prio_cap p"
    if "p < 3" for p
    using that empty_ep_ok unfolding ep_ok_def
    by (cases "p = 0") (auto simp: stuck_bus_def queue_inv_def queue_cap_def prio_cap_def)
  then show "bus_inv stuck_bus"
    using empty_ep_ok by (simp add: bus_inv_def ep_ok_def stuck_bus_def)
  show "length (ep_items stuck_bus 0 0) = 16"
    using empty_ep_ok by (simp add: ep_items_def stuck_bus_def queue_items_def ep_ok_def)
qed (simp_all add: stuck_bus_def sub_count_def subscribers_def demo_world_def fb_at_def)



definition demo_callbacks :: "unit callbacks" where
  "demo_callbacks = \<lparr>cb_init = (\<lambda>_ _ _. Some), cb_fault = (\<lambda>_ _ _ _. Some), cb_run = (\<lambda>_ _ _ _ _. Some)\<rparr>"


lemma wdg_scan_deadlock_witness:
  "\<exists>ws'. monitor_scan demo_callbacks
     20000 (demo_wdg, stuck_bus) = Waits ws' \<and> embediq_wdg_checkin 0 (Some 0) ws' = Waits ws'"
  using wdg_scan_deadlock[where ws = demo_wdg and h = 0 and w = stuck_bus and now_us = 20000 and e = 0] demo_wdg_facts stuck_bus_facts
  by (fastforce simp: demo_fb_def)

lemma wdg_calls_refine_map_witness:
  "\<exists>ws'. wdg_exec True 700 (Checkin (Some 0)) demo_wdg = Done ws' \<and>
     slots_map (w_slots ws') 0 = Some (10, 700)"
proof -
  have "wdg_spec 700 (Checkin (Some 0)) (slots_map (w_slots demo_wdg)) 0 = Some (10, 700)"
    by (simp add: demo_wdg_def)
  then show ?thesis using wdg_calls_refine_map[OF demo_wdg_facts(4), of True 700 "Checkin (Some 0)"] by auto
qed

lemma wdg_deadline_exact_witness:
  "overdue (0xFFFFFF00 + 705) \<lparr>sl_handle = 0, sl_timeout_ms = 4294968,
     sl_last_checkin_us = 0xFFFFFF00, sl_active = True\<rparr>"
  using wdg_deadline_exact[of "\<lparr>sl_handle = 0, sl_timeout_ms = 4294968,
     sl_last_checkin_us = 0xFFFFFF00, sl_active = True\<rparr>" 705 "0xFFFFFF00"] by simp

end
