(* ===== verification/Platform.thy ===== *)
theory Platform
  imports Registry
begin

text \<open>
  The library table core/src/embediq_platform.c: declaration with removal of duplicates by function
  pointer, initialisation in declaration order, teardown in reverse. A function pointer is an
  identifier; \<open>call\<close> says what a library function does to the table and the rest of the program's
  state. The array is the list of its first \<open>s_count\<close> cells.
\<close>

record lib_entry =
  init_fn :: fn_ptr
  deinit_fn :: fn_ptr

record 'w platform =
  s_libs :: "lib_entry list"
  rest :: 'w

text \<open>The search loop: the deinit function registered with an init function.\<close>

fun find_lib :: "nat \<Rightarrow> lib_entry list \<Rightarrow> fn_ptr option" where
  "find_lib f [] = None"
| "find_lib f (e # es) = (if init_fn e = Some f then Some (deinit_fn e) else find_lib f es)"

definition embediq_platform_lib_declare ::
  "fn_ptr \<Rightarrow> fn_ptr \<Rightarrow> 'w platform \<Rightarrow> embediq_err \<times> 'w platform" where
  "embediq_platform_lib_declare ini dei p =
     (case ini of
        None \<Rightarrow> (EMBEDIQ_ERR, p)
      | Some f \<Rightarrow> (case find_lib f (s_libs p) of
          Some d \<Rightarrow> (if d \<noteq> dei then EMBEDIQ_ERR else EMBEDIQ_OK, p)
        | None \<Rightarrow>
            if length (s_libs p) \<ge> EMBEDIQ_MAX_LIB_INITS then (EMBEDIQ_ERR, p)
            else (EMBEDIQ_OK, p\<lparr>s_libs := s_libs p @ [\<lparr>init_fn = Some f, deinit_fn = dei\<rparr>]\<rparr>)))"

definition embediq_platform_lib_count :: "'w platform \<Rightarrow> u8" where
  "embediq_platform_lib_count p = word_of_nat (length (s_libs p))"

definition lib_call :: "(nat \<Rightarrow> 'w platform \<Rightarrow> 'w platform) \<Rightarrow> fn_ptr \<Rightarrow> 'w platform \<Rightarrow> 'w platform" where
  "lib_call call fn p = (case fn of None \<Rightarrow> p | Some f \<Rightarrow> call f p)"

text \<open>The loop of initialisation from index \<open>i\<close> on; it reads the count in every round, and the count
  is at most 16, the fuel it starts with.\<close>

fun lib_init_from :: "(nat \<Rightarrow> 'w platform \<Rightarrow> 'w platform) \<Rightarrow> nat \<Rightarrow> nat \<Rightarrow> 'w platform \<Rightarrow> 'w platform" where
  "lib_init_from call 0 i p = p"
| "lib_init_from call (Suc k) i p =
     (if i < length (s_libs p)
      then lib_init_from call k (i + 1) (lib_call call (init_fn (s_libs p ! i)) p) else p)"

definition embediq_platform_lib_init_all ::
  "(nat \<Rightarrow> 'w platform \<Rightarrow> 'w platform) \<Rightarrow> 'w platform \<Rightarrow> 'w platform" where
  "embediq_platform_lib_init_all call p = lib_init_from call EMBEDIQ_MAX_LIB_INITS 0 p"

text \<open>The teardown loop; a cell that was cleared meanwhile is skipped, as a NULL function is.\<close>

fun lib_deinit_from :: "(nat \<Rightarrow> 'w platform \<Rightarrow> 'w platform) \<Rightarrow> nat \<Rightarrow> 'w platform \<Rightarrow> 'w platform" where
  "lib_deinit_from call 0 p = p"
| "lib_deinit_from call (Suc i) p = lib_deinit_from call i
     (if i < length (s_libs p) then lib_call call (deinit_fn (s_libs p ! i)) p else p)"

definition embediq_platform_lib_deinit_all ::
  "(nat \<Rightarrow> 'w platform \<Rightarrow> 'w platform) \<Rightarrow> 'w platform \<Rightarrow> 'w platform" where
  "embediq_platform_lib_deinit_all call p = lib_deinit_from call (length (s_libs p)) p"

definition embediq_platform_lib_reset :: "'w platform \<Rightarrow> 'w platform" where
  "embediq_platform_lib_reset p = p\<lparr>s_libs := []\<rparr>"

section \<open>Correctness\<close>

lemma find_lib_None: "find_lib f es = None \<longleftrightarrow> Some f \<notin> init_fn ` set es"
  by (induction es) auto

definition declare_all :: "(fn_ptr \<times> fn_ptr) list \<Rightarrow> 'w platform \<Rightarrow> 'w platform" where
  "declare_all ds p = fold (\<lambda>(i, d) p. snd (embediq_platform_lib_declare i d p)) ds p"

text \<open>The non-NULL functions of a list in the order of their first occurrence.\<close>

definition first_occurrences :: "fn_ptr list \<Rightarrow> fn_ptr list" where
  "first_occurrences fs = rev (remdups (rev (filter (\<lambda>f. f \<noteq> None) fs)))"

lemma first_occurrences_snoc:
  "first_occurrences (fs @ [f]) =
     (if f = None \<or> f \<in> set (first_occurrences fs) then first_occurrences fs
      else first_occurrences fs @ [f])"
  by (cases f) (simp_all add: first_occurrences_def)

text \<open>The libraries that a list of declarations leaves: the first 16 distinct init functions, each
  with the deinit function of its first declaration.\<close>

definition declared :: "(fn_ptr \<times> fn_ptr) list \<Rightarrow> (fn_ptr \<times> fn_ptr) list" where
  "declared ds = map (\<lambda>i. (i, the (map_of ds i))) (take 16 (first_occurrences (map fst ds)))"

definition lib_entries :: "(fn_ptr \<times> fn_ptr) list \<Rightarrow> lib_entry list" where
  "lib_entries ps = map (\<lambda>(i, d). \<lparr>init_fn = i, deinit_fn = d\<rparr>) ps"

lemma first_occurrences_set: "set (first_occurrences fs) = set fs - {None}"
  by (auto simp: first_occurrences_def)

lemma map_of_first:
  "i \<in> fst ` set ds \<Longrightarrow> map_of (ds @ es) i = map_of ds i"
  by (auto simp: map_add_def map_of_eq_None_iff split: option.splits dest: weak_map_of_SomeI)

lemma declared_snoc:
  "declared (ds @ [(i, d)]) =
     (if i = None \<or> i \<in> fst ` set ds \<or> 16 \<le> length (first_occurrences (map fst ds)) then declared ds
      else declared ds @ [(i, d)])"
proof -
  have old: "map (\<lambda>i. (i, the (map_of (ds @ [(i', d)]) i))) (take n (first_occurrences (map fst ds))) =
      map (\<lambda>i. (i, the (map_of ds i))) (take n (first_occurrences (map fst ds)))" for i' n
    by (rule map_cong[OF refl]) (use first_occurrences_set[of "map fst ds"] in \<open>auto dest!: in_set_takeD simp: map_of_first image_iff Bex_def simp del: map_of_append\<close>)
  have new: "map_of (ds @ [(i, d)]) i = Some d" if "i \<notin> fst ` set ds"
    using that by (simp add: map_of_eq_None_iff[THEN iffD2] map_add_def)
  show ?thesis
    using old[of i 16] new first_occurrences_set[of "map fst ds"]
    by (auto simp: declared_def first_occurrences_snoc simp del: map_of_append)
qed

lemma find_lib_entries: "find_lib f (lib_entries ps) = map_of ps (Some f)"
  by (induction ps) (auto simp: lib_entries_def)

lemma map_of_declared:
  "map_of (declared ds) i = (if i \<in> set (take 16 (first_occurrences (map fst ds))) then map_of ds i else None)"
proof -
  let ?is = "take 16 (first_occurrences (map fst ds))"
  have "map_of (declared ds) i = (if i \<in> set ?is then Some (the (map_of ds i)) else None)"
    unfolding declared_def by (induction ?is) (auto simp: map_of_map_restrict restrict_map_def)
  moreover have "map_of ds i \<noteq> None" if "i \<in> set ?is"
    using that first_occurrences_set[of "map fst ds"] by (auto dest!: in_set_takeD simp: map_of_eq_None_iff)
  ultimately show ?thesis by auto
qed

lemma declare_all_libs:
  "s_libs (declare_all ds (embediq_platform_lib_reset p)) = lib_entries (declared ds)"
proof (induction ds rule: rev_induct)
  case Nil
  then show ?case
    by (simp add: declare_all_def embediq_platform_lib_reset_def declared_def first_occurrences_def lib_entries_def)
next
  case (snoc x ds)
  obtain i d where x [simp]: "x = (i, d)" by (cases x)
  let ?p = "declare_all ds (embediq_platform_lib_reset p)" and ?L = "first_occurrences (map fst ds)"
  have step: "declare_all (ds @ [x]) (embediq_platform_lib_reset p) = snd (embediq_platform_lib_declare i d ?p)"
    by (simp add: declare_all_def)
  have len: "length (s_libs ?p) = min 16 (length ?L)" using snoc.IH by (simp add: lib_entries_def declared_def min.commute)
  have fnd: "find_lib f (s_libs ?p) = (if Some f \<in> set (take 16 ?L) then map_of ds (Some f) else None)" for f
    by (simp add: snoc.IH find_lib_entries map_of_declared)
  have mem: "Some f \<in> set ?L \<longleftrightarrow> Some f \<in> fst ` set ds" for f
    using first_occurrences_set[of "map fst ds"] by auto
  have "s_libs (snd (embediq_platform_lib_declare i d ?p)) = lib_entries (declared (ds @ [(i, d)]))"
  proof (cases i)
    case None
    then show ?thesis using snoc.IH by (simp add: embediq_platform_lib_declare_def declared_snoc)
  next
    case (Some f)
    consider (dup) "Some f \<in> set (take 16 ?L)" | (full) "Some f \<notin> set (take 16 ?L)" "16 \<le> length ?L"
      | (new) "Some f \<notin> set (take 16 ?L)" "length ?L < 16" by linarith
    then show ?thesis
    proof cases
      case dup
      then have "Some f \<in> fst ` set ds" using mem in_set_takeD by fast
      moreover from this have "map_of ds (Some f) \<noteq> None" by (simp add: map_of_eq_None_iff)
      ultimately show ?thesis
        using snoc.IH fnd[of f] dup by (auto simp: embediq_platform_lib_declare_def Some declared_snoc)
    next
      case full
      then show ?thesis
        using snoc.IH len fnd[of f] by (simp add: embediq_platform_lib_declare_def Some declared_snoc embediq_const)
    next
      case new
      then have "Some f \<notin> fst ` set ds" using mem by simp
      then show ?thesis
        using snoc.IH len fnd[of f] new
        by (simp add: embediq_platform_lib_declare_def Some declared_snoc embediq_const lib_entries_def)
    qed
  qed
  then show ?case using step by simp
qed

lemma lib_call_libs:
  "(\<And>f q. s_libs (call f q) = s_libs q) \<Longrightarrow> s_libs (lib_call call fn p) = s_libs p"
  by (simp add: lib_call_def split: option.splits)

lemma init_from_fold:
  assumes "\<And>f q. s_libs (call f q) = s_libs q" and "length (s_libs p) \<le> i + k"
  shows "lib_init_from call k i p = fold (lib_call call) (map init_fn (drop i (s_libs p))) p"
  using assms(2)
proof (induction k arbitrary: i p)
  case (Suc k)
  show ?case
  proof (cases "i < length (s_libs p)")
    case True
    then show ?thesis
      using Suc.IH[of "lib_call call (init_fn (s_libs p ! i)) p" "i + 1"] Suc.prems
        lib_call_libs[of call, OF assms(1)]
      by (simp flip: Cons_nth_drop_Suc)
  qed simp
qed simp

lemma deinit_from_fold:
  assumes "\<And>f q. s_libs (call f q) = s_libs q" and "i \<le> length (s_libs p)"
  shows "lib_deinit_from call i p = fold (lib_call call) (rev (map deinit_fn (take i (s_libs p)))) p"
  using assms(2)
proof (induction i arbitrary: p)
  case (Suc i)
  then show ?case
    using Suc.IH[of "lib_call call (deinit_fn (s_libs p ! i)) p"] lib_call_libs[of call, OF assms(1)]
    by (simp add: take_Suc_conv_app_nth)
qed simp

text \<open>C39: From an empty table, any sequence of declarations leaves the first 16 distinct init
  functions in the order of their first declaration, each with the deinit function that this
  first declaration gave. With library functions that leave the table alone, initialisation calls
  exactly these init functions, once each in that order, and teardown calls these deinit functions
  in the reverse order, NULL ones skipped. A further declaration is answered with an error exactly
  if it has no init function, names a declared one with another deinit function, or finds no room.\<close>

theorem platform_lib_order:
  assumes "\<And>f q. s_libs (call f q) = s_libs q"
    and "p = declare_all ds (embediq_platform_lib_reset p0)"
    and "inits = take 16 (first_occurrences (map fst ds))"
  shows "embediq_platform_lib_init_all call p = fold (lib_call call) inits p \<and>
    embediq_platform_lib_deinit_all call p =
      fold (lib_call call) (rev (map (\<lambda>i. the (map_of ds i)) inits)) p \<and>
    unat (embediq_platform_lib_count p) = length inits \<and>
    (fst (embediq_platform_lib_declare i d p) = EMBEDIQ_ERR \<longleftrightarrow>
      i = None \<or> (if i \<in> set inits then map_of ds i \<noteq> Some d else 16 \<le> length inits))"
proof -
  have libs: "s_libs p = lib_entries (declared ds)" unfolding assms(2) by (rule declare_all_libs)
  have m: "map init_fn (s_libs p) = inits" "map deinit_fn (s_libs p) = map (\<lambda>i. the (map_of ds i)) inits"
    "length (s_libs p) = length inits"
    by (simp_all add: libs lib_entries_def declared_def assms(3) comp_def)
  have "find_lib f (s_libs p) = (if Some f \<in> set inits then map_of ds (Some f) else None)" for f
    by (simp add: libs find_lib_entries map_of_declared assms(3))
  moreover have "map_of ds i \<noteq> None" if "i \<in> set inits" for i
    using that first_occurrences_set[of "map fst ds"] unfolding assms(3)
    by (auto dest!: in_set_takeD simp: map_of_eq_None_iff)
  ultimately have "fst (embediq_platform_lib_declare i d p) = EMBEDIQ_ERR \<longleftrightarrow>
      i = None \<or> (if i \<in> set inits then map_of ds i \<noteq> Some d else 16 \<le> length inits)"
    by (cases i; cases "i \<in> set inits") (force simp: embediq_platform_lib_declare_def m(3) embediq_const)+
  moreover have "length inits \<le> 16" by (simp add: assms(3))
  ultimately show ?thesis
    using init_from_fold[of call p 0 16, OF assms(1)] deinit_from_fold[of call "length (s_libs p)" p, OF assms(1)] m
    by (simp add: embediq_platform_lib_init_all_def embediq_platform_lib_deinit_all_def
        embediq_const embediq_platform_lib_count_def unat_of_nat_small)
qed

text \<open>Library functions that only record that they were called.\<close>

definition recording :: "nat \<Rightarrow> nat list platform \<Rightarrow> nat list platform" where
  "recording f p = p\<lparr>rest := rest p @ [f]\<rparr>"

lemma platform_lib_order_witness:
  "let p = declare_all [(Some 1, None), (Some 2, Some 7), (Some 1, None), (None, None), (Some 3, Some 8)]
       (embediq_platform_lib_reset \<lparr>s_libs = [], rest = []\<rparr>)
   in rest (embediq_platform_lib_init_all recording p) = [1, 2, 3] \<and>
      rest (embediq_platform_lib_deinit_all recording p) = [8, 7]"
proof -
  have r: "s_libs (recording f q) = s_libs q" for f q by (simp add: recording_def)
  have "rest (declare_all ds (embediq_platform_lib_reset \<lparr>s_libs = [], rest = []\<rparr>)) = []"
    for ds :: "(fn_ptr \<times> fn_ptr) list"
    by (induction ds rule: rev_induct) (auto simp: declare_all_def embediq_platform_lib_reset_def
        embediq_platform_lib_declare_def split: option.splits)
  then show ?thesis
    using platform_lib_order[of recording _ "[(Some 1, None), (Some 2, Some 7), (Some 1, None),
        (None, None), (Some 3, Some 8)]" "\<lparr>s_libs = [], rest = []\<rparr>", OF r refl refl, of None None]
    by (simp add: first_occurrences_def lib_call_def Let_def) (simp add: recording_def)
qed

end
