(* ===== verification/Float32.thy ===== *)
theory Float32
  imports Prelude
begin

text \<open>
  C's type float as the function blocks compute with it: IEEE 754 binary32 on its 32-bit
  encoding, rounding to nearest with ties to even. Magnitudes are natural numbers in units of
  2^-149, the smallest positive float, so that every finite float and every exact result the code
  needs is a fraction of natural numbers. A NaN result is the quiet NaN with an empty payload.
  The lemmas say that rounding is exact on representable values and errs by at most half a unit
  in the last place.
\<close>

section \<open>Encoding\<close>

definition f32_nan :: u32 where "f32_nan = 0x7FC00000"
definition f32_sign :: "u32 \<Rightarrow> bool" where "f32_sign b \<longleftrightarrow> 2 ^ 31 \<le> unat b"
definition f32_abs :: "u32 \<Rightarrow> nat" where "f32_abs b = unat b mod 2 ^ 31"
definition f32_inf_code :: nat where "f32_inf_code = 255 * 2 ^ 23"
definition f32_is_nan :: "u32 \<Rightarrow> bool" where "f32_is_nan b \<longleftrightarrow> f32_abs b > f32_inf_code"
definition f32_is_inf :: "u32 \<Rightarrow> bool" where "f32_is_inf b \<longleftrightarrow> f32_abs b = f32_inf_code"
definition f32_finite :: "u32 \<Rightarrow> bool" where "f32_finite b \<longleftrightarrow> f32_abs b < f32_inf_code"

text \<open>The magnitude that an exponent and fraction field encode, and back from sign and code.\<close>

definition code_mag :: "nat \<Rightarrow> nat" where
  "code_mag c = (if c div 2 ^ 23 = 0 then c mod 2 ^ 23
     else (2 ^ 23 + c mod 2 ^ 23) * 2 ^ (c div 2 ^ 23 - 1))"

definition f32_pack :: "bool \<Rightarrow> nat \<Rightarrow> u32" where
  "f32_pack s c = word_of_nat (c + (if s then 2 ^ 31 else 0))"

text \<open>The value of a finite float in units of 2^-149.\<close>

definition f32_int :: "u32 \<Rightarrow> int" where
  "f32_int b = (if f32_sign b then - int (code_mag (f32_abs b)) else int (code_mag (f32_abs b)))"

section \<open>Rounding\<close>

fun nbits :: "nat \<Rightarrow> nat" where
  "nbits n = (if n = 0 then 0 else Suc (nbits (n div 2)))"

declare nbits.simps [simp del]

lemma nbits_0 [simp]: "nbits 0 = 0"
  by (simp add: nbits.simps)

definition round_even :: "nat \<Rightarrow> nat \<Rightarrow> nat" where
  "round_even n d =
     (let q = n div d; r = n mod d
      in if 2 * r < d then q else if d < 2 * r then Suc q else if even q then q else Suc q)"

text \<open>The exponent that leaves 24 significant bits, and the code of a fraction of natural numbers;
  what does not fit is infinite.\<close>

definition round_exp :: "nat \<Rightarrow> nat \<Rightarrow> nat" where
  "round_exp n d = nbits (n div d) - 24"

definition round_code :: "nat \<Rightarrow> nat \<Rightarrow> nat" where
  "round_code n d = min f32_inf_code
     (round_exp n d * 2 ^ 23 + round_even n (d * 2 ^ round_exp n d))"

definition f32_round :: "bool \<Rightarrow> nat \<Rightarrow> nat \<Rightarrow> u32" where
  "f32_round s n d = f32_pack s (round_code n d)"

section \<open>Operations\<close>

definition f32_of_int :: "int \<Rightarrow> u32" where
  "f32_of_int k = f32_round (k < 0) (nat \<bar>k\<bar> * 2 ^ 149) 1"

definition f32_of_u32 :: "u32 \<Rightarrow> u32" where
  "f32_of_u32 w = f32_round False (unat w * 2 ^ 149) 1"

definition f32_neg :: "u32 \<Rightarrow> u32" where
  "f32_neg a = a XOR 0x80000000"

definition f32_add :: "u32 \<Rightarrow> u32 \<Rightarrow> u32" where
  "f32_add a b =
     (if f32_is_nan a \<or> f32_is_nan b then f32_nan
      else if f32_is_inf a then (if f32_is_inf b \<and> f32_sign a \<noteq> f32_sign b then f32_nan else a)
      else if f32_is_inf b then b
      else let s = f32_int a + f32_int b
        in if s = 0 then f32_pack (f32_sign a \<and> f32_sign b) 0
           else f32_round (s < 0) (nat \<bar>s\<bar>) 1)"

definition f32_sub :: "u32 \<Rightarrow> u32 \<Rightarrow> u32" where
  "f32_sub a b = f32_add a (f32_neg b)"

definition f32_div :: "u32 \<Rightarrow> u32 \<Rightarrow> u32" where
  "f32_div a b =
     (let s = (f32_sign a \<noteq> f32_sign b)
      in if f32_is_nan a \<or> f32_is_nan b then f32_nan
         else if f32_is_inf a then (if f32_is_inf b then f32_nan else f32_pack s f32_inf_code)
         else if f32_is_inf b then f32_pack s 0
         else if f32_int b = 0
           then (if f32_int a = 0 then f32_nan else f32_pack s f32_inf_code)
         else f32_round s (nat \<bar>f32_int a\<bar> * 2 ^ 149) (nat \<bar>f32_int b\<bar>))"

text \<open>The order of the codes, with the sign as in the code's comparison.\<close>

definition f32_key :: "u32 \<Rightarrow> int" where
  "f32_key b = (if f32_sign b then - int (f32_abs b) else int (f32_abs b))"

definition f32_less :: "u32 \<Rightarrow> u32 \<Rightarrow> bool" where
  "f32_less a b \<longleftrightarrow> \<not> f32_is_nan a \<and> \<not> f32_is_nan b \<and> f32_key a < f32_key b"

definition f32_le :: "u32 \<Rightarrow> u32 \<Rightarrow> bool" where
  "f32_le a b \<longleftrightarrow> \<not> f32_is_nan a \<and> \<not> f32_is_nan b \<and> f32_key a \<le> f32_key b"

section \<open>Correctness of rounding\<close>

lemma nbits_le: "n < 2 ^ k \<Longrightarrow> nbits n \<le> k"
proof (induction k arbitrary: n)
  case (Suc k)
  then have "n div 2 < 2 ^ k" by auto
  from Suc.IH[OF this] show ?case by (subst nbits.simps) simp
qed (simp add: nbits.simps)

lemma nbits_upper: "n < 2 ^ nbits n"
proof (induction n rule: nbits.induct)
  case (1 n)
  show ?case
  proof (cases "n = 0")
    case False
    with 1 have "n div 2 < 2 ^ nbits (n div 2)" by simp
    then have "n < 2 * 2 ^ nbits (n div 2)" by linarith
    then show ?thesis using False by (subst nbits.simps) simp
  qed (simp add: nbits.simps)
qed

lemma nbits_lower: "0 < n \<Longrightarrow> 2 ^ (nbits n - 1) \<le> n"
proof (induction n rule: nbits.induct)
  case (1 n)
  show ?case
  proof (cases "n div 2 = 0")
    case True
    with 1 have "n = 1" by auto
    then show ?thesis by (simp add: nbits.simps)
  next
    case False
    with 1 have l: "2 ^ (nbits (n div 2) - 1) \<le> n div 2" by simp
    have "nbits (n div 2) = Suc (nbits (n div 2) - 1)" using False nbits.simps[of "n div 2"] by simp
    then have "2 ^ nbits (n div 2) = 2 * 2 ^ (nbits (n div 2) - (1::nat))" by (metis power_Suc)
    also have "\<dots> \<le> n" using l by linarith
    finally show ?thesis using 1 by (subst nbits.simps) simp
  qed
qed

lemma code_mag_eq:
  assumes "m \<le> 2 ^ 24" and "e > 0 \<Longrightarrow> 2 ^ 23 \<le> m"
  shows "code_mag (e * 2 ^ 23 + m) = m * 2 ^ e"
proof -
  consider "m < 2 ^ 23" "e = 0" | "2 ^ 23 \<le> m" "m < 2 ^ 24" | "m = 2 ^ 24"
    using assms by fastforce
  then show ?thesis
  proof cases
    case 2
    define f where "f = m - 2 ^ 23"
    have m: "m = 2 ^ 23 + f" "f < 2 ^ 23" using 2 by (simp_all add: f_def)
    have "e * 2 ^ 23 + m = Suc e * 2 ^ 23 + f" using m(1) by simp
    then have "(e * 2 ^ 23 + m) div 2 ^ 23 = Suc e" "(e * 2 ^ 23 + m) mod 2 ^ 23 = f"
      using m(2) by (simp_all only: div_mult_self3 mod_mult_self3) simp_all
    then show ?thesis using m(1) by (simp add: code_mag_def)
  next
    case 3
    then have "e * 2 ^ 23 + m = (e + 2) * 2 ^ 23" by simp
    then have "(e * 2 ^ 23 + m) div 2 ^ 23 = e + 2" "(e * 2 ^ 23 + m) mod 2 ^ 23 = 0" by simp_all
    then show ?thesis using 3 by (simp add: code_mag_def)
  qed (simp add: code_mag_def)
qed

lemma round_even_near:
  assumes "0 < d"
  shows "2 * (round_even n d * d) \<le> 2 * n + d" and "2 * n \<le> 2 * (round_even n d * d) + d"
proof -
  define q r where "q = n div d" and "r = n mod d"
  have n: "q * d + r = n" and s: "Suc q * d = q * d + d" by (simp_all add: q_def r_def)
  have c: "round_even n d = q \<and> 2 * r \<le> d \<or> round_even n d = Suc q \<and> d \<le> 2 * r \<and> r < d"
    using assms by (auto simp: round_even_def Let_def q_def[symmetric] r_def[symmetric]) (auto simp: r_def)
  from c have "2 * (round_even n d * d) \<le> 2 * n + d \<and> 2 * n \<le> 2 * (round_even n d * d) + d"
  proof (elim disjE conjE)
    assume "round_even n d = q" and "2 * r \<le> d"
    with n show ?thesis by simp
  next
    assume e: "round_even n d = Suc q" and "d \<le> 2 * r" "r < d"
    then show ?thesis unfolding e s n[symmetric] by simp
  qed
  then show "2 * (round_even n d * d) \<le> 2 * n + d" "2 * n \<le> 2 * (round_even n d * d) + d" by simp_all
qed

lemma round_even_exact: "0 < d \<Longrightarrow> round_even (q * d) d = q"
  by (simp add: round_even_def)


lemma half_cancel:
  fixes m n k D :: nat
  shows "0 < D \<Longrightarrow> 2 * (m * D) \<le> 2 * n + D \<Longrightarrow> n < k * D \<Longrightarrow> m \<le> k"
    and "0 < D \<Longrightarrow> k * D \<le> n \<Longrightarrow> 2 * n \<le> 2 * (m * D) + D \<Longrightarrow> k \<le> m"
proof -
  assume a: "0 < D" "2 * (m * D) \<le> 2 * n + D" "n < k * D"
  show "m \<le> k"
  proof (rule ccontr)
    assume "\<not> m \<le> k"
    then have "Suc k * D \<le> m * D" by (intro mult_le_mono1) simp
    then have "k * D + D \<le> m * D" by simp
    with a show False by linarith
  qed
next
  assume a: "0 < D" "k * D \<le> n" "2 * n \<le> 2 * (m * D) + D"
  show "k \<le> m"
  proof (rule ccontr)
    assume "\<not> k \<le> m"
    then have "Suc m * D \<le> k * D" by (intro mult_le_mono1) simp
    then have "m * D + D \<le> k * D" by simp
    with a show False by linarith
  qed
qed

lemma round_mantissa:
  assumes "0 < d" and e: "e = round_exp n d"
  shows "round_even n (d * 2 ^ e) \<le> 2 ^ 24" and "e > 0 \<Longrightarrow> 2 ^ 23 \<le> round_even n (d * 2 ^ e)"
proof -
  let ?D = "d * 2 ^ e" and ?m = "round_even n (d * 2 ^ e)"
  have D: "0 < ?D" using assms(1) by simp
  note near = round_even_near[OF D, of n]
  have "n div d < 2 ^ nbits (n div d)" by (rule nbits_upper)
  also have "\<dots> \<le> 2 ^ (24 + e)" by (intro power_increasing) (simp_all add: e round_exp_def)
  finally have "n < 2 ^ 24 * ?D"
    using assms(1) by (simp add: div_less_iff_less_mult power_add mult.commute mult.left_commute)
  then show "?m \<le> 2 ^ 24" by (rule half_cancel(1)[OF D near(1)])
  show "2 ^ 23 \<le> ?m" if "e > 0"
  proof -
    from that have b: "nbits (n div d) - 1 = 23 + e" by (simp add: e round_exp_def)
    have "0 < n div d"
      using that by (cases "n div d = 0") (auto simp: e round_exp_def simp del: div_greater_zero_iff)
    then have "2 ^ (23 + e) \<le> n div d" using nbits_lower[of "n div d"] b by simp
    then have "2 ^ (23 + e) * d \<le> n"
      using assms(1) by (simp add: less_eq_div_iff_mult_less_eq)
    then have "2 ^ 23 * ?D \<le> n" by (simp add: power_add mult.commute mult.left_commute)
    then show ?thesis by (rule half_cancel(2)[OF D _ near(2)])
  qed
qed

lemma min_less: "min a b < a \<Longrightarrow> min a b = (b::nat)"
  by auto

text \<open>A rounded fraction below the infinite code is within half a unit in the last place.\<close>

lemma round_code_near:
  assumes "0 < d" and "round_code n d < f32_inf_code"
  shows "2 * (code_mag (round_code n d) * d) \<le> 2 * n + d * 2 ^ round_exp n d"
    and "2 * n \<le> 2 * (code_mag (round_code n d) * d) + d * 2 ^ round_exp n d"
proof -
  let ?e = "round_exp n d"
  let ?m = "round_even n (d * 2 ^ ?e)"
  have "round_code n d = ?e * 2 ^ 23 + ?m"
    using assms(2) min_less[of f32_inf_code] by (simp only: round_code_def)
  then have "code_mag (round_code n d) = ?m * 2 ^ ?e"
    by (simp only: code_mag_eq[OF round_mantissa[OF assms(1) refl]])
  then have eq: "code_mag (round_code n d) * d = ?m * (d * 2 ^ ?e)" by (simp add: mult.commute)
  have D: "0 < d * 2 ^ ?e" using assms(1) by simp
  show "2 * (code_mag (round_code n d) * d) \<le> 2 * n + d * 2 ^ ?e"
    "2 * n \<le> 2 * (code_mag (round_code n d) * d) + d * 2 ^ ?e"
    unfolding eq by (rule round_even_near[OF D])+
qed

text \<open>Rounding a representable value gives that value.\<close>

lemma round_code_exact:
  assumes "0 < d" and "m < 2 ^ 24" and "a \<le> 253"
  shows "code_mag (round_code (m * 2 ^ a * d) d) = m * 2 ^ a"
    and "round_code (m * 2 ^ a * d) d < f32_inf_code"
proof -
  let ?k = "m * 2 ^ a" and ?n = "m * 2 ^ a * d"
  let ?e = "round_exp ?n d"
  have "?k < 2 ^ (24 + a)" using assms(2) by (simp add: power_add)
  then have "nbits ?k \<le> 24 + a" by (rule nbits_le)
  then have e: "?e \<le> a" using assms(1) by (simp add: round_exp_def)
  then have p: "2 ^ a = 2 ^ (a - ?e) * (2::nat) ^ ?e" by (simp flip: power_add)
  then have n: "?n = (m * 2 ^ (a - ?e)) * (d * 2 ^ ?e)" by (metis mult.assoc mult.commute)
  have r: "round_even ?n (d * 2 ^ ?e) = m * 2 ^ (a - ?e)"
    using round_even_exact[of "d * 2 ^ ?e" "m * 2 ^ (a - ?e)"] assms(1) n by simp
  note mant = round_mantissa[OF assms(1) refl, of ?n, unfolded r]
  have le: "m * 2 ^ (a - ?e) < 2 ^ 24 \<or> ?e = 0"
  proof (cases "?e = 0")
    case False
    then have "nbits (?n div d) = 24 + ?e" by (simp add: round_exp_def)
    then have "?k < 2 ^ (24 + ?e)" using nbits_upper[of ?k] assms(1) by simp
    then have "m * 2 ^ (a - ?e) * 2 ^ ?e < 2 ^ 24 * 2 ^ ?e" using p by (simp add: power_add mult.assoc)
    then show ?thesis by (simp only: mult_less_cancel2 simp_thms)
  qed simp
  have "?e * 2 ^ 23 + m * 2 ^ (a - ?e) < f32_inf_code"
  proof (cases "?e = 0")
    case True
    then show ?thesis using mant(1) by (simp add: f32_inf_code_def)
  next
    case False
    with le have "m * 2 ^ (a - ?e) < 2 ^ 24" by simp
    moreover have "?e * 2 ^ 23 \<le> 253 * 2 ^ 23" using e assms(3) by (intro mult_le_mono1) simp
    ultimately show ?thesis by (simp add: f32_inf_code_def)
  qed
  then have c: "round_code ?n d = ?e * 2 ^ 23 + m * 2 ^ (a - ?e)"
    and l: "round_code ?n d < f32_inf_code"
    unfolding round_code_def r by (simp_all only: min.absorb2 less_imp_le)
  show "round_code ?n d < f32_inf_code" by (rule l)
  show "code_mag (round_code ?n d) = ?k"
    using code_mag_eq[OF mant] p unfolding c by (simp add: mult.assoc)
qed


section \<open>Small integers\<close>

lemma pack_fields:
  assumes "c \<le> f32_inf_code"
  shows "f32_abs (f32_pack s c) = c" and "f32_sign (f32_pack s c) = s"
proof -
  have "c < 2 ^ 31" using assms by (simp add: f32_inf_code_def)
  then have u: "unat (f32_pack s c) = c + (if s then 2 ^ 31 else 0)"
    unfolding f32_pack_def by (intro unat_of_nat_small) simp
  show "f32_abs (f32_pack s c) = c" "f32_sign (f32_pack s c) = s"
    using \<open>c < 2 ^ 31\<close> by (simp_all add: f32_abs_def f32_sign_def u)
qed

lemma round_code_le: "round_code n d \<le> f32_inf_code"
  by (simp add: round_code_def)

lemma f32_round_fields:
  "f32_abs (f32_round s n d) = round_code n d" "f32_sign (f32_round s n d) = s"
  unfolding f32_round_def by (simp_all only: pack_fields[OF round_code_le])

lemma round_zero: "0 < d \<Longrightarrow> round_code 0 d = 0"
  by (simp add: round_code_def round_exp_def round_even_def)

lemma f32_of_int_exact:
  assumes "\<bar>k\<bar> < 2 ^ 24"
  shows "f32_int (f32_of_int k) = k * 2 ^ 149" and "f32_finite (f32_of_int k)"
    and "f32_sign (f32_of_int k) = (k < 0)"
proof -
  have m: "nat \<bar>k\<bar> < 2 ^ 24" using assms by simp
  note e = round_code_exact[of 1 "nat \<bar>k\<bar>" 149, OF _ m]
  show "f32_finite (f32_of_int k)"
    using e(2) unfolding f32_finite_def f32_of_int_def f32_round_fields by (simp del: power_numeral)
  have v: "code_mag (round_code (nat \<bar>k\<bar> * 2 ^ 149) 1) = nat \<bar>k\<bar> * 2 ^ 149"
    using e(1) by (simp del: power_numeral)
  have "int (nat \<bar>k\<bar> * 2 ^ 149) = \<bar>k\<bar> * 2 ^ 149" by (simp del: power_numeral)
  then show "f32_int (f32_of_int k) = k * 2 ^ 149"
    unfolding f32_int_def f32_of_int_def f32_round_fields v by (simp del: power_numeral)
  show "f32_sign (f32_of_int k) = (k < 0)" unfolding f32_of_int_def by (rule f32_round_fields)
qed

lemma finite_flags: "f32_finite b \<Longrightarrow> \<not> f32_is_nan b \<and> \<not> f32_is_inf b"
  by (simp add: f32_finite_def f32_is_nan_def f32_is_inf_def)

text \<open>Sums of integers are exact as long as the result has 24 bits.\<close>

lemma f32_add_int:
  assumes "\<bar>a\<bar> < 2 ^ 24" and "\<bar>b\<bar> < 2 ^ 24" and "\<bar>a + b\<bar> < 2 ^ 24"
  shows "f32_add (f32_of_int a) (f32_of_int b) = f32_of_int (a + b)"
proof -
  let ?a = "f32_of_int a" and ?b = "f32_of_int b"
  have flags: "\<not> f32_is_nan ?a" "\<not> f32_is_inf ?a" "\<not> f32_is_nan ?b" "\<not> f32_is_inf ?b"
    using finite_flags f32_of_int_exact(2) assms by blast+
  have s: "f32_int ?a + f32_int ?b = (a + b) * 2 ^ 149"
    unfolding f32_of_int_exact(1)[OF assms(1)] f32_of_int_exact(1)[OF assms(2)] by (rule distrib_right[symmetric])
  have sg: "f32_sign ?a = (a < 0)" "f32_sign ?b = (b < 0)" using f32_of_int_exact(3) assms by blast+
  show ?thesis
  proof (cases "a + b = 0")
    case True
    then have "f32_add ?a ?b = f32_pack (a < 0 \<and> b < 0) 0"
      using flags s unfolding f32_add_def sg by (simp del: power_numeral add: Let_def)
    also have "(a < 0 \<and> b < 0) = False" using True by auto
    also have "f32_pack False 0 = f32_of_int (a + b)"
      using True by (simp add: f32_of_int_def f32_round_def round_zero)
    finally show ?thesis .
  next
    case False
    have "((a + b) * 2 ^ 149 < 0) = (a + b < 0)" by (simp add: mult_less_0_iff del: power_numeral)
    moreover have "nat \<bar>(a + b) * 2 ^ 149\<bar> = nat \<bar>a + b\<bar> * 2 ^ 149"
      by (simp add: abs_mult nat_mult_distrib nat_power_eq del: power_numeral)
    ultimately show ?thesis
      using False flags unfolding f32_add_def s f32_of_int_def[of "a + b"] Let_def
      by (simp del: power_numeral)
  qed
qed

lemma f32_of_u32_int: "f32_of_u32 w = f32_of_int (int (unat w))"
  by (simp add: f32_of_u32_def f32_of_int_def)

text \<open>Dividing small integers rounds their quotient once; a whole quotient is exact.\<close>

lemma round_even_scale: "0 < k \<Longrightarrow> round_even (n * k) (d * k) = round_even n d"
proof -
  assume k: "0 < k"
  have "n * k mod (d * k) = (n mod d) * k" by (rule mod_mult_mult2)
  moreover have "2 * (x * k) < d * k \<longleftrightarrow> 2 * x < d" "d * k < 2 * (x * k) \<longleftrightarrow> d < 2 * x" for x
    using k by (simp_all flip: mult.assoc)
  ultimately show ?thesis using k by (simp add: round_even_def Let_def)
qed

lemma f32_round_scale:
  assumes "0 < k"
  shows "f32_round s (n * k) (d * k) = f32_round s n d"
proof -
  have e: "round_exp (n * k) (d * k) = round_exp n d" using assms by (simp add: round_exp_def)
  have "d * k * x = d * x * k" for x by simp
  then have "round_code (n * k) (d * k) = round_code n d"
    using round_even_scale[OF assms] by (simp only: round_code_def e)
  then show ?thesis by (simp add: f32_round_def)
qed

lemma f32_div_int:
  assumes "\<bar>a\<bar> < 2 ^ 24" and "0 < n" and "n < 2 ^ 24"
  shows "f32_div (f32_of_int a) (f32_of_int (int n)) = f32_round (a < 0) (nat \<bar>a\<bar> * 2 ^ 149) n"
proof -
  let ?a = "f32_of_int a" and ?b = "f32_of_int (int n)"
  have n: "\<bar>int n\<bar> < 2 ^ 24" using assms(3) by simp
  have flags: "\<not> f32_is_nan ?a" "\<not> f32_is_inf ?a" "\<not> f32_is_nan ?b" "\<not> f32_is_inf ?b"
    using finite_flags f32_of_int_exact(2) assms(1) n by blast+
  have sg: "f32_sign ?a = (a < 0)" "f32_sign ?b = False"
    using f32_of_int_exact(3)[OF assms(1)] f32_of_int_exact(3)[OF n] by simp_all
  define u :: nat where "u = 2 ^ 149"
  have u: "0 < u" by (simp add: u_def)
  have v: "f32_int ?a = a * int u" "f32_int ?b = int n * int u"
    using f32_of_int_exact(1)[OF assms(1)] f32_of_int_exact(1)[OF n] by (simp_all add: u_def del: power_numeral)
  have "f32_int ?b \<noteq> 0" unfolding v using assms(2) u by simp
  then have "f32_div ?a ?b = f32_round (a < 0) (nat \<bar>a * int u\<bar> * u) (nat \<bar>int n * int u\<bar>)"
    unfolding f32_div_def sg v u_def[symmetric] using flags by (simp add: Let_def)
  also have "nat \<bar>int n * int u\<bar> = n * u" by (simp add: abs_mult nat_mult_distrib)
  also have "nat \<bar>a * int u\<bar> * u = nat \<bar>a\<bar> * u * u" by (simp add: abs_mult nat_mult_distrib)
  also have "f32_round (a < 0) (nat \<bar>a\<bar> * u * u) (n * u) = f32_round (a < 0) (nat \<bar>a\<bar> * u) n"
    by (rule f32_round_scale[OF u])
  finally show ?thesis unfolding u_def .
qed

lemma f32_round_whole:
  assumes "0 < n"
  shows "f32_round (a * int n < 0) (nat \<bar>a * int n\<bar> * 2 ^ 149) n = f32_of_int a"
proof -
  have "nat \<bar>a * int n\<bar> * 2 ^ 149 = nat \<bar>a\<bar> * 2 ^ 149 * n" by (simp add: abs_mult nat_mult_distrib del: power_numeral)
  moreover have "a * int n < 0 \<longleftrightarrow> a < 0" using assms by (simp add: mult_less_0_iff)
  ultimately show ?thesis
    using f32_round_scale[OF assms, of "a < 0" "nat \<bar>a\<bar> * 2 ^ 149" 1] by (simp only: f32_of_int_def mult_1)
qed

text \<open>Finite floats are ordered as their values.\<close>

lemma code_mag_mono: "c < c' \<Longrightarrow> code_mag c < code_mag c'"
proof -
  assume lt: "c < c'"
  define e f e' f' where d: "e = c div 2 ^ 23" "f = c mod 2 ^ 23" "e' = c' div 2 ^ 23" "f' = c' mod 2 ^ 23"
  have f: "f < 2 ^ 23" "f' < 2 ^ 23" by (simp_all add: d)
  have "e \<le> e'" using lt unfolding d by (intro div_le_mono) simp
  then consider "e = e'" "f < f'" | "e < e'"
    using lt div_mult_mod_eq[of c "2 ^ 23"] div_mult_mod_eq[of c' "2 ^ 23"]
    unfolding d[symmetric] by (metis le_neq_implies_less nat_add_left_cancel_less)
  then show ?thesis
  proof cases
    case 1
    then show ?thesis unfolding code_mag_def d[symmetric] by simp
  next
    case 2
    have "(2 ^ 23 + f) * 2 ^ (e - 1) < 2 ^ 24 * 2 ^ (e - 1)" using f(1) by (intro mult_strict_right_mono) simp_all
    moreover have "2 ^ 24 * 2 ^ (e - 1) \<le> (2 ^ 23 + f') * (2::nat) ^ (e' - 1)" if "e > 0"
    proof -
      have "e' - 1 = (e - 1) + Suc (e' - e - 1)" using 2 that by simp
      then have "(2::nat) ^ (e' - 1) = 2 ^ (e - 1) * (2 * 2 ^ (e' - e - 1))"
        by (simp only: power_add power_Suc)
      moreover have "(2::nat) ^ 24 * 2 ^ (e - 1) \<le> 2 ^ 23 * (2 ^ (e - 1) * (2 * 2 ^ (e' - e - 1)))" by simp
      ultimately show ?thesis by (metis le_trans mult_le_mono1 le_add1)
    qed
    moreover have "f < (2 ^ 23 + f') * 2 ^ (e' - 1)"
    proof -
      have "f < 2 ^ 23 * 1" using f by simp
      also have "\<dots> \<le> (2 ^ 23 + f') * 2 ^ (e' - 1)" by (intro mult_le_mono) simp_all
      finally show ?thesis .
    qed
    moreover have "(2 ^ 23 + f) * 2 ^ (e - 1) < (2 ^ 23 + f') * 2 ^ (e' - 1)" if "e > 0"
      using calculation(1) calculation(2)[OF that] by (rule less_le_trans)
    ultimately show ?thesis using 2 unfolding code_mag_def d[symmetric] by (auto simp del: power_numeral)
  qed
qed

lemma f32_less_iff:
  assumes "f32_finite a" and "f32_finite b"
  shows "f32_less a b \<longleftrightarrow> f32_int a < f32_int b"
proof -
  have mono: "code_mag c < code_mag c' \<longleftrightarrow> c < c'" for c c'
    using code_mag_mono[of c c'] code_mag_mono[of c' c] by (cases c c' rule: linorder_cases) simp_all
  have c0: "code_mag 0 = 0" by (simp add: code_mag_def)
  have z: "code_mag c = 0 \<longleftrightarrow> c = 0" for c
    using mono[of 0 c] unfolding c0 by auto
  note k = f32_less_def f32_key_def f32_int_def
  show ?thesis
  proof (cases "f32_sign a"; cases "f32_sign b")
    assume "f32_sign a" "\<not> f32_sign b"
    then show ?thesis
      using finite_flags[OF assms(1)] finite_flags[OF assms(2)] z[of "f32_abs a"] z[of "f32_abs b"]
      by (simp add: k) linarith
  qed (use finite_flags[OF assms(1)] finite_flags[OF assms(2)] mono in \<open>simp_all add: k\<close>)
qed

lemma f32_int_order:
  assumes "\<bar>a\<bar> < 2 ^ 24" and "\<bar>b\<bar> < 2 ^ 24"
  shows "f32_less (f32_of_int a) (f32_of_int b) \<longleftrightarrow> a < b" and "f32_le (f32_of_int a) (f32_of_int b) \<longleftrightarrow> a \<le> b"
proof -
  have l: "f32_less (f32_of_int x) (f32_of_int y) \<longleftrightarrow> x < y" if "\<bar>x\<bar> < 2 ^ 24" "\<bar>y\<bar> < 2 ^ 24" for x y
    using that by (simp add: f32_less_iff f32_of_int_exact)
  have "f32_le x y \<longleftrightarrow> \<not> f32_less y x" if "f32_finite x" "f32_finite y" for x y
    using finite_flags[OF that(1)] finite_flags[OF that(2)] by (auto simp: f32_le_def f32_less_def)
  then show "f32_le (f32_of_int a) (f32_of_int b) \<longleftrightarrow> a \<le> b"
    using l[OF assms(2,1)] f32_of_int_exact(2) assms by auto
  show "f32_less (f32_of_int a) (f32_of_int b) \<longleftrightarrow> a < b" by (rule l[OF assms])
qed

end
