(* ===== verification/Telemetry.thy ===== *)
theory Telemetry
  imports Publish Timer Float32
begin

text \<open>
  The telemetry service fbs/services/fb_telemetry.c: the metric table, the three aggregators, the
  window timer, the batches it publishes, and the handlers as the dispatcher calls them. Floats are
  the 32-bit words of theory Float32. A handler gets the bytes its argument points to, which is the
  payload of the received message (\<open>dispatch_msg_to_fb\<close>).
\<close>

section \<open>Constants and data\<close>

definition MSG_TELEMETRY_GAUGE :: u16 where [embediq_const]: "MSG_TELEMETRY_GAUGE = 0x0640"
definition MSG_TELEMETRY_COUNTER :: u16 where [embediq_const]: "MSG_TELEMETRY_COUNTER = 0x0641"
definition MSG_TELEMETRY_HISTOGRAM :: u16 where [embediq_const]: "MSG_TELEMETRY_HISTOGRAM = 0x0642"
definition MSG_TELEMETRY_BATCH :: u16 where [embediq_const]: "MSG_TELEMETRY_BATCH = 0x0643"
definition EMBEDIQ_TELEMETRY_ENTRY_GAUGE :: u8 where
  [embediq_const]: "EMBEDIQ_TELEMETRY_ENTRY_GAUGE = 0"
definition EMBEDIQ_TELEMETRY_ENTRY_COUNTER :: u8 where
  [embediq_const]: "EMBEDIQ_TELEMETRY_ENTRY_COUNTER = 1"
definition EMBEDIQ_TELEMETRY_ENTRY_HISTOGRAM :: u8 where
  [embediq_const]: "EMBEDIQ_TELEMETRY_ENTRY_HISTOGRAM = 2"
definition TEL_SLOT_FREE :: u16 where [embediq_const]: "TEL_SLOT_FREE = 0xFFFF"
definition TEL_FLT_MAX :: u32 where "TEL_FLT_MAX = 0x7F7FFFFF"
definition TEL_HDR_SIZE :: nat where [embediq_const]: "TEL_HDR_SIZE = 8"
definition TEL_ENTRY_SIZE :: nat where [embediq_const]: "TEL_ENTRY_SIZE = 18"
definition TEL_ENTRIES_PER_BATCH :: nat where
  "TEL_ENTRIES_PER_BATCH = (EMBEDIQ_MSG_MAX_PAYLOAD - TEL_HDR_SIZE) div TEL_ENTRY_SIZE"

record tel_entry =
  te_metric_id :: u16
  te_type :: u8
  te_unit_id :: u8
  te_count :: u32
  te_sum :: u32
  te_min :: u32
  te_max :: u32
  te_last :: u32
  te_counter_total :: u32

record tel_state =
  s_table :: "tel_entry list"
  s_tags :: "(string \<times> string) list"
  s_elapsed_s :: u32
  s_window_start_s :: u32
  s_fb :: handle

text \<open>\<open>EmbedIQ_Telemetry_Batch_Entry_t\<close>, packed in 18 bytes, and the 8-byte batch header.\<close>

record batch_entry =
  be_metric_id :: u16
  be_type :: u8
  be_unit_id :: u8
  be_value_a :: u32
  be_value_b :: u32
  be_value_c :: u32
  be_count :: u16

record batch_header =
  window_start_s :: u32
  window_dur_s :: u16
  entry_count :: u8
  batch_flags :: u8

definition batch_entry_bytes :: "batch_entry \<Rightarrow> bytes" where
  "batch_entry_bytes e = le16 (be_metric_id e) @ [be_type e, be_unit_id e] @ le32 (be_value_a e) @
     le32 (be_value_b e) @ le32 (be_value_c e) @ le16 (be_count e)"

definition batch_header_bytes :: "batch_header \<Rightarrow> bytes" where
  "batch_header_bytes h = le32 (window_start_s h) @ le16 (window_dur_s h) @ [entry_count h, batch_flags h]"

section \<open>The table\<close>

definition clear_entry :: "tel_entry \<Rightarrow> tel_entry" where
  "clear_entry e = e\<lparr>te_count := 0, te_sum := f32_of_int 0, te_min := TEL_FLT_MAX,
     te_max := f32_neg TEL_FLT_MAX, te_last := f32_of_int 0, te_counter_total := 0\<rparr>"

definition reset_table :: "tel_state \<Rightarrow> tel_state" where
  "reset_table ts = ts\<lparr>s_table := map (\<lambda>e. clear_entry (e\<lparr>te_metric_id := TEL_SLOT_FREE\<rparr>)) (s_table ts),
     s_elapsed_s := 0, s_window_start_s := 0\<rparr>"

text \<open>The scan for the first cell with a metric identifier.\<close>

fun metric_index :: "u16 \<Rightarrow> tel_entry list \<Rightarrow> nat option" where
  "metric_index mid [] = None"
| "metric_index mid (e # es) =
     (if te_metric_id e = mid then Some 0 else map_option Suc (metric_index mid es))"

text \<open>The cell for a metric and the table with it.\<close>

definition find_or_alloc :: "u16 \<Rightarrow> u8 \<Rightarrow> u8 \<Rightarrow> tel_entry list \<Rightarrow> (nat \<times> tel_entry list) option" where
  "find_or_alloc mid ty un tab =
     (case metric_index mid tab of
        Some i \<Rightarrow> Some (i, tab)
      | None \<Rightarrow> (case metric_index TEL_SLOT_FREE tab of
          Some i \<Rightarrow> Some (i, tab[i := clear_entry ((tab ! i)\<lparr>te_metric_id := mid, te_type := ty,
                       te_unit_id := un\<rparr>)])
        | None \<Rightarrow> None))"

text \<open>An aggregator: the update of the metric's cell, or nothing when the table is full.\<close>

definition tel_update :: "u16 \<Rightarrow> u8 \<Rightarrow> u8 \<Rightarrow> (tel_entry \<Rightarrow> tel_entry) \<Rightarrow> tel_state \<Rightarrow> tel_state" where
  "tel_update mid ty un f ts =
     (case find_or_alloc mid ty un (s_table ts) of
        None \<Rightarrow> ts
      | Some (i, tab) \<Rightarrow> ts\<lparr>s_table := tab[i := f (tab ! i)]\<rparr>)"

definition add_observation :: "u32 \<Rightarrow> tel_entry \<Rightarrow> tel_entry" where
  "add_observation v e = e\<lparr>te_count := te_count e + 1, te_sum := f32_add (te_sum e) v,
     te_min := (if f32_less v (te_min e) then v else te_min e),
     te_max := (if f32_less (te_max e) v then v else te_max e)\<rparr>"

definition fb_telemetry__agg_gauge :: "u16 \<Rightarrow> u32 \<Rightarrow> u8 \<Rightarrow> tel_state \<Rightarrow> tel_state" where
  "fb_telemetry__agg_gauge mid v un =
     tel_update mid EMBEDIQ_TELEMETRY_ENTRY_GAUGE un (\<lambda>e. (add_observation v e)\<lparr>te_last := v\<rparr>)"

definition fb_telemetry__agg_counter :: "u16 \<Rightarrow> u32 \<Rightarrow> u8 \<Rightarrow> tel_state \<Rightarrow> tel_state" where
  "fb_telemetry__agg_counter mid delta un = tel_update mid EMBEDIQ_TELEMETRY_ENTRY_COUNTER un
     (\<lambda>e. e\<lparr>te_count := te_count e + 1, te_counter_total := te_counter_total e + delta\<rparr>)"

definition fb_telemetry__agg_histogram :: "u16 \<Rightarrow> u32 \<Rightarrow> u8 \<Rightarrow> tel_state \<Rightarrow> tel_state" where
  "fb_telemetry__agg_histogram mid v un =
     tel_update mid EMBEDIQ_TELEMETRY_ENTRY_HISTOGRAM un (add_observation v)"

section \<open>Batches\<close>

definition build_entry :: "tel_entry \<Rightarrow> batch_entry" where
  "build_entry src =
     (let n = (if te_count src > 0 then f32_of_u32 (te_count src) else f32_of_int 1);
          e = \<lparr>be_metric_id = te_metric_id src, be_type = te_type src, be_unit_id = te_unit_id src,
               be_value_a = 0, be_value_b = 0, be_value_c = 0,
               be_count = (if te_count src > 0xFFFF then 0xFFFF else ucast (te_count src))\<rparr>
      in if te_type src = EMBEDIQ_TELEMETRY_ENTRY_GAUGE
         then e\<lparr>be_value_a := f32_div (te_sum src) n, be_value_b := te_last src, be_value_c := te_max src\<rparr>
         else if te_type src = EMBEDIQ_TELEMETRY_ENTRY_COUNTER
         then e\<lparr>be_value_a := f32_of_u32 (te_counter_total src), be_value_b := f32_of_int 0,
                be_value_c := f32_of_int 0\<rparr>
         else e\<lparr>be_value_a := f32_div (te_sum src) n, be_value_b := te_min src, be_value_c := te_max src\<rparr>)"

definition is_active :: "tel_entry \<Rightarrow> bool" where
  "is_active e \<longleftrightarrow> te_metric_id e \<noteq> TEL_SLOT_FREE \<and> te_count e > 0"

text \<open>The inner loop, on the rest of the table from index \<open>i\<close>: the group and the new rest.\<close>

fun collect_group :: "tel_entry list \<Rightarrow> batch_entry list \<Rightarrow> batch_entry list \<times> tel_entry list" where
  "collect_group [] grp = (grp, [])"
| "collect_group (e # es) grp =
     (if length grp < TEL_ENTRIES_PER_BATCH
      then collect_group es (if is_active e then grp @ [build_entry e] else grp)
      else (grp, e # es))"

definition batch_msg :: "u32 \<Rightarrow> u8 \<Rightarrow> batch_entry list \<Rightarrow> embediq_msg" where
  "batch_msg start fault grp =
     (let hdr = \<lparr>window_start_s = start, window_dur_s = ucast EMBEDIQ_TELEMETRY_WINDOW_SEC,
                 entry_count = word_of_nat (length grp),
                 batch_flags = (if fault \<noteq> 0 then 1 else 0)\<rparr>;
          data = batch_header_bytes hdr @ concat (map batch_entry_bytes grp)
      in (plain_msg MSG_TELEMETRY_BATCH)\<lparr>
           payload := data @ drop (length data) (payload zero_msg),
           payload_len := word_of_nat (length data)\<rparr>)"

lemma TEL_ENTRIES_PER_BATCH_eq [simp]: "TEL_ENTRIES_PER_BATCH = 3"
  by (simp add: TEL_ENTRIES_PER_BATCH_def embediq_const)

lemma collect_group_rest: "length (snd (collect_group es g)) \<le> length es"
  by (induction es g rule: collect_group.induct) (auto simp: le_SucI)

lemma collect_group_shorter: "length (snd (collect_group (e # es) [])) < length (e # es)"
  using collect_group_rest[of es "if is_active e then [build_entry e] else []"]
  by (auto simp: le_imp_less_Suc split: if_splits)

function publish_groups ::
  "handle \<Rightarrow> u32 \<Rightarrow> u8 \<Rightarrow> tel_entry list \<Rightarrow> 'u world \<Rightarrow> 'u world option" where
  "publish_groups h start fault es w =
     (if es = [] then Some w
      else if fst (collect_group es []) = [] then Some w
      else do {
        w' \<leftarrow> map_option snd (embediq_publish h (Some (batch_msg start fault (fst (collect_group es [])))) w);
        publish_groups h start fault (snd (collect_group es [])) w' })"
  by pat_completeness auto
termination
proof (relation "measure (\<lambda>(h, start, fault, es, w). length es)", goal_cases)
  case (2 h start fault es w w')
  then show ?case using collect_group_shorter[of "hd es" "tl es"] by simp
qed simp

declare publish_groups.simps [simp del]

definition publish_batch :: "u8 \<Rightarrow> tel_state \<Rightarrow> 'u world \<Rightarrow> 'u world option" where
  "publish_batch fault ts w =
     (if s_fb ts = None then Some w
      else publish_groups (s_fb ts) (s_window_start_s ts) fault (s_table ts) w)"

section \<open>Handlers\<close>

definition on_gauge :: "bytes option \<Rightarrow> tel_state \<Rightarrow> tel_state" where
  "on_gauge msg ts = (case msg of None \<Rightarrow> ts | Some m \<Rightarrow>
     let p = msg_payload_at m
     in fb_telemetry__agg_gauge (of_le16 p) (of_le32 (drop 4 p)) (p ! 8) ts)"

definition on_counter :: "bytes option \<Rightarrow> tel_state \<Rightarrow> tel_state" where
  "on_counter msg ts = (case msg of None \<Rightarrow> ts | Some m \<Rightarrow>
     let p = msg_payload_at m
     in fb_telemetry__agg_counter (of_le16 p) (of_le32 (drop 4 p)) (p ! 8) ts)"

definition on_histogram :: "bytes option \<Rightarrow> tel_state \<Rightarrow> tel_state" where
  "on_histogram msg ts = (case msg of None \<Rightarrow> ts | Some m \<Rightarrow>
     let p = msg_payload_at m
     in fb_telemetry__agg_histogram (of_le16 p) (of_le32 (drop 4 p)) (p ! 8) ts)"

definition on_timer :: "tel_state \<times> 'u world \<Rightarrow> (tel_state \<times> 'u world) option" where
  "on_timer = (\<lambda>(ts, w).
     let ts = ts\<lparr>s_elapsed_s := s_elapsed_s ts + 1\<rparr>
     in if s_elapsed_s ts \<ge> EMBEDIQ_TELEMETRY_WINDOW_SEC
        then do { w \<leftarrow> publish_batch 0 ts w; Some (reset_table ts, w) }
        else Some (ts, w))"

section \<open>Registration and test interface\<close>

text \<open>The identifiers of the functions, for the registry.\<close>

definition FN_on_gauge :: nat where "FN_on_gauge = 41"
definition FN_on_counter :: nat where "FN_on_counter = 42"
definition FN_on_histogram :: nat where "FN_on_histogram = 43"
definition FN_on_timer :: nat where "FN_on_timer = 44"
definition FN_telemetry_init :: nat where "FN_telemetry_init = 45"

definition tel_subfn :: "string \<Rightarrow> u8 \<Rightarrow> nat \<Rightarrow> u16 \<Rightarrow> subfn_config" where
  "tel_subfn name ord fn mid = zero_subfn\<lparr>sf_name := Some name, sf_init_order := ord,
     sf_run_fn := Some fn, sf_subscriptions := [mid], sf_subscription_count := 1\<rparr>"

definition telemetry_init :: "handle \<Rightarrow> tel_state \<times> 'u world \<Rightarrow> tel_state \<times> 'u world" where
  "telemetry_init h = (\<lambda>(ts, w).
     let reg = (\<lambda>c w. snd (embediq_subfn_register h (Some c) w))
     in (ts\<lparr>s_fb := h\<rparr>,
         reg (tel_subfn ''on_timer'' 4 FN_on_timer MSG_TIMER_1SEC)
        (reg (tel_subfn ''on_histogram'' 3 FN_on_histogram MSG_TELEMETRY_HISTOGRAM)
        (reg (tel_subfn ''on_counter'' 2 FN_on_counter MSG_TELEMETRY_COUNTER)
        (reg (tel_subfn ''on_gauge'' 1 FN_on_gauge MSG_TELEMETRY_GAUGE) w)))))"

definition telemetry_cfg :: fb_config where
  "telemetry_cfg = \<lparr>fc_name = Some ''fb_telemetry'', fc_priority = 0, fc_stack_size = 0,
     fc_init_fn = Some FN_telemetry_init, fc_run_fn = None, fc_exit_fn = None, fc_fault_fn = None,
     fc_fb_data = 0, fc_subscriptions = Some [MSG_TELEMETRY_GAUGE, MSG_TELEMETRY_COUNTER,
       MSG_TELEMETRY_HISTOGRAM, MSG_TIMER_1SEC], fc_subscription_count = 4,
     fc_publications = Some [MSG_TELEMETRY_BATCH], fc_publication_count = 1,
     fc_depends_on = [], fc_depends_count = 0, fc_boot_phase = EMBEDIQ_BOOT_PHASE_INFRASTRUCTURE\<rparr>"

definition fb_telemetry_register :: "tel_state \<times> 'u world \<Rightarrow> handle \<times> tel_state \<times> 'u world" where
  "fb_telemetry_register = (\<lambda>(ts, w).
     let (h, w) = embediq_fb_register (Some telemetry_cfg) w
     in (h, (reset_table ts)\<lparr>s_tags := []\<rparr>, w))"

text \<open>A tag holds at most 15 characters of each string.\<close>

definition tag_copy :: "string \<Rightarrow> string" where
  "tag_copy s = take (EMBEDIQ_TELEMETRY_TAG_LEN - 1) (takeWhile (\<lambda>c. c \<noteq> CHR 0x00) s)"

definition fb_telemetry_set_tag :: "string option \<Rightarrow> string option \<Rightarrow> tel_state \<Rightarrow> tel_state" where
  "fb_telemetry_set_tag key val ts = (case (key, val) of
     (Some k, Some v) \<Rightarrow>
       (if length (s_tags ts) \<ge> EMBEDIQ_TELEMETRY_MAX_TAGS then ts
        else ts\<lparr>s_tags := s_tags ts @ [(tag_copy k, tag_copy v)]\<rparr>)
   | _ \<Rightarrow> ts)"

definition fb_telemetry__reset :: "tel_state \<Rightarrow> tel_state" where
  "fb_telemetry__reset ts = (reset_table ts)\<lparr>s_tags := []\<rparr>"

definition fb_telemetry__get_entry :: "u16 \<Rightarrow> tel_state \<Rightarrow> tel_entry option" where
  "fb_telemetry__get_entry mid ts =
     map_option (\<lambda>i. s_table ts ! i) (metric_index mid (s_table ts))"

definition fb_telemetry__active_count :: "tel_state \<Rightarrow> u8" where
  "fb_telemetry__active_count ts = word_of_nat (length (filter is_active (s_table ts)))"

definition fb_telemetry__force_flush :: "u8 \<Rightarrow> tel_state \<times> 'u world \<Rightarrow> (tel_state \<times> 'u world) option" where
  "fb_telemetry__force_flush fault = (\<lambda>(ts, w).
     do { w \<leftarrow> publish_batch fault ts w; Some (reset_table ts, w) })"


section \<open>What a flush publishes\<close>

definition active_entries :: "tel_entry list \<Rightarrow> batch_entry list" where
  "active_entries tab = map build_entry (filter is_active tab)"

fun in_threes :: "'a list \<Rightarrow> 'a list list" where
  "in_threes [] = []"
| "in_threes [x] = [[x]]"
| "in_threes [x, y] = [[x, y]]"
| "in_threes (x # y # z # xs) = [x, y, z] # in_threes xs"

lemma in_threes_groups:
  "concat (in_threes xs) = xs" "g \<in> set (in_threes xs) \<Longrightarrow> g \<noteq> [] \<and> length g \<le> 3"
  by (induction xs rule: in_threes.induct) auto

lemma in_threes_step: "xs \<noteq> [] \<Longrightarrow> in_threes xs = take 3 xs # in_threes (drop 3 xs)"
  by (cases xs rule: in_threes.cases) simp_all

lemma collect_group_takes:
  "length g \<le> 3 \<Longrightarrow> fst (collect_group es g) = take 3 (g @ active_entries es) \<and>
     active_entries (snd (collect_group es g)) = drop 3 (g @ active_entries es)"
  by (induction es g rule: collect_group.induct)
    (auto simp: active_entries_def take_Cons' drop_Cons')

lemma publish_groups_run:
  "publish_groups (Some i) start fault es w =
     run_list (publish_msg i) (map (batch_msg start fault) (in_threes (active_entries es))) w"
proof (induction "Some i" start fault es w rule: publish_groups.induct)
  case (1 start fault es w)
  note c = collect_group_takes[of "[]" es, simplified]
  show ?case
  proof (cases "active_entries es = []")
    case True
    then show ?thesis using c by (subst publish_groups.simps) simp
  next
    case False
    then have ne: "es \<noteq> []" "fst (collect_group es []) \<noteq> []" using c by (auto simp: active_entries_def)
    show ?thesis
      using 1[OF ne] c ne False
      by (subst publish_groups.simps)
        (auto simp: in_threes_step publish_msg_def split: bind_splits)
  qed
qed

lemma batch_msg_normal: "normal_msg (batch_msg start fault g)" "msg_id (batch_msg start fault g) = MSG_TELEMETRY_BATCH"
  by (simp_all add: batch_msg_def Let_def plain_msg_def normal_msg_def clamp_priority_def embediq_const)

section \<open>Decoding a batch\<close>

text \<open>The decoding that embediq_telemetry.h tells a receiver to do.\<close>

definition batch_entry_of :: "bytes \<Rightarrow> batch_entry" where
  "batch_entry_of p = \<lparr>be_metric_id = of_le16 p, be_type = p ! 2, be_unit_id = p ! 3,
     be_value_a = of_le32 (drop 4 p), be_value_b = of_le32 (drop 8 p),
     be_value_c = of_le32 (drop 12 p), be_count = of_le16 (drop 16 p)\<rparr>"

definition batch_header_of :: "bytes \<Rightarrow> batch_header" where
  "batch_header_of p = \<lparr>window_start_s = of_le32 p, window_dur_s = of_le16 (drop 4 p),
     entry_count = p ! 6, batch_flags = p ! 7\<rparr>"

definition decode_batch :: "bytes \<Rightarrow> batch_header \<times> batch_entry list" where
  "decode_batch p = (batch_header_of p,
     map (\<lambda>k. batch_entry_of (drop (8 + 18 * k) p)) [0..<unat (entry_count (batch_header_of p))])"

lemma length_batch_entry_bytes [simp]: "length (batch_entry_bytes e) = 18"
  by (simp add: batch_entry_bytes_def)

lemma length_batch_header_bytes [simp]: "length (batch_header_bytes h) = 8"
  by (simp add: batch_header_bytes_def)

lemma drop_le: "k \<ge> 2 \<Longrightarrow> drop k (le16 a @ xs) = drop (k - 2) xs"
  "k \<ge> 4 \<Longrightarrow> drop k (le32 b @ xs) = drop (k - 4) xs"
  "k \<ge> 2 \<Longrightarrow> (le16 a @ xs) ! k = xs ! (k - 2)" "k \<ge> 4 \<Longrightarrow> (le32 b @ xs) ! k = xs ! (k - 4)"
  by (simp_all add: nth_append)

lemma batch_entry_roundtrip [simp]: "batch_entry_of (batch_entry_bytes e @ xs) = e"
  by (simp add: batch_entry_of_def batch_entry_bytes_def drop_le)

lemma batch_header_roundtrip [simp]: "batch_header_of (batch_header_bytes h @ xs) = h"
  by (simp add: batch_header_of_def batch_header_bytes_def drop_le)

lemma batch_decodes:
  assumes "length g \<le> 3"
  shows "decode_batch (payload (batch_msg start fault g)) =
      (\<lparr>window_start_s = start, window_dur_s = 30, entry_count = word_of_nat (length g),
        batch_flags = of_bool (fault \<noteq> 0)\<rparr>, g) \<and>
    length (payload (batch_msg start fault g)) = 64 \<and>
    unat (payload_len (batch_msg start fault g)) = 8 + 18 * length g"
proof -
  consider "g = []" | a where "g = [a]" | a b where "g = [a, b]" | a b c where "g = [a, b, c]"
    using assms by (cases g rule: in_threes.cases) auto
  then show ?thesis
    by cases (simp_all add: decode_batch_def batch_msg_def Let_def zero_msg_def plain_msg_def
        upt_rec EMBEDIQ_TELEMETRY_WINDOW_SEC_def)
qed

text \<open>Decoding the payload of a published batch gives the window, the flag and the entries it
  was built from; the payload keeps its 64 bytes.\<close>

theorem tel_batch_roundtrip:
  assumes "length g \<le> 3"
  shows "decode_batch (payload (batch_msg start fault g)) =
      (\<lparr>window_start_s = start, window_dur_s = 30, entry_count = word_of_nat (length g),
        batch_flags = of_bool (fault \<noteq> 0)\<rparr>, g) \<and>
    length (payload (batch_msg start fault g)) = 64 \<and>
    unat (payload_len (batch_msg start fault g)) = 8 + 18 * length g"
  by (rule batch_decodes[OF assms])


section \<open>The table as a map\<close>

datatype tel_call = Gauge u16 u32 u8 | Counter u16 u32 u8 | Histogram u16 u32 u8

fun tel_exec :: "tel_call \<Rightarrow> tel_state \<Rightarrow> tel_state" where
  "tel_exec (Gauge m v u) = fb_telemetry__agg_gauge m v u"
| "tel_exec (Counter m d u) = fb_telemetry__agg_counter m d u"
| "tel_exec (Histogram m v u) = fb_telemetry__agg_histogram m v u"

fun call_metric :: "tel_call \<Rightarrow> u16" where
  "call_metric (Gauge m v u) = m" | "call_metric (Counter m d u) = m" | "call_metric (Histogram m v u) = m"

definition fresh_entry :: "u16 \<Rightarrow> u8 \<Rightarrow> u8 \<Rightarrow> tel_entry" where
  "fresh_entry m ty u = \<lparr>te_metric_id = m, te_type = ty, te_unit_id = u, te_count = 0,
     te_sum = f32_of_int 0, te_min = TEL_FLT_MAX, te_max = f32_neg TEL_FLT_MAX,
     te_last = f32_of_int 0, te_counter_total = 0\<rparr>"

text \<open>The entry a metric starts with, and what a sample does to it.\<close>

fun call_fresh :: "tel_call \<Rightarrow> tel_entry" where
  "call_fresh (Gauge m v u) = fresh_entry m EMBEDIQ_TELEMETRY_ENTRY_GAUGE u"
| "call_fresh (Counter m d u) = fresh_entry m EMBEDIQ_TELEMETRY_ENTRY_COUNTER u"
| "call_fresh (Histogram m v u) = fresh_entry m EMBEDIQ_TELEMETRY_ENTRY_HISTOGRAM u"

fun call_sample :: "tel_call \<Rightarrow> tel_entry \<Rightarrow> tel_entry" where
  "call_sample (Gauge m v u) e = (add_observation v e)\<lparr>te_last := v\<rparr>"
| "call_sample (Counter m d u) e =
     e\<lparr>te_count := te_count e + 1, te_counter_total := te_counter_total e + d\<rparr>"
| "call_sample (Histogram m v u) e = add_observation v e"

definition used_entries :: "tel_entry list \<Rightarrow> tel_entry list" where
  "used_entries tab = filter (\<lambda>e. te_metric_id e \<noteq> TEL_SLOT_FREE) tab"

definition tel_ok :: "tel_state \<Rightarrow> bool" where
  "tel_ok ts \<longleftrightarrow> length (s_table ts) = 32 \<and> distinct (map te_metric_id (used_entries (s_table ts)))"

definition tel_map :: "tel_state \<Rightarrow> u16 \<rightharpoonup> tel_entry" where
  "tel_map ts = map_of (map (\<lambda>e. (te_metric_id e, e)) (used_entries (s_table ts)))"

definition tel_spec :: "tel_call \<Rightarrow> (u16 \<rightharpoonup> tel_entry) \<Rightarrow> u16 \<rightharpoonup> tel_entry" where
  "tel_spec c M = (case M (call_metric c) of
     Some e \<Rightarrow> M(call_metric c \<mapsto> call_sample c e)
   | None \<Rightarrow> if card (dom M) < 32 then M(call_metric c \<mapsto> call_sample c (call_fresh c)) else M)"

lemma metric_index_Some:
  "metric_index m tab = Some i \<Longrightarrow> i < length tab \<and> te_metric_id (tab ! i) = m \<and>
     tab = take i tab @ tab ! i # drop (Suc i) tab \<and> (\<forall>e \<in> set (take i tab). te_metric_id e \<noteq> m)"
proof (induction tab arbitrary: i)
  case (Cons e es)
  then show ?case by (cases i) (auto split: if_splits)
qed simp

lemma metric_index_None: "metric_index m tab = None \<longleftrightarrow> m \<notin> te_metric_id ` set tab"
  by (induction tab) auto

lemma tel_map_None: "m \<noteq> TEL_SLOT_FREE \<Longrightarrow> tel_map ts m = None \<longleftrightarrow> metric_index m (s_table ts) = None"
  by (auto simp: tel_map_def metric_index_None map_of_eq_None_iff used_entries_def image_iff)

lemma card_dom_tel_map: "tel_ok ts \<Longrightarrow> card (dom (tel_map ts)) = length (used_entries (s_table ts))"
  using distinct_card[of "map te_metric_id (used_entries (s_table ts))"]
  by (simp add: tel_map_def dom_map_of_conv_image_fst image_image tel_ok_def)

lemma used_less:
  assumes "length tab = 32"
  shows "length (used_entries tab) < 32 \<longleftrightarrow> metric_index TEL_SLOT_FREE tab \<noteq> None"
proof (cases "\<exists>e \<in> set tab. te_metric_id e = TEL_SLOT_FREE")
  case True
  then have "length (used_entries tab) < length tab"
    unfolding used_entries_def by (auto intro: length_filter_less)
  then show ?thesis using True assms by (force simp: metric_index_None)
next
  case False
  then have "used_entries tab = tab" by (auto simp: used_entries_def filter_id_conv)
  then show ?thesis using False assms by (force simp: metric_index_None)
qed

text \<open>The table around a cell, before and after the cell is set to an entry of the metric.\<close>

lemma tel_map_around:
  assumes "tab = xs @ e # ys" and "m \<noteq> TEL_SLOT_FREE" and "te_metric_id e' = m"
    and "te_metric_id e = m \<or> te_metric_id e = TEL_SLOT_FREE \<and> m \<notin> te_metric_id ` set tab"
    and "distinct (map te_metric_id (used_entries tab))"
  shows "map_of (map (\<lambda>e. (te_metric_id e, e)) (used_entries (xs @ e' # ys))) =
      (map_of (map (\<lambda>e. (te_metric_id e, e)) (used_entries tab)))(m \<mapsto> e')"
    and "distinct (map te_metric_id (used_entries (xs @ e' # ys)))"
proof -
  have nx: "m \<notin> te_metric_id ` set (used_entries xs)" and ny: "m \<notin> te_metric_id ` set (used_entries ys)"
    using assms(1,2,4,5) by (auto simp: used_entries_def)
  then have "map_of (map (\<lambda>e. (te_metric_id e, e)) (used_entries xs)) m = None"
    by (auto simp: map_of_eq_None_iff image_iff)
  then show "map_of (map (\<lambda>e. (te_metric_id e, e)) (used_entries (xs @ e' # ys))) =
      (map_of (map (\<lambda>e. (te_metric_id e, e)) (used_entries tab)))(m \<mapsto> e')"
    using assms(1-4) by (auto simp: used_entries_def map_add_def fun_eq_iff split: option.splits)
  show "distinct (map te_metric_id (used_entries (xs @ e' # ys)))"
    using nx ny assms(1,2,3,5) by (auto simp: used_entries_def split: if_splits)
qed

lemma tel_update_map:
  assumes "tel_ok ts" and "m \<noteq> TEL_SLOT_FREE" and "\<And>e. te_metric_id (f e) = te_metric_id e"
  shows "tel_ok (tel_update m ty u f ts) \<and> tel_map (tel_update m ty u f ts) =
    (case tel_map ts m of
       Some e \<Rightarrow> (tel_map ts)(m \<mapsto> f e)
     | None \<Rightarrow> if card (dom (tel_map ts)) < 32 then (tel_map ts)(m \<mapsto> f (fresh_entry m ty u)) else tel_map ts)"
proof -
  let ?tab = "s_table ts"
  have len: "length ?tab = 32" and dis: "distinct (map te_metric_id (used_entries ?tab))"
    using assms(1) by (simp_all add: tel_ok_def)
  have card: "card (dom (tel_map ts)) < 32 \<longleftrightarrow> metric_index TEL_SLOT_FREE ?tab \<noteq> None"
    unfolding card_dom_tel_map[OF assms(1)] by (rule used_less[OF len])
  show ?thesis
  proof (cases "metric_index m ?tab")
    case (Some i)
    note i = metric_index_Some[OF Some]
    have e: "tel_map ts m = Some (?tab ! i)"
    proof -
      have "(m, ?tab ! i) \<in> set (map (\<lambda>e. (te_metric_id e, e)) (used_entries ?tab))"
        using i assms(2) by (auto simp: used_entries_def image_iff)
      then show ?thesis
        using dis unfolding tel_map_def by (intro map_of_is_SomeI) (simp_all add: comp_def)
    qed
    have upd: "?tab[i := f (?tab ! i)] = take i ?tab @ f (?tab ! i) # drop (Suc i) ?tab"
      using i by (simp add: upd_conv_take_nth_drop)
    have "te_metric_id (f (?tab ! i)) = m" using i assms(3) by simp
    from tel_map_around[of ?tab "take i ?tab" "?tab ! i" "drop (Suc i) ?tab", OF _ assms(2) this _ dis] i
    show ?thesis
      using Some e upd len by (simp add: tel_update_def find_or_alloc_def tel_map_def tel_ok_def)
  next
    case None
    then have M: "tel_map ts m = None" using tel_map_None[OF assms(2)] by simp
    show ?thesis
    proof (cases "metric_index TEL_SLOT_FREE ?tab")
      case None
      then show ?thesis using \<open>metric_index m ?tab = None\<close> M card assms(1)
        by (simp add: tel_update_def find_or_alloc_def)
    next
      case (Some i)
      note i = metric_index_Some[OF Some]
      let ?e = "f (fresh_entry m ty u)"
      have fr: "clear_entry ((?tab ! i)\<lparr>te_metric_id := m, te_type := ty, te_unit_id := u\<rparr>) = fresh_entry m ty u"
        by (simp add: clear_entry_def fresh_entry_def)
      have nm: "m \<notin> te_metric_id ` set ?tab"
        using \<open>metric_index m ?tab = None\<close> by (simp add: metric_index_None)
      have tu: "tel_update m ty u f ts = ts\<lparr>s_table := ?tab[i := ?e]\<rparr>"
        using \<open>metric_index m ?tab = None\<close> Some fr i by (simp add: tel_update_def find_or_alloc_def)
      have upd: "?tab[i := ?e] = take i ?tab @ ?e # drop (Suc i) ?tab"
        using i by (simp add: upd_conv_take_nth_drop)
      have "te_metric_id ?e = m" by (simp add: assms(3) fresh_entry_def)
      from tel_map_around[of ?tab "take i ?tab" "?tab ! i" "drop (Suc i) ?tab", OF _ assms(2) this _ dis] i
      show ?thesis
        using Some M card upd len nm tu by (simp add: tel_map_def tel_ok_def)
    qed
  qed
qed

lemma tel_exec_map:
  "tel_ok ts \<Longrightarrow> call_metric c \<noteq> TEL_SLOT_FREE \<Longrightarrow>
     tel_ok (tel_exec c ts) \<and> tel_map (tel_exec c ts) = tel_spec c (tel_map ts)"
  by (cases c) (simp_all add: tel_update_map tel_spec_def fb_telemetry__agg_gauge_def
      fb_telemetry__agg_counter_def fb_telemetry__agg_histogram_def add_observation_def
      split: option.splits)

text \<open>C14: The table of 32 cells implements a map from metrics to accumulators: any sequence of
  samples of metrics other than 0xFFFF updates the accumulator of the sample's metric only,
  creating it on the first sample while fewer than 32 metrics are in use and dropping the sample
  otherwise.\<close>

theorem tel_calls_refine_map:
  assumes "tel_ok ts" and "\<forall>c \<in> set cs. call_metric c \<noteq> TEL_SLOT_FREE"
  shows "tel_ok (fold tel_exec cs ts) \<and> tel_map (fold tel_exec cs ts) = fold tel_spec cs (tel_map ts)"
  using assms by (induction cs arbitrary: ts) (simp_all add: tel_exec_map)


section \<open>A flush\<close>

lemma reset_table_fresh:
  "s_table (reset_table ts) = map (\<lambda>e. fresh_entry TEL_SLOT_FREE (te_type e) (te_unit_id e)) (s_table ts)"
  by (simp add: reset_table_def clear_entry_def fresh_entry_def)

text \<open>C30: A flush returns. Then every cell of the table is free and cleared, so no metric has an
  accumulator, the window starts anew, and tags and handle are kept. The subscribers of the batch
  message have got the metrics with samples in this window, each once, in table order, as messages
  of three entries, the last of one to three, whose payload decodes to the start of the window, the
  fault flag and these entries; nothing else is queued at NORMAL priority.\<close>

theorem tel_flush_batches:
  assumes "s_fb ts = Some i" and "bus_ready i w"
    and "gs = in_threes (map build_entry (filter is_active (s_table ts)))"
  shows "\<exists>ts' w'. fb_telemetry__force_flush fault (ts, w) = Some (ts', w') \<and> bus_ready i w' \<and>
    s_table ts' = map (\<lambda>e. fresh_entry TEL_SLOT_FREE (te_type e) (te_unit_id e)) (s_table ts) \<and>
    tel_map ts' = Map.empty \<and> s_elapsed_s ts' = 0 \<and> s_window_start_s ts' = 0 \<and>
    s_tags ts' = s_tags ts \<and> s_fb ts' = s_fb ts \<and>
    concat gs = map build_entry (filter is_active (s_table ts)) \<and>
    (\<forall>g \<in> set gs. g \<noteq> [] \<and> length g \<le> 3 \<and> decode_batch (payload (batch_msg (s_window_start_s ts) fault g)) =
       (\<lparr>window_start_s = s_window_start_s ts, window_dur_s = 30, entry_count = word_of_nat (length g),
         batch_flags = of_bool (fault \<noteq> 0)\<rparr>, g)) \<and>
    (\<forall>e. normal_queue w' e = fold (publish_effect i w e)
       (map (batch_msg (s_window_start_s ts) fault) gs) (normal_queue w e))"
proof -
  let ?ms = "map (batch_msg (s_window_start_s ts) fault) gs"
  have "\<forall>m \<in> set ?ms. normal_msg m" using batch_msg_normal by auto
  from bus_pub.pub_all[OF assms(2) this] obtain w' where
    "run_list (publish_msg i) ?ms w = Some w'" "bus_ready i w'"
    "\<forall>e. normal_queue w' e = fold (publish_effect i w e) ?ms (normal_queue w e)" by blast
  moreover have "tel_map (reset_table ts) = Map.empty"
    by (simp add: tel_map_def used_entries_def reset_table_fresh fresh_entry_def filter_empty_conv)
  ultimately show ?thesis
    using assms(1) by (intro exI[of _ "reset_table ts"] exI[of _ w'])
      (simp add: fb_telemetry__force_flush_def publish_batch_def publish_groups_run assms(3)
        active_entries_def in_threes_groups batch_decodes reset_table_fresh, simp add: reset_table_def)
qed

section \<open>One window of a gauge\<close>

lemma spec_other: "call_metric c \<noteq> m \<Longrightarrow> tel_spec c M m = M m"
  by (simp add: tel_spec_def split: option.splits)

lemma dom_spec: "dom (tel_spec c M) \<subseteq> insert (call_metric c) (dom M)"
  by (auto simp: tel_spec_def split: option.splits if_splits)

lemma spec_fold_metric:
  assumes "finite S" and "card S \<le> 32" and "dom M \<union> call_metric ` set cs \<subseteq> S"
    and "filter (\<lambda>c. call_metric c = m) cs = d # ds" and "M m = None"
  shows "fold tel_spec cs M m = Some (fold call_sample (d # ds) (call_fresh d))"
proof -
  have used: "fold tel_spec cs M m = Some (fold call_sample (filter (\<lambda>c. call_metric c = m) cs) e)"
    if "M m = Some e" for cs M e
    using that
  proof (induction cs arbitrary: M e)
    case (Cons c cs)
    show ?case
    proof (cases "call_metric c = m")
      case True
      with Cons.prems have "tel_spec c M m = Some (call_sample c e)" by (simp add: tel_spec_def)
      from Cons.IH[where M = "tel_spec c M" and e = "call_sample c e", OF this] True show ?thesis by simp
    next
      case False
      with Cons.prems have "tel_spec c M m = Some e" by (simp add: spec_other)
      from Cons.IH[where M = "tel_spec c M" and e = e, OF this] False show ?thesis by simp
    qed
  qed simp
  show ?thesis using assms(3-5)
  proof (induction cs arbitrary: M)
    case (Cons c cs)
    show ?case
    proof (cases "call_metric c = m")
      case True
      then have "dom M \<subset> S" using Cons.prems(1,3) by (auto simp: domIff)
      from psubset_card_mono[OF assms(1) this] have "card (dom M) < 32" using assms(2) by simp
      then have first: "tel_spec c M m = Some (call_sample c (call_fresh c))"
        using True Cons.prems(3) by (simp add: tel_spec_def)
      have "c = d" "filter (\<lambda>c. call_metric c = m) cs = ds" using True Cons.prems(2) by auto
      then show ?thesis
        using used[where M = "tel_spec c M" and cs = cs and e = "call_sample c (call_fresh c)", OF first]
        by simp
    next
      case False
      then show ?thesis
        using Cons.IH[of "tel_spec c M"] Cons.prems dom_spec[of c M] by (auto simp: spec_other)
    qed
  qed simp
qed

text \<open>What the samples of an integer-valued gauge leave.\<close>

definition gauge_of :: "u16 \<Rightarrow> u8 \<Rightarrow> int list \<Rightarrow> tel_call list" where
  "gauge_of m u ks = map (\<lambda>k. Gauge m (f32_of_int k) u) ks"

lemma flt_max_int: "f32_finite TEL_FLT_MAX" "f32_finite (f32_neg TEL_FLT_MAX)"
  "\<bar>k\<bar> < 2 ^ 24 \<Longrightarrow> f32_less (f32_of_int k) TEL_FLT_MAX"
  "\<bar>k\<bar> < 2 ^ 24 \<Longrightarrow> f32_less (f32_neg TEL_FLT_MAX) (f32_of_int k)"
proof -
  show f: "f32_finite TEL_FLT_MAX" "f32_finite (f32_neg TEL_FLT_MAX)"
    by (simp_all add: f32_finite_def f32_abs_def TEL_FLT_MAX_def f32_inf_code_def f32_neg_def)
  have i: "f32_int TEL_FLT_MAX = 16777215 * 2 ^ 104 * 2 ^ 149" "f32_int (f32_neg TEL_FLT_MAX) = - (16777215 * 2 ^ 104 * 2 ^ 149)"
    by (simp_all add: f32_int_def f32_sign_def f32_abs_def TEL_FLT_MAX_def f32_neg_def code_mag_def)
  assume k: "\<bar>k\<bar> < 2 ^ 24"
  note e = f32_of_int_exact[OF k]
  show "f32_less (f32_of_int k) TEL_FLT_MAX" "f32_less (f32_neg TEL_FLT_MAX) (f32_of_int k)"
    using k by (simp_all add: f32_less_iff e f i)
qed

lemma gauge_samples:
  assumes "sum_list (map abs ks) < 2 ^ 24" and "ks \<noteq> []"
  shows "\<exists>e. fold call_sample (gauge_of m u ks) (fresh_entry m EMBEDIQ_TELEMETRY_ENTRY_GAUGE u) = e \<and>
    te_metric_id e = m \<and> te_type e = EMBEDIQ_TELEMETRY_ENTRY_GAUGE \<and> te_unit_id e = u \<and>
    te_count e = word_of_nat (length ks) \<and> te_sum e = f32_of_int (sum_list ks) \<and>
    te_last e = f32_of_int (last ks) \<and> te_max e = f32_of_int (Max (set ks)) \<and>
    te_min e = f32_of_int (Min (set ks))"
  using assms
proof (induction ks rule: rev_induct)
  case (snoc k ks)
  have abs_le: "\<bar>sum_list xs\<bar> \<le> sum_list (map abs xs)" for xs :: "int list"
    by (induction xs) auto
  have nn: "0 \<le> sum_list (map abs xs)" for xs :: "int list" by (rule sum_list_nonneg) auto
  have mem_le: "x \<in> set xs \<Longrightarrow> \<bar>x\<bar> \<le> sum_list (map abs xs)" for x and xs :: "int list"
    by (induction xs) (auto intro: add_increasing simp: nn)
  have b: "\<bar>k\<bar> < 2 ^ 24" "sum_list (map abs ks) < 2 ^ 24" "\<bar>sum_list ks\<bar> < 2 ^ 24" "\<bar>sum_list ks + k\<bar> < 2 ^ 24"
    using snoc.prems(1) nn[of ks] abs_le[of ks] by auto
  show ?case
  proof (cases "ks = []")
    case True
    have "f32_add (f32_of_int 0) (f32_of_int k) = f32_of_int k" using f32_add_int[of 0 k] b(1) by simp
    then show ?thesis
      using True b(1) flt_max_int by (simp add: gauge_of_def add_observation_def fresh_entry_def)
  next
    case False
    have mx: "\<bar>Max (set ks)\<bar> < 2 ^ 24" "\<bar>Min (set ks)\<bar> < 2 ^ 24"
      using False b(2) mem_le[of "Max (set ks)" ks] mem_le[of "Min (set ks)" ks] by auto
    let ?e = "fold call_sample (gauge_of m u ks) (fresh_entry m EMBEDIQ_TELEMETRY_ENTRY_GAUGE u)"
    have last: "fold call_sample (gauge_of m u (ks @ [k])) (fresh_entry m EMBEDIQ_TELEMETRY_ENTRY_GAUGE u) =
        call_sample (Gauge m (f32_of_int k) u) ?e" by (simp add: gauge_of_def)
    have ext: "Max (set (ks @ [k])) = (if Max (set ks) < k then k else Max (set ks))"
      "Min (set (ks @ [k])) = (if k < Min (set ks) then k else Min (set ks))"
    proof -
      have m: "max k x = (if x < k then k else x)" "min k x = (if k < x then k else x)" for x
        by (simp_all add: max_def min_def)
      have s: "set (ks @ [k]) = insert k (set ks)" "finite (set ks)" "set ks \<noteq> {}" using False by auto
      show "Max (set (ks @ [k])) = (if Max (set ks) < k then k else Max (set ks))"
        "Min (set (ks @ [k])) = (if k < Min (set ks) then k else Min (set ks))"
        unfolding s(1) Max_insert[OF s(2,3)] Min_insert[OF s(2,3)] by (rule m)+
    qed
    note ih = snoc.IH[OF b(2) False, simplified]
    note ops = f32_add_int[OF b(3,1,4)] f32_int_order(1)[OF b(1) mx(2)] f32_int_order(1)[OF mx(1) b(1)]
    show ?thesis unfolding last ext using ih ops by (simp add: add_observation_def)
  qed
qed simp

text \<open>C31: In a window that starts with an empty table and sees at most 32 metrics, none of them
  0xFFFF, a gauge that only gets integer values, fewer than 2^16 of them and with absolute values
  that add up to less than 2^24, is reported, whatever the interleaving with the other metrics, with
  its last value, its maximum, the number of samples, and the float next to its average: the exact
  sum (in units of 2^-149) over the number of samples, rounded once. An average that is an integer
  is reported exactly.\<close>

theorem tel_gauge_window:
  assumes "tel_ok ts" and "tel_map ts = Map.empty"
    and "finite S" and "card S \<le> 32" and "call_metric ` set cs \<subseteq> S" and "TEL_SLOT_FREE \<notin> S"
    and "filter (\<lambda>c. call_metric c = m) cs = gauge_of m u ks" and "ks \<noteq> []"
    and "sum_list (map abs ks) < 2 ^ 24" and "length ks < 2 ^ 16"
  shows "\<exists>e avg. tel_map (fold tel_exec cs ts) m = Some e \<and> build_entry e =
    \<lparr>be_metric_id = m, be_type = EMBEDIQ_TELEMETRY_ENTRY_GAUGE, be_unit_id = u,
     be_value_a = avg, be_value_b = f32_of_int (last ks), be_value_c = f32_of_int (Max (set ks)),
     be_count = word_of_nat (length ks)\<rparr> \<and>
    avg = f32_round (sum_list ks < 0) (nat \<bar>sum_list ks\<bar> * 2 ^ 149) (length ks) \<and>
    (\<forall>a. sum_list ks = a * int (length ks) \<longrightarrow> avg = f32_of_int a)"
proof -
  have nf: "\<forall>c \<in> set cs. call_metric c \<noteq> TEL_SLOT_FREE" using assms(5,6) by auto
  have "tel_map (fold tel_exec cs ts) = fold tel_spec cs (tel_map ts)"
    using assms(1) nf by (induction cs arbitrary: ts) (simp_all add: tel_exec_map)
  moreover obtain k ks' where ks: "ks = k # ks'" using assms(8) by (cases ks) auto
  ultimately have e: "tel_map (fold tel_exec cs ts) m =
      Some (fold call_sample (gauge_of m u ks) (fresh_entry m EMBEDIQ_TELEMETRY_ENTRY_GAUGE u))"
    using spec_fold_metric[OF assms(3,4), of "tel_map ts" cs m "Gauge m (f32_of_int k) u" "gauge_of m u ks'"]
      assms(2,5,7) by (simp add: gauge_of_def)
  have len: "unat (word_of_nat (length ks) :: u32) = length ks" "0 < length ks"
    using assms(8,10) by (simp_all add: unat_of_nat_small)
  have cap: "\<not> (word_of_nat (length ks) :: u32) > 0xFFFF" "(word_of_nat (length ks) :: u32) > 0"
    "(ucast (word_of_nat (length ks) :: u32) :: u16) = word_of_nat (length ks)"
    using len assms(10)
    by (simp_all add: word_less_nat_alt word_unat_eq_iff unsigned_ucast_eq take_bit_eq_mod unat_of_nat)
  have "\<bar>sum_list xs\<bar> \<le> sum_list (map abs xs)" for xs :: "int list" by (induction xs) auto
  then have "\<bar>sum_list ks\<bar> < 2 ^ 24" using assms(9) by (meson order_le_less_trans)
  note avg = f32_div_int[OF this len(2)]
  have "build_entry (fold call_sample (gauge_of m u ks) (fresh_entry m EMBEDIQ_TELEMETRY_ENTRY_GAUGE u)) =
    \<lparr>be_metric_id = m, be_type = EMBEDIQ_TELEMETRY_ENTRY_GAUGE, be_unit_id = u,
     be_value_a = f32_div (f32_of_int (sum_list ks)) (f32_of_int (int (length ks))),
     be_value_b = f32_of_int (last ks), be_value_c = f32_of_int (Max (set ks)),
     be_count = word_of_nat (length ks)\<rparr>"
    using gauge_samples[OF assms(9,8), of m u] cap len(1)
    by (auto simp: build_entry_def f32_of_u32_int Let_def)
  then show ?thesis
    using e avg assms(10) f32_round_whole[OF len(2)] by auto
qed

section \<open>What the handlers read\<close>

text \<open>A gauge message as the catalogue lays it out, metric at offset 0 of the payload and the
  bytes behind the 12 of the struct zero, is aggregated by the handler as metric 0 with value 0 and
  unit 0: the dispatcher passes the payload, but the handler reads at the offset of the payload
  inside a whole message. The counter and histogram handlers do the same.\<close>

theorem tel_handlers_misread:
  assumes "length p = 12" and "msg = Some (p @ replicate 52 0)"
  shows "on_gauge msg ts = fb_telemetry__agg_gauge 0 0 0 ts \<and>
    on_counter msg ts = fb_telemetry__agg_counter 0 0 0 ts \<and>
    on_histogram msg ts = fb_telemetry__agg_histogram 0 0 0 ts"
proof -
  have "of_le16 (replicate 44 0) = 0" "of_le32 (drop 4 (replicate 44 0)) = 0"
    by (simp_all add: of_le16_def of_le32_def)
  then show ?thesis
    using assms by (simp add: on_gauge_def on_counter_def on_histogram_def msg_payload_at_def)
qed


section \<open>Witnesses\<close>

definition demo_tel :: tel_state where
  "demo_tel = \<lparr>s_table = replicate 32 (fresh_entry TEL_SLOT_FREE 0 0), s_tags = [], s_elapsed_s = 29,
     s_window_start_s = 0, s_fb = Some 0\<rparr>"

lemma demo_tel_facts: "tel_ok demo_tel" "tel_map demo_tel = Map.empty"
  by (simp_all add: demo_tel_def tel_ok_def tel_map_def used_entries_def fresh_entry_def)

text \<open>Four metrics with a sample each, and an endpoint that subscribes to the batches.\<close>

definition demo_metric :: "u16 \<Rightarrow> tel_entry" where
  "demo_metric m = (fresh_entry m EMBEDIQ_TELEMETRY_ENTRY_COUNTER 0)\<lparr>te_count := 1, te_counter_total := 5\<rparr>"

definition batch_bus :: "unit world" where
  "batch_bus = demo_bus\<lparr>g_subs := [\<lparr>sub_msg_id = MSG_TELEMETRY_BATCH, sub_ep_id = 0\<rparr>]\<rparr>"

lemma batch_bus_facts: "bus_ready 0 batch_bus" "length (g_ep batch_bus) = 1" "normal_queue batch_bus 0 = []"
  "sub_count MSG_TELEMETRY_BATCH 0 batch_bus = 1"
  using demo_bus_simps(1-3,6) demo_bus_simps(4)[of 1] ep_items_cong[of batch_bus demo_bus]
  by (simp_all add: batch_bus_def bus_ready_def bus_inv_def registry_inv_def fb_at_def normal_queue_def
      sub_count_def subscribers_def)

lemma tel_flush_batches_witness:
  "\<exists>ts' w'. fb_telemetry__force_flush 1
      (demo_tel\<lparr>s_table := map demo_metric [3, 4, 5, 6] @ drop 4 (s_table demo_tel)\<rparr>, batch_bus) = Some (ts', w') \<and>
    tel_map ts' = Map.empty \<and>
    normal_queue w' 0 = map (\<lambda>g. (batch_msg 0 1 g)\<lparr>source_endpoint_id := 0\<rparr>)
      [map (build_entry \<circ> demo_metric) [3, 4, 5], [build_entry (demo_metric 6)]]"
proof -
  let ?ts = "demo_tel\<lparr>s_table := map demo_metric [3, 4, 5, 6] @ drop 4 (s_table demo_tel)\<rparr>"
  have "filter is_active (s_table ?ts) = map demo_metric [3, 4, 5, 6]"
    by (simp add: demo_tel_def demo_metric_def is_active_def fresh_entry_def TEL_SLOT_FREE_def)
  moreover have "s_fb ?ts = Some 0" "s_window_start_s ?ts = 0" by (simp_all add: demo_tel_def)
  moreover have "publish_effect 0 batch_bus 0 m xs = xs @ [m\<lparr>source_endpoint_id := 0\<rparr>]"
    if "msg_id m = MSG_TELEMETRY_BATCH" "length xs < 32" for m xs
    using that batch_bus_facts by (simp add: publish_effect_def deliver_def keep_newest_short prio_cap_def)
  ultimately show ?thesis
    using tel_flush_batches[OF _ batch_bus_facts(1) refl, of ?ts 1] batch_bus_facts(3)
    by (auto simp: batch_msg_normal)
qed

lemma tel_batch_roundtrip_witness:
  "snd (decode_batch (payload (batch_msg 7 1 [build_entry (fresh_entry 3 0 1)]))) =
     [build_entry (fresh_entry 3 0 1)]"
  using tel_batch_roundtrip[of "[build_entry (fresh_entry 3 0 1)]" 7 1] by simp

lemma tel_calls_refine_map_witness:
  "tel_map (fold tel_exec [Counter 9 5 0, Gauge 3 0 1, Counter 9 7 0] demo_tel) =
     fold tel_spec [Counter 9 5 0, Gauge 3 0 1, Counter 9 7 0] Map.empty"
  using tel_calls_refine_map[OF demo_tel_facts(1), of "[Counter 9 5 0, Gauge 3 0 1, Counter 9 7 0]"]
    demo_tel_facts(2) by (simp add: TEL_SLOT_FREE_def)

lemma tel_gauge_window_witness:
  "\<exists>e. tel_map (fold tel_exec [Gauge 3 (f32_of_int 20) 1, Counter 9 7 0, Gauge 3 (f32_of_int 22) 1] demo_tel) 3 =
     Some e \<and> be_value_a (build_entry e) = f32_of_int 21 \<and> be_value_b (build_entry e) = f32_of_int 22 \<and>
     be_count (build_entry e) = 2"
  using tel_gauge_window[OF demo_tel_facts, where S = "{3, 9}" and m = 3 and u = 1 and ks = "[20, 22]"
    and cs = "[Gauge 3 (f32_of_int 20) 1, Counter 9 7 0, Gauge 3 (f32_of_int 22) 1]"]
  by (auto simp: gauge_of_def TEL_SLOT_FREE_def)

lemma tel_handlers_misread_witness:
  "on_gauge (Some ([3, 0, 0, 0, 0, 0, 0xA8, 0x41, 1, 0, 0, 0] @ replicate 52 0)) demo_tel =
     fb_telemetry__agg_gauge 0 0 0 demo_tel"
  using tel_handlers_misread[of "[3, 0, 0, 0, 0, 0, 0xA8, 0x41, 1, 0, 0, 0]" _ demo_tel, OF _ refl] by simp

end
