(* ===== verification/Thermostat.thy ===== *)
theory Thermostat
  imports Fsm Watchdog Timer Float32
begin

text \<open>
  The thermostat example, examples/thermostat/fb_temp_sensor.c and fb_temp_controller.c: the
  simulated sensor, the controller's state machine on theory Fsm, its check-in with the watchdog,
  and the two composed over the ticks of the timer. Temperatures are the floats of theory Float32;
  the constants of the code are small integers, written with \<open>f32_of_int\<close>.
\<close>

definition MSG_TEMP_READING :: u16 where [embediq_const]: "MSG_TEMP_READING = 0x1400"

section \<open>The sensor\<close>

record sensor_state =
  g_temp :: u32
  g_step :: u32

definition sensor_initial :: sensor_state where
  "sensor_initial = \<lparr>g_temp = f32_of_int 20, g_step = f32_of_int 5\<rparr>"

definition sensor_advance :: "sensor_state \<Rightarrow> sensor_state" where
  "sensor_advance s =
     (let s = s\<lparr>g_temp := f32_add (g_temp s) (g_step s)\<rparr>;
          s = (if f32_le (f32_of_int 90) (g_temp s) then s\<lparr>g_step := f32_of_int (-5)\<rparr> else s)
      in if f32_le (g_temp s) (f32_of_int 20) then s\<lparr>g_step := f32_of_int 5\<rparr> else s)"

definition reading_msg :: "u32 \<Rightarrow> embediq_msg" where
  "reading_msg t = (plain_msg MSG_TEMP_READING)\<lparr>
     payload := le32 t @ drop 4 (payload zero_msg), payload_len := 4\<rparr>"

definition sensor_tick :: "handle \<Rightarrow> sensor_state \<times> 'u world \<Rightarrow> (sensor_state \<times> 'u world) option" where
  "sensor_tick fb = (\<lambda>(s, w).
     let s = sensor_advance s
     in map_option (\<lambda>(m, w). (s, w)) (embediq_publish fb (Some (reading_msg (g_temp s))) w))"

definition FN_sensor_tick :: nat where "FN_sensor_tick = 51"
definition FN_sensor_init :: nat where "FN_sensor_init = 52"
definition FN_ctrl_run :: nat where "FN_ctrl_run = 53"
definition FN_ctrl_init :: nat where "FN_ctrl_init = 54"

definition sensor_subfn :: subfn_config where
  "sensor_subfn = zero_subfn\<lparr>sf_name := Some ''sensor_tick'', sf_init_order := 1,
     sf_run_fn := Some FN_sensor_tick, sf_subscriptions := [MSG_TIMER_1SEC],
     sf_subscription_count := 1\<rparr>"

definition sensor_init :: "handle \<Rightarrow> 'u world \<Rightarrow> 'u world" where
  "sensor_init fb w = snd (embediq_subfn_register fb (Some sensor_subfn) w)"

definition sensor__last_temp :: "sensor_state \<Rightarrow> u32" where "sensor__last_temp s = g_temp s"

definition sensor_config :: fb_config where
  "sensor_config = \<lparr>fc_name = Some ''fb_temp_sensor'',
     fc_priority = 0, fc_stack_size = 0, fc_init_fn = Some FN_sensor_init, fc_run_fn = None,
     fc_exit_fn = None, fc_fault_fn = None, fc_fb_data = 0,
     fc_subscriptions = Some [MSG_TIMER_1SEC], fc_subscription_count = 1,
     fc_publications = Some [MSG_TEMP_READING], fc_publication_count = 1, fc_depends_on = [],
     fc_depends_count = 0, fc_boot_phase = EMBEDIQ_BOOT_PHASE_APPLICATION\<rparr>"

definition fb_temp_sensor_register :: "'u world \<Rightarrow> handle \<times> 'u world" where
  "fb_temp_sensor_register = embediq_fb_register (Some sensor_config)"

section \<open>The controller\<close>

definition CTRL_NORMAL :: u8 where [embediq_const]: "CTRL_NORMAL = 0"
definition CTRL_WARNING :: u8 where [embediq_const]: "CTRL_WARNING = 1"
definition CTRL_CRITICAL :: u8 where [embediq_const]: "CTRL_CRITICAL = 2"
definition CTRL_WDG_TIMEOUT_MS :: u32 where [embediq_const]: "CTRL_WDG_TIMEOUT_MS = 5000"

text \<open>A message is the bytes the handler gets; the machine's data are the events its actions emit.\<close>

definition reading_of :: "bytes \<Rightarrow> u32" where "reading_of m = of_le32 m"

definition guard_above_75 :: "bytes \<Rightarrow> obs_call list \<Rightarrow> bool" where
  "guard_above_75 m d \<longleftrightarrow> f32_less (f32_of_int 75) (reading_of m)"
definition guard_above_85 :: "bytes \<Rightarrow> obs_call list \<Rightarrow> bool" where
  "guard_above_85 m d \<longleftrightarrow> f32_less (f32_of_int 85) (reading_of m)"
definition guard_below_70 :: "bytes \<Rightarrow> obs_call list \<Rightarrow> bool" where
  "guard_below_70 m d \<longleftrightarrow> f32_less (reading_of m) (f32_of_int 70)"

definition action_enter_warning :: "bytes \<Rightarrow> obs_call list \<Rightarrow> obs_call list" where
  "action_enter_warning m d =
     d @ [Obs_Call EMBEDIQ_OBS_EVT_LIFECYCLE 0 0xFF CTRL_WARNING MSG_TEMP_READING]"
definition action_enter_critical :: "bytes \<Rightarrow> obs_call list \<Rightarrow> obs_call list" where
  "action_enter_critical m d =
     d @ [Obs_Call EMBEDIQ_OBS_EVT_FAULT 0 0xFF CTRL_CRITICAL MSG_TEMP_READING]"
definition action_enter_normal :: "bytes \<Rightarrow> obs_call list \<Rightarrow> obs_call list" where
  "action_enter_normal m d =
     d @ [Obs_Call EMBEDIQ_OBS_EVT_LIFECYCLE 0 0xFF CTRL_NORMAL MSG_TEMP_READING]"

definition s_ctrl_table :: "(bytes, obs_call list) sm_row list" where
  "s_ctrl_table =
     [\<lparr>row_current_state = CTRL_NORMAL, event_msg_id = MSG_TEMP_READING,
        guard_fn = Some guard_above_75, action_fn = Some action_enter_warning, next_state = CTRL_WARNING\<rparr>,
      \<lparr>row_current_state = CTRL_WARNING, event_msg_id = MSG_TEMP_READING,
        guard_fn = Some guard_above_85, action_fn = Some action_enter_critical, next_state = CTRL_CRITICAL\<rparr>,
      \<lparr>row_current_state = CTRL_CRITICAL, event_msg_id = MSG_TEMP_READING,
        guard_fn = Some guard_below_70, action_fn = Some action_enter_normal, next_state = CTRL_NORMAL\<rparr>,
      EMBEDIQ_SM_TABLE_END]"

record ctrl_state =
  g_ctrl_fb :: handle
  g_reading_count :: u32
  g_ctrl_sm :: "(bytes, obs_call list) embediq_sm"

definition ctrl_initial :: ctrl_state where
  "ctrl_initial = \<lparr>g_ctrl_fb = None, g_reading_count = 0, g_ctrl_sm =
     \<lparr>sm_current_state = CTRL_NORMAL, sm_table = Some s_ctrl_table, sm_name = ''thermo_ctrl''\<rparr>\<rparr>"

text \<open>The machine's step inside the handler: the new machine and the events, those of the action
  before that of the transition.\<close>

definition ctrl_process :: "bytes \<Rightarrow> ctrl_state \<Rightarrow> (ctrl_state \<times> obs_call list) option" where
  "ctrl_process m cs = (case embediq_sm_process (Some (g_ctrl_sm cs)) m MSG_TEMP_READING [] of
     Some (Some sm, d, ev) \<Rightarrow> Some (cs\<lparr>g_ctrl_sm := sm\<rparr>, d @ ev)
   | _ \<Rightarrow> None)"

text \<open>The handler, on the controller, the watchdog and the world; the outcome is that of the
  check-in.\<close>

definition ctrl_run :: "u32 \<Rightarrow> handle \<Rightarrow> bytes \<Rightarrow> ctrl_state \<times> wdg_state \<times> 'u world \<Rightarrow>
    (ctrl_state \<times> wdg_state \<times> 'u world) outcome option" where
  "ctrl_run now_us fb m = (\<lambda>(cs, ws, w).
     map_option (\<lambda>(cs, ev). case embediq_wdg_checkin now_us fb ws of
         Done ws' \<Rightarrow> Done (cs\<lparr>g_reading_count := g_reading_count cs + 1\<rparr>, ws', log_calls ev w)
       | Waits ws' \<Rightarrow> Waits ws'
       | Null_Mutex \<Rightarrow> Null_Mutex) (ctrl_process m cs))"

definition ctrl_subfn :: subfn_config where
  "ctrl_subfn = zero_subfn\<lparr>sf_name := Some ''ctrl_fsm'', sf_init_order := 1,
     sf_run_fn := Some FN_ctrl_run, sf_subscriptions := [MSG_TEMP_READING],
     sf_subscription_count := 1, sf_subfn_data := 1\<rparr>"

definition ctrl_init :: "bool \<Rightarrow> u32 \<Rightarrow> handle \<Rightarrow> ctrl_state \<times> wdg_state \<times> 'u world \<Rightarrow>
    (ctrl_state \<times> wdg_state \<times> 'u world) outcome" where
  "ctrl_init mem now_us fb = (\<lambda>(cs, ws, w).
     case embediq_wdg_register mem now_us fb CTRL_WDG_TIMEOUT_MS ws of
       Done ws' \<Rightarrow> Done (cs\<lparr>g_ctrl_fb := fb\<rparr>, ws',
         snd (embediq_subfn_register fb (Some ctrl_subfn) w))
     | Waits ws' \<Rightarrow> Waits ws'
     | Null_Mutex \<Rightarrow> Null_Mutex)"

definition ctrl_config :: fb_config where
  "ctrl_config = \<lparr>fc_name = Some ''fb_temp_controller'',
     fc_priority = 0, fc_stack_size = 0, fc_init_fn = Some FN_ctrl_init, fc_run_fn = None,
     fc_exit_fn = None, fc_fault_fn = None, fc_fb_data = 0,
     fc_subscriptions = Some [MSG_TEMP_READING], fc_subscription_count = 1,
     fc_publications = None, fc_publication_count = 0, fc_depends_on = [],
     fc_depends_count = 0, fc_boot_phase = EMBEDIQ_BOOT_PHASE_APPLICATION\<rparr>"

definition fb_temp_controller_register :: "'u world \<Rightarrow> handle \<times> 'u world" where
  "fb_temp_controller_register = embediq_fb_register (Some ctrl_config)"

definition ctrl__reading_count :: "ctrl_state \<Rightarrow> u32" where
  "ctrl__reading_count cs = g_reading_count cs"

section \<open>The temperature wave\<close>

text \<open>The temperature after \<open>n\<close> ticks: a triangle of period 28 between 20 and 90 degrees.\<close>

definition wave :: "nat \<Rightarrow> int" where
  "wave n = (let r = int (n mod 28) in if r \<le> 14 then 20 + 5 * r else 160 - 5 * r)"

definition wave_step :: "nat \<Rightarrow> int" where
  "wave_step n = (if n mod 28 < 14 then 5 else -5)"

lemma wave_range: "20 \<le> wave n" "wave n \<le> 90"
  using mod_less_divisor[of 28 n] by (simp_all add: wave_def Let_def)

lemma wave_Suc: "wave (Suc n) = wave n + wave_step n"
  using mod_less_divisor[of 28 n] by (auto simp: wave_def wave_step_def Let_def mod_Suc)

lemma wave_turns: "wave n = 90 \<longleftrightarrow> n mod 28 = 14" "wave n = 20 \<longleftrightarrow> n mod 28 = 0"
  using mod_less_divisor[of 28 n] by (auto simp: wave_def Let_def)

definition sensor_at :: "nat \<Rightarrow> sensor_state" where
  "sensor_at n = \<lparr>g_temp = f32_of_int (wave n), g_step = f32_of_int (wave_step n)\<rparr>"

lemma sensor_advance_wave: "sensor_advance (sensor_at n) = sensor_at (Suc n)"
proof -
  have r: "\<bar>wave k\<bar> < 2 ^ 24" "\<bar>wave_step k\<bar> < 2 ^ 24" for k
    using wave_range[of k] by (simp_all add: wave_step_def)
  have add: "f32_add (f32_of_int (wave n)) (f32_of_int (wave_step n)) = f32_of_int (wave (Suc n))"
    using f32_add_int[OF r(1) r(2), of n n] r(1)[of "Suc n"] by (simp add: wave_Suc)
  have le: "f32_le (f32_of_int 90) (f32_of_int (wave (Suc n))) \<longleftrightarrow> Suc n mod 28 = 14"
    "f32_le (f32_of_int (wave (Suc n))) (f32_of_int 20) \<longleftrightarrow> Suc n mod 28 = 0"
    using f32_int_order(2)[of 90 "wave (Suc n)"] f32_int_order(2)[of "wave (Suc n)" 20] r(1)[of "Suc n"]
      wave_range[of "Suc n"] wave_turns[of "Suc n"] by auto
  have st: "wave_step (Suc n) = (if Suc n mod 28 = 14 then -5 else if Suc n mod 28 = 0 then 5 else wave_step n)"
    using mod_less_divisor[of 28 n] by (auto simp: wave_step_def mod_Suc)
  show ?thesis
    unfolding sensor_advance_def sensor_at_def Let_def by (simp add: add le st)
qed

fun sensor_run :: "nat \<Rightarrow> nat \<Rightarrow> sensor_state \<times> 'u world \<Rightarrow> (sensor_state \<times> 'u world) option" where
  "sensor_run i 0 st = Some st"
| "sensor_run i (Suc n) st = do { st \<leftarrow> sensor_run i n st; sensor_tick (Some i) st }"

lemma reading_msg_normal: "normal_msg (reading_msg t)"
  by (simp add: reading_msg_def plain_msg_def normal_msg_def clamp_priority_def embediq_const)

lemma sensor_run_msgs:
  "sensor_run i n (sensor_initial, w) = map_option (\<lambda>w'. (sensor_at n, w'))
     (run_list (publish_msg i) (map (\<lambda>k. reading_msg (f32_of_int (wave (Suc k)))) [0..<n]) w)"
proof (induction n)
  case 0
  have "sensor_initial = sensor_at 0"
    by (simp add: sensor_initial_def sensor_at_def wave_def wave_step_def)
  then show ?case by simp
next
  case (Suc n)
  have at: "g_temp (sensor_at k) = f32_of_int (wave k)" for k by (simp add: sensor_at_def)
  have "sensor_tick (Some i) (sensor_at n, w1) = map_option (\<lambda>w'. (sensor_at (Suc n), w'))
      (publish_msg i (reading_msg (f32_of_int (wave (Suc n)))) w1)" for w1 :: "'a world"
    by (cases "embediq_publish (Some i) (Some (reading_msg (f32_of_int (wave (Suc n))))) w1")
      (simp_all add: sensor_tick_def sensor_advance_wave publish_msg_def Let_def at case_prod_beta)
  then show ?case by (simp add: Suc run_list_append) (auto split: bind_splits)
qed

text \<open>From a cold start every tick returns; after n ticks the sensor's temperature is the
  triangle wave of period 28 between 20 and 90 degrees, exactly, and the subscribers of the reading
  message got the temperatures of the ticks in order.\<close>

theorem sensor_wave:
  assumes "bus_ready i w"
  shows "\<exists>w'. sensor_run i n (sensor_initial, w) = Some (\<lparr>g_temp = f32_of_int (wave n),
      g_step = f32_of_int (if n mod 28 < 14 then 5 else -5)\<rparr>, w') \<and> bus_ready i w' \<and>
    (\<forall>e. normal_queue w' e = fold (publish_effect i w e)
       (map (\<lambda>k. reading_msg (f32_of_int (wave (Suc k)))) [0..<n]) (normal_queue w e))"
proof -
  let ?ms = "map (\<lambda>k. reading_msg (f32_of_int (wave (Suc k)))) [0..<n]"
  have "\<forall>m \<in> set ?ms. normal_msg m" by (simp add: reading_msg_normal)
  from bus_pub.pub_all[OF assms this] show ?thesis
    by (auto simp: sensor_run_msgs sensor_at_def wave_step_def)
qed

section \<open>The control loop\<close>

text \<open>The controller's specification on temperatures.\<close>

definition ctrl_next :: "u8 \<Rightarrow> u32 \<Rightarrow> u8" where
  "ctrl_next s t =
     (if s = 0 \<and> f32_less (f32_of_int 75) t then 1
      else if s = 1 \<and> f32_less (f32_of_int 85) t then 2
      else if s = 2 \<and> f32_less t (f32_of_int 70) then 0 else s)"

definition ctrl_events :: "u8 \<Rightarrow> u8 \<Rightarrow> obs_call list" where
  "ctrl_events s s' = (if s = s' then [] else
     [Obs_Call (if s' = 2 then EMBEDIQ_OBS_EVT_FAULT else EMBEDIQ_OBS_EVT_LIFECYCLE) 0 0xFF s' MSG_TEMP_READING,
      Obs_Call EMBEDIQ_OBS_EVT_FSM_TRANS s s' s' MSG_TEMP_READING])"

definition ctrl_ok :: "ctrl_state \<Rightarrow> bool" where
  "ctrl_ok cs \<longleftrightarrow> sm_table (g_ctrl_sm cs) = Some s_ctrl_table \<and> sm_current_state (g_ctrl_sm cs) \<le> 2"

lemma ctrl_cases: "(s::u8) \<le> 2 \<Longrightarrow> s = 0 \<or> s = 1 \<or> s = 2"
  by (simp add: word_le_nat_alt word_unat_eq_iff) arith

lemma ctrl_sentinel: "has_sentinel s_ctrl_table"
  by (simp add: has_sentinel_def s_ctrl_table_def EMBEDIQ_SM_TABLE_END_def)

lemma ctrl_process_step:
  assumes "ctrl_ok cs" and "m = le32 t @ rest"
  shows "ctrl_process m cs = Some (cs\<lparr>g_ctrl_sm := (g_ctrl_sm cs)\<lparr>
      sm_current_state := ctrl_next (sm_current_state (g_ctrl_sm cs)) t\<rparr>\<rparr>,
    ctrl_events (sm_current_state (g_ctrl_sm cs)) (ctrl_next (sm_current_state (g_ctrl_sm cs)) t))"
proof -
  have "sm_current_state (g_ctrl_sm cs) \<le> 2" using assms(1) by (simp add: ctrl_ok_def)
  then have c: "sm_current_state (g_ctrl_sm cs) = 0 \<or> sm_current_state (g_ctrl_sm cs) = 1 \<or>
      sm_current_state (g_ctrl_sm cs) = 2" by (rule ctrl_cases)
  show ?thesis
    by (insert c assms, elim disjE) (simp_all add: ctrl_process_def embediq_sm_process_def ctrl_ok_def s_ctrl_table_def
        EMBEDIQ_SM_TABLE_END_def guard_passes_def run_action_def guard_above_75_def guard_above_85_def
        guard_below_70_def action_enter_warning_def action_enter_critical_def action_enter_normal_def
        reading_of_def ctrl_next_def ctrl_events_def embediq_const)
qed

lemma ctrl_next_le: "s \<le> 2 \<Longrightarrow> ctrl_next s t \<le> 2"
  by (auto simp: ctrl_next_def)

lemma ctrl_run_step:
  assumes "ctrl_ok cs" and "wdg_ok ws" and "m = le32 t @ rest"
  shows "\<exists>cs' ws'. ctrl_run now (Some h) m (cs, ws, w) = Some (Done (cs', ws',
      log_calls (ctrl_events (sm_current_state (g_ctrl_sm cs)) (ctrl_next (sm_current_state (g_ctrl_sm cs)) t)) w)) \<and>
    ctrl_ok cs' \<and> wdg_ok ws' \<and> sm_current_state (g_ctrl_sm cs') = ctrl_next (sm_current_state (g_ctrl_sm cs)) t \<and>
    g_reading_count cs' = g_reading_count cs + 1 \<and>
    slots_map (w_slots ws') = wdg_spec now (Checkin (Some h)) (slots_map (w_slots ws))"
proof -
  from wdg_exec_map[OF assms(2), of True now "Checkin (Some h)"] obtain ws' where
    "embediq_wdg_checkin now (Some h) ws = Done ws'" "wdg_ok ws'"
    "slots_map (w_slots ws') = wdg_spec now (Checkin (Some h)) (slots_map (w_slots ws))" by auto
  moreover have "sm_current_state (g_ctrl_sm cs) \<le> 2" using assms(1) by (simp add: ctrl_ok_def)
  ultimately show ?thesis
    using assms(1) ctrl_process_step[OF assms(1,3)] ctrl_next_le
    by (auto simp: ctrl_run_def ctrl_ok_def simp del: wdg_spec.simps)
qed

text \<open>On a reading of any temperature the controller returns, moves by its specification (to
  WARNING above 75, from there to CRITICAL above 85, from there to NORMAL below 70, otherwise not
  at all), emits the entry event and the transition event exactly when it moves, counts the
  reading, and checks in with the watchdog.\<close>

theorem ctrl_hysteresis:
  assumes "ctrl_ok cs" and "wdg_ok ws" and "s' = ctrl_next (sm_current_state (g_ctrl_sm cs)) t"
  shows "\<exists>cs' ws'. ctrl_run now (Some h) (payload (reading_msg t)) (cs, ws, w) = Some (Done (cs', ws',
      log_calls (ctrl_events (sm_current_state (g_ctrl_sm cs)) s') w)) \<and>
    ctrl_ok cs' \<and> wdg_ok ws' \<and> sm_current_state (g_ctrl_sm cs') = s' \<and>
    g_reading_count cs' = g_reading_count cs + 1 \<and>
    slots_map (w_slots ws') = wdg_spec now (Checkin (Some h)) (slots_map (w_slots ws))"
  unfolding assms(3) by (rule ctrl_run_step[OF assms(1,2)]) (simp add: reading_msg_def)

text \<open>The loop: the controller gets the sensor's reading of each tick; \<open>now n\<close> is the clock when it
  handles the reading of tick \<open>n + 1\<close>.\<close>

fun thermo_run :: "(nat \<Rightarrow> u32) \<Rightarrow> nat \<Rightarrow> nat \<Rightarrow> ctrl_state \<times> wdg_state \<times> 'u world \<Rightarrow>
    (ctrl_state \<times> wdg_state \<times> 'u world) option" where
  "thermo_run now h 0 st = Some st"
| "thermo_run now h (Suc n) st = do {
     st \<leftarrow> thermo_run now h n st;
     (case ctrl_run (now n) (Some h) (payload (reading_msg (g_temp (sensor_at (Suc n))))) st of
        Some (Done st) \<Rightarrow> Some st | _ \<Rightarrow> None) }"

definition thermo_phase :: "nat \<Rightarrow> u8" where
  "thermo_phase n = (let r = n mod 28 in
     if r < 12 then CTRL_NORMAL else if r < 14 then CTRL_WARNING
     else if r < 19 then CTRL_CRITICAL else CTRL_NORMAL)"

lemma thermo_phase_Suc:
  "thermo_phase (Suc n) = ctrl_next (thermo_phase n) (f32_of_int (wave (Suc n)))"
proof -
  have w: "\<bar>wave (Suc n)\<bar> < 2 ^ 24" using wave_range[of "Suc n"] by simp
  have c: "f32_less (f32_of_int 75) (f32_of_int (wave (Suc n))) \<longleftrightarrow> 75 < wave (Suc n)"
    "f32_less (f32_of_int 85) (f32_of_int (wave (Suc n))) \<longleftrightarrow> 85 < wave (Suc n)"
    "f32_less (f32_of_int (wave (Suc n))) (f32_of_int 70) \<longleftrightarrow> wave (Suc n) < 70"
    using f32_int_order(1)[of 75 "wave (Suc n)"] f32_int_order(1)[of 85 "wave (Suc n)"]
      f32_int_order(1)[of "wave (Suc n)" 70] w by simp_all
  have "ctrl_next s (f32_of_int (wave (Suc n))) =
      (if s = 0 \<and> 75 < wave (Suc n) then 1 else if s = 1 \<and> 85 < wave (Suc n) then 2
       else if s = 2 \<and> wave (Suc n) < 70 then 0 else s)" for s by (simp only: ctrl_next_def c)
  then show ?thesis
    using mod_less_divisor[of 28 n]
    by (auto simp: thermo_phase_def Let_def wave_def mod_Suc embediq_const)
qed

text \<open>The demonstration's timing, for ever: at every tick n the controller has handled n
  readings without waiting and is in NORMAL, WARNING or CRITICAL according to n mod 28, entering
  WARNING at 12 (80 degrees), CRITICAL at 14 (90 degrees) and NORMAL at 19 (65 degrees); and a
  watched controller last checked in at the latest tick, so the watchdog finds it overdue only more
  than five seconds after that tick.\<close>

theorem thermostat_cycle:
  assumes "wdg_ok ws" and "slots_map (w_slots ws) h = Some (CTRL_WDG_TIMEOUT_MS, t0)"
  shows "\<exists>cs ws' w'. thermo_run now h n (ctrl_initial, ws, w) = Some (cs, ws', w') \<and>
    sm_current_state (g_ctrl_sm cs) = thermo_phase n \<and> g_reading_count cs = word_of_nat n \<and>
    slots_map (w_slots ws') h = Some (5000, if n = 0 then t0 else now (n - 1)) \<and> wdg_ok ws' \<and> ctrl_ok cs"
proof (induction n)
  case 0
  then show ?case
    using assms by (simp add: ctrl_initial_def thermo_phase_def ctrl_ok_def embediq_const)
next
  case (Suc n)
  then obtain cs ws1 w1 where st: "thermo_run now h n (ctrl_initial, ws, w) = Some (cs, ws1, w1)"
    and s: "sm_current_state (g_ctrl_sm cs) = thermo_phase n" "g_reading_count cs = word_of_nat n"
    and m: "slots_map (w_slots ws1) h = Some (5000, if n = 0 then t0 else now (n - 1))"
    and ok: "wdg_ok ws1" "ctrl_ok cs" by blast
  have "payload (reading_msg (g_temp (sensor_at (Suc n)))) =
      le32 (f32_of_int (wave (Suc n))) @ drop 4 (payload zero_msg)"
    by (simp add: reading_msg_def sensor_at_def)
  from ctrl_run_step[OF ok(2,1) this, of "now n" h w1] st m s show ?case
    by (auto simp: thermo_phase_Suc)
qed

section \<open>Witnesses\<close>

lemma sensor_wave_witness:
  "\<exists>w'. sensor_run 0 14 (sensor_initial, demo_bus) =
     Some (\<lparr>g_temp = f32_of_int 90, g_step = f32_of_int (-5)\<rparr>, w')"
  using sensor_wave[of 0 demo_bus 14] demo_bus_simps by (auto simp: bus_ready_def wave_def)

lemma ctrl_hysteresis_witness:
  "\<exists>cs' ws'. ctrl_run 9 (Some 0) (payload (reading_msg (f32_of_int 80))) (ctrl_initial, demo_wdg, demo_bus) =
     Some (Done (cs', ws', log_calls (ctrl_events 0 1) demo_bus)) \<and> g_reading_count cs' = 1"
proof -
  have "ctrl_next (sm_current_state (g_ctrl_sm ctrl_initial)) (f32_of_int 80) = 1"
    by (simp add: ctrl_next_def ctrl_initial_def f32_int_order embediq_const)
  then show ?thesis
    using ctrl_hysteresis[of ctrl_initial demo_wdg 1 "f32_of_int 80" 9 0 demo_bus] demo_wdg_facts(4)
    by (auto simp: ctrl_ok_def ctrl_initial_def embediq_const)
qed

lemma thermostat_cycle_witness:
  "\<exists>cs ws' w'. thermo_run (\<lambda>n. word_of_nat n * 1000000) 0 42 (ctrl_initial,
       demo_wdg\<lparr>w_slots := [\<lparr>sl_handle = 0, sl_timeout_ms = 5000, sl_last_checkin_us = 0, sl_active = True\<rparr>]\<rparr>,
       demo_bus) = Some (cs, ws', w') \<and> sm_current_state (g_ctrl_sm cs) = CTRL_CRITICAL"
  using thermostat_cycle[of "demo_wdg\<lparr>w_slots := [\<lparr>sl_handle = 0, sl_timeout_ms = 5000,
      sl_last_checkin_us = 0, sl_active = True\<rparr>]\<rparr>" 0 0 "\<lambda>n. word_of_nat n * 1000000" 42 demo_bus]
    demo_wdg_facts(3)
  by (auto simp: wdg_ok_def embediq_const thermo_phase_def)

end
