(* ===== verification/Gateway.thy ===== *)
theory Gateway
  imports Fsm Publish Timer Float32
begin

text \<open>
  The gateway example: the scripted field receiver (examples/gateway/fb_field_receiver.c), the policy
  engine with its thresholds and throttling (fb_policy_engine.c), and the north bridge with its
  connectivity machine and its local buffer (fb_north_bridge.c). Floats are the words of theory
  Float32; struct padding, which the code leaves undefined, is an argument. What the north bridge
  prints is a list of records.
\<close>

section \<open>Catalogue (gateway_msg_catalog.h, gateway_msgs.h)\<close>

definition MSG_FIELD_READING :: u16 where [embediq_const]: "MSG_FIELD_READING = 0x1410"
definition MSG_ALERT :: u16 where [embediq_const]: "MSG_ALERT = 0x1411"
definition MSG_TELEMETRY :: u16 where [embediq_const]: "MSG_TELEMETRY = 0x1412"
definition SENSOR_TANK_TEMP :: u8 where [embediq_const]: "SENSOR_TANK_TEMP = 0"
definition SENSOR_TANK_PRESSURE :: u8 where [embediq_const]: "SENSOR_TANK_PRESSURE = 1"
definition SENSOR_PUMP_FLOW :: u8 where [embediq_const]: "SENSOR_PUMP_FLOW = 2"
definition SENSOR_COUNT :: nat where [embediq_const]: "SENSOR_COUNT = 3"
definition UNIT_CELSIUS :: u8 where [embediq_const]: "UNIT_CELSIUS = 0"
definition UNIT_BAR :: u8 where [embediq_const]: "UNIT_BAR = 1"
definition UNIT_LPM :: u8 where [embediq_const]: "UNIT_LPM = 2"
definition THRESH_TANK_TEMP_HIGH_C :: u32 where "THRESH_TANK_TEMP_HIGH_C = 0x428C0000"
definition THRESH_TANK_PRESSURE_HIGH :: u32 where "THRESH_TANK_PRESSURE_HIGH = 0x41080000"
definition THRESH_PUMP_FLOW_LOW :: u32 where "THRESH_PUMP_FLOW_LOW = 0x40A00000"

section \<open>The field receiver\<close>

text \<open>The scripted frames: temperature, pressure, flow.\<close>

definition k_frames :: "(u32 \<times> u32 \<times> u32) list" where
  "k_frames =
     [(0x41B40000, 0x40866666, 0x41E00000), (0x41B8CCCD, 0x40A33333, 0x41DC0000),
      (0x41BE6666, 0x40C9999A, 0x41E80000), (0x41C1999A, 0x40E33333, 0x41E26666),
      (0x41C73333, 0x40F9999A, 0x41DF3333), (0x41CA6666, 0x41133333, 0x41E0CCCD),
      (0x41C8CCCD, 0x410B3333, 0x41DE6666), (0x41C66666, 0x410B3333, 0x41DCCCCD),
      (0x41C40000, 0x40F00000, 0x41E1999A), (0x41C1999A, 0x40D9999A, 0x41DB3333),
      (0x41BE6666, 0x40C33333, 0x41D8CCCD), (0x41BC0000, 0x40B9999A, 0x41D73333),
      (0x41B9999A, 0x40B00000, 0x41D5999A), (0x41B80000, 0x40A66666, 0x41D40000),
      (0x41B66666, 0x40A00000, 0x41D26666), (0x41B40000, 0x4099999A, 0x41D0CCCD),
      (0x41B26666, 0x40933333, 0x41CF3333), (0x41B0CCCD, 0x408CCCCD, 0x41CD999A),
      (0x41AF3333, 0x4089999A, 0x41CC0000), (0x41AD999A, 0x40866666, 0x41CA6666),
      (0x41AC0000, 0x40833333, 0x41C8CCCD), (0x41AA6666, 0x40800000, 0x41C73333),
      (0x41A9999A, 0x4079999A, 0x41C5999A), (0x41A80000, 0x40733333, 0x404CCCCD),
      (0x41A66666, 0x40733333, 0x40466666), (0x41A4CCCD, 0x406CCCCD, 0x41B00000),
      (0x41A40000, 0x406CCCCD, 0x41C40000), (0x41A33333, 0x40666666, 0x41C8CCCD),
      (0x41A26666, 0x40666666, 0x41CE6666), (0x41A1999A, 0x40600000, 0x41D1999A)]"

definition field_msg :: "u16 \<Rightarrow> u8 \<Rightarrow> u8 \<Rightarrow> u32 \<Rightarrow> embediq_msg" where
  "field_msg pad sid uid v =
     with_payload ([sid, uid] @ le16 pad @ le32 v) (plain_msg MSG_FIELD_READING)"

definition publish_reading ::
  "u16 \<Rightarrow> handle \<Rightarrow> u8 \<Rightarrow> u8 \<Rightarrow> u32 \<Rightarrow> 'u world \<Rightarrow> 'u world option" where
  "publish_reading pad fb sid uid v w = publish_to fb (field_msg pad sid uid v) w"

definition field_poll :: "u16 \<Rightarrow> handle \<Rightarrow> u32 \<times> 'u world \<Rightarrow> (u32 \<times> 'u world) option" where
  "field_poll pad fb = (\<lambda>(tick, w).
     let (temp, pressure, flow) = k_frames ! (unat tick mod length k_frames)
     in do {
       w \<leftarrow> publish_reading pad fb SENSOR_TANK_TEMP UNIT_CELSIUS temp w;
       w \<leftarrow> publish_reading pad fb SENSOR_TANK_PRESSURE UNIT_BAR pressure w;
       w \<leftarrow> publish_reading pad fb SENSOR_PUMP_FLOW UNIT_LPM flow w;
       Some (tick + 1, w) })"

definition FN_field_poll :: nat where "FN_field_poll = 81"
definition FN_field_receiver_init :: nat where "FN_field_receiver_init = 82"
definition FN_policy_run :: nat where "FN_policy_run = 83"
definition FN_policy_engine_init :: nat where "FN_policy_engine_init = 84"
definition FN_north_timer :: nat where "FN_north_timer = 85"
definition FN_north_rx :: nat where "FN_north_rx = 86"
definition FN_north_bridge_init :: nat where "FN_north_bridge_init = 87"

text \<open>A sub-function as the three blocks of the example configure it, and a block.\<close>

definition gw_subfn :: "string \<Rightarrow> u8 \<Rightarrow> nat \<Rightarrow> u16 list \<Rightarrow> nat \<Rightarrow> subfn_config" where
  "gw_subfn name ord fn subs data = zero_subfn\<lparr>sf_name := Some name, sf_init_order := ord,
     sf_run_fn := Some fn, sf_subscriptions := subs,
     sf_subscription_count := word_of_nat (length subs), sf_subfn_data := data\<rparr>"

definition gw_config :: "string \<Rightarrow> nat \<Rightarrow> u16 list \<Rightarrow> u16 list \<Rightarrow> fb_config" where
  "gw_config name init_id subs pubs = \<lparr>fc_name = Some name, fc_priority = 0, fc_stack_size = 0,
     fc_init_fn = Some init_id, fc_run_fn = None, fc_exit_fn = None, fc_fault_fn = None,
     fc_fb_data = 0, fc_subscriptions = Some subs,
     fc_subscription_count = word_of_nat (length subs),
     fc_publications = (if pubs = [] then None else Some pubs),
     fc_publication_count = word_of_nat (length pubs), fc_depends_on = [], fc_depends_count = 0,
     fc_boot_phase = EMBEDIQ_BOOT_PHASE_APPLICATION\<rparr>"

definition field_receiver_init :: "handle \<Rightarrow> 'u world \<Rightarrow> 'u world" where
  "field_receiver_init fb w = snd (embediq_subfn_register fb
     (Some (gw_subfn ''field_poll'' 1 FN_field_poll [MSG_TIMER_1SEC] 0)) w)"

definition fb_field_receiver_register :: "'u world \<Rightarrow> handle \<times> 'u world" where
  "fb_field_receiver_register = embediq_fb_register (Some (gw_config ''fb_field_receiver''
     FN_field_receiver_init [MSG_TIMER_1SEC] [MSG_FIELD_READING]))"

section \<open>The policy engine\<close>

record thresh_rule =
  high_thresh :: u32
  low_thresh :: u32

text \<open>1e9f and -1e9f stand for an unused bound.\<close>

definition k_rules :: "thresh_rule list" where
  "k_rules = [\<lparr>high_thresh = THRESH_TANK_TEMP_HIGH_C, low_thresh = 0xCE6E6B28\<rparr>,
     \<lparr>high_thresh = THRESH_TANK_PRESSURE_HIGH, low_thresh = 0xCE6E6B28\<rparr>,
     \<lparr>high_thresh = 0x4E6E6B28, low_thresh = THRESH_PUMP_FLOW_LOW\<rparr>]"

record policy_state =
  g_alert_active :: "bool list"
  g_telem_counter :: "u8 list"
  g_telem_seq :: "u16 list"

definition alert_msg :: "u16 \<Rightarrow> u8 \<Rightarrow> u32 \<Rightarrow> u32 \<Rightarrow> bool \<Rightarrow> embediq_msg" where
  "alert_msg pad sid v th active =
     (with_payload ([sid, of_bool active] @ le16 pad @ le32 v @ le32 th) (plain_msg MSG_ALERT))
       \<lparr>priority := EMBEDIQ_MSG_PRIORITY_HIGH\<rparr>"

definition telem_msg :: "u16 \<Rightarrow> u8 \<Rightarrow> u16 \<Rightarrow> u32 \<Rightarrow> embediq_msg" where
  "telem_msg pad sid sq v =
     with_payload ([sid, ucast pad] @ le16 sq @ le32 v) (plain_msg MSG_TELEMETRY)"

definition publish_alert ::
  "u16 \<Rightarrow> handle \<Rightarrow> u8 \<Rightarrow> u32 \<Rightarrow> u32 \<Rightarrow> bool \<Rightarrow> 'u world \<Rightarrow> 'u world option" where
  "publish_alert pad fb sid v th active w = publish_to fb (alert_msg pad sid v th active) w"

definition publish_telemetry ::
  "u16 \<Rightarrow> handle \<Rightarrow> u8 \<Rightarrow> u32 \<Rightarrow> policy_state \<times> 'u world \<Rightarrow> (policy_state \<times> 'u world) option" where
  "publish_telemetry pad fb sid v = (\<lambda>(ps, w).
     let sq = g_telem_seq ps ! unat sid;
         ps = ps\<lparr>g_telem_seq := (g_telem_seq ps)[unat sid := sq + 1]\<rparr>
     in map_option (Pair ps) (publish_to fb (telem_msg pad sid sq v) w))"

definition breached :: "nat \<Rightarrow> u32 \<Rightarrow> bool" where
  "breached sid v \<longleftrightarrow> f32_less (high_thresh (k_rules ! sid)) v \<or> f32_less v (low_thresh (k_rules ! sid))"

definition active_thresh :: "nat \<Rightarrow> u32 \<Rightarrow> u32" where
  "active_thresh sid v =
     (if f32_less (high_thresh (k_rules ! sid)) v then high_thresh (k_rules ! sid)
      else low_thresh (k_rules ! sid))"

text \<open>The handler behind the reading of its message.\<close>

definition policy_reading ::
  "u16 \<Rightarrow> handle \<Rightarrow> u8 \<Rightarrow> u32 \<Rightarrow> policy_state \<times> 'u world \<Rightarrow> (policy_state \<times> 'u world) option" where
  "policy_reading pad fb sid v = (\<lambda>(ps, w).
     if unat sid \<ge> SENSOR_COUNT then Some (ps, w)
     else do {
       let s = unat sid;
       (ps, w) \<leftarrow>
         (if breached s v \<and> \<not> g_alert_active ps ! s
          then map_option (Pair (ps\<lparr>g_alert_active := (g_alert_active ps)[s := True]\<rparr>))
                 (publish_alert pad fb sid v (active_thresh s v) True w)
          else if \<not> breached s v \<and> g_alert_active ps ! s
          then map_option (Pair (ps\<lparr>g_alert_active := (g_alert_active ps)[s := False]\<rparr>))
                 (publish_alert pad fb sid v (active_thresh s v) False w)
          else Some (ps, w));
       let c = g_telem_counter ps ! s + 1;
       if c \<ge> 2
       then publish_telemetry pad fb sid v (ps\<lparr>g_telem_counter := (g_telem_counter ps)[s := 0]\<rparr>, w)
       else Some (ps\<lparr>g_telem_counter := (g_telem_counter ps)[s := c]\<rparr>, w) })"

definition policy_run ::
  "u16 \<Rightarrow> handle \<Rightarrow> bytes \<Rightarrow> policy_state \<times> 'u world \<Rightarrow> (policy_state \<times> 'u world) option" where
  "policy_run pad fb m = (let p = msg_payload_at m in policy_reading pad fb (p ! 0) (of_le32 (drop 4 p)))"

definition policy_engine_init :: "handle \<Rightarrow> 'u world \<Rightarrow> 'u world" where
  "policy_engine_init fb w = snd (embediq_subfn_register fb
     (Some (gw_subfn ''policy_run'' 1 FN_policy_run [MSG_FIELD_READING] 0)) w)"

definition fb_policy_engine_register :: "'u world \<Rightarrow> handle \<times> 'u world" where
  "fb_policy_engine_register = embediq_fb_register (Some (gw_config ''fb_policy_engine''
     FN_policy_engine_init [MSG_FIELD_READING] [MSG_ALERT, MSG_TELEMETRY]))"

section \<open>The north bridge\<close>

definition NORTH_ONLINE :: u8 where [embediq_const]: "NORTH_ONLINE = 0"
definition NORTH_OFFLINE :: u8 where [embediq_const]: "NORTH_OFFLINE = 1"
definition NORTH_RECONNECTING :: u8 where [embediq_const]: "NORTH_RECONNECTING = 2"
definition TICK_GO_OFFLINE :: u32 where [embediq_const]: "TICK_GO_OFFLINE = 12"
definition TICK_GO_RECONNECTING :: u32 where [embediq_const]: "TICK_GO_RECONNECTING = 22"
definition TICK_LINK_RESTORED :: u32 where [embediq_const]: "TICK_LINK_RESTORED = 23"
definition NORTH_BUFFER_SIZE :: nat where [embediq_const]: "NORTH_BUFFER_SIZE = 10"

type_synonym north_entry = "u8 \<times> u16 \<times> u32"

text \<open>What is printed: link changes, alerts, telemetry sent, flushed, buffered or dropped.\<close>

datatype north_out =
    Link_Down u32 | Link_Reconnecting u32 | Link_Restored u32 u8
  | Cloud_Alert string bool u32 u32
  | Cloud_Telemetry string u16 u32
  | Cloud_Flushed string u16 u32
  | Buffered string u16 u8
  | Dropped string u16

record north_state =
  n_tick :: u32
  g_conn_state :: u8
  g_buffer :: "north_entry list"
  n_out :: "north_out list"

definition sensor_name :: "u8 \<Rightarrow> string" where
  "sensor_name sid = (if unat sid < SENSOR_COUNT
     then [''Tank_Temp'', ''Tank_Pressure'', ''Pump_Flow''] ! unat sid else ''unknown'')"

definition guard_go_offline :: "bytes \<Rightarrow> north_state \<Rightarrow> bool" where
  "guard_go_offline m ns \<longleftrightarrow> n_tick ns = TICK_GO_OFFLINE"
definition guard_go_reconnecting :: "bytes \<Rightarrow> north_state \<Rightarrow> bool" where
  "guard_go_reconnecting m ns \<longleftrightarrow> n_tick ns = TICK_GO_RECONNECTING"
definition guard_link_restored :: "bytes \<Rightarrow> north_state \<Rightarrow> bool" where
  "guard_link_restored m ns \<longleftrightarrow> n_tick ns = TICK_LINK_RESTORED"

definition action_go_offline :: "bytes \<Rightarrow> north_state \<Rightarrow> north_state" where
  "action_go_offline m ns =
     ns\<lparr>g_conn_state := NORTH_OFFLINE, n_out := n_out ns @ [Link_Down (n_tick ns)]\<rparr>"
definition action_go_reconnecting :: "bytes \<Rightarrow> north_state \<Rightarrow> north_state" where
  "action_go_reconnecting m ns =
     ns\<lparr>g_conn_state := NORTH_RECONNECTING, n_out := n_out ns @ [Link_Reconnecting (n_tick ns)]\<rparr>"
definition action_link_restored :: "bytes \<Rightarrow> north_state \<Rightarrow> north_state" where
  "action_link_restored m ns =
     ns\<lparr>g_conn_state := NORTH_ONLINE, g_buffer := [],
        n_out := n_out ns @ [Link_Restored (n_tick ns) (word_of_nat (length (g_buffer ns)))] @
          map (\<lambda>(sid, sq, v). Cloud_Flushed (sensor_name sid) sq v) (g_buffer ns)\<rparr>"

definition s_north_table :: "(bytes, north_state) sm_row list" where
  "s_north_table =
     [\<lparr>row_current_state = NORTH_ONLINE, event_msg_id = MSG_TIMER_1SEC,
        guard_fn = Some guard_go_offline, action_fn = Some action_go_offline, next_state = NORTH_OFFLINE\<rparr>,
      \<lparr>row_current_state = NORTH_OFFLINE, event_msg_id = MSG_TIMER_1SEC,
        guard_fn = Some guard_go_reconnecting, action_fn = Some action_go_reconnecting,
        next_state = NORTH_RECONNECTING\<rparr>,
      \<lparr>row_current_state = NORTH_RECONNECTING, event_msg_id = MSG_TIMER_1SEC,
        guard_fn = Some guard_link_restored, action_fn = Some action_link_restored, next_state = NORTH_ONLINE\<rparr>,
      EMBEDIQ_SM_TABLE_END]"

type_synonym north_sm = "(bytes, north_state) embediq_sm"

definition north_initial :: "north_sm \<times> north_state" where
  "north_initial = (\<lparr>sm_current_state = NORTH_ONLINE, sm_table = Some s_north_table, sm_name = ''north_conn''\<rparr>,
     \<lparr>n_tick = 0, g_conn_state = NORTH_ONLINE, g_buffer = [], n_out = []\<rparr>)"

text \<open>The handlers; the events are those of the state machine.\<close>

definition north_timer ::
  "bytes \<Rightarrow> north_sm \<times> north_state \<Rightarrow> (north_sm \<times> north_state \<times> obs_call list) option" where
  "north_timer m = (\<lambda>(sm, ns).
     let ns = ns\<lparr>n_tick := n_tick ns + 1\<rparr>
     in case embediq_sm_process (Some sm) m MSG_TIMER_1SEC ns of
          Some (Some sm, ns, ev) \<Rightarrow> Some (sm, ns, ev) | _ \<Rightarrow> None)"

definition north_rx :: "bytes \<Rightarrow> north_state \<Rightarrow> north_state" where
  "north_rx m ns =
     (let p = msg_payload_at m; name = sensor_name (p ! 0)
      in if of_le16 m = MSG_ALERT
         then ns\<lparr>n_out := n_out ns @ [Cloud_Alert name (p ! 1 \<noteq> 0) (of_le32 (drop 4 p)) (of_le32 (drop 8 p))]\<rparr>
         else if of_le16 m = MSG_TELEMETRY
         then let sq = of_le16 (drop 2 p); v = of_le32 (drop 4 p)
           in if g_conn_state ns = NORTH_ONLINE
              then ns\<lparr>n_out := n_out ns @ [Cloud_Telemetry name sq v]\<rparr>
              else if length (g_buffer ns) < NORTH_BUFFER_SIZE
              then ns\<lparr>g_buffer := g_buffer ns @ [(p ! 0, sq, v)],
                      n_out := n_out ns @ [Buffered name sq (word_of_nat (length (g_buffer ns) + 1))]\<rparr>
              else ns\<lparr>n_out := n_out ns @ [Dropped name sq]\<rparr>
         else ns)"

definition north_bridge_init :: "handle \<Rightarrow> 'u world \<Rightarrow> 'u world" where
  "north_bridge_init fb w =
     snd (embediq_subfn_register fb (Some (gw_subfn ''north_rx'' 2 FN_north_rx [MSG_TELEMETRY, MSG_ALERT] 0))
    (snd (embediq_subfn_register fb (Some (gw_subfn ''north_timer'' 1 FN_north_timer [MSG_TIMER_1SEC] 1)) w)))"

definition fb_north_bridge_register :: "'u world \<Rightarrow> handle \<times> 'u world" where
  "fb_north_bridge_register = embediq_fb_register (Some (gw_config ''fb_north_bridge''
     FN_north_bridge_init [MSG_TIMER_1SEC, MSG_TELEMETRY, MSG_ALERT] []))"

section \<open>Alerts on changes, telemetry on every second reading\<close>

definition policy_ok :: "policy_state \<Rightarrow> bool" where
  "policy_ok ps \<longleftrightarrow> length (g_alert_active ps) = 3 \<and> length (g_telem_counter ps) = 3 \<and>
     length (g_telem_seq ps) = 3 \<and> (\<forall>c \<in> set (g_telem_counter ps). c \<le> 1)"

text \<open>The reading that the handler takes from the bytes its argument points to: it expects a whole
  message there, with the payload behind 20 bytes.\<close>

definition reading_at :: "bytes \<Rightarrow> u8 \<times> u32" where
  "reading_at m = (msg_payload_at m ! 0, of_le32 (drop 4 (msg_payload_at m)))"

text \<open>The messages that a list of readings makes: for each sensor, \<open>active\<close> is the alert state, \<open>rep\<close>
  whether its next reading is reported, \<open>sq\<close> its next sequence number.\<close>

fun policy_msgs :: "u16 \<Rightarrow> (nat \<Rightarrow> bool) \<Rightarrow> (nat \<Rightarrow> bool) \<Rightarrow> (nat \<Rightarrow> u16) \<Rightarrow> (u8 \<times> u32) list \<Rightarrow> embediq_msg list" where
  "policy_msgs pad active rep sq [] = []"
| "policy_msgs pad active rep sq ((sid, v) # rs) =
     (let s = unat sid
      in if s \<ge> 3 then policy_msgs pad active rep sq rs
         else (if breached s v \<noteq> active s
               then [alert_msg pad sid v (active_thresh s v) (breached s v)] else []) @
              (if rep s then [telem_msg pad sid (sq s) v] else []) @
              policy_msgs pad (active(s := breached s v)) (rep(s := \<not> rep s))
                (if rep s then sq(s := sq s + 1) else sq) rs)"

definition policy_out :: "u16 \<Rightarrow> policy_state \<Rightarrow> (u8 \<times> u32) list \<Rightarrow> embediq_msg list" where
  "policy_out pad ps = policy_msgs pad ((!) (g_alert_active ps)) (\<lambda>s. g_telem_counter ps ! s = 1) ((!) (g_telem_seq ps))"

lemma policy_out_one:
  "unat sid < 3 \<Longrightarrow> policy_out pad ps [(sid, v)] =
     (if breached (unat sid) v \<noteq> g_alert_active ps ! unat sid
      then [alert_msg pad sid v (active_thresh (unat sid) v) (breached (unat sid) v)] else []) @
     (if g_telem_counter ps ! unat sid = 1 then [telem_msg pad sid (g_telem_seq ps ! unat sid) v] else [])"
  by (simp add: policy_out_def Let_def)

lemma map_option_Pair_bind:
  "map_option (Pair a) m \<bind> f = m \<bind> (\<lambda>w. f (a, w))"
  by (cases m) simp_all

text \<open>The state after a reading.\<close>

definition policy_next :: "u8 \<Rightarrow> u32 \<Rightarrow> policy_state \<Rightarrow> policy_state" where
  "policy_next sid v ps = (let s = unat sid; rep = (g_telem_counter ps ! s = 1) in
     ps\<lparr>g_alert_active := (g_alert_active ps)[s := breached s v],
        g_telem_counter := (g_telem_counter ps)[s := of_bool (\<not> rep)],
        g_telem_seq := (g_telem_seq ps)[s := g_telem_seq ps ! s + of_bool rep]\<rparr>)"

lemma policy_next_ok: "policy_ok ps \<Longrightarrow> policy_ok (policy_next sid v ps)"
  by (auto simp: policy_ok_def policy_next_def Let_def dest!: set_update_subset_insert[THEN subsetD])

lemma policy_reading_step:
  assumes "policy_ok ps" and "unat sid < 3"
  shows "policy_reading pad (Some i) sid v (ps, w) = map_option (Pair (policy_next sid v ps))
      (run_list (publish_msg i) (policy_out pad ps [(sid, v)]) w)"
proof -
  let ?s = "unat sid" and ?a = "g_alert_active ps ! unat sid" and ?b = "breached (unat sid) v"
  let ?c = "g_telem_counter ps ! ?s"
  have len: "?s < length (g_alert_active ps)" "?s < length (g_telem_counter ps)" "?s < length (g_telem_seq ps)"
    using assms by (simp_all add: policy_ok_def)
  have "?c \<le> 1" using assms(1) len(2) nth_mem by (auto simp: policy_ok_def)
  then have c: "?c = 0 \<or> ?c = 1" by (simp add: word_le_nat_alt word_unat_eq_iff) arith
  define ps1 where "ps1 = ps\<lparr>g_alert_active := (g_alert_active ps)[?s := ?b]\<rparr>"
  define al where "al = (if ?b \<noteq> ?a then [alert_msg pad sid v (active_thresh ?s v) ?b] else [])"
  have up: "(g_alert_active ps)[?s := ?b] = g_alert_active ps" if "?b = ?a" using that by simp
  have first: "(if ?b \<and> \<not> ?a
      then map_option (Pair (ps\<lparr>g_alert_active := (g_alert_active ps)[?s := True]\<rparr>))
             (publish_alert pad (Some i) sid v (active_thresh ?s v) True w)
      else if \<not> ?b \<and> ?a
      then map_option (Pair (ps\<lparr>g_alert_active := (g_alert_active ps)[?s := False]\<rparr>))
             (publish_alert pad (Some i) sid v (active_thresh ?s v) False w)
      else Some (ps, w)) = map_option (Pair ps1) (run_list (publish_msg i) al w)"
    using up by (cases ?b; cases ?a)
      (simp_all add: al_def ps1_def publish_alert_def split: bind_splits)
  have "\<not> SENSOR_COUNT \<le> ?s" using assms(2) by (simp add: SENSOR_COUNT_def)
  moreover have g1: "g_telem_counter ps1 = g_telem_counter ps" by (simp add: ps1_def)
  ultimately have eq: "policy_reading pad (Some i) sid v (ps, w) =
      run_list (publish_msg i) al w \<bind> (\<lambda>w. if ?c + 1 \<ge> 2
        then publish_telemetry pad (Some i) sid v (ps1\<lparr>g_telem_counter := (g_telem_counter ps)[?s := 0]\<rparr>, w)
        else Some (ps1\<lparr>g_telem_counter := (g_telem_counter ps)[?s := ?c + 1]\<rparr>, w))"
    unfolding policy_reading_def prod.case Let_def first by (simp add: map_option_Pair_bind cong: if_cong)
  show ?thesis
  proof (cases "?c = 1")
    case True
    then have n: "policy_next sid v ps = ps1\<lparr>g_telem_counter := (g_telem_counter ps)[?s := 0],
        g_telem_seq := (g_telem_seq ps)[?s := g_telem_seq ps ! ?s + 1]\<rparr>"
      by (simp add: policy_next_def ps1_def Let_def)
    have "policy_reading pad (Some i) sid v (ps, w) = map_option (Pair (policy_next sid v ps))
        (run_list (publish_msg i) (al @ [telem_msg pad sid (g_telem_seq ps ! ?s) v]) w)"
      using True unfolding eq run_list_append n
      by (auto simp: publish_telemetry_def Let_def ps1_def split: bind_splits)
    then show ?thesis using True policy_out_one[OF assms(2)] by (simp add: al_def)
  next
    case False
    with c have c0: "?c = 0" by simp
    then have n: "policy_next sid v ps = ps1\<lparr>g_telem_counter := (g_telem_counter ps)[?s := 1]\<rparr>"
      by (simp add: policy_next_def ps1_def Let_def)
    have "policy_reading pad (Some i) sid v (ps, w) =
        map_option (Pair (policy_next sid v ps)) (run_list (publish_msg i) al w)"
      unfolding eq c0 n by (auto simp: word_le_nat_alt split: bind_splits)
    then show ?thesis using c0 policy_out_one[OF assms(2)] by (simp add: al_def)
  qed
qed

text \<open>The state after a reading of any sensor number.\<close>

definition policy_state_next :: "u8 \<times> u32 \<Rightarrow> policy_state \<Rightarrow> policy_state" where
  "policy_state_next = (\<lambda>(sid, v) ps. if unat sid < 3 then policy_next sid v ps else ps)"

lemma policy_state_next_ok: "policy_ok ps \<Longrightarrow> policy_ok (policy_state_next rd ps)"
  using policy_next_ok by (cases rd) (simp add: policy_state_next_def)

lemma policy_out_Cons:
  assumes "policy_ok ps"
  shows "policy_out pad ps (rd # rs) = policy_out pad ps [rd] @ policy_out pad (policy_state_next rd ps) rs"
proof -
  obtain sid v where rd: "rd = (sid, v)" by (cases rd)
  show ?thesis
  proof (cases "unat sid < 3")
    case True
    let ?s = "unat sid" and ?n = "policy_next sid v ps"
    have len: "?s < length (g_alert_active ps)" "?s < length (g_telem_counter ps)" "?s < length (g_telem_seq ps)"
      using assms True by (simp_all add: policy_ok_def)
    have "(!) (g_alert_active ?n) = ((!) (g_alert_active ps))(?s := breached ?s v)"
      "(\<lambda>x. g_telem_counter ?n ! x = 1) = (\<lambda>x. g_telem_counter ps ! x = 1)(?s := g_telem_counter ps ! ?s \<noteq> 1)"
      "(!) (g_telem_seq ?n) = (if g_telem_counter ps ! ?s = 1
         then ((!) (g_telem_seq ps))(?s := g_telem_seq ps ! ?s + 1) else (!) (g_telem_seq ps))"
      using len by (auto simp: policy_next_def Let_def fun_eq_iff nth_list_update)
    then show ?thesis using True unfolding rd by (simp add: policy_out_def policy_state_next_def Let_def)
  qed (simp add: rd policy_out_def policy_state_next_def Let_def)
qed

lemma policy_run_step:
  assumes "policy_ok ps"
  shows "policy_run pad (Some i) m (ps, w) = map_option (Pair (policy_state_next (reading_at m) ps))
      (run_list (publish_msg i) (policy_out pad ps [reading_at m]) w)"
proof -
  obtain sid v where rd: "reading_at m = (sid, v)" by (cases "reading_at m")
  then have run: "policy_run pad (Some i) m = policy_reading pad (Some i) sid v"
    by (simp add: policy_run_def reading_at_def Let_def)
  show ?thesis
  proof (cases "unat sid < 3")
    case True
    then show ?thesis unfolding run rd using policy_reading_step[OF assms True] by (simp add: policy_state_next_def)
  next
    case False
    then show ?thesis unfolding run rd
      by (simp add: policy_reading_def SENSOR_COUNT_def policy_out_def policy_state_next_def Let_def)
  qed
qed

lemma policy_runs:
  assumes "policy_ok ps"
  shows "run_list (policy_run pad (Some i)) ms (ps, w) =
    map_option (Pair (fold policy_state_next (map reading_at ms) ps))
      (run_list (publish_msg i) (policy_out pad ps (map reading_at ms)) w)"
  using assms
proof (induction ms arbitrary: ps w)
  case (Cons m ms)
  let ?n = "policy_state_next (reading_at m) ps"
  have "run_list (policy_run pad (Some i)) (m # ms) (ps, w) =
      run_list (publish_msg i) (policy_out pad ps [reading_at m]) w \<bind>
      (\<lambda>w. run_list (policy_run pad (Some i)) ms (?n, w))"
    by (simp add: policy_run_step[OF Cons.prems] map_option_Pair_bind)
  also have "\<dots> = map_option (Pair (fold policy_state_next (map reading_at ms) ?n)) (run_list (publish_msg i)
      (policy_out pad ps [reading_at m] @ policy_out pad ?n (map reading_at ms)) w)"
    unfolding run_list_append Cons.IH[OF policy_state_next_ok[OF Cons.prems]] by (simp split: bind_splits)
  also have "policy_out pad ps [reading_at m] @ policy_out pad ?n (map reading_at ms) =
      policy_out pad ps (map reading_at (m # ms))"
    using policy_out_Cons[OF Cons.prems, of pad "reading_at m" "map reading_at ms"] by simp
  finally show ?case by simp
qed (simp add: policy_out_def)

text \<open>The last value that a list of readings has for a sensor.\<close>

definition last_value :: "nat \<Rightarrow> (u8 \<times> u32) list \<Rightarrow> u32 option" where
  "last_value s rs = (case filter (\<lambda>(sid, v). unat sid = s) rs of [] \<Rightarrow> None | xs \<Rightarrow> Some (snd (last xs)))"

lemma policy_fold_active:
  "policy_ok ps \<Longrightarrow> s < 3 \<Longrightarrow> policy_ok (fold policy_state_next rs ps) \<and>
   g_alert_active (fold policy_state_next rs ps) ! s =
     (case last_value s rs of None \<Rightarrow> g_alert_active ps ! s | Some v \<Rightarrow> breached s v)"
proof (induction rs arbitrary: ps)
  case (Cons rd rs)
  obtain sid v where rd: "rd = (sid, v)" by (cases rd)
  have "g_alert_active (policy_state_next rd ps) ! s = (if unat sid = s then breached s v else g_alert_active ps ! s)"
    using Cons.prems by (auto simp: rd policy_state_next_def policy_next_def Let_def policy_ok_def nth_list_update)
  with Cons.IH[OF policy_state_next_ok[OF Cons.prems(1)] Cons.prems(2), of rd] show ?case
    by (auto simp: rd last_value_def split: list.splits)
qed (simp add: last_value_def)

lemma gw_payloads:
  "payload (field_msg pad sid uid v) = [sid, uid] @ le16 pad @ le32 v @ replicate 56 0"
  "payload (alert_msg pad sid v th a) = [sid, of_bool a] @ le16 pad @ le32 v @ le32 th @ replicate 52 0"
  "payload (telem_msg pad sid sq v) = [sid, ucast pad] @ le16 sq @ le32 v @ replicate 56 0"
  by (simp_all add: field_msg_def alert_msg_def telem_msg_def with_payload_def plain_msg_def zero_msg_def
      numeral_eq_Suc)

lemma reading_behind: "drop 20 m = replicate 44 0 \<Longrightarrow> reading_at m = (0, 0)"
  by (simp add: reading_at_def msg_payload_at_def of_le32_def)

lemma field_msg_payload: "drop 20 (payload (field_msg pad sid uid v)) = replicate 44 0"
  by (simp add: gw_payloads)

text \<open>The thresholds as values: 70, 8.5 and 5, and the two unused bounds.\<close>

lemma breached_value:
  assumes "f32_finite x"
  shows "breached 0 x \<longleftrightarrow> 70 * 2 ^ 149 < f32_int x \<or> f32_int x < - (10 ^ 9 * 2 ^ 149)"
    and "breached 1 x \<longleftrightarrow> 17 * 2 ^ 148 < f32_int x \<or> f32_int x < - (10 ^ 9 * 2 ^ 149)"
    and "breached 2 x \<longleftrightarrow> 10 ^ 9 * 2 ^ 149 < f32_int x \<or> f32_int x < 5 * 2 ^ 149"
proof -
  have f: "f32_finite 0x428C0000" "f32_finite 0x41080000" "f32_finite 0x40A00000" "f32_finite 0x4E6E6B28"
    "f32_finite 0xCE6E6B28"
    by (simp_all add: f32_finite_def f32_abs_def f32_inf_code_def)
  have v: "f32_int 0x428C0000 = 70 * 2 ^ 149" "f32_int 0x41080000 = 17 * 2 ^ 148" "f32_int 0x40A00000 = 5 * 2 ^ 149"
    "f32_int 0x4E6E6B28 = 10 ^ 9 * 2 ^ 149" "f32_int 0xCE6E6B28 = - (10 ^ 9 * 2 ^ 149)"
    by (simp_all add: f32_int_def f32_sign_def f32_abs_def code_mag_def)
  note l = f32_less_iff[OF f(1) assms] f32_less_iff[OF f(2) assms] f32_less_iff[OF assms f(3)]
    f32_less_iff[OF f(4) assms] f32_less_iff[OF assms f(5)]
  show "breached 0 x \<longleftrightarrow> 70 * 2 ^ 149 < f32_int x \<or> f32_int x < - (10 ^ 9 * 2 ^ 149)"
    "breached 1 x \<longleftrightarrow> 17 * 2 ^ 148 < f32_int x \<or> f32_int x < - (10 ^ 9 * 2 ^ 149)"
    "breached 2 x \<longleftrightarrow> 10 ^ 9 * 2 ^ 149 < f32_int x \<or> f32_int x < 5 * 2 ^ 149"
    unfolding breached_def k_rules_def THRESH_TANK_TEMP_HIGH_C_def THRESH_TANK_PRESSURE_HIGH_def
      THRESH_PUMP_FLOW_LOW_def numeral_2_eq_2 One_nat_def nth_Cons_Suc nth_Cons_0 thresh_rule.simps l v by (rule refl)+
qed

text \<open>C32: Whatever bytes the handler of the policy engine is called with, call after call, and in
  whatever order of sensors: with the readings that it takes from these bytes it publishes exactly
  an alert for each reading of a valid sensor whose breach of the thresholds differs from the alert
  state of the sensor, which it thereby follows, and a telemetry message with the sensor's next
  sequence number for every second reading of the sensor, in this order; it waits exactly when one
  of these publications does. A value breaches above 70 degrees, above 8.5 bar or below 5 l/min (or
  beyond the bounds of 10^9 that stand for none; values are in units of 2^-149). The handler expects a whole message. The dispatcher passes the
  payload of the field message, and from that the reading taken is always value 0 of sensor 0.\<close>

theorem policy_alert_edges:
  assumes "policy_ok ps" and "rs = map reading_at ms"
  shows "\<exists>ps'. policy_ok ps' \<and> run_list (policy_run pad (Some i)) ms (ps, w) = map_option (Pair ps')
      (run_list (publish_msg i) (policy_msgs pad ((!) (g_alert_active ps))
        (\<lambda>s. g_telem_counter ps ! s = 1) ((!) (g_telem_seq ps)) rs) w) \<and>
    (\<forall>s < 3. g_alert_active ps' ! s =
       (case last_value s rs of None \<Rightarrow> g_alert_active ps ! s | Some v \<Rightarrow> breached s v)) \<and>
    (\<forall>x. f32_finite x \<longrightarrow>
       (breached 0 x \<longleftrightarrow> 70 * 2 ^ 149 < f32_int x \<or> f32_int x < - (10 ^ 9 * 2 ^ 149)) \<and>
       (breached 1 x \<longleftrightarrow> 17 * 2 ^ 148 < f32_int x \<or> f32_int x < - (10 ^ 9 * 2 ^ 149)) \<and>
       (breached 2 x \<longleftrightarrow> 10 ^ 9 * 2 ^ 149 < f32_int x \<or> f32_int x < 5 * 2 ^ 149)) \<and>
    reading_at (payload (field_msg pad' sid uid v)) = (0, 0)"
proof -
  have "policy_ok (fold policy_state_next rs ps)" using policy_fold_active[OF assms(1), of 0 rs] by simp
  then have "\<exists>ps'. policy_ok ps' \<and> run_list (policy_run pad (Some i)) ms (ps, w) = map_option (Pair ps')
      (run_list (publish_msg i) (policy_msgs pad ((!) (g_alert_active ps))
        (\<lambda>s. g_telem_counter ps ! s = 1) ((!) (g_telem_seq ps)) rs) w) \<and>
    (\<forall>s < 3. g_alert_active ps' ! s =
       (case last_value s rs of None \<Rightarrow> g_alert_active ps ! s | Some v \<Rightarrow> breached s v))"
    using policy_runs[OF assms(1), of pad i ms w] policy_fold_active[OF assms(1), of _ rs]
    by (auto simp: assms(2) policy_out_def)
  then show ?thesis using breached_value reading_behind[OF field_msg_payload] by blast
qed

section \<open>The data path as it is\<close>

lemma breached_zero: "\<not> breached 0 0"
  by (simp add: breached_def k_rules_def THRESH_TANK_TEMP_HIGH_C_def f32_less_def f32_is_nan_def
      f32_key_def f32_abs_def f32_sign_def f32_inf_code_def)

lemma of_le16_low: "ucast (of_le16 bs) = bs ! 0"
  by (rule bit_eqI) (auto simp: of_le16_def bit_simps)

lemma not_msg_id: "bs ! 0 = sid \<Longrightarrow> unat sid < 3 \<Longrightarrow> of_le16 bs \<notin> {MSG_ALERT, MSG_TELEMETRY}"
  using of_le16_low[of bs] by (auto simp: embediq_const)

lemma north_rx_drops:
  assumes "unat sid < 3"
  shows "north_rx (payload (alert_msg pad sid v th a)) ns = ns"
    and "north_rx (payload (telem_msg pad sid sq v)) ns = ns"
proof -
  have "of_le16 (payload (alert_msg pad sid v th a)) \<notin> {MSG_ALERT, MSG_TELEMETRY}"
    "of_le16 (payload (telem_msg pad sid sq v)) \<notin> {MSG_ALERT, MSG_TELEMETRY}"
    using not_msg_id[OF _ assms] by (simp_all add: gw_payloads)
  then show "north_rx (payload (alert_msg pad sid v th a)) ns = ns"
    "north_rx (payload (telem_msg pad sid sq v)) ns = ns"
    by (simp_all add: north_rx_def Let_def)
qed

lemma policy_run_payload:
  assumes "policy_ok ps" and "\<not> g_alert_active ps ! 0" and "drop 20 m = replicate 44 0"
  shows "policy_run pad (Some i) m (ps, w) = map_option (Pair (policy_next 0 0 ps))
      (run_list (publish_msg i) (if g_telem_counter ps ! 0 = 1
         then [telem_msg pad 0 (g_telem_seq ps ! 0) 0] else []) w)"
  using policy_run_step[OF assms(1), of pad i m w] policy_out_one[of 0 pad ps 0] assms(2) breached_zero
  by (simp add: reading_behind[OF assms(3)] policy_state_next_def)

text \<open>What the dispatcher passes is the payload, but the policy engine and the north bridge take
  it for a whole message. So every field reading, whatever its sensor and value, is handled as
  value 0 of sensor 0: it never raises an alert. And the north bridge drops every alert and every
  telemetry message of a valid sensor, without output and without buffering it.\<close>

theorem gateway_data_lost:
  assumes "policy_ok ps" and "\<not> g_alert_active ps ! 0" and "unat sid < 3"
  shows "\<exists>ps'. policy_run pad (Some i) (payload (field_msg pad' sid' uid v)) (ps, w) = map_option (Pair ps')
      (run_list (publish_msg i) (if g_telem_counter ps ! 0 = 1
         then [telem_msg pad 0 (g_telem_seq ps ! 0) 0] else []) w) \<and>
    policy_ok ps' \<and> \<not> g_alert_active ps' ! 0 \<and>
    north_rx (payload (alert_msg pad sid v th a)) ns = ns \<and>
    north_rx (payload (telem_msg pad sid sq v)) ns = ns"
proof -
  have "policy_ok (policy_next 0 0 ps)" by (rule policy_next_ok[OF assms(1)])
  moreover have "\<not> g_alert_active (policy_next 0 0 ps) ! 0"
    using assms(1) breached_zero by (simp add: policy_next_def Let_def policy_ok_def)
  ultimately show ?thesis
    using policy_run_payload[OF assms(1,2) field_msg_payload] north_rx_drops[OF assms(3)] by blast
qed

section \<open>The link and its buffer\<close>

definition north_at :: "nat \<Rightarrow> u8" where
  "north_at n = (if n < 12 then NORTH_ONLINE else if n < 22 then NORTH_OFFLINE
     else if n = 22 then NORTH_RECONNECTING else NORTH_ONLINE)"

text \<open>One call of a handler of the north bridge, with the bytes its argument points to, and the
  telemetry that \<open>north_rx\<close> takes from such bytes: it expects a whole message there.\<close>

datatype north_event = Tick bytes | Rx bytes

definition telem_at :: "bytes \<Rightarrow> north_entry option" where
  "telem_at m = (if of_le16 m = MSG_TELEMETRY
     then Some (msg_payload_at m ! 0, of_le16 (drop 2 (msg_payload_at m)), of_le32 (drop 4 (msg_payload_at m)))
     else None)"

fun north_step :: "north_event \<Rightarrow> north_sm \<times> north_state \<Rightarrow> (north_sm \<times> north_state) option" where
  "north_step (Tick m) (sm, ns) = map_option (\<lambda>(sm, ns, ev). (sm, ns)) (north_timer m (sm, ns))"
| "north_step (Rx m) (sm, ns) = Some (sm, north_rx m ns)"

text \<open>What the cloud gets: the telemetry printed as sent or flushed, in order.\<close>

fun cloud_of :: "north_out \<Rightarrow> (string \<times> u16 \<times> u32) list" where
  "cloud_of (Cloud_Telemetry n sq v) = [(n, sq, v)]"
| "cloud_of (Cloud_Flushed n sq v) = [(n, sq, v)]"
| "cloud_of _ = []"

definition named :: "north_entry \<Rightarrow> string \<times> u16 \<times> u32" where
  "named = (\<lambda>(sid, sq, v). (sensor_name sid, sq, v))"

fun count_ticks :: "north_event list \<Rightarrow> nat" where
  "count_ticks [] = 0"
| "count_ticks (Tick m # es) = Suc (count_ticks es)"
| "count_ticks (e # es) = count_ticks es"

text \<open>The telemetry accepted from a point on, for \<open>n\<close> ticks and \<open>b\<close> buffered entries before it: all
  of it while online, and while not online what fits into the ten cells.\<close>

fun accepted :: "nat \<Rightarrow> nat \<Rightarrow> north_event list \<Rightarrow> (string \<times> u16 \<times> u32) list" where
  "accepted n b [] = []"
| "accepted n b (Tick m # es) = accepted (Suc n) (if Suc n = 23 then 0 else b) es"
| "accepted n b (Rx m # es) = (case telem_at m of
      None \<Rightarrow> accepted n b es
    | Some t \<Rightarrow>
        if north_at n = NORTH_ONLINE then named t # accepted n b es
        else if b < 10 then named t # accepted n (Suc b) es
        else accepted n b es)"

definition north_ok :: "nat \<Rightarrow> north_sm \<times> north_state \<Rightarrow> bool" where
  "north_ok n st \<longleftrightarrow> sm_table (fst st) = Some s_north_table \<and> sm_current_state (fst st) = north_at n \<and>
     g_conn_state (snd st) = north_at n \<and> unat (n_tick (snd st)) = n \<and> length (g_buffer (snd st)) \<le> 10 \<and>
     (north_at n = NORTH_ONLINE \<longrightarrow> g_buffer (snd st) = [])"

lemma north_rx_none:
  assumes "telem_at m = None"
  obtains out where "north_rx m ns = ns\<lparr>n_out := n_out ns @ out\<rparr>" and "concat (map cloud_of out) = []"
proof (cases "of_le16 m = MSG_ALERT")
  case True
  then show ?thesis
    using that[of "[Cloud_Alert (sensor_name (msg_payload_at m ! 0)) (msg_payload_at m ! 1 \<noteq> 0)
      (of_le32 (drop 4 (msg_payload_at m))) (of_le32 (drop 8 (msg_payload_at m)))]"]
    by (simp add: north_rx_def Let_def)
next
  case False
  then show ?thesis
    using that[of "[]"] assms by (simp add: north_rx_def Let_def telem_at_def split: if_splits)
qed

lemma north_rx_telem:
  "telem_at m = Some (sid, sq, v) \<Longrightarrow> north_rx m ns =
     (if g_conn_state ns = NORTH_ONLINE
      then ns\<lparr>n_out := n_out ns @ [Cloud_Telemetry (sensor_name sid) sq v]\<rparr>
      else if length (g_buffer ns) < 10
      then ns\<lparr>g_buffer := g_buffer ns @ [(sid, sq, v)],
              n_out := n_out ns @ [Buffered (sensor_name sid) sq (word_of_nat (length (g_buffer ns) + 1))]\<rparr>
      else ns\<lparr>n_out := n_out ns @ [Dropped (sensor_name sid) sq]\<rparr>)"
  by (auto simp: north_rx_def telem_at_def Let_def NORTH_BUFFER_SIZE_def MSG_ALERT_def MSG_TELEMETRY_def
      split: if_splits)

text \<open>No telemetry in the payloads that the policy engine publishes.\<close>

lemma payload_no_telem:
  assumes "unat sid < 3"
  shows "telem_at (payload (alert_msg pad sid v th a)) = None" and "telem_at (payload (telem_msg pad sid sq v)) = None"
  using not_msg_id[OF _ assms] by (simp_all add: telem_at_def gw_payloads)

lemma accepted_nothing: "(\<forall>m. Rx m \<in> set es \<longrightarrow> telem_at m = None) \<Longrightarrow> accepted n b es = []"
  by (induction n b es rule: accepted.induct) auto

lemma north_tick_step:
  assumes "north_ok n (sm, ns)" and "Suc n < 2 ^ 32"
  shows "\<exists>sm' ns'. north_step (Tick m) (sm, ns) = Some (sm', ns') \<and> north_ok (Suc n) (sm', ns') \<and>
    g_buffer ns' = (if Suc n = 23 then [] else g_buffer ns) \<and>
    concat (map cloud_of (n_out ns')) = concat (map cloud_of (n_out ns)) @
      (if Suc n = 23 then map named (g_buffer ns) else [])"
proof -
  let ?t = "n_tick ns + 1"
  have t: "unat ?t = Suc n"
    using assms by (simp add: north_ok_def unat_word_ariths)
  have g: "?t = 12 \<longleftrightarrow> n = 11" "?t = 22 \<longleftrightarrow> n = 21" "?t = 23 \<longleftrightarrow> n = 22"
    using t by (simp_all add: word_unat_eq_iff)
  have s: "sm_table sm = Some s_north_table" "sm_current_state sm = north_at n" using assms(1)
    by (simp_all add: north_ok_def)
  have fl: "concat (map (cloud_of \<circ> (\<lambda>(sid, sq, v). Cloud_Flushed (sensor_name sid) sq v)) xs) = map named xs" for xs
    by (induction xs) (auto simp: named_def)
  consider "n < 11" | "n = 11" | "11 < n" "n < 21" | "n = 21" | "n = 22" | "22 < n" by linarith
  then show ?thesis
    using assms(1) s t g fl
    by cases (simp_all add: north_timer_def embediq_sm_process_def s_north_table_def north_at_def
        EMBEDIQ_SM_TABLE_END_def guard_passes_def run_action_def guard_go_offline_def
        guard_go_reconnecting_def guard_link_restored_def action_go_offline_def
        action_go_reconnecting_def action_link_restored_def north_ok_def embediq_const)
qed

fun north_run :: "north_event list \<Rightarrow> north_sm \<times> north_state \<Rightarrow> (north_sm \<times> north_state) option" where
  "north_run [] st = Some st"
| "north_run (e # es) st = do { st \<leftarrow> north_step e st; north_run es st }"

lemma north_run_accepted:
  assumes "north_ok n (sm, ns)" and "n + count_ticks es < 2 ^ 32"
  shows "\<exists>sm' ns'. north_run es (sm, ns) = Some (sm', ns') \<and> north_ok (n + count_ticks es) (sm', ns') \<and>
    concat (map cloud_of (n_out ns')) @ map named (g_buffer ns') =
      concat (map cloud_of (n_out ns)) @ map named (g_buffer ns) @ accepted n (length (g_buffer ns)) es"
  using assms
proof (induction es arbitrary: n sm ns)
  case (Cons e es)
  show ?case
  proof (cases e)
    case (Tick m)
    then have "Suc n < 2 ^ 32" using Cons.prems(2) by simp
    from north_tick_step[OF Cons.prems(1) this, of m] obtain sm1 ns1 where
      st: "north_step (Tick m) (sm, ns) = Some (sm1, ns1)" and ok: "north_ok (Suc n) (sm1, ns1)"
      and b: "g_buffer ns1 = (if Suc n = 23 then [] else g_buffer ns)"
      and o: "concat (map cloud_of (n_out ns1)) = concat (map cloud_of (n_out ns)) @
        (if Suc n = 23 then map named (g_buffer ns) else [])" by blast
    show ?thesis
      using Cons.IH[OF ok] Cons.prems(2) Tick st b o by (cases "Suc n = 23") auto
  next
    case (Rx m)
    have c: "g_conn_state ns = north_at n" and bl: "north_at n = NORTH_ONLINE \<Longrightarrow> g_buffer ns = []"
      using Cons.prems(1) by (simp_all add: north_ok_def)
    show ?thesis
    proof (cases "telem_at m")
      case None
      obtain out where o: "north_rx m ns = ns\<lparr>n_out := n_out ns @ out\<rparr>" "concat (map cloud_of out) = []"
        using north_rx_none[OF None] by blast
      have ok: "north_ok n (sm, north_rx m ns)" using Cons.prems(1) by (simp add: north_ok_def o(1))
      show ?thesis using Cons.IH[OF ok] Cons.prems(2) Rx None o by auto
    next
      case (Some t)
      obtain sid sq v where t: "telem_at m = Some (sid, sq, v)" using Some by (cases t) auto
      note rx = north_rx_telem[OF t]
      have ok: "north_ok n (sm, north_rx m ns)" using Cons.prems(1) by (auto simp: north_ok_def rx)
      show ?thesis
        using Cons.IH[OF ok] Cons.prems(2) Rx c bl t
        by (cases "north_at n = NORTH_ONLINE"; cases "length (g_buffer ns) < 10") (auto simp: rx named_def)
    qed
  qed
qed simp

text \<open>C15: Over any interleaving of calls of the two handlers, whatever bytes they are called with, the
  link is online before tick 12, offline from 12, reconnecting at 22 and online from 23 on; the
  buffer never exceeds its ten cells; and what the cloud has got together with what waits in the
  buffer is, in order, exactly the telemetry that north_rx takes from these bytes while online or
  while there is room in the buffer. The handler expects whole messages. If it only gets payloads
  of the policy engine's messages, which is what the dispatcher passes, there is none.\<close>

theorem north_no_loss:
  assumes "count_ticks es < 2 ^ 32"
  shows "\<exists>sm ns. north_run es north_initial = Some (sm, ns) \<and>
    sm_current_state sm = north_at (count_ticks es) \<and> g_conn_state ns = north_at (count_ticks es) \<and>
    length (g_buffer ns) \<le> 10 \<and>
    concat (map cloud_of (n_out ns)) @ map named (g_buffer ns) = accepted 0 0 es \<and>
    ((\<forall>m. Rx m \<in> set es \<longrightarrow> (\<exists>pad sid v th a sq. unat sid < 3 \<and>
        m \<in> {payload (alert_msg pad sid v th a), payload (telem_msg pad sid sq v)})) \<longrightarrow>
      accepted 0 0 es = [])"
proof -
  have "north_ok 0 (fst north_initial, snd north_initial)"
    by (simp add: north_ok_def north_initial_def north_at_def embediq_const)
  from north_run_accepted[OF this, of es] assms obtain sm ns where
    "north_run es north_initial = Some (sm, ns)" "north_ok (count_ticks es) (sm, ns)"
    "concat (map cloud_of (n_out ns)) @ map named (g_buffer ns) = accepted 0 0 es"
    by (auto simp: north_initial_def)
  moreover have "accepted 0 0 es = []" if "\<forall>m. Rx m \<in> set es \<longrightarrow> (\<exists>pad sid v th a sq. unat sid < 3 \<and>
      m \<in> {payload (alert_msg pad sid v th a), payload (telem_msg pad sid sq v)})"
  proof (rule accepted_nothing)
    have "telem_at m = None" if "Rx m \<in> set es" for m
      using \<open>\<forall>m. _ m\<close> that payload_no_telem by fastforce
    then show "\<forall>m. Rx m \<in> set es \<longrightarrow> telem_at m = None" by blast
  qed
  ultimately show ?thesis by (auto simp: north_ok_def)
qed

section \<open>Witnesses\<close>

definition demo_policy :: policy_state where
  "demo_policy = \<lparr>g_alert_active = replicate 3 False, g_telem_counter = replicate 3 0, g_telem_seq = replicate 3 0\<rparr>"

lemma demo_policy_ok: "policy_ok demo_policy"
  by (simp add: demo_policy_def policy_ok_def)

text \<open>A whole message in memory: its header, of which only the identifier matters here, and payload.\<close>

definition demo_bytes :: "u16 \<Rightarrow> bytes \<Rightarrow> bytes" where
  "demo_bytes mid p = le16 mid @ replicate 18 0 @ p"

lemma demo_bytes_fields [simp]: "of_le16 (demo_bytes mid p) = mid" "msg_payload_at (demo_bytes mid p) = p"
  by (simp_all add: demo_bytes_def msg_payload_at_def)

lemma policy_alert_edges_witness:
  "\<exists>ps'. run_list (policy_run 0 (Some 0)) (map (\<lambda>(sid, v). demo_bytes MSG_FIELD_READING ([sid, 1, 0, 0] @ le32 v))
       [(1, 0x41133333), (2, 0x40C66666), (1, 0x40F00000)]) (demo_policy, demo_bus) =
     map_option (Pair ps') (run_list (publish_msg 0) [alert_msg 0 1 0x41133333 0x41080000 True,
       alert_msg 0 1 0x40F00000 0xCE6E6B28 False, telem_msg 0 1 0 0x40F00000] demo_bus) \<and>
     \<not> g_alert_active ps' ! 1"
proof -
  have b: "breached 1 0x41133333" "\<not> breached 1 0x40F00000" "\<not> breached 2 0x40C66666"
    "active_thresh 1 0x41133333 = 0x41080000" "active_thresh 1 0x40F00000 = 0xCE6E6B28"
    by (simp_all add: breached_def active_thresh_def k_rules_def THRESH_TANK_PRESSURE_HIGH_def THRESH_PUMP_FLOW_LOW_def
        f32_less_def f32_is_nan_def f32_key_def f32_abs_def f32_sign_def f32_inf_code_def)
  have r: "map reading_at (map (\<lambda>(sid, v). demo_bytes MSG_FIELD_READING ([sid, 1, 0, 0] @ le32 v))
      [(1, 0x41133333), (2, 0x40C66666), (1, 0x40F00000)]) = [(1, 0x41133333), (2, 0x40C66666), (1, 0x40F00000)]"
    by (simp add: reading_at_def)
  let ?ms = "map (\<lambda>(sid, v). demo_bytes MSG_FIELD_READING ([sid, 1, 0, 0] @ le32 v))
      [(1, 0x41133333), (2, 0x40C66666), (1, 0x40F00000)]"
  obtain ps' where ps': "run_list (policy_run 0 (Some 0)) ?ms (demo_policy, demo_bus) =
      map_option (Pair ps') (run_list (publish_msg 0) (policy_msgs 0 ((!) (g_alert_active demo_policy))
        (\<lambda>s. g_telem_counter demo_policy ! s = 1) ((!) (g_telem_seq demo_policy))
        [(1, 0x41133333), (2, 0x40C66666), (1, 0x40F00000)]) demo_bus)"
    "\<forall>s < 3. g_alert_active ps' ! s = (case last_value s [(1, 0x41133333), (2, 0x40C66666), (1, 0x40F00000)] of
       None \<Rightarrow> g_alert_active demo_policy ! s | Some v \<Rightarrow> breached s v)"
    using policy_alert_edges[OF demo_policy_ok r[symmetric], of 0 0 demo_bus 0 0 0 0] by blast
  have "policy_msgs 0 ((!) (g_alert_active demo_policy)) (\<lambda>s. g_telem_counter demo_policy ! s = 1)
      ((!) (g_telem_seq demo_policy)) [(1, 0x41133333), (2, 0x40C66666), (1, 0x40F00000)] =
    [alert_msg 0 1 0x41133333 0x41080000 True, alert_msg 0 1 0x40F00000 0xCE6E6B28 False,
     telem_msg 0 1 0 0x40F00000]"
    using b by (simp add: demo_policy_def)
  moreover have "\<not> g_alert_active ps' ! 1" using ps'(2) b by (simp add: last_value_def)
  ultimately show ?thesis using ps'(1) by metis
qed

lemma gateway_data_lost_witness:
  "\<exists>ps'. policy_run 0 (Some 0) (payload (field_msg 0 1 1 0x41133333)) (demo_policy, demo_bus) =
     Some (ps', demo_bus) \<and> \<not> g_alert_active ps' ! 0"
  using gateway_data_lost[OF demo_policy_ok, where sid = 1 and pad = 0 and i = 0 and pad' = 0 and sid' = 1
    and uid = 1 and v = "0x41133333" and w = demo_bus and th = 0 and a = True and sq = 0 and
    ns = "snd north_initial"]
  by (auto simp: demo_policy_def)

lemma north_no_loss_witness:
  "\<exists>sm ns. north_run (Rx (demo_bytes MSG_TELEMETRY ([1, 0] @ le16 7 @ le32 5)) # replicate 12 (Tick []) @
       [Rx (demo_bytes MSG_TELEMETRY ([0, 0] @ le16 8 @ le32 6))]) north_initial = Some (sm, ns) \<and>
     g_conn_state ns = NORTH_OFFLINE \<and>
     concat (map cloud_of (n_out ns)) @ map named (g_buffer ns) = [(''Tank_Pressure'', 7, 5), (''Tank_Temp'', 8, 6)]"
proof -
  let ?es = "Rx (demo_bytes MSG_TELEMETRY ([1, 0] @ le16 7 @ le32 5)) # replicate 12 (Tick []) @
       [Rx (demo_bytes MSG_TELEMETRY ([0, 0] @ le16 8 @ le32 6))]"
  have "count_ticks ?es = 12" by (simp add: numeral_eq_Suc)
  moreover have "accepted 0 0 ?es = [(''Tank_Pressure'', 7, 5), (''Tank_Temp'', 8, 6)]"
    by (simp add: numeral_eq_Suc telem_at_def)
      (simp add: north_at_def named_def sensor_name_def embediq_const)
  ultimately show ?thesis using north_no_loss[of ?es] by (auto simp: north_at_def)
qed

end
