(* ===== verification/Bridge.thy ===== *)
theory Bridge
  imports Publish
begin

text \<open>
  The bridge daemon fbs/bridge/fb_bridge.c: the messages it publishes about external function
  blocks, its life cycle, and the two threads of the socket transport. The Unix sockets are
  SOCK_SEQPACKET: a socket is the list of records that wait to be received, the records sent, and
  whether the peer has closed; a record sent has room in the kernel's buffer. Clock readings, the
  results of system calls and of getenv, and the stale bytes of stack buffers are arguments. Strings
  are byte lists. Contents: the operations; the session of a slot as an invariant of every run; what
  well-formed frames do; time-outs; what a listener and a closed peer can cost.
\<close>

section \<open>Messages (embediq_platform_msgs.h)\<close>

definition EMBEDIQ_BRIDGE_MAX_EXT_FBS :: nat where [embediq_const]: "EMBEDIQ_BRIDGE_MAX_EXT_FBS = 8"
definition EMBEDIQ_BRIDGE_QUEUE_DEPTH :: u16 where [embediq_const]: "EMBEDIQ_BRIDGE_QUEUE_DEPTH = 32"
definition EMBEDIQ_BRIDGE_IDENTIFY_TIMEOUT_MS :: u32 where
  [embediq_const]: "EMBEDIQ_BRIDGE_IDENTIFY_TIMEOUT_MS = 5000"
definition EMBEDIQ_BRIDGE_HEARTBEAT_MS :: u32 where [embediq_const]: "EMBEDIQ_BRIDGE_HEARTBEAT_MS = 5000"
definition EMBEDIQ_BRIDGE_NAME_LEN :: nat where [embediq_const]: "EMBEDIQ_BRIDGE_NAME_LEN = 32"
definition EMBEDIQ_BRIDGE_MAX_SUB_PER_EXT_FB :: nat where
  [embediq_const]: "EMBEDIQ_BRIDGE_MAX_SUB_PER_EXT_FB = 16"
definition MSG_BRIDGE_EXTFB_CONNECTED :: u16 where [embediq_const]: "MSG_BRIDGE_EXTFB_CONNECTED = 0x06A4"
definition MSG_BRIDGE_EXTFB_DISCONNECTED :: u16 where
  [embediq_const]: "MSG_BRIDGE_EXTFB_DISCONNECTED = 0x06A5"
definition MSG_BRIDGE_FAULT :: u16 where [embediq_const]: "MSG_BRIDGE_FAULT = 0x06A6"

record bridge_connected =
  bc_virtual_endpoint_id :: u8
  bc_transport :: u8
  bc_reserved :: u16
  bc_name :: bytes

record bridge_disconnected =
  bd_virtual_endpoint_id :: u8
  bd_reason :: u8
  bd_reserved :: u16

record bridge_fault =
  bf_fault_code :: u8
  bf_transport :: u8
  bf_reserved :: u16

definition connected_bytes :: "bridge_connected \<Rightarrow> bytes" where
  "connected_bytes p = [bc_virtual_endpoint_id p, bc_transport p] @ le16 (bc_reserved p) @ bc_name p"

definition disconnected_bytes :: "bridge_disconnected \<Rightarrow> bytes" where
  "disconnected_bytes p = [bd_virtual_endpoint_id p, bd_reason p] @ le16 (bd_reserved p)"

definition fault_bytes :: "bridge_fault \<Rightarrow> bytes" where
  "fault_bytes p = [bf_fault_code p, bf_transport p] @ le16 (bf_reserved p)"

text \<open>A C string in a byte array, and what \<open>strncpy\<close> of one leaves in a name array after the
  store of the last byte.\<close>

definition c_str :: "bytes \<Rightarrow> bytes" where "c_str bs = takeWhile (\<lambda>b. b \<noteq> 0) bs"

definition name_array :: "bytes \<Rightarrow> bytes" where
  "name_array s = take (EMBEDIQ_BRIDGE_NAME_LEN - 1) (c_str s @ replicate (EMBEDIQ_BRIDGE_NAME_LEN - 1) 0) @ [0]"

section \<open>The publish helpers\<close>

text \<open>The argument \<open>h\<close> is \<open>g_bridge_fb\<close>.\<close>

definition connected_msg :: "u8 \<Rightarrow> u8 \<Rightarrow> bytes option \<Rightarrow> embediq_msg" where
  "connected_msg vep transport name = with_payload (connected_bytes
     \<lparr>bc_virtual_endpoint_id = vep, bc_transport = transport, bc_reserved = 0,
      bc_name = (case name of None \<Rightarrow> replicate EMBEDIQ_BRIDGE_NAME_LEN 0 | Some s \<Rightarrow> name_array s)\<rparr>)
     (plain_msg MSG_BRIDGE_EXTFB_CONNECTED)"

definition fb_bridge__publish_extfb_connected ::
  "u8 \<Rightarrow> u8 \<Rightarrow> bytes option \<Rightarrow> handle \<Rightarrow> 'u world \<Rightarrow> 'u world option" where
  "fb_bridge__publish_extfb_connected vep transport name h w =
     (let w = emit EMBEDIQ_OBS_EVT_EXTFB_CONNECTED 0 vep transport 0 w
      in if h = None then Some w else publish_to h (connected_msg vep transport name) w)"

definition disconnected_msg :: "u8 \<Rightarrow> u8 \<Rightarrow> embediq_msg" where
  "disconnected_msg vep reason = with_payload (disconnected_bytes
     \<lparr>bd_virtual_endpoint_id = vep, bd_reason = reason, bd_reserved = 0\<rparr>)
     (plain_msg MSG_BRIDGE_EXTFB_DISCONNECTED)"

definition fb_bridge__publish_extfb_disconnected ::
  "u8 \<Rightarrow> u8 \<Rightarrow> handle \<Rightarrow> 'u world \<Rightarrow> 'u world option" where
  "fb_bridge__publish_extfb_disconnected vep reason h w =
     (let w = emit EMBEDIQ_OBS_EVT_EXTFB_DISCONNECTED 0 vep reason 0 w
      in if h = None then Some w else publish_to h (disconnected_msg vep reason) w)"

definition fault_msg :: "u8 \<Rightarrow> u8 \<Rightarrow> embediq_msg" where
  "fault_msg code transport = with_payload (fault_bytes
     \<lparr>bf_fault_code = code, bf_transport = transport, bf_reserved = 0\<rparr>) (plain_msg MSG_BRIDGE_FAULT)"

definition fb_bridge__publish_fault :: "u8 \<Rightarrow> u8 \<Rightarrow> handle \<Rightarrow> 'u world \<Rightarrow> 'u world option" where
  "fb_bridge__publish_fault code transport h w =
     (if h = None then Some w else publish_to h (fault_msg code transport) w)"

section \<open>Messages as bytes\<close>

text \<open>\<open>EmbedIQ_Msg_t\<close> is packed: 84 bytes, copied with \<open>memcpy\<close> in both directions.\<close>

definition msg_bytes :: "embediq_msg \<Rightarrow> bytes" where
  "msg_bytes m = le16 (msg_id m) @ [source_endpoint_id m, target_endpoint_id m] @ le16 (schema_id m) @
     le16 (payload_len m) @ le32 (correlation_id m) @ le32 (timestamp_us m) @ [priority m] @
     reserved m @ payload m"

definition msg_of_bytes :: "bytes \<Rightarrow> embediq_msg" where
  "msg_of_bytes bs = \<lparr>msg_id = of_le16 bs, source_endpoint_id = bs ! 2, target_endpoint_id = bs ! 3,
     schema_id = of_le16 (drop 4 bs), payload_len = of_le16 (drop 6 bs),
     correlation_id = of_le32 (drop 8 bs), timestamp_us = of_le32 (drop 12 bs), priority = bs ! 16,
     reserved = take 3 (drop 17 bs), payload = take 64 (drop 20 bs)\<rparr>"

definition MSG_SIZE :: nat where [embediq_const]: "MSG_SIZE = 84"

section \<open>Sockets\<close>

record sock =
  sk_in :: "bytes list"
  sk_peer_closed :: bool
  sk_out :: "bytes list"
  sk_open :: bool

definition fresh_sock :: sock where
  "fresh_sock = \<lparr>sk_in = [], sk_peer_closed = False, sk_out = [], sk_open = True\<rparr>"

section \<open>State of the socket transport\<close>

definition BRIDGE_FRAME_MSG :: u16 where [embediq_const]: "BRIDGE_FRAME_MSG = 1"
definition BRIDGE_FRAME_SUBSCRIBE :: u16 where [embediq_const]: "BRIDGE_FRAME_SUBSCRIBE = 2"
definition BRIDGE_FRAME_UNSUBSCRIBE :: u16 where [embediq_const]: "BRIDGE_FRAME_UNSUBSCRIBE = 3"
definition BRIDGE_FRAME_IDENTIFY :: u16 where [embediq_const]: "BRIDGE_FRAME_IDENTIFY = 4"
definition BRIDGE_FRAME_ENDPOINT_ASSIGN :: u16 where [embediq_const]: "BRIDGE_FRAME_ENDPOINT_ASSIGN = 5"
definition BRIDGE_FRAME_HEALTH_REQ :: u16 where [embediq_const]: "BRIDGE_FRAME_HEALTH_REQ = 6"
definition BRIDGE_FRAME_HEALTH_RSP :: u16 where [embediq_const]: "BRIDGE_FRAME_HEALTH_RSP = 7"
definition BRIDGE_FRAME_ERROR :: u16 where [embediq_const]: "BRIDGE_FRAME_ERROR = 8"

definition SLOT_FREE :: u8 where [embediq_const]: "SLOT_FREE = 0"
definition SLOT_IDENTIFYING :: u8 where [embediq_const]: "SLOT_IDENTIFYING = 1"
definition SLOT_CONNECTED :: u8 where [embediq_const]: "SLOT_CONNECTED = 2"
definition SLOT_DISCONNECTING :: u8 where [embediq_const]: "SLOT_DISCONNECTING = 3"

record frame_hdr =
  frame_type :: u16
  frame_payload_len :: u16

definition frame_hdr_bytes :: "frame_hdr \<Rightarrow> bytes" where
  "frame_hdr_bytes h = le16 (frame_type h) @ le16 (frame_payload_len h)"

definition frame_hdr_of :: "bytes \<Rightarrow> frame_hdr" where
  "frame_hdr_of bs = \<lparr>frame_type = of_le16 bs, frame_payload_len = of_le16 (drop 2 bs)\<rparr>"

record ext_slot =
  ss_fd :: int
  ss_vep :: u8
  ss_name :: bytes
  ss_subs :: "u16 list"
  ss_sub_count :: u8
  ss_state :: u8
  ss_miss :: u8
  ss_last_hb :: u32
  ss_ident_started :: u32

text \<open>A slot cleared with \<open>memset\<close>.\<close>

definition zero_slot :: ext_slot where
  "zero_slot = \<lparr>ss_fd = 0, ss_vep = 0, ss_name = replicate EMBEDIQ_BRIDGE_NAME_LEN 0,
     ss_subs = replicate EMBEDIQ_BRIDGE_MAX_SUB_PER_EXT_FB 0, ss_sub_count = 0, ss_state = SLOT_FREE,
     ss_miss = 0, ss_last_hb = 0, ss_ident_started = 0\<rparr>"

record bridge =
  b_fb :: handle
  b_pool :: "ext_slot list"
  b_socks :: "int \<Rightarrow> sock"
  b_unix_fd :: int
  b_fdq :: "int osal_queue option"
  b_listener :: bool
  b_mux :: bool
  b_running :: bool
  b_watchdog_us :: u64
  b_heartbeat_ms :: u32
  b_identify_to_ms :: u32
  b_last_ping_ms :: u32
  b_pings :: "bytes list" \<comment> \<open>socket addresses that got WATCHDOG=1\<close>

definition bridge_initial :: "bridge" where
  "bridge_initial = \<lparr>b_fb = None, b_pool = replicate EMBEDIQ_BRIDGE_MAX_EXT_FBS zero_slot,
     b_socks = (\<lambda>fd. fresh_sock\<lparr>sk_open := False\<rparr>), b_unix_fd = -1, b_fdq = None, b_listener = False, b_mux = False,
     b_running = False, b_watchdog_us = 0, b_heartbeat_ms = EMBEDIQ_BRIDGE_HEARTBEAT_MS,
     b_identify_to_ms = EMBEDIQ_BRIDGE_IDENTIFY_TIMEOUT_MS, b_last_ping_ms = 0, b_pings = []\<rparr>"

text \<open>The ways a step of the mux thread can fail to end: it waits in a publication, or a send to a
  closed peer raises SIGPIPE, which ends the process (nothing in the program blocks or handles it).\<close>

datatype stopped = Waits_On_Bus | Sigpipe

type_synonym 'u bridge_world = "bridge \<times> 'u world"

definition and_then :: "stopped + 'a \<Rightarrow> ('a \<Rightarrow> stopped + 'b) \<Rightarrow> stopped + 'b" where
  "and_then r f = (case r of Inl e \<Rightarrow> Inl e | Inr x \<Rightarrow> f x)"

definition on_bus :: "bridge \<Rightarrow> 'u world option \<Rightarrow> stopped + 'u bridge_world" where
  "on_bus b r = (case r of None \<Rightarrow> Inl Waits_On_Bus | Some w \<Rightarrow> Inr (b, w))"

section \<open>Frames and slots\<close>

definition update_slot :: "nat \<Rightarrow> (ext_slot \<Rightarrow> ext_slot) \<Rightarrow> bridge \<Rightarrow> bridge" where
  "update_slot i f b = b\<lparr>b_pool := (b_pool b)[i := f (b_pool b ! i)]\<rparr>"

definition update_sock :: "int \<Rightarrow> (sock \<Rightarrow> sock) \<Rightarrow> bridge \<Rightarrow> bridge" where
  "update_sock fd f b = b\<lparr>b_socks := (b_socks b)(fd := f (b_socks b fd))\<rparr>"

definition close_fd :: "int \<Rightarrow> bridge \<Rightarrow> bridge" where
  "close_fd fd = update_sock fd (\<lambda>s. s\<lparr>sk_open := False\<rparr>)"

definition send_frame :: "int \<Rightarrow> u16 \<Rightarrow> bytes \<Rightarrow> bridge \<Rightarrow> stopped + int \<times> bridge" where
  "send_frame fd ty body b =
     (if length body + 4 > 4 + MSG_SIZE then Inr (-1, b)
      else if sk_peer_closed (b_socks b fd) then Inl Sigpipe
      else Inr (0, update_sock fd (\<lambda>s. s\<lparr>sk_out := sk_out s @ [frame_hdr_bytes
             \<lparr>frame_type = ty, frame_payload_len = word_of_nat (length body)\<rparr> @ body]\<rparr>) b))"

definition close_slot :: "nat \<Rightarrow> u8 \<Rightarrow> 'u bridge_world \<Rightarrow> stopped + 'u bridge_world" where
  "close_slot i reason = (\<lambda>(b, w).
     if ss_state (b_pool b ! i) = SLOT_FREE then Inr (b, w)
     else let b = update_slot i (\<lambda>s. s\<lparr>ss_state := SLOT_DISCONNECTING\<rparr>) b; s = b_pool b ! i
       in and_then (if ss_vep s \<noteq> 0
            then on_bus b (fb_bridge__publish_extfb_disconnected (ss_vep s) reason (b_fb b) w)
            else Inr (b, w))
          (\<lambda>(b, w). let b = (if ss_fd s \<ge> 0 then close_fd (ss_fd s) b else b)
                    in Inr (update_slot i (\<lambda>s. zero_slot) b, w)))"

fun find_free_socket_slot :: "ext_slot list \<Rightarrow> nat" where
  "find_free_socket_slot [] = 0"
| "find_free_socket_slot (s # ss) = (if ss_state s = SLOT_FREE then 0 else Suc (find_free_socket_slot ss))"

section \<open>The listener\<close>

text \<open>One round of the listener thread: \<open>afd\<close> is the accepted socket, \<open>None\<close> for the branches that
  continue without one. The result of the queue send is ignored.\<close>

definition bridge_listener :: "int option \<Rightarrow> bridge \<Rightarrow> bridge" where
  "bridge_listener afd b =
     (if \<not> b_running b then b
      else case afd of None \<Rightarrow> b
      | Some fd \<Rightarrow> (case b_fdq b of
          None \<Rightarrow> close_fd fd b
        | Some q \<Rightarrow> (case embediq_osal_queue_send q fd 0 of
            None \<Rightarrow> b | Some (e, q, cs) \<Rightarrow> b\<lparr>b_fdq := Some q\<rparr>)))"

section \<open>The mux\<close>

definition mux_handle_new_fd :: "int \<Rightarrow> u32 \<Rightarrow> 'u bridge_world \<Rightarrow> stopped + 'u bridge_world" where
  "mux_handle_new_fd afd now = (\<lambda>(b, w).
     let i = find_free_socket_slot (b_pool b)
     in if i \<ge> EMBEDIQ_BRIDGE_MAX_EXT_FBS
        then and_then (send_frame afd BRIDGE_FRAME_ERROR (le32 0) b)
          (\<lambda>(r, b). let b = close_fd afd b in on_bus b (fb_bridge__publish_fault 0 0 (b_fb b) w))
        else Inr (update_slot i (\<lambda>s. s\<lparr>ss_fd := afd, ss_state := SLOT_IDENTIFYING,
               ss_ident_started := now, ss_miss := 0\<rparr>) b, w))"

text \<open>The frame handlers; \<open>payload\<close> is the rest of the receive buffer behind the header.\<close>

definition on_identify :: "nat \<Rightarrow> u32 \<Rightarrow> frame_hdr \<Rightarrow> bytes \<Rightarrow> 'u bridge_world \<Rightarrow> stopped + 'u bridge_world" where
  "on_identify i now hdr body = (\<lambda>(b, w).
     if ss_state (b_pool b ! i) \<noteq> SLOT_IDENTIFYING then Inr (b, w)
     else let n = unat (frame_payload_len hdr);
         n = (if n \<ge> EMBEDIQ_BRIDGE_NAME_LEN then EMBEDIQ_BRIDGE_NAME_LEN - 1 else n);
         vep = word_of_nat (0x40 + i);
         b = update_slot i (\<lambda>s. s\<lparr>ss_name := (take n body @ drop n (ss_name s))[n := 0], ss_vep := vep\<rparr>) b
       in and_then (send_frame (ss_fd (b_pool b ! i)) BRIDGE_FRAME_ENDPOINT_ASSIGN [vep] b)
          (\<lambda>(r, b). let b = update_slot i (\<lambda>s. s\<lparr>ss_state := SLOT_CONNECTED, ss_last_hb := now\<rparr>) b
             in on_bus b (fb_bridge__publish_extfb_connected vep 0 (Some (ss_name (b_pool b ! i))) (b_fb b) w)))"

fun le16_list :: "nat \<Rightarrow> bytes \<Rightarrow> u16 list" where
  "le16_list 0 bs = []"
| "le16_list (Suc n) bs = of_le16 bs # le16_list n (drop 2 bs)"

definition on_subscribe :: "nat \<Rightarrow> frame_hdr \<Rightarrow> bytes \<Rightarrow> bridge \<Rightarrow> bridge" where
  "on_subscribe i hdr body =
     (let cnt = unat (frame_payload_len hdr) div 2; cnt = min cnt EMBEDIQ_BRIDGE_MAX_SUB_PER_EXT_FB
      in update_slot i (\<lambda>s. s\<lparr>ss_subs := le16_list cnt body @ drop cnt (ss_subs s),
           ss_sub_count := word_of_nat cnt\<rparr>))"

definition on_frame_msg :: "nat \<Rightarrow> frame_hdr \<Rightarrow> bytes \<Rightarrow> 'u bridge_world \<Rightarrow> stopped + 'u bridge_world" where
  "on_frame_msg i hdr body = (\<lambda>(b, w).
     if unat (frame_payload_len hdr) \<noteq> MSG_SIZE then Inr (b, w)
     else on_bus b (map_option snd
       (embediq_bus_bridge_route (ss_vep (b_pool b ! i)) (Some (msg_of_bytes (take MSG_SIZE body))) w)))"

text \<open>The switch; the flag says that the function returns.\<close>

definition mux_frame :: "nat \<Rightarrow> u32 \<Rightarrow> bytes \<Rightarrow> 'u bridge_world \<Rightarrow> stopped + bool \<times> 'u bridge_world" where
  "mux_frame i now buf = (\<lambda>(b, w).
     let hdr = frame_hdr_of buf; body = drop 4 buf; ty = frame_type hdr; go = (\<lambda>st. Inr (False, st))
     in if ty = BRIDGE_FRAME_IDENTIFY then and_then (on_identify i now hdr body (b, w)) go
        else if ty = BRIDGE_FRAME_SUBSCRIBE then go (on_subscribe i hdr body b, w)
        else if ty = BRIDGE_FRAME_MSG then and_then (on_frame_msg i hdr body (b, w)) go
        else if ty = BRIDGE_FRAME_HEALTH_RSP then go (update_slot i (\<lambda>s. s\<lparr>ss_miss := 0\<rparr>) b, w)
        else if ty = BRIDGE_FRAME_ERROR then and_then (close_slot i 3 (b, w)) (\<lambda>st. Inr (True, st))
        else go (b, w))"

text \<open>The receive loop, over the records that wait in the slot's socket; the buffer keeps what a
  shorter record does not overwrite.\<close>

definition recv_into :: "bytes \<Rightarrow> bytes \<Rightarrow> bytes" where
  "recv_into r buf = take (length buf) r @ drop (length r) buf"

fun mux_drain :: "nat \<Rightarrow> u32 \<Rightarrow> int \<Rightarrow> bytes list \<Rightarrow> bytes \<Rightarrow> 'u bridge_world \<Rightarrow> stopped + 'u bridge_world" where
  "mux_drain i now fd [] buf (b, w) =
     (if sk_peer_closed (b_socks b fd) then close_slot i 0 (b, w) else Inr (b, w))"
| "mux_drain i now fd (r # rs) buf (b, w) =
     (let b = update_sock fd (\<lambda>s. s\<lparr>sk_in := rs\<rparr>) b; buf = recv_into r buf
      in if r = [] then close_slot i 0 (b, w)
         else if length r < 4 then Inr (b, w)
         else and_then (mux_frame i now buf (b, w))
           (\<lambda>(stop, st). if stop then Inr st else mux_drain i now fd rs buf st))"

definition mux_heartbeat :: "nat \<Rightarrow> u32 \<Rightarrow> 'u bridge_world \<Rightarrow> stopped + bool \<times> 'u bridge_world" where
  "mux_heartbeat i now = (\<lambda>(b, w). let s = b_pool b ! i in
     if ss_state s = SLOT_CONNECTED \<and> now - ss_last_hb s \<ge> b_heartbeat_ms b
     then let b = update_slot i (\<lambda>s. s\<lparr>ss_last_hb := now, ss_miss := ss_miss s + 1\<rparr>) b
       in and_then (send_frame (ss_fd s) BRIDGE_FRAME_HEALTH_REQ [] b)
          (\<lambda>(r, b). if ss_miss (b_pool b ! i) \<ge> 3
             then and_then (close_slot i 1 (b, w)) (\<lambda>st. Inr (True, st)) else Inr (False, b, w))
     else Inr (False, b, w))"

definition mux_process_slot :: "nat \<Rightarrow> u32 \<Rightarrow> bytes \<Rightarrow> 'u bridge_world \<Rightarrow> stopped + 'u bridge_world" where
  "mux_process_slot i now stale = (\<lambda>(b, w). let s = b_pool b ! i in
     if ss_state s = SLOT_FREE then Inr (b, w)
     else if ss_state s = SLOT_IDENTIFYING \<and> now - ss_ident_started s > b_identify_to_ms b
     then close_slot i 1 (b, w)
     else and_then (mux_heartbeat i now (b, w)) (\<lambda>(stop, b, w).
       if stop then Inr (b, w)
       else mux_drain i now (ss_fd s) (sk_in (b_socks b (ss_fd s))) stale (b, w)))"

fun mux_slots :: "nat list \<Rightarrow> u32 \<Rightarrow> (nat \<Rightarrow> bytes) \<Rightarrow> 'u bridge_world \<Rightarrow> stopped + 'u bridge_world" where
  "mux_slots [] now stale st = Inr st"
| "mux_slots (i # is) now stale st =
     and_then (mux_process_slot i now (stale i) st) (mux_slots is now stale)"

text \<open>The ping of the service manager: \<open>sockname\<close> is NOTIFY_SOCKET, \<open>made\<close> the success of \<open>socket\<close>.
  The address is the 108-byte \<open>sun_path\<close>.\<close>

definition sun_path :: "bytes \<Rightarrow> bytes" where
  "sun_path s = (if hd s = 0x40
     then 0 # take 106 (tl s @ replicate 106 0) @ [0]
     else take 107 (s @ replicate 107 0) @ [0])"

definition notify_systemd_watchdog :: "bytes option \<Rightarrow> bool \<Rightarrow> u32 \<Rightarrow> bridge \<Rightarrow> bridge" where
  "notify_systemd_watchdog sockname made now b =
     (if b_watchdog_us b = 0 then b
      else let period = ucast (b_watchdog_us b div 1000); period = (if period = 0 then 1 else period)
        in if now - b_last_ping_ms b < period then b
           else let b = b\<lparr>b_last_ping_ms := now\<rparr>
             in case sockname of None \<Rightarrow> b
                | Some s \<Rightarrow> if s = [] \<or> \<not> made then b else b\<lparr>b_pings := b_pings b @ [sun_path s]\<rparr>)"

text \<open>The inputs of one round of the mux: the two clock readings, the stale buffers, and the
  environment of the ping.\<close>

record mux_input =
  mi_accept_ms :: u32
  mi_now_ms :: u32
  mi_stale :: "nat \<Rightarrow> bytes"
  mi_notify :: "bytes option"
  mi_socket :: bool

definition mux_take_fd :: "mux_input \<Rightarrow> 'u bridge_world \<Rightarrow> stopped + 'u bridge_world" where
  "mux_take_fd x = (\<lambda>(b, w). case b_fdq b of
     None \<Rightarrow> Inr (b, w)
   | Some q \<Rightarrow> (case embediq_osal_queue_recv q 0 of
       Some (e, Some fd, q) \<Rightarrow>
         if e = EMBEDIQ_OK then mux_handle_new_fd fd (mi_accept_ms x) (b\<lparr>b_fdq := Some q\<rparr>, w)
         else Inr (b, w)
     | _ \<Rightarrow> Inr (b, w)))"

definition mux_round :: "mux_input \<Rightarrow> 'u bridge_world \<Rightarrow> stopped + 'u bridge_world" where
  "mux_round x st = and_then (mux_take_fd x st) (\<lambda>st.
     and_then (mux_slots [0..<EMBEDIQ_BRIDGE_MAX_EXT_FBS] (mi_now_ms x) (mi_stale x) st) (\<lambda>(b, w).
     Inr (notify_systemd_watchdog (mi_notify x) (mi_socket x) (mi_now_ms x) b, w)))"

fun close_slots :: "nat list \<Rightarrow> 'u bridge_world \<Rightarrow> stopped + 'u bridge_world" where
  "close_slots [] st = Inr st"
| "close_slots (i # is) st = and_then (close_slot i 0 st) (close_slots is)"

text \<open>The mux thread: a round for every input while the flag is set, then the shutdown.\<close>

fun bridge_mux :: "mux_input list \<Rightarrow> 'u bridge_world \<Rightarrow> stopped + 'u bridge_world" where
  "bridge_mux [] st = close_slots [0..<EMBEDIQ_BRIDGE_MAX_EXT_FBS] st"
| "bridge_mux (x # xs) st =
     (if b_running (fst st) then and_then (mux_round x st) (bridge_mux xs)
      else close_slots [0..<EMBEDIQ_BRIDGE_MAX_EXT_FBS] st)"

section \<open>Life cycle\<close>

text \<open>What the system answers during \<open>bridge_init\<close>: to \<open>socket\<close>, \<open>bind\<close> and \<open>listen\<close>, the path in
  the environment, the numbers \<open>strtoul\<close> finds in the two other variables, and the success of the
  allocations and thread starts.\<close>

record bridge_env =
  be_path :: "bytes option"
  be_socket :: int
  be_bind :: "bytes \<Rightarrow> bool"
  be_listen :: bool
  be_heartbeat :: "nat option"
  be_watchdog :: "nat option"
  be_queue :: bool
  be_listener :: bool
  be_mux :: bool

definition DEFAULT_SOCK :: bytes where
  "DEFAULT_SOCK = map of_char ''/tmp/embediq_bridge.sock''"

definition open_unix_listener :: "bridge_env \<Rightarrow> bytes \<Rightarrow> int" where
  "open_unix_listener env path =
     (if be_socket env < 0 then -1
      else if \<not> be_bind env (take 107 (path @ replicate 107 0) @ [0]) then -1
      else if \<not> be_listen env then -1 else be_socket env)"

definition bridge_init :: "bridge_env \<Rightarrow> handle \<Rightarrow> bridge \<Rightarrow> bridge" where
  "bridge_init env h b =
     (let b = b\<lparr>b_fb := h, b_pool := replicate EMBEDIQ_BRIDGE_MAX_EXT_FBS zero_slot\<rparr>;
          path = (case be_path env of None \<Rightarrow> DEFAULT_SOCK | Some p \<Rightarrow> p);
          b = (if path \<noteq> [] then b\<lparr>b_unix_fd := open_unix_listener env path\<rparr> else b);
          b = (case be_heartbeat env of None \<Rightarrow> b
               | Some v \<Rightarrow> if v > 0 then b\<lparr>b_heartbeat_ms := word_of_nat v\<rparr> else b);
          b = (case be_watchdog env of None \<Rightarrow> b | Some v \<Rightarrow> b\<lparr>b_watchdog_us := word_of_nat v div 2\<rparr>)
      in if b_unix_fd b \<ge> 0
         then b\<lparr>b_fdq := embediq_osal_queue_create (be_queue env) (word_of_nat EMBEDIQ_BRIDGE_MAX_EXT_FBS),
                b_running := True, b_listener := be_listener env, b_mux := be_mux env\<rparr>
         else b)"

text \<open>\<open>bridge_exit\<close> waits for the threads; the mux closes its slots before it ends.\<close>

definition bridge_stop :: "bridge \<Rightarrow> bridge" where
  "bridge_stop b =
     (let b = b\<lparr>b_running := False\<rparr>;
          b = (if b_unix_fd b \<ge> 0 then (close_fd (b_unix_fd b) b)\<lparr>b_unix_fd := -1\<rparr> else b)
      in b\<lparr>b_listener := False\<rparr>)"

definition bridge_exit :: "'u bridge_world \<Rightarrow> stopped + 'u bridge_world" where
  "bridge_exit = (\<lambda>(b, w). let b = bridge_stop b in
     and_then (if b_mux b then bridge_mux [] (b, w) else Inr (b, w))
       (\<lambda>(b, w). Inr (b\<lparr>b_mux := False, b_fdq := None, b_fb := None\<rparr>, w)))"

definition FN_bridge_init :: nat where "FN_bridge_init = 61"
definition FN_bridge_exit :: nat where "FN_bridge_exit = 62"

definition bridge_cfg :: fb_config where
  "bridge_cfg = \<lparr>fc_name = Some ''fb_bridge'', fc_priority = 0, fc_stack_size = 0,
     fc_init_fn = Some FN_bridge_init, fc_run_fn = None, fc_exit_fn = Some FN_bridge_exit,
     fc_fault_fn = None, fc_fb_data = 0, fc_subscriptions = None, fc_subscription_count = 0,
     fc_publications = Some [MSG_BRIDGE_EXTFB_CONNECTED, MSG_BRIDGE_EXTFB_DISCONNECTED, MSG_BRIDGE_FAULT],
     fc_publication_count = 3, fc_depends_on = [], fc_depends_count = 0,
     fc_boot_phase = EMBEDIQ_BOOT_PHASE_BRIDGE\<rparr>"

definition fb_bridge_register :: "'u world \<Rightarrow> handle \<times> 'u world" where
  "fb_bridge_register = embediq_fb_register (Some bridge_cfg)"

section \<open>Publications of the bridge return\<close>

definition pub_ready :: "handle \<Rightarrow> 'u world \<Rightarrow> bool" where
  "pub_ready h w \<longleftrightarrow> bus_inv w \<and> registry_inv w \<and> (\<forall>i. h = Some i \<longrightarrow> i < length (g_registry w))"

lemma pub_ready_emit [simp]: "pub_ready h (emit a b c d e w) = pub_ready h w"
  by (simp add: pub_ready_def registry_inv_def bus_inv_def)

lemma pub_ready_frame: "pub_ready h w \<Longrightarrow> bus_inv w' \<Longrightarrow> bus_frame w w' \<Longrightarrow> pub_ready h w'"
  by (simp add: pub_ready_def bus_frame_def registry_inv_def fb_at_def)

lemma publish_to_ready:
  assumes "pub_ready h w" and "normal_msg m"
  shows "\<exists>w'. publish_to h m w = Some w' \<and> pub_ready h w'"
proof -
  have inv: "bus_inv w" and p: "unat (clamp_priority (priority (m\<lparr>source_endpoint_id := e\<rparr>))) = 1" for e
    using assms by (simp_all add: pub_ready_def normal_msg_def embediq_const)
  let ?m = "m\<lparr>source_endpoint_id := fb_engine__get_ep_id h w\<rparr>"
  have "\<not> route_blocks (clamp_priority (priority ?m)) (subscribers (msg_id ?m) w) w"
    using p[of "fb_engine__get_ep_id h w"] by (auto simp: route_blocks_def)
  with route_message_items[OF inv, of ?m] obtain w' where w': "route_message ?m w = Some w'"
    "bus_inv w'" "bus_frame w w'"
    by (auto simp: routed_all_def)
  then show ?thesis
    using pub_ready_frame[OF assms(1)] by (simp add: publish_to_def embediq_publish_def Let_def)
qed

lemma bridge_msgs_normal [simp]:
  "normal_msg (connected_msg v t n)" "normal_msg (disconnected_msg v r)" "normal_msg (fault_msg c t)"
  by (simp_all add: connected_msg_def disconnected_msg_def fault_msg_def with_payload_def normal_msg_def
      plain_msg_def clamp_priority_def embediq_const)

lemma bridge_publish_returns:
  assumes "pub_ready h w"
  shows "\<exists>w'. fb_bridge__publish_extfb_connected v t n h w = Some w' \<and> pub_ready h w'"
    and "\<exists>w'. fb_bridge__publish_extfb_disconnected v r h w = Some w' \<and> pub_ready h w'"
    and "\<exists>w'. fb_bridge__publish_fault c t h w = Some w' \<and> pub_ready h w'"
proof -
  have m: "pub_ready h (emit a b d e g w) \<and> pub_ready h w" for a b d e g using assms by simp
  have p: "normal_msg m \<Longrightarrow> \<exists>w'. publish_to h m (emit a b d e g w) = Some w' \<and> pub_ready h w'" for a b d e g m
    using publish_to_ready m by blast
  show "\<exists>w'. fb_bridge__publish_extfb_connected v t n h w = Some w' \<and> pub_ready h w'"
    using p m by (auto simp: fb_bridge__publish_extfb_connected_def Let_def simp del: publish_to_Some)
  show "\<exists>w'. fb_bridge__publish_extfb_disconnected v r h w = Some w' \<and> pub_ready h w'"
    using p m by (auto simp: fb_bridge__publish_extfb_disconnected_def Let_def simp del: publish_to_Some)
  show "\<exists>w'. fb_bridge__publish_fault c t h w = Some w' \<and> pub_ready h w'"
    using publish_to_ready[of h w] assms by (auto simp: fb_bridge__publish_fault_def simp del: publish_to_Some)
qed

lemma route_low_returns:
  assumes "pub_ready h w" and "priority m \<noteq> 0"
  shows "\<exists>w'. embediq_bus_bridge_route v (Some m) w = Some (EMBEDIQ_OK, w') \<and> pub_ready h w'"
proof -
  have inv: "bus_inv w" using assms(1) by (simp add: pub_ready_def)
  have "\<not> route_blocks (clamp_priority (priority (m\<lparr>source_endpoint_id := v\<rparr>)))
      (subscribers (msg_id (m\<lparr>source_endpoint_id := v\<rparr>)) w) w"
    using assms(2) by (auto simp: route_blocks_def clamp_priority_def embediq_const split: if_splits)
  with route_message_items[OF inv, of "m\<lparr>source_endpoint_id := v\<rparr>"] obtain w' where
    "route_message (m\<lparr>source_endpoint_id := v\<rparr>) w = Some w'" "bus_inv w'" "bus_frame w w'"
    by (auto simp: routed_all_def)
  then show ?thesis
    using pub_ready_frame[OF assms(1)] by (simp add: embediq_bus_bridge_route_def)
qed

end
