(* ===== verification/BridgeMux.thy ===== *)
theory BridgeMux
  imports Bridge
begin

text \<open>
  Correctness of the socket transport of theory Bridge: the session of every slot and the ownership
  of the sockets as an invariant of every interleaving of listener, mux and peers; what well-formed
  frames do; silent and closed peers.
\<close>

section \<open>Frames of the operations\<close>

lemma and_then_Inr: "and_then r f = Inr y \<longleftrightarrow> (\<exists>x. r = Inr x \<and> f x = Inr y)"
  by (auto simp: and_then_def split: sum.splits)

lemma and_then_simps [simp]: "and_then (Inr x) f = f x" "and_then (Inl e) f = Inl e"
  by (simp_all add: and_then_def)

lemma on_bus_Inr: "on_bus b r = Inr (b', w') \<longleftrightarrow> b' = b \<and> r = Some w'"
  by (auto simp: on_bus_def split: option.splits)

lemma zero_slot_simps [simp]:
  "ss_state zero_slot = 0" "ss_vep zero_slot = 0" "length (ss_name zero_slot) = 32"
  "length (ss_subs zero_slot) = 16" "ss_sub_count zero_slot = 0" "ss_miss zero_slot = 0"
  by (simp_all add: zero_slot_def embediq_const)

definition slot_ok :: "nat \<Rightarrow> ext_slot \<Rightarrow> bool" where
  "slot_ok i s \<longleftrightarrow> length (ss_name s) = 32 \<and> length (ss_subs s) = 16 \<and> unat (ss_sub_count s) \<le> 16 \<and>
     (s = zero_slot \<or>
      ss_state s = SLOT_IDENTIFYING \<and> ss_vep s = 0 \<and> ss_miss s = 0 \<or>
      ss_state s = SLOT_CONNECTED \<and> ss_vep s = word_of_nat (0x40 + i) \<and> ss_miss s < 3)"

text \<open>A step of the mux on slot \<open>i\<close>: the slot keeps its socket, or it is cleared and its socket closed.\<close>

definition slot_step :: "nat \<Rightarrow> bridge \<Rightarrow> bridge \<Rightarrow> bool" where
  "slot_step i b b' \<longleftrightarrow> (let fd = ss_fd (b_pool b ! i) in \<exists>s k.
     b' = b\<lparr>b_pool := (b_pool b)[i := s], b_socks := (b_socks b)(fd := k)\<rparr> \<and>
     (s = zero_slot \<and> \<not> sk_open k \<or>
      ss_state s \<noteq> 0 \<and> ss_fd s = fd \<and> sk_open k = sk_open (b_socks b fd)))"

lemma slot_stepI:
  "b' = b\<lparr>b_pool := (b_pool b)[i := s], b_socks := (b_socks b)(ss_fd (b_pool b ! i) := k)\<rparr> \<Longrightarrow>
   s = zero_slot \<and> \<not> sk_open k \<or> ss_state s \<noteq> 0 \<and> ss_fd s = ss_fd (b_pool b ! i) \<and>
     sk_open k = sk_open (b_socks b (ss_fd (b_pool b ! i))) \<Longrightarrow> slot_step i b b'"
  unfolding slot_step_def Let_def by blast

definition busy :: "nat \<Rightarrow> bridge \<Rightarrow> bool" where
  "busy i b \<longleftrightarrow> i < length (b_pool b) \<and> ss_state (b_pool b ! i) \<noteq> 0"

lemma slot_step_refl: "busy i b \<Longrightarrow> slot_step i b b"
  by (auto simp: slot_step_def Let_def busy_def intro!: exI[of _ "b_pool b ! i"]
      exI[of _ "b_socks b (ss_fd (b_pool b ! i))"])

lemma slot_step_trans:
  "slot_step i b b1 \<Longrightarrow> busy i b1 \<Longrightarrow> slot_step i b1 b2 \<Longrightarrow> slot_step i b b2"
  by (auto simp: slot_step_def Let_def busy_def) (auto intro!: exI)

lemma slot_step_update_slot:
  "busy i b \<Longrightarrow> ss_state (f (b_pool b ! i)) \<noteq> 0 \<Longrightarrow> ss_fd (f (b_pool b ! i)) = ss_fd (b_pool b ! i) \<Longrightarrow>
   slot_step i b (update_slot i f b)"
  by (auto simp: slot_step_def Let_def busy_def update_slot_def intro!: exI[of _ "f (b_pool b ! i)"]
      exI[of _ "b_socks b (ss_fd (b_pool b ! i))"])

lemma slot_step_update_sock:
  "busy i b \<Longrightarrow> fd = ss_fd (b_pool b ! i) \<Longrightarrow> sk_open (f (b_socks b fd)) = sk_open (b_socks b fd) \<Longrightarrow>
   slot_step i b (update_sock fd f b)"
  by (auto simp: slot_step_def Let_def busy_def update_sock_def intro!: exI[of _ "b_pool b ! i"]
      exI[of _ "f (b_socks b fd)"])

lemma update_fields [simp]:
  "b_pool (update_sock fd f b) = b_pool b" "b_fb (update_sock fd f b) = b_fb b"
  "b_fdq (update_sock fd f b) = b_fdq b" "b_heartbeat_ms (update_sock fd f b) = b_heartbeat_ms b"
  "b_identify_to_ms (update_sock fd f b) = b_identify_to_ms b"
  "b_socks (update_slot i g b) = b_socks b" "b_fb (update_slot i g b) = b_fb b"
  "b_fdq (update_slot i g b) = b_fdq b" "b_heartbeat_ms (update_slot i g b) = b_heartbeat_ms b"
  "b_identify_to_ms (update_slot i g b) = b_identify_to_ms b"
  "length (b_pool (update_slot i g b)) = length (b_pool b)"
  "i < length (b_pool b) \<Longrightarrow> b_pool (update_slot i g b) ! i = g (b_pool b ! i)"
  "b_socks (update_sock fd f b) fd = f (b_socks b fd)"
  by (simp_all add: update_sock_def update_slot_def)

lemma send_frame_Inr:
  assumes "send_frame fd ty body b = Inr (r, b')"
  shows "\<exists>f. b' = update_sock fd f b \<and> (\<forall>k. sk_open (f k) = sk_open k)"
proof (cases "length body + 4 > 4 + MSG_SIZE")
  case True
  have "update_sock fd (\<lambda>k. k) b = b" by (simp add: update_sock_def)
  then show ?thesis using True assms by (intro exI[of _ "\<lambda>k. k"]) (simp add: send_frame_def)
next
  case False
  then show ?thesis using assms by (auto simp: send_frame_def split: if_splits
      intro!: exI[of _ "\<lambda>s. s\<lparr>sk_out := sk_out s @ [frame_hdr_bytes
        \<lparr>frame_type = ty, frame_payload_len = word_of_nat (length body)\<rparr> @ body]\<rparr>"])
qed

text \<open>Closing a slot, when the publication returns.\<close>

definition slot_closed :: "nat \<Rightarrow> bridge \<Rightarrow> bridge" where
  "slot_closed i b = b\<lparr>b_pool := (b_pool b)[i := zero_slot],
     b_socks := (b_socks b)(ss_fd (b_pool b ! i) := (b_socks b (ss_fd (b_pool b ! i)))\<lparr>sk_open := False\<rparr>)\<rparr>"

lemma close_slot_busy:
  assumes "busy i b" and "ss_fd (b_pool b ! i) \<ge> 0"
  shows "close_slot i reason (b, w) = (case
      (if ss_vep (b_pool b ! i) \<noteq> 0
       then fb_bridge__publish_extfb_disconnected (ss_vep (b_pool b ! i)) reason (b_fb b) w else Some w) of
    None \<Rightarrow> Inl Waits_On_Bus | Some w' \<Rightarrow> Inr (slot_closed i b, w'))"
  using assms by (auto simp: close_slot_def Let_def busy_def on_bus_def embediq_const close_fd_def
      update_sock_def update_slot_def slot_closed_def split: option.splits)

lemma slot_closed_step: "busy i b \<Longrightarrow> slot_step i b (slot_closed i b) \<and> b_pool (slot_closed i b) ! i = zero_slot"
  by (auto simp: slot_closed_def busy_def
      intro!: slot_stepI[where s = zero_slot and k = "(b_socks b (ss_fd (b_pool b ! i)))\<lparr>sk_open := False\<rparr>"])

lemma close_slot_step:
  assumes "close_slot i reason (b, w) = Inr (b', w')" and "busy i b" and "ss_fd (b_pool b ! i) \<ge> 0"
  shows "slot_step i b b' \<and> b_pool b' ! i = zero_slot"
  using assms(1) slot_closed_step[OF assms(2)]
  by (simp add: close_slot_busy[OF assms(2,3)] split: option.splits)

text \<open>What the handlers keep: the step and the slot's invariant.\<close>

definition good :: "nat \<Rightarrow> bridge \<Rightarrow> bridge \<Rightarrow> bool" where
  "good i b b' \<longleftrightarrow> slot_step i b b' \<and> slot_ok i (b_pool b' ! i)"

lemma slot_ok_zero [simp]: "slot_ok i zero_slot"
  by (simp add: slot_ok_def)

lemma good_close:
  "close_slot i reason (b, w) = Inr (b', w') \<Longrightarrow> busy i b \<Longrightarrow> ss_fd (b_pool b ! i) \<ge> 0 \<Longrightarrow> good i b b'"
  using close_slot_step[of i reason b w b' w'] by (simp add: good_def)

lemma good_update_slot:
  "busy i b \<Longrightarrow> ss_state (f (b_pool b ! i)) \<noteq> 0 \<Longrightarrow> ss_fd (f (b_pool b ! i)) = ss_fd (b_pool b ! i) \<Longrightarrow>
   slot_ok i (f (b_pool b ! i)) \<Longrightarrow> good i b (update_slot i f b)"
  using slot_step_update_slot by (simp add: good_def busy_def)

lemma good_update_sock:
  "busy i b \<Longrightarrow> fd = ss_fd (b_pool b ! i) \<Longrightarrow> sk_open (f (b_socks b fd)) = sk_open (b_socks b fd) \<Longrightarrow>
   slot_ok i (b_pool b ! i) \<Longrightarrow> good i b (update_sock fd f b)"
  using slot_step_update_sock by (simp add: good_def)

lemma good_trans: "good i b b1 \<Longrightarrow> busy i b1 \<Longrightarrow> good i b1 b2 \<Longrightarrow> good i b b2"
  using slot_step_trans by (auto simp: good_def)

lemma good_refl: "busy i b \<Longrightarrow> slot_ok i (b_pool b ! i) \<Longrightarrow> good i b b"
  by (simp add: good_def slot_step_refl)

lemma on_identify_good:
  assumes "on_identify i now hdr body (b, w) = Inr (b', w')" and "busy i b" and "slot_ok i (b_pool b ! i)"
    and "length body = 84"
  shows "good i b b' \<and> busy i b' \<and> ss_fd (b_pool b' ! i) = ss_fd (b_pool b ! i)"
proof (cases "ss_state (b_pool b ! i) = SLOT_IDENTIFYING")
  case False
  then show ?thesis using assms good_refl by (simp add: on_identify_def)
next
  case True
  define n where "n = (if unat (frame_payload_len hdr) \<ge> 32 then 31 else unat (frame_payload_len hdr))"
  let ?name = "\<lambda>s. (take n body @ drop n (ss_name s))[n := 0]"
  let ?f = "\<lambda>s. s\<lparr>ss_name := ?name s, ss_vep := word_of_nat (0x40 + i)\<rparr>"
  let ?g = "\<lambda>s. s\<lparr>ss_state := SLOT_CONNECTED, ss_last_hb := now\<rparr>"
  let ?b1 = "update_slot i ?f b"
  have n: "n < 32" by (simp add: n_def)
  have i: "i < length (b_pool b)" using assms(2) by (simp add: busy_def)
  obtain r b2 where b2: "send_frame (ss_fd (b_pool ?b1 ! i)) BRIDGE_FRAME_ENDPOINT_ASSIGN
      [word_of_nat (0x40 + i)] ?b1 = Inr (r, b2)" and b': "b' = update_slot i ?g b2"
    using assms(1) True
    by (auto simp: on_identify_def Let_def and_then_Inr on_bus_Inr n_def embediq_const split_def split: if_splits)
  then obtain f where f: "b2 = update_sock (ss_fd (b_pool b ! i)) f ?b1" "\<forall>k. sk_open (f k) = sk_open k"
    using send_frame_Inr[OF b2] i by auto
  define s where "s = b_pool b ! i"
  have eq: "b' = b\<lparr>b_pool := (b_pool b)[i := ?g (?f s)], b_socks := (b_socks b)(ss_fd s := f (b_socks b (ss_fd s)))\<rparr>"
    using i by (simp add: b' f update_sock_def update_slot_def s_def)
  have ok: "slot_ok i (?g (?f s))"
    using assms(3,4) True n by (auto simp: slot_ok_def s_def embediq_const)
  show ?thesis
    unfolding good_def slot_step_def busy_def Let_def eq using ok i f(2)
    by (auto simp: s_def embediq_const intro!: exI)
qed

lemma length_le16_list [simp]: "length (le16_list n bs) = n"
  by (induction n arbitrary: bs) auto

lemma busy_update_slot:
  "busy i b \<Longrightarrow> ss_state (f (b_pool b ! i)) \<noteq> 0 \<Longrightarrow> busy i (update_slot i f b)"
  by (simp add: busy_def)

lemma on_subscribe_good:
  assumes "busy i b" and "slot_ok i (b_pool b ! i)"
  shows "good i b (on_subscribe i hdr body b) \<and> busy i (on_subscribe i hdr body b) \<and>
    ss_fd (b_pool (on_subscribe i hdr body b) ! i) = ss_fd (b_pool b ! i)"
proof -
  define cnt where "cnt = min (unat (frame_payload_len hdr) div 2) 16"
  let ?f = "\<lambda>s. s\<lparr>ss_subs := le16_list cnt body @ drop cnt (ss_subs s), ss_sub_count := word_of_nat cnt\<rparr>"
  have f: "on_subscribe i hdr body b = update_slot i ?f b"
    by (simp add: on_subscribe_def cnt_def Let_def embediq_const)
  have c: "unat (word_of_nat cnt :: u8) = cnt" "cnt \<le> 16" by (simp_all add: unat_of_nat_small cnt_def)
  have st: "ss_state (b_pool b ! i) \<noteq> 0" using assms(1) by (simp add: busy_def)
  then have "slot_ok i (?f (b_pool b ! i))"
    using assms(2) c by (auto simp: slot_ok_def)
  then show ?thesis
    unfolding f using good_update_slot[OF assms(1), of ?f] busy_update_slot[OF assms(1), of ?f] st assms(1)
    by (simp add: busy_def)
qed

lemma mux_frame_good:
  assumes "mux_frame i now buf (b, w) = Inr (stop, b', w')" and "busy i b" and "slot_ok i (b_pool b ! i)"
    and "length buf = 88" and "ss_fd (b_pool b ! i) \<ge> 0"
  shows "good i b b' \<and> (\<not> stop \<longrightarrow> busy i b' \<and> ss_fd (b_pool b' ! i) = ss_fd (b_pool b ! i))"
proof -
  have ref: "good i b b" using good_refl assms(2,3) by blast
  have st: "ss_state (b_pool b ! i) \<noteq> 0" using assms(2) by (simp add: busy_def)
  have rsp: "good i b (update_slot i (\<lambda>s. s\<lparr>ss_miss := 0\<rparr>) b) \<and> busy i (update_slot i (\<lambda>s. s\<lparr>ss_miss := 0\<rparr>) b) \<and>
      ss_fd (b_pool (update_slot i (\<lambda>s. s\<lparr>ss_miss := 0\<rparr>) b) ! i) = ss_fd (b_pool b ! i)"
    using good_update_slot[OF assms(2), of "\<lambda>s. s\<lparr>ss_miss := 0\<rparr>"]
      busy_update_slot[OF assms(2), of "\<lambda>s. s\<lparr>ss_miss := 0\<rparr>"] st assms(2,3)
    by (auto simp: slot_ok_def busy_def)
  show ?thesis
    using assms(1) ref rsp on_subscribe_good[OF assms(2,3)] on_identify_good[OF _ assms(2,3)]
      good_close[OF _ assms(2,5)] assms(2,4)
    by (fastforce simp: mux_frame_def Let_def and_then_Inr on_frame_msg_def on_bus_Inr embediq_const
        split: if_splits)
qed

lemma recv_into_length [simp]: "length (recv_into r buf) = length buf"
  by (simp add: recv_into_def)

lemma mux_drain_good:
  assumes "mux_drain i now fd rs buf (b, w) = Inr (b', w')" and "busy i b" and "slot_ok i (b_pool b ! i)"
    and "length buf = 88" and "fd \<ge> 0" and "ss_fd (b_pool b ! i) = fd"
  shows "good i b b'"
  using assms
proof (induction rs arbitrary: buf b w)
  case Nil
  then show ?case using good_close good_refl by (auto split: if_splits)
next
  case (Cons r rs)
  let ?b = "update_sock fd (\<lambda>s. s\<lparr>sk_in := rs\<rparr>) b" and ?buf = "recv_into r buf"
  have 1: "good i b ?b" "busy i ?b" "slot_ok i (b_pool ?b ! i)" "ss_fd (b_pool ?b ! i) = fd"
    using Cons.prems good_update_sock[OF Cons.prems(2), of fd] by (simp_all add: busy_def)
  show ?case
  proof (cases "length r < 4")
    case True
    show ?thesis
    proof (cases "r = []")
      case r: True
      then have c: "close_slot i 0 (?b, w) = Inr (b', w')" using Cons.prems(1) by (simp add: Let_def)
      have "good i ?b b'" by (rule good_close[OF c 1(2)]) (use 1(4) Cons.prems(5) in simp)
      then show ?thesis using good_trans 1(1,2) by blast
    qed (use True Cons.prems(1) 1(1) in \<open>simp add: Let_def\<close>)
  next
    case False
    then obtain stop b1 w1 where f: "mux_frame i now ?buf (?b, w) = Inr (stop, b1, w1)"
      and nxt: "if stop then (b', w') = (b1, w1) else mux_drain i now fd rs ?buf (b1, w1) = Inr (b', w')"
      using Cons.prems(1) by (auto simp: Let_def and_then_Inr split: if_splits)
    have g: "good i ?b b1 \<and> (\<not> stop \<longrightarrow> busy i b1 \<and> ss_fd (b_pool b1 ! i) = fd)"
      using mux_frame_good[OF f 1(2,3)] Cons.prems(4,5) 1(4) by simp
    have "good i ?b b'"
    proof (cases stop)
      case False
      then have "good i b1 b'"
        using Cons.IH[of ?buf b1 w1] nxt g Cons.prems(4,5) by (simp add: good_def)
      then show ?thesis using good_trans[of i ?b b1 b'] g False by blast
    qed (use g nxt in simp)
    then show ?thesis using good_trans 1(1,2) by blast
  qed
qed

lemma slot_ok_miss:
  "slot_ok i s \<Longrightarrow> ss_state s = SLOT_CONNECTED \<Longrightarrow> m < 3 \<Longrightarrow>
   slot_ok i (s\<lparr>ss_last_hb := t, ss_miss := m\<rparr>)"
  by (auto simp: slot_ok_def embediq_const)

lemma mux_heartbeat_good:
  assumes "mux_heartbeat i now (b, w) = Inr (stop, b', w')" and "busy i b" and "slot_ok i (b_pool b ! i)"
    and "ss_fd (b_pool b ! i) \<ge> 0"
  shows "good i b b' \<and> (\<not> stop \<longrightarrow> busy i b' \<and> ss_fd (b_pool b' ! i) = ss_fd (b_pool b ! i))"
proof (cases "ss_state (b_pool b ! i) = SLOT_CONNECTED \<and> now - ss_last_hb (b_pool b ! i) \<ge> b_heartbeat_ms b")
  case False
  then show ?thesis using assms(1,2) good_refl[OF assms(2,3)] by (auto simp: mux_heartbeat_def Let_def)
next
  case True
  then have conn: "ss_state (b_pool b ! i) = SLOT_CONNECTED" by simp
  define s where "s = b_pool b ! i"
  let ?f = "\<lambda>s. s\<lparr>ss_last_hb := now, ss_miss := ss_miss s + 1\<rparr>"
  have i: "i < length (b_pool b)" using assms(2) by (simp add: busy_def)
  have up: "(b_pool b)[i := (b_pool b ! i)\<lparr>ss_last_hb := now, ss_miss := ss_miss (b_pool b ! i) + 1\<rparr>] =
      (b_pool b)[i := ?f s]" by (simp add: s_def)
  have ub: "update_slot i (\<lambda>s'. s'\<lparr>ss_last_hb := now, ss_miss := ss_miss s + 1\<rparr>) b = update_slot i ?f b"
    by (simp add: update_slot_def s_def)
  obtain r b2 where b2: "send_frame (ss_fd s) BRIDGE_FRAME_HEALTH_REQ [] (update_slot i ?f b) = Inr (r, b2)"
    and rest: "if ss_miss (b_pool b2 ! i) \<ge> 3 then stop \<and> close_slot i 1 (b2, w) = Inr (b', w')
       else \<not> stop \<and> b' = b2"
    using assms(1) True ub by (auto simp: mux_heartbeat_def Let_def and_then_Inr s_def split: if_splits)
  obtain f where f: "b2 = update_sock (ss_fd s) f (update_slot i ?f b)" "\<forall>k. sk_open (f k) = sk_open k"
    using send_frame_Inr[OF b2] by blast
  have pool: "b_pool b2 ! i = ?f s" "busy i b2"
    using i assms(2) by (simp_all add: f busy_def s_def)
  have step: "slot_step i b b2"
    using i assms(2) f(2) by (intro slot_stepI[where s = "?f s" and k = "f (b_socks b (ss_fd s))"])
      (auto simp: f(1) update_sock_def update_slot_def s_def busy_def)
  show ?thesis
  proof (cases "ss_miss (b_pool b2 ! i) \<ge> 3")
    case True
    then have c: "close_slot i 1 (b2, w) = Inr (b', w')" using rest by simp
    have "good i b2 b'"
      by (rule good_close[OF c pool(2)]) (use assms(4) pool(1) in \<open>simp add: s_def\<close>)
    then show ?thesis using slot_step_trans[OF step pool(2)] rest True by (simp add: good_def)
  next
    case False
    have "slot_ok i (?f s)"
      by (rule slot_ok_miss) (use assms(3) False pool(1) conn in \<open>simp_all add: s_def not_le\<close>)
    then show ?thesis using step pool rest False by (simp add: good_def s_def)
  qed
qed

lemma mux_process_good:
  assumes "mux_process_slot i now stale (b, w) = Inr (b', w')" and "busy i b" and "slot_ok i (b_pool b ! i)"
    and "length stale = 88" and "ss_fd (b_pool b ! i) \<ge> 0"
  shows "good i b b'"
proof (cases "ss_state (b_pool b ! i) = SLOT_IDENTIFYING \<and> now - ss_ident_started (b_pool b ! i) > b_identify_to_ms b")
  case True
  then show ?thesis
    using assms(1,2) good_close[OF _ assms(2,5)] by (auto simp: mux_process_slot_def Let_def busy_def embediq_const)
next
  case False
  then obtain stop b1 w1 where h: "mux_heartbeat i now (b, w) = Inr (stop, b1, w1)"
    and d: "if stop then (b', w') = (b1, w1)
      else mux_drain i now (ss_fd (b_pool b ! i)) (sk_in (b_socks b1 (ss_fd (b_pool b ! i)))) stale (b1, w1) = Inr (b', w')"
    using assms(1,2) by (auto simp: mux_process_slot_def Let_def and_then_Inr busy_def embediq_const split: if_splits)
  have g: "good i b b1 \<and> (\<not> stop \<longrightarrow> busy i b1 \<and> ss_fd (b_pool b1 ! i) = ss_fd (b_pool b ! i))"
    using mux_heartbeat_good[OF h assms(2,3,5)] .
  show ?thesis
  proof (cases stop)
    case False
    then have e: "mux_drain i now (ss_fd (b_pool b ! i)) (sk_in (b_socks b1 (ss_fd (b_pool b ! i)))) stale (b1, w1) =
      Inr (b', w')" using d by simp
    have "good i b1 b'"
      by (rule mux_drain_good[OF e]) (use g False assms(4,5) in \<open>auto simp: good_def\<close>)
    then show ?thesis using good_trans g False by blast
  qed (use g d in simp)
qed

section \<open>Sessions and sockets\<close>

definition fdq_items :: "bridge \<Rightarrow> int list" where
  "fdq_items b = (case b_fdq b of None \<Rightarrow> [] | Some q \<Rightarrow> queue_items q)"

text \<open>Every slot is free and clear, or in its session with its own endpoint; the sockets of the slots
  and of the queue are open and all different.\<close>

definition mux_inv :: "bridge \<Rightarrow> bool" where
  "mux_inv b \<longleftrightarrow> length (b_pool b) = 8 \<and> (\<forall>i < 8. slot_ok i (b_pool b ! i)) \<and>
     (\<forall>q. b_fdq b = Some q \<longrightarrow> queue_inv q) \<and> distinct (fdq_items b) \<and>
     (\<forall>fd \<in> set (fdq_items b). 0 \<le> fd \<and> sk_open (b_socks b fd)) \<and>
     (\<forall>i. busy i b \<longrightarrow> 0 \<le> ss_fd (b_pool b ! i) \<and> sk_open (b_socks b (ss_fd (b_pool b ! i))) \<and>
        ss_fd (b_pool b ! i) \<notin> set (fdq_items b)) \<and>
     (\<forall>i j. busy i b \<and> busy j b \<and> ss_fd (b_pool b ! i) = ss_fd (b_pool b ! j) \<longrightarrow> i = j)"

lemma mux_inv_good:
  assumes "mux_inv b" and "busy i b" and "good i b b'"
  shows "mux_inv b'"
proof -
  define fd where "fd = ss_fd (b_pool b ! i)"
  obtain s k where b': "b' = b\<lparr>b_pool := (b_pool b)[i := s], b_socks := (b_socks b)(fd := k)\<rparr>"
    and c: "s = zero_slot \<and> \<not> sk_open k \<or> ss_state s \<noteq> 0 \<and> ss_fd s = fd \<and> sk_open k = sk_open (b_socks b fd)"
    using assms(3) by (auto simp: good_def slot_step_def Let_def fd_def)
  have i: "i < 8" "length (b_pool b) = 8" using assms(1,2) by (auto simp: mux_inv_def busy_def)
  have fd: "0 \<le> fd" "sk_open (b_socks b fd)" "fd \<notin> set (fdq_items b)"
    using assms(1,2) by (auto simp: mux_inv_def fd_def)
  have items: "fdq_items b' = fdq_items b" by (simp add: b' fdq_items_def)
  have s: "b_pool b' ! i = s" "\<And>j. j \<noteq> i \<Longrightarrow> b_pool b' ! j = b_pool b ! j" using i by (simp_all add: b')
  have other: "busy j b' \<longleftrightarrow> busy j b" if "j \<noteq> i" for j using that by (simp add: busy_def b')
  have diff: "busy j b \<Longrightarrow> j \<noteq> i \<Longrightarrow> ss_fd (b_pool b ! j) \<noteq> fd" for j
    using assms(1,2) by (auto simp: mux_inv_def fd_def)
  have mine: "busy i b' \<Longrightarrow> ss_fd s = fd \<and> sk_open k" using c fd(2) s(1) i by (auto simp: busy_def)
  have ok: "\<forall>j < 8. slot_ok j (b_pool b' ! j)"
    using assms(1,3) s(2) by (auto simp: mux_inv_def good_def) (metis s(2))
  have a: "0 \<le> ss_fd (b_pool b' ! j) \<and> sk_open (b_socks b' (ss_fd (b_pool b' ! j))) \<and>
      ss_fd (b_pool b' ! j) \<notin> set (fdq_items b')" if "busy j b'" for j
  proof (cases "j = i")
    case True
    then show ?thesis using mine that fd(1,3) s(1) items by (simp add: b')
  next
    case False
    then show ?thesis using that other diff assms(1) s(2) items by (auto simp: mux_inv_def b')
  qed
  have d: "j = l" if "busy j b'" "busy l b'" "ss_fd (b_pool b' ! j) = ss_fd (b_pool b' ! l)" for j l
    using that other diff assms(1) s mine unfolding mux_inv_def by metis
  have "\<forall>fd' \<in> set (fdq_items b'). 0 \<le> fd' \<and> sk_open (b_socks b' fd')"
    using assms(1) fd(3) items by (auto simp: mux_inv_def b')
  then show ?thesis
    using assms(1) i ok a d items unfolding mux_inv_def by (simp add: b')
qed

lemma mux_process_inv:
  assumes "mux_inv b" and "mux_process_slot i now stale (b, w) = Inr (b', w')" and "i < 8"
    and "length stale = 88"
  shows "mux_inv b'"
proof (cases "busy i b")
  case True
  have "good i b b'"
    by (rule mux_process_good[OF assms(2) True]) (use assms True in \<open>auto simp: mux_inv_def\<close>)
  then show ?thesis using mux_inv_good assms(1) True by blast
next
  case False
  then have "b' = b"
    using assms by (auto simp: mux_process_slot_def Let_def busy_def mux_inv_def embediq_const)
  then show ?thesis using assms(1) by simp
qed

lemma mux_slots_inv:
  "mux_inv b \<Longrightarrow> mux_slots ks now stale (b, w) = Inr (b', w') \<Longrightarrow> \<forall>i \<in> set ks. i < 8 \<Longrightarrow>
   \<forall>i. length (stale i) = 88 \<Longrightarrow> mux_inv b'"
proof (induction ks arbitrary: b w)
  case (Cons i ks)
  obtain b1 w1 where "mux_process_slot i now (stale i) (b, w) = Inr (b1, w1)"
    "mux_slots ks now stale (b1, w1) = Inr (b', w')"
    using Cons.prems(2) by (auto simp: and_then_Inr)
  then show ?case using Cons.IH[of b1 w1] mux_process_inv[of b i now "stale i" w b1 w1] Cons.prems by simp
qed simp

lemma find_free_socket_slot_props:
  "find_free_socket_slot ss \<le> length ss \<and> (\<forall>j < find_free_socket_slot ss. ss_state (ss ! j) \<noteq> 0) \<and>
   (find_free_socket_slot ss < length ss \<longrightarrow> ss_state (ss ! find_free_socket_slot ss) = 0)"
  by (induction ss) (auto simp: nth_Cons embediq_const split: nat.splits)

text \<open>Giving away the head of the queue.\<close>

lemma take_fd_props:
  assumes "mux_inv b" and "b_fdq b = Some q" and "embediq_osal_queue_recv q 0 = Some (e, r, q')"
  shows "if queue_items q = [] then r = None \<and> q' = q
    else e = EMBEDIQ_OK \<and> r = Some (hd (queue_items q)) \<and> queue_inv q' \<and> queue_items q' = tl (queue_items q)"
proof -
  have inv: "queue_inv q" using assms(1,2) by (simp add: mux_inv_def)
  show ?thesis
  proof (cases "queue_items q")
    case Nil
    then show ?thesis using assms(3) queue_recv_empty[OF Nil, of 0] by simp
  next
    case (Cons fd fds)
    then show ?thesis using assms(3) queue_recv_front(1)[OF inv Cons, of 0] queue_recv_front(2,3)[OF inv Cons] by simp
  qed
qed

lemma mux_handle_inv:
  assumes "mux_inv b" and "b_fdq b = Some q" and "queue_items q = fd # fds" and "queue_inv q'"
    and "queue_items q' = fds"
    and "mux_handle_new_fd fd now (b\<lparr>b_fdq := Some q'\<rparr>, w) = Inr (b', w')"
  shows "mux_inv b'"
proof -
  let ?b = "b\<lparr>b_fdq := Some q'\<rparr>"
  have items: "fdq_items b = fd # fds" "fdq_items ?b = fds"
    using assms(2,3,5) by (simp_all add: fdq_items_def)
  have busy: "busy i ?b = busy i b" for i by (simp add: busy_def)
  have fd: "0 \<le> fd" "sk_open (b_socks b fd)" "fd \<notin> set fds"
    "\<And>i. busy i b \<Longrightarrow> ss_fd (b_pool b ! i) \<noteq> fd"
    using assms(1) items(1) by (auto simp: mux_inv_def)
  show ?thesis
  proof (cases "find_free_socket_slot (b_pool b) < 8")
    case False
    then obtain f where "b' = close_fd fd (update_sock fd f ?b)"
      using assms(6) send_frame_Inr
      by (fastforce simp: mux_handle_new_fd_def Let_def and_then_Inr on_bus_Inr embediq_const split: if_splits)
    then have b': "b_pool b' = b_pool b" "b_fdq b' = Some q'" "\<And>x. x \<noteq> fd \<Longrightarrow> b_socks b' x = b_socks b x"
      by (simp_all add: close_fd_def update_sock_def)
    then have "fdq_items b' = fds" "\<And>i. busy i b' = busy i b"
      using assms(5) by (simp_all add: fdq_items_def busy_def)
    moreover have "\<forall>x \<in> set fds. b_socks b' x = b_socks b x" using b'(3) fd(3) by metis
    ultimately show ?thesis using assms(1,4) b' fd items unfolding mux_inv_def by auto
  next
    case True
    define i where "i = find_free_socket_slot (b_pool b)"
    define s where "s = (b_pool b ! i)\<lparr>ss_fd := fd, ss_state := SLOT_IDENTIFYING, ss_ident_started := now, ss_miss := 0\<rparr>"
    have len: "length (b_pool b) = 8" and free: "ss_state (b_pool b ! i) = 0" "slot_ok i (b_pool b ! i)"
      using assms(1) find_free_socket_slot_props[of "b_pool b"] True by (simp_all add: mux_inv_def i_def)
    then have z: "b_pool b ! i = zero_slot" by (auto simp: slot_ok_def embediq_const)
    have i: "i < 8" using True by (simp add: i_def)
    have b': "b' = ?b\<lparr>b_pool := (b_pool b)[i := s]\<rparr>"
      using assms(6) True by (simp add: mux_handle_new_fd_def Let_def embediq_const update_slot_def i_def s_def)
    have ok: "slot_ok i s" by (simp add: slot_ok_def s_def z embediq_const)
    have items': "fdq_items b' = fds" using items by (simp add: b' fdq_items_def)
    have nth: "b_pool b' ! j = (if j = i then s else b_pool b ! j)" if "j < 8" for j
      using that len by (simp add: b' nth_list_update)
    have bz: "busy j b' \<longleftrightarrow> j = i \<or> busy j b" for j
      using len i by (auto simp: busy_def b' s_def nth_list_update embediq_const)
    have lt: "busy j b \<Longrightarrow> j < 8" for j using len by (simp add: busy_def)
    have nb: "\<not> busy i b" using free by (simp add: busy_def)
    have sfd: "ss_fd s = fd" by (simp add: s_def)
    have "\<forall>j < 8. slot_ok j (b_pool b' ! j)" using assms(1) ok nth by (simp add: mux_inv_def)
    moreover have "0 \<le> ss_fd (b_pool b' ! j) \<and> sk_open (b_socks b' (ss_fd (b_pool b' ! j))) \<and>
        ss_fd (b_pool b' ! j) \<notin> set (fdq_items b')" if "busy j b'" for j
    proof (cases "j = i")
      case True
      then show ?thesis using fd(1-3) sfd nth[OF i] items' by (simp add: b' len i)
    next
      case False
      then have "busy j b" using that bz by blast
      then show ?thesis using False nth[OF lt] assms(1) items(1) items' by (auto simp: mux_inv_def b')
    qed
    moreover have "j = l" if "busy j b'" "busy l b'" "ss_fd (b_pool b' ! j) = ss_fd (b_pool b' ! l)" for j l
      using that bz nth i lt sfd fd(4) assms(1) unfolding mux_inv_def by metis
    ultimately show ?thesis
      using assms(1,4) len items items' unfolding mux_inv_def by (simp add: b')
  qed
qed

lemma mux_take_inv:
  assumes "mux_inv b" and "mux_take_fd x (b, w) = Inr (b', w')"
  shows "mux_inv b'"
proof (cases "b_fdq b")
  case None
  then show ?thesis using assms by (simp add: mux_take_fd_def)
next
  case (Some q)
  then obtain e r q' where r: "embediq_osal_queue_recv q 0 = Some (e, r, q')"
    by (cases "q_count q = 0") (auto simp: embediq_osal_queue_recv_def)
  note p = take_fd_props[OF assms(1) Some r]
  show ?thesis
  proof (cases "queue_items q")
    case Nil
    then show ?thesis using assms p Some r by (simp add: mux_take_fd_def)
  next
    case (Cons fd fds)
    then show ?thesis
      using mux_handle_inv[OF assms(1) Some Cons, of q'] assms(2) p Some r by (auto simp: mux_take_fd_def)
  qed
qed

lemma mux_inv_notify [simp]: "mux_inv (notify_systemd_watchdog s m now b) = mux_inv b"
  by (simp add: notify_systemd_watchdog_def Let_def mux_inv_def fdq_items_def busy_def split: option.splits)

lemma mux_round_inv:
  assumes "mux_inv b" and "mux_round x (b, w) = Inr (b', w')" and "\<forall>i. length (mi_stale x i) = 88"
  shows "mux_inv b'"
proof -
  obtain b1 w1 b2 where "mux_take_fd x (b, w) = Inr (b1, w1)"
    "mux_slots [0..<8] (mi_now_ms x) (mi_stale x) (b1, w1) = Inr (b2, w')"
    "b' = notify_systemd_watchdog (mi_notify x) (mi_socket x) (mi_now_ms x) b2"
    using assms(2) by (auto simp: mux_round_def and_then_Inr embediq_const)
  then have "mux_inv b1" "mux_slots [0..<8] (mi_now_ms x) (mi_stale x) (b1, w1) = Inr (b2, w')"
    "b' = notify_systemd_watchdog (mi_notify x) (mi_socket x) (mi_now_ms x) b2"
    using mux_take_inv assms(1) by blast+
  then show ?thesis using mux_slots_inv[of b1 "[0..<8]" "mi_now_ms x" "mi_stale x" w1 b2 w'] assms(3) by simp
qed

section \<open>All interleavings\<close>

text \<open>The listener accepts a socket the kernel just opened, peers send records and close, the bus
  does anything, and the mux makes its rounds.\<close>

inductive bridge_reach :: "'u bridge_world \<Rightarrow> bool" where
  start: "bridge_reach (bridge_init env h bridge_initial, w)"
| accept: "bridge_reach (b, w) \<Longrightarrow> 0 \<le> fd \<Longrightarrow> \<not> sk_open (b_socks b fd) \<Longrightarrow>
    bridge_reach (bridge_listener (Some fd) (update_sock fd (\<lambda>k. fresh_sock) b), w)"
| peer_send: "bridge_reach (b, w) \<Longrightarrow> bridge_reach (update_sock fd (\<lambda>k. k\<lparr>sk_in := sk_in k @ [r]\<rparr>) b, w)"
| peer_close: "bridge_reach (b, w) \<Longrightarrow> bridge_reach (update_sock fd (\<lambda>k. k\<lparr>sk_peer_closed := True\<rparr>) b, w)"
| bus: "bridge_reach (b, w) \<Longrightarrow> bridge_reach (b, w')"
| round: "bridge_reach (b, w) \<Longrightarrow> \<forall>i. length (mi_stale x i) = 88 \<Longrightarrow> mux_round x (b, w) = Inr st \<Longrightarrow>
    bridge_reach st"

lemma mux_inv_cong:
  "b_pool b' = b_pool b \<Longrightarrow> b_fdq b' = b_fdq b \<Longrightarrow>
   \<forall>fd. sk_open (b_socks b' fd) = sk_open (b_socks b fd) \<Longrightarrow> mux_inv b' = mux_inv b"
  by (simp add: mux_inv_def fdq_items_def busy_def)

lemma mux_inv_sock:
  "mux_inv b \<Longrightarrow> \<forall>k. sk_open (f k) = sk_open k \<Longrightarrow> mux_inv (update_sock fd f b)"
  by (subst mux_inv_cong[of _ b]) (simp_all add: update_sock_def)

lemma mux_inv_init: "mux_inv (bridge_init env h bridge_initial)"
proof -
  have q: "queue_inv q \<and> queue_items q = []" if "embediq_osal_queue_create m 8 = Some q" for m and q :: "int osal_queue"
    using that queue_create_inv[of m 8 q] by simp
  have p: "b_pool (bridge_init env h bridge_initial) = replicate 8 zero_slot"
    "b_fdq (bridge_init env h bridge_initial) = None \<or>
     b_fdq (bridge_init env h bridge_initial) = embediq_osal_queue_create (be_queue env) 8"
    by (simp_all add: bridge_init_def bridge_initial_def Let_def embediq_const split: option.splits)
  have nb: "\<not> busy i (bridge_init env h bridge_initial)" for i
    using p(1) by (auto simp: busy_def)
  have "fdq_items (bridge_init env h bridge_initial) = [] \<and>
      (\<forall>q. b_fdq (bridge_init env h bridge_initial) = Some q \<longrightarrow> queue_inv q)"
    using p(2) q by (auto simp: fdq_items_def split: option.splits)
  then show ?thesis using p(1) nb by (auto simp: mux_inv_def)
qed

lemma mux_inv_accept:
  assumes "mux_inv b" and "0 \<le> fd" and "\<not> sk_open (b_socks b fd)"
  shows "mux_inv (bridge_listener (Some fd) (update_sock fd (\<lambda>k. fresh_sock) b))"
proof -
  let ?b = "update_sock fd (\<lambda>k. fresh_sock) b"
  have own: "fd \<notin> set (fdq_items b)" "\<And>i. busy i b \<Longrightarrow> ss_fd (b_pool b ! i) \<noteq> fd"
    using assms by (auto simp: mux_inv_def)
  then have b: "mux_inv ?b" using assms(1)
    by (auto simp: mux_inv_def update_sock_def fdq_items_def busy_def fresh_sock_def split: option.splits)
  show ?thesis
  proof (cases "b_running b")
    case True
    show ?thesis
    proof (cases "b_fdq b")
      case None
      then have "bridge_listener (Some fd) ?b = close_fd fd ?b"
        using True by (simp add: bridge_listener_def update_sock_def)
      moreover have "mux_inv (close_fd fd ?b)"
        using assms(1) own by (auto simp: mux_inv_def update_sock_def close_fd_def fdq_items_def busy_def split: option.splits)
      ultimately show ?thesis by simp
    next
      case (Some q)
      have q: "queue_inv q" "fdq_items b = queue_items q" using assms(1) Some by (simp_all add: mux_inv_def fdq_items_def)
      show ?thesis
      proof (cases "length (queue_items q) < queue_cap q")
        case False
        then have "length (queue_items q) = queue_cap q"
          using q(1) by (simp add: queue_inv_def queue_cap_def)
        then have "bridge_listener (Some fd) ?b = ?b"
          using True Some queue_send_full[OF q(1), of fd 0] by (simp add: bridge_listener_def update_sock_def)
        then show ?thesis using b by simp
      next
        case room: True
        let ?q = "queue_put q fd"
        have l: "bridge_listener (Some fd) ?b = ?b\<lparr>b_fdq := Some ?q\<rparr>"
          using True Some queue_send_room(1)[OF q(1) room, of fd 0] by (simp add: bridge_listener_def update_sock_def)
        have it: "fdq_items (?b\<lparr>b_fdq := Some ?q\<rparr>) = fdq_items b @ [fd]"
          using queue_send_room(3)[OF q(1) room] q(2) by (simp add: fdq_items_def)
        have bz: "busy i (?b\<lparr>b_fdq := Some ?q\<rparr>) = busy i b" for i by (simp add: busy_def)
        show ?thesis
          unfolding l mux_inv_def it bz
          using assms(1,2) own queue_send_room(2)[OF q(1) room]
          by (auto simp: mux_inv_def update_sock_def fresh_sock_def)
      qed
    qed
  qed (use b in \<open>simp add: bridge_listener_def update_sock_def\<close>)
qed

text \<open>C12: In every interleaving of listener, peers, bus and mux, each of the 8 slots is free and clear,
  or waits for its identification without an endpoint, or is connected with the endpoint 0x40 + i and
  fewer than 3 missed heartbeats; and every socket held by a slot or by the queue of new sockets is
  open and held only once.\<close>

theorem bridge_session_invariant:
  assumes "bridge_reach (b, w)"
  shows "length (b_pool b) = 8 \<and>
    (\<forall>i < 8. let s = b_pool b ! i in unat (ss_sub_count s) \<le> 16 \<and>
       (s = zero_slot \<or> ss_state s = SLOT_IDENTIFYING \<and> ss_vep s = 0 \<or>
        ss_state s = SLOT_CONNECTED \<and> ss_vep s = word_of_nat (0x40 + i) \<and> ss_miss s < 3)) \<and>
    (\<forall>fd \<in> set (fdq_items b). sk_open (b_socks b fd)) \<and> distinct (fdq_items b) \<and>
    (\<forall>i. busy i b \<longrightarrow> sk_open (b_socks b (ss_fd (b_pool b ! i))) \<and>
       ss_fd (b_pool b ! i) \<notin> set (fdq_items b) \<and>
       (\<forall>j. busy j b \<and> j \<noteq> i \<longrightarrow> ss_fd (b_pool b ! j) \<noteq> ss_fd (b_pool b ! i)))"
proof -
  have "bridge_reach st \<Longrightarrow> mux_inv (fst st)" for st :: "'a bridge_world"
  proof (induction rule: bridge_reach.induct)
    case (round b w x st)
    then show ?case using mux_round_inv[of b x w "fst st" "snd st"] by simp
  qed (simp_all add: mux_inv_init mux_inv_accept mux_inv_sock)
  from this[OF assms] have inv: "mux_inv b" by simp
  then have "slot_ok i (b_pool b ! i)" if "i < 8" for i using that by (simp add: mux_inv_def)
  then show ?thesis
    using inv unfolding Let_def slot_ok_def mux_inv_def by metis
qed

section \<open>Well-formed frames\<close>

definition frame_bytes :: "u16 \<Rightarrow> bytes \<Rightarrow> bytes" where
  "frame_bytes ty body = frame_hdr_bytes \<lparr>frame_type = ty, frame_payload_len = word_of_nat (length body)\<rparr> @ body"

lemma frame_hdr_of_bytes [simp]: "frame_hdr_of (frame_hdr_bytes h @ xs) = h"
proof -
  have "drop 2 (frame_hdr_bytes h @ xs) = le16 (frame_payload_len h) @ xs"
    by (simp add: frame_hdr_bytes_def)
  then show ?thesis unfolding frame_hdr_of_def by (simp add: frame_hdr_bytes_def)
qed

lemma length_frame_hdr [simp]: "length (frame_hdr_bytes h) = 4"
  by (simp add: frame_hdr_bytes_def)

lemma recv_frame:
  "length body \<le> 84 \<Longrightarrow> length buf = 88 \<Longrightarrow>
   recv_into (frame_bytes ty body) buf = frame_bytes ty body @ drop (4 + length body) buf"
  by (simp add: recv_into_def frame_bytes_def)

lemma length_msg_bytes: "wf_msg m \<Longrightarrow> length (msg_bytes m) = 84"
  by (simp add: msg_bytes_def wf_msg_def embediq_const)

lemma msg_of_msg_bytes:
  assumes "wf_msg m"
  shows "msg_of_bytes (msg_bytes m) = m"
proof -
  have len: "length (reserved m) = 3" "length (payload m) = 64"
    using assms by (simp_all add: wf_msg_def embediq_const)
  have d: "drop 4 (msg_bytes m) = le16 (schema_id m) @ le16 (payload_len m) @ le32 (correlation_id m) @
      le32 (timestamp_us m) @ [priority m] @ reserved m @ payload m"
    "drop 6 (msg_bytes m) = le16 (payload_len m) @ le32 (correlation_id m) @
      le32 (timestamp_us m) @ [priority m] @ reserved m @ payload m"
    "drop 8 (msg_bytes m) = le32 (correlation_id m) @ le32 (timestamp_us m) @ [priority m] @ reserved m @ payload m"
    "drop 12 (msg_bytes m) = le32 (timestamp_us m) @ [priority m] @ reserved m @ payload m"
    "drop 17 (msg_bytes m) = reserved m @ payload m" "drop 20 (msg_bytes m) = payload m"
    using len by (simp_all add: msg_bytes_def le16_def le32_def)
  have n: "msg_bytes m ! 2 = source_endpoint_id m" "msg_bytes m ! 3 = target_endpoint_id m"
    "msg_bytes m ! 16 = priority m"
    by (simp_all add: msg_bytes_def le16_def le32_def)
  have h: "of_le16 (msg_bytes m) = msg_id m" by (simp add: msg_bytes_def)
  show ?thesis unfolding msg_of_bytes_def d n h using len by simp
qed

lemma msg_frame:
  assumes "wf_msg m" and "length buf = 88"
  shows "mux_frame i now (recv_into (frame_bytes BRIDGE_FRAME_MSG (msg_bytes m)) buf) (b, w) =
    and_then (on_bus b (map_option snd (embediq_bus_bridge_route (ss_vep (b_pool b ! i)) (Some m) w)))
      (\<lambda>st. Inr (False, st))"
proof -
  have l: "length (msg_bytes m) = 84" using length_msg_bytes[OF assms(1)] .
  then have r: "recv_into (frame_bytes BRIDGE_FRAME_MSG (msg_bytes m)) buf =
      frame_hdr_bytes \<lparr>frame_type = BRIDGE_FRAME_MSG, frame_payload_len = 84\<rparr> @ msg_bytes m"
    using recv_frame[of "msg_bytes m" buf] assms(2) by (simp add: frame_bytes_def)
  have d: "drop 4 (frame_hdr_bytes h @ msg_bytes m) = msg_bytes m" for h by simp
  show ?thesis
    unfolding r mux_frame_def frame_hdr_of_bytes d
    using l by (simp add: Let_def on_frame_msg_def msg_of_msg_bytes[OF assms(1)] embediq_const)
qed

text \<open>Routing a list of messages of slot \<open>i\<close>.\<close>

definition route_as :: "u8 \<Rightarrow> embediq_msg \<Rightarrow> 'u world \<Rightarrow> 'u world option" where
  "route_as vep m w = map_option snd (embediq_bus_bridge_route vep (Some m) w)"

lemma sock_in_same: "sk_in k = rs \<Longrightarrow> k\<lparr>sk_in := rs\<rparr> = k"
  by (cases k) simp

lemma drain_msgs:
  fixes w :: "'u world"
  assumes "\<forall>m \<in> set ms. wf_msg m" and "length buf = 88" and "\<not> sk_peer_closed (b_socks b fd)"
    and "sk_in (b_socks b fd) = map (\<lambda>m. frame_bytes BRIDGE_FRAME_MSG (msg_bytes m)) ms"
  shows "mux_drain i now fd (map (\<lambda>m. frame_bytes BRIDGE_FRAME_MSG (msg_bytes m)) ms) buf (b, w) =
    on_bus (update_sock fd (\<lambda>k. k\<lparr>sk_in := []\<rparr>) b) (run_list (route_as (ss_vep (b_pool b ! i))) ms w)"
  using assms
proof (induction ms arbitrary: buf b w)
  case Nil
  then have "update_sock fd (\<lambda>k. k\<lparr>sk_in := []\<rparr>) b = b" by (simp add: update_sock_def sock_in_same)
  then show ?case using Nil by (simp add: on_bus_def)
next
  case (Cons m ms)
  let ?fr = "\<lambda>m. frame_bytes BRIDGE_FRAME_MSG (msg_bytes m)"
  let ?b = "update_sock fd (\<lambda>k. k\<lparr>sk_in := map ?fr ms\<rparr>) b"
  have f: "length (?fr m) \<ge> 4" "?fr m \<noteq> []"
    by (simp_all add: frame_bytes_def flip: length_greater_0_conv)
  have e: "update_sock fd (\<lambda>k. k\<lparr>sk_in := []\<rparr>) ?b = update_sock fd (\<lambda>k. k\<lparr>sk_in := []\<rparr>) b"
    by (simp add: update_sock_def)
  have ih: "mux_drain i now fd (map ?fr ms) (recv_into (?fr m) buf) (?b, w1) =
      on_bus (update_sock fd (\<lambda>k. k\<lparr>sk_in := []\<rparr>) b) (run_list (route_as (ss_vep (b_pool b ! i))) ms w1)" for w1 :: "'u world"
    using Cons.IH[of "recv_into (?fr m) buf" ?b w1] Cons.prems e by simp
  have "mux_drain i now fd (map ?fr (m # ms)) buf (b, w) =
      and_then (mux_frame i now (recv_into (?fr m) buf) (?b, w))
        (\<lambda>(stop, st). if stop then Inr st else mux_drain i now fd (map ?fr ms) (recv_into (?fr m) buf) st)"
    using f by (simp add: Let_def)
  also have "\<dots> = on_bus (update_sock fd (\<lambda>k. k\<lparr>sk_in := []\<rparr>) b) (run_list (route_as (ss_vep (b_pool b ! i))) (m # ms) w)"
    using msg_frame[of m buf i now ?b w] Cons.prems(1,2) ih
    by (auto simp: on_bus_def route_as_def split: option.splits)
  finally show ?case .
qed

lemma no_heartbeat:
  assumes "ss_state (b_pool b ! i) = SLOT_CONNECTED" and "now - ss_last_hb (b_pool b ! i) < b_heartbeat_ms b"
  shows "mux_process_slot i now stale (b, w) = mux_drain i now (ss_fd (b_pool b ! i))
    (sk_in (b_socks b (ss_fd (b_pool b ! i)))) stale (b, w)"
proof -
  have "\<not> now - ss_last_hb (b_pool b ! i) \<ge> b_heartbeat_ms b" using assms(2) by (simp add: not_le)
  then show ?thesis
    using assms(1) by (simp add: mux_process_slot_def mux_heartbeat_def Let_def embediq_const)
qed

text \<open>C37: Between two heartbeats, the mux routes exactly the messages a connected peer sent in
  well-formed frames, in their order, each with the source endpoint 0x40 + i, whatever the receive
  buffer held before; it stops only inside a publication that waits.\<close>

theorem bridge_routes_frames:
  assumes "ss_state (b_pool b ! i) = SLOT_CONNECTED" and "slot_ok i (b_pool b ! i)"
    and "now - ss_last_hb (b_pool b ! i) < b_heartbeat_ms b" and "fd = ss_fd (b_pool b ! i)"
    and "sk_in (b_socks b fd) = map (\<lambda>m. frame_bytes BRIDGE_FRAME_MSG (msg_bytes m)) ms"
    and "\<forall>m \<in> set ms. wf_msg m" and "\<not> sk_peer_closed (b_socks b fd)" and "length stale = 88"
  shows "mux_process_slot i now stale (b, w) =
    (case run_list (route_as (word_of_nat (0x40 + i))) ms w of
       None \<Rightarrow> Inl Waits_On_Bus
     | Some w' \<Rightarrow> Inr (update_sock fd (\<lambda>k. k\<lparr>sk_in := []\<rparr>) b, w'))"
proof -
  have vep: "ss_vep (b_pool b ! i) = word_of_nat (0x40 + i)"
    using assms(1,2) by (auto simp: slot_ok_def embediq_const)
  show ?thesis
    unfolding no_heartbeat[OF assms(1,3)] assms(4)[symmetric] assms(5) drain_msgs[OF assms(6,8,7,5)] vep
      on_bus_def ..
qed

text \<open>Receiving one record, then none.\<close>

lemma drain_one:
  assumes "sk_in (b_socks b fd) = [r]" and "length r \<ge> 4" and "\<not> sk_peer_closed (b_socks b fd)"
    and "mux_frame i now (recv_into r buf) (update_sock fd (\<lambda>k. k\<lparr>sk_in := []\<rparr>) b, w) =
      and_then st (\<lambda>st. Inr (False, st))"
    and "\<And>b' w'. st = Inr (b', w') \<Longrightarrow> \<not> sk_peer_closed (b_socks b' fd)"
  shows "mux_drain i now fd [r] buf (b, w) = st"
proof -
  have "r \<noteq> []" using assms(2) by auto
  then show ?thesis
    using assms(2,4,5) by (cases st) (auto simp: Let_def and_then_def)
qed

text \<open>The state after an identification: the endpoint is assigned and the slot connected.\<close>

definition identified :: "nat \<Rightarrow> u32 \<Rightarrow> bytes \<Rightarrow> bridge \<Rightarrow> bridge" where
  "identified i now name b = update_slot i (\<lambda>s. s\<lparr>ss_name := name @ drop (length name) (ss_name s),
       ss_vep := word_of_nat (0x40 + i), ss_state := SLOT_CONNECTED, ss_last_hb := now\<rparr>)
     (update_sock (ss_fd (b_pool b ! i)) (\<lambda>k. k\<lparr>sk_in := [], sk_out := sk_out k @
        [frame_bytes BRIDGE_FRAME_ENDPOINT_ASSIGN [word_of_nat (0x40 + i)]]\<rparr>) b)"

lemma on_identify_eq:
  assumes "i < length (b_pool b)" and "ss_state (b_pool b ! i) = SLOT_IDENTIFYING" and "length (ss_name (b_pool b ! i)) = 32"
    and "n = unat (frame_payload_len hdr)" and "n < 32" and "n \<le> length body"
    and "\<not> sk_peer_closed (b_socks b (ss_fd (b_pool b ! i)))" and "sk_in (b_socks b (ss_fd (b_pool b ! i))) = []"
  shows "on_identify i now hdr body (b, w) = on_bus (identified i now (take n body @ [0]) b)
    (fb_bridge__publish_extfb_connected (word_of_nat (0x40 + i)) 0
       (Some (take n body @ [0] @ drop (n + 1) (ss_name (b_pool b ! i)))) (b_fb b) w)"
proof -
  define s where "s = b_pool b ! i"
  have name: "(take n body @ drop n (ss_name s))[n := 0] = take n body @ [0] @ drop (n + 1) (ss_name s)"
    using assms(3,5,6) by (simp add: s_def list_update_append) (metis Cons_nth_drop_Suc list_update_code(2) One_nat_def add.commute plus_1_eq_Suc)
  have k: "k\<lparr>sk_in := [], sk_out := x\<rparr> = k\<lparr>sk_out := x\<rparr>" if "sk_in k = []" for k x
    using that by (cases k) simp
  show ?thesis
    using assms name
    by (simp add: on_identify_def Let_def embediq_const send_frame_def frame_bytes_def identified_def
        update_sock_def update_slot_def s_def k)
qed

lemma c_str_append_zero: "c_str (xs @ [0] @ ys) = c_str (xs :: bytes)"
  by (induction xs) (simp_all add: c_str_def)

lemma publish_connected_c_str:
  "c_str n = c_str n' \<Longrightarrow> fb_bridge__publish_extfb_connected v t (Some n) = fb_bridge__publish_extfb_connected v t (Some n')"
proof -
  assume "c_str n = c_str n'"
  then have "connected_msg v t (Some n) = connected_msg v t (Some n')"
    by (simp add: connected_msg_def name_array_def)
  then show ?thesis by (intro ext) (simp add: fb_bridge__publish_extfb_connected_def Let_def)
qed

text \<open>A peer that identifies itself in time, in one record with a name of at most 31 bytes, gets the
  endpoint 0x40 + i, its slot is connected under this name, and the connection is published.\<close>

theorem bridge_identify_connects:
  assumes "ss_state (b_pool b ! i) = SLOT_IDENTIFYING" and "i < length (b_pool b)" and "slot_ok i (b_pool b ! i)"
    and "now - ss_ident_started (b_pool b ! i) \<le> b_identify_to_ms b" and "fd = ss_fd (b_pool b ! i)"
    and "sk_in (b_socks b fd) = [frame_bytes BRIDGE_FRAME_IDENTIFY name]" and "length name < 32"
    and "\<not> sk_peer_closed (b_socks b fd)" and "length stale = 88"
  shows "mux_process_slot i now stale (b, w) =
    (case fb_bridge__publish_extfb_connected (word_of_nat (0x40 + i)) 0 (Some name) (b_fb b) w of
       None \<Rightarrow> Inl Waits_On_Bus | Some w' \<Rightarrow> Inr (identified i now (name @ [0]) b, w'))"
proof -
  let ?r = "frame_bytes BRIDGE_FRAME_IDENTIFY name"
  let ?b = "update_sock fd (\<lambda>k. k\<lparr>sk_in := []\<rparr>) b"
  let ?full = "name @ [0] @ drop (length name + 1) (ss_name (b_pool b ! i))"
  have len: "length (ss_name (b_pool b ! i)) = 32" using assms(3) by (simp add: slot_ok_def)
  have pl: "unat (word_of_nat (length name) :: u16) = length name"
    using assms(7) by (simp add: unat_of_nat_small)
  have "\<not> now - ss_ident_started (b_pool b ! i) > b_identify_to_ms b" using assms(4) by (simp add: not_less)
  then have proc: "mux_process_slot i now stale (b, w) = mux_drain i now fd [?r] stale (b, w)"
    using assms(1,5,6) by (simp add: mux_process_slot_def mux_heartbeat_def Let_def embediq_const)
  have r: "recv_into ?r stale = ?r @ drop (4 + length name) stale"
    using recv_frame[of name stale] assms(7,9) by simp
  have f: "mux_frame i now (recv_into ?r stale) (?b, w) = and_then
      (on_bus (identified i now (name @ [0]) b)
        (fb_bridge__publish_extfb_connected (word_of_nat (0x40 + i)) 0 (Some ?full) (b_fb b) w))
      (\<lambda>st. Inr (False, st))"
  proof -
    have id: "identified i now (name @ [0]) ?b = identified i now (name @ [0]) b"
      using assms(2,5) by (simp add: identified_def update_sock_def update_slot_def)
    have "on_identify i now \<lparr>frame_type = BRIDGE_FRAME_IDENTIFY, frame_payload_len = word_of_nat (length name)\<rparr>
        (name @ drop (4 + length name) stale) (?b, w) = on_bus (identified i now (name @ [0]) b)
        (fb_bridge__publish_extfb_connected (word_of_nat (0x40 + i)) 0 (Some ?full) (b_fb b) w)"
      using on_identify_eq[where i = i and b = ?b and n = "length name" and body = "name @ drop (4 + length name) stale"
          and hdr = "\<lparr>frame_type = BRIDGE_FRAME_IDENTIFY, frame_payload_len = word_of_nat (length name)\<rparr>"
          and now = now and w = w] assms(1,2,5,7,8) len pl id by simp
    then show ?thesis
      unfolding r mux_frame_def by (simp add: frame_bytes_def Let_def embediq_const)
  qed
  have closed: "\<not> sk_peer_closed (b_socks b' fd)"
    if "on_bus (identified i now (name @ [0]) b) x = Inr (b', w')" for b' w' x
    using that assms(5,8) by (auto simp: on_bus_Inr identified_def update_slot_def update_sock_def)
  have l: "length ?r \<ge> 4" by (simp add: frame_bytes_def)
  have c: "c_str ?full = c_str name" using c_str_append_zero by simp
  have "mux_drain i now fd [?r] stale (b, w) = on_bus (identified i now (name @ [0]) b)
      (fb_bridge__publish_extfb_connected (word_of_nat (0x40 + i)) 0 (Some ?full) (b_fb b) w)"
    by (rule drain_one[OF assms(6) l assms(8) f closed])
  then show ?thesis unfolding proc publish_connected_c_str[OF c] on_bus_def .
qed

section \<open>A frame in two records\<close>

text \<open>A header and its message as two records: for the mux the first is a whole frame whose message is
  what the receive buffer held, and the second a frame of unknown type.\<close>

lemma two_records_lost:
  assumes "ss_state (b_pool b ! i) = SLOT_CONNECTED" and "slot_ok i (b_pool b ! i)"
    and "now - ss_last_hb (b_pool b ! i) < b_heartbeat_ms b" and "fd = ss_fd (b_pool b ! i)"
    and "sk_in (b_socks b fd) =
      [frame_hdr_bytes \<lparr>frame_type = BRIDGE_FRAME_MSG, frame_payload_len = 84\<rparr>, msg_bytes m]"
    and "wf_msg m" and "8 < msg_id m" and "\<not> sk_peer_closed (b_socks b fd)" and "length stale = 88"
  shows "mux_process_slot i now stale (b, w) =
    (case route_as (word_of_nat (0x40 + i)) (msg_of_bytes (drop 4 stale)) w of
       None \<Rightarrow> Inl Waits_On_Bus
     | Some w' \<Rightarrow> Inr (update_sock fd (\<lambda>k. k\<lparr>sk_in := []\<rparr>) b, w'))"
proof -
  let ?h = "frame_hdr_bytes \<lparr>frame_type = BRIDGE_FRAME_MSG, frame_payload_len = 84\<rparr>"
  let ?b1 = "update_sock fd (\<lambda>k. k\<lparr>sk_in := [msg_bytes m]\<rparr>) b"
  let ?b2 = "update_sock fd (\<lambda>k. k\<lparr>sk_in := []\<rparr>) b"
  have vep: "ss_vep (b_pool b ! i) = word_of_nat (0x40 + i)"
    using assms(1,2) by (auto simp: slot_ok_def embediq_const)
  have len: "length (msg_bytes m) = 84" using length_msg_bytes[OF assms(6)] .
  have b2: "update_sock fd (\<lambda>k. k\<lparr>sk_in := []\<rparr>) ?b1 = ?b2" by (simp add: update_sock_def)
  have hne: "?h \<noteq> []" by (simp flip: length_greater_0_conv)
  have r: "recv_into ?h stale = ?h @ drop 4 stale" using assms(9) by (simp add: recv_into_def)
  have f1: "mux_frame i now (?h @ drop 4 stale) (?b1, w) =
      and_then (on_bus ?b1 (route_as (word_of_nat (0x40 + i)) (msg_of_bytes (drop 4 stale)) w)) (\<lambda>st. Inr (False, st))"
    using assms(9) vep by (simp add: mux_frame_def Let_def on_frame_msg_def route_as_def embediq_const)
  have ty: "frame_type (frame_hdr_of (msg_bytes m @ xs)) = msg_id m" for xs
    by (simp add: frame_hdr_of_def msg_bytes_def)
  have "msg_id m \<notin> {1, 2, 4, 7, 8}" using assms(7) by auto
  then have f2: "mux_frame i now (msg_bytes m @ xs) (b', w') = Inr (False, b', w')" for xs b' and w' :: "'a world"
    by (simp add: mux_frame_def Let_def ty embediq_const)
  have r2: "recv_into (msg_bytes m) (?h @ drop 4 stale) = msg_bytes m @ drop 84 (?h @ drop 4 stale)"
    using assms(9) len by (simp add: recv_into_def)
  have d2: "mux_drain i now fd [msg_bytes m] (?h @ drop 4 stale) (?b1, w') = Inr (?b2, w')" for w' :: "'a world"
    using len assms(8) f2[of _ ?b2] b2 r2 by (auto simp: Let_def)
  have "mux_drain i now fd [?h, msg_bytes m] stale (b, w) =
      and_then (mux_frame i now (?h @ drop 4 stale) (?b1, w))
        (\<lambda>(stop, st). if stop then Inr st else mux_drain i now fd [msg_bytes m] (?h @ drop 4 stale) st)"
    using r hne by (simp add: Let_def)
  also have "\<dots> = on_bus ?b2 (route_as (word_of_nat (0x40 + i)) (msg_of_bytes (drop 4 stale)) w)"
    using f1 d2 by (auto simp: on_bus_def simp del: mux_drain.simps split: option.splits)
  finally have drain: "mux_drain i now fd [?h, msg_bytes m] stale (b, w) =
      on_bus ?b2 (route_as (word_of_nat (0x40 + i)) (msg_of_bytes (drop 4 stale)) w)" .
  show ?thesis
    unfolding no_heartbeat[OF assms(1,3)] assms(4)[symmetric] assms(5) drain on_bus_def ..
qed

section \<open>Silent and closed peers\<close>

text \<open>The state after a heartbeat of slot \<open>i\<close> at time \<open>t\<close>.\<close>

definition pinged :: "nat \<Rightarrow> u32 \<Rightarrow> bridge \<Rightarrow> bridge" where
  "pinged i t b = update_slot i (\<lambda>s. s\<lparr>ss_last_hb := t, ss_miss := ss_miss s + 1\<rparr>)
     (update_sock (ss_fd (b_pool b ! i)) (\<lambda>k. k\<lparr>sk_out := sk_out k @ [frame_bytes BRIDGE_FRAME_HEALTH_REQ []]\<rparr>) b)"

definition silent :: "nat \<Rightarrow> bridge \<Rightarrow> bool" where
  "silent i b \<longleftrightarrow> i < length (b_pool b) \<and> ss_state (b_pool b ! i) = SLOT_CONNECTED \<and> 0 \<le> ss_fd (b_pool b ! i) \<and>
     ss_vep (b_pool b ! i) \<noteq> 0 \<and> sk_in (b_socks b (ss_fd (b_pool b ! i))) = [] \<and>
     \<not> sk_peer_closed (b_socks b (ss_fd (b_pool b ! i)))"

lemma pinged_fields [simp]:
  assumes "silent i b"
  shows "silent i (pinged i t b)" "ss_last_hb (b_pool (pinged i t b) ! i) = t"
    "ss_miss (b_pool (pinged i t b) ! i) = ss_miss (b_pool b ! i) + 1"
    "ss_fd (b_pool (pinged i t b) ! i) = ss_fd (b_pool b ! i)"
    "ss_vep (b_pool (pinged i t b) ! i) = ss_vep (b_pool b ! i)"
    "b_heartbeat_ms (pinged i t b) = b_heartbeat_ms b" "b_fb (pinged i t b) = b_fb b"
    "b_socks (pinged i t b) (ss_fd (b_pool b ! i)) = (b_socks b (ss_fd (b_pool b ! i)))
       \<lparr>sk_out := sk_out (b_socks b (ss_fd (b_pool b ! i))) @ [frame_bytes BRIDGE_FRAME_HEALTH_REQ []]\<rparr>"
  using assms by (auto simp: silent_def pinged_def)

lemma pinged_out:
  "silent i b \<Longrightarrow> ss_fd (b_pool b ! i) = fd \<Longrightarrow> sk_out (b_socks (pinged i t b) fd) =
     sk_out (b_socks b fd) @ [frame_bytes BRIDGE_FRAME_HEALTH_REQ []]"
  by auto

lemma ping_step:
  assumes "silent i b" and "now - ss_last_hb (b_pool b ! i) \<ge> b_heartbeat_ms b"
  shows "mux_process_slot i now stale (b, w) =
    (if ss_miss (b_pool b ! i) + 1 \<ge> 3 then close_slot i 1 (pinged i now b, w) else Inr (pinged i now b, w))"
proof -
  define s where "s = b_pool b ! i"
  have i: "i < length (b_pool b)" and c: "ss_state s = SLOT_CONNECTED"
    and k: "sk_in (b_socks b (ss_fd s)) = []" "\<not> sk_peer_closed (b_socks b (ss_fd s))"
    using assms(1) by (simp_all add: silent_def s_def)
  have eq: "update_sock (ss_fd s) (\<lambda>k. k\<lparr>sk_out := sk_out k @ [frame_hdr_bytes
        \<lparr>frame_type = BRIDGE_FRAME_HEALTH_REQ, frame_payload_len = 0\<rparr>]\<rparr>)
      (update_slot i (\<lambda>s. s\<lparr>ss_last_hb := now, ss_miss := ss_miss s + 1\<rparr>) b) = pinged i now b"
    by (simp add: pinged_def update_sock_def update_slot_def frame_bytes_def s_def)
  have hb: "mux_heartbeat i now (b, w) = (if ss_miss s + 1 \<ge> 3
      then and_then (close_slot i 1 (pinged i now b, w)) (\<lambda>st. Inr (True, st)) else Inr (False, pinged i now b, w))"
    using assms c k eq i by (simp add: mux_heartbeat_def Let_def send_frame_def s_def)
  have d: "mux_drain i now (ss_fd s) (sk_in (b_socks (pinged i now b) (ss_fd s))) stale (pinged i now b, w) =
      Inr (pinged i now b, w)"
    using assms(1) k by (simp add: s_def)
  show ?thesis
    using c d hb by (simp add: mux_process_slot_def Let_def embediq_const and_then_def split: sum.splits flip: s_def)
qed

text \<open>C38: A connected peer that never answers gets a HEALTH_REQ frame at each of three successive
  heartbeats; after the third the slot is cleared, its socket closed and the disconnection published
  with reason 1.\<close>

theorem bridge_drops_silent_peer:
  assumes "silent i b" and "ss_miss (b_pool b ! i) = 0" and "fd = ss_fd (b_pool b ! i)"
    and "ta - ss_last_hb (b_pool b ! i) \<ge> b_heartbeat_ms b" and "tb - ta \<ge> b_heartbeat_ms b"
    and "tc - tb \<ge> b_heartbeat_ms b"
    and "fb_bridge__publish_extfb_disconnected (ss_vep (b_pool b ! i)) 1 (b_fb b) w = Some w'"
  shows "\<exists>b1 b2 b3. mux_process_slot i ta sa (b, w) = Inr (b1, w) \<and> silent i b1 \<and>
    mux_process_slot i tb sb (b1, w) = Inr (b2, w) \<and> silent i b2 \<and>
    mux_process_slot i tc sc (b2, w) = Inr (b3, w') \<and> b_pool b3 = (b_pool b2)[i := zero_slot] \<and>
    sk_out (b_socks b3 fd) = sk_out (b_socks b fd) @ replicate 3 (frame_bytes BRIDGE_FRAME_HEALTH_REQ []) \<and>
    \<not> sk_open (b_socks b3 fd)"
proof -
  let ?b1 = "pinged i ta b" and ?b2 = "pinged i tb (pinged i ta b)"
  let ?b3 = "pinged i tc ?b2"
  have s: "silent i ?b1" "silent i ?b2" "silent i ?b3" using assms(1) by simp_all
  have 1: "mux_process_slot i ta sa (b, w) = Inr (?b1, w)"
    using ping_step[OF assms(1,4)] assms(2) by (simp add: word_le_nat_alt)
  have 2: "mux_process_slot i tb sb (?b1, w) = Inr (?b2, w)"
    using ping_step[OF s(1)] assms(1,2,5) by (simp add: word_le_nat_alt)
  have busy: "busy i ?b3" "0 \<le> ss_fd (b_pool ?b3 ! i)" using s(3) by (auto simp: silent_def busy_def embediq_const)
  have v: "ss_vep (b_pool b ! i) \<noteq> 0" using assms(1) by (simp add: silent_def)
  have "close_slot i 1 (?b3, w) = Inr (slot_closed i ?b3, w')"
    unfolding close_slot_busy[OF busy] using assms(1,7) s v by simp
  then have 3: "mux_process_slot i tc sc (?b2, w) = Inr (slot_closed i ?b3, w')"
    using ping_step[OF s(2), of tc sc w] assms(1,2,6) s(1) by simp
  have "b_pool (slot_closed i ?b3) = (b_pool ?b2)[i := zero_slot]"
    by (simp add: slot_closed_def pinged_def[of i tc] update_slot_def update_sock_def)
  moreover have "sk_out (b_socks (slot_closed i ?b3) fd) = sk_out (b_socks b fd) @ replicate 3 (frame_bytes BRIDGE_FRAME_HEALTH_REQ [])"
    "\<not> sk_open (b_socks (slot_closed i ?b3) fd)"
    using assms(1,3) s pinged_out[of i b fd ta] pinged_out[of i ?b1 fd tb] pinged_out[of i ?b2 fd tc]
    by (simp_all add: slot_closed_def numeral_3_eq_3)
  ultimately show ?thesis using 1 2 3 s by blast
qed

text \<open>When a connected peer has closed its socket, the next round clears the slot and publishes the
  disconnection with reason 0, unless a heartbeat is due: then the send raises SIGPIPE.\<close>

theorem bridge_closed_peer:
  assumes "busy i b" and "ss_state (b_pool b ! i) = SLOT_CONNECTED" and "slot_ok i (b_pool b ! i)" and "i < 8"
    and "fd = ss_fd (b_pool b ! i)" and "0 \<le> fd" and "sk_in (b_socks b fd) = []" and "sk_peer_closed (b_socks b fd)"
  shows "mux_process_slot i now stale (b, w) =
    (if now - ss_last_hb (b_pool b ! i) \<ge> b_heartbeat_ms b then Inl Sigpipe
     else case fb_bridge__publish_extfb_disconnected (word_of_nat (0x40 + i)) 0 (b_fb b) w of
       None \<Rightarrow> Inl Waits_On_Bus | Some w' \<Rightarrow> Inr (slot_closed i b, w'))"
proof (cases "now - ss_last_hb (b_pool b ! i) \<ge> b_heartbeat_ms b")
  case True
  then show ?thesis
    using assms by (simp add: mux_process_slot_def mux_heartbeat_def Let_def send_frame_def embediq_const)
next
  case False
  have v: "ss_vep (b_pool b ! i) = word_of_nat (0x40 + i)"
    using assms(2,3) by (auto simp: slot_ok_def embediq_const)
  have "unat (word_of_nat (0x40 + i) :: u8) = 0x40 + i" using assms(4) by (intro unat_of_nat_small) simp
  then have nz: "(word_of_nat (0x40 + i) :: u8) \<noteq> 0" by (metis add_is_0 unat_0 zero_neq_numeral)
  have "mux_process_slot i now stale (b, w) = close_slot i 0 (b, w)"
    using no_heartbeat[OF assms(2), of now stale w] False assms(5,7,8) by (simp add: not_le)
  then show ?thesis
    using False close_slot_busy[OF assms(1), of 0 w] assms(5,6) v nz by simp
qed

section \<open>The listener and the shutdown\<close>

text \<open>When the queue of new sockets is full, the listener neither queues nor closes the socket it
  accepted: it stays open and nobody holds it.\<close>

theorem bridge_listener_leaks:
  assumes "mux_inv b" and "b_running b" and "b_fdq b = Some q" and "length (queue_items q) = queue_cap q"
    and "0 \<le> fd" and "\<not> sk_open (b_socks b fd)"
  shows "let b' = bridge_listener (Some fd) (update_sock fd (\<lambda>k. fresh_sock) b) in
    sk_open (b_socks b' fd) \<and> fd \<notin> set (fdq_items b') \<and> (\<forall>i. busy i b' \<longrightarrow> ss_fd (b_pool b' ! i) \<noteq> fd)"
proof -
  have q: "queue_inv q" using assms(1,3) by (simp add: mux_inv_def)
  have own: "fd \<notin> set (fdq_items b)" "\<And>i. busy i b \<Longrightarrow> ss_fd (b_pool b ! i) \<noteq> fd"
    using assms(1,6) by (auto simp: mux_inv_def)
  have eq: "bridge_listener (Some fd) (update_sock fd (\<lambda>k. fresh_sock) b) =
      (update_sock fd (\<lambda>k. fresh_sock) b)"
    using assms(2,3) queue_send_full[OF q assms(4), of fd 0] by (simp add: bridge_listener_def update_sock_def)
  show ?thesis unfolding eq Let_def using own
    by (auto simp: update_sock_def fresh_sock_def fdq_items_def busy_def split: option.splits)
qed

definition holds :: "bridge \<Rightarrow> int \<Rightarrow> bool" where
  "holds b fd \<longleftrightarrow> (\<exists>i. busy i b \<and> ss_fd (b_pool b ! i) = fd)"

lemma close_slots_all:
  assumes "mux_inv b" and "pub_ready (b_fb b) w" and "\<forall>i \<in> set ks. i < 8"
  shows "\<exists>b' w'. close_slots ks (b, w) = Inr (b', w') \<and> mux_inv b' \<and> b_fb b' = b_fb b \<and>
    (\<forall>i < 8. b_pool b' ! i = (if i \<in> set ks then zero_slot else b_pool b ! i)) \<and>
    (\<forall>fd. sk_open (b_socks b' fd) = (sk_open (b_socks b fd) \<and> (\<forall>i \<in> set ks. busy i b \<longrightarrow> ss_fd (b_pool b ! i) \<noteq> fd)))"
  using assms
proof (induction ks arbitrary: b w)
  case (Cons k ks)
  have k: "k < 8" and len: "length (b_pool b) = 8" using Cons.prems by (simp_all add: mux_inv_def)
  show ?case
  proof (cases "busy k b")
    case False
    then have z: "b_pool b ! k = zero_slot" and c: "close_slot k 0 (b, w) = Inr (b, w)"
      using Cons.prems(1) k len by (auto simp: busy_def close_slot_def embediq_const mux_inv_def slot_ok_def)
    obtain b' w' where "close_slots ks (b, w) = Inr (b', w') \<and> mux_inv b' \<and> b_fb b' = b_fb b \<and>
      (\<forall>i < 8. b_pool b' ! i = (if i \<in> set ks then zero_slot else b_pool b ! i)) \<and>
      (\<forall>fd. sk_open (b_socks b' fd) = (sk_open (b_socks b fd) \<and> (\<forall>i \<in> set ks. busy i b \<longrightarrow> ss_fd (b_pool b ! i) \<noteq> fd)))"
      using Cons.IH[OF Cons.prems(1,2)] Cons.prems(3) by auto
    then show ?thesis using c z False by (intro exI[of _ b'] exI[of _ w']) auto
  next
    case True
    have fd: "0 \<le> ss_fd (b_pool b ! k)" using Cons.prems(1) True by (simp add: mux_inv_def)
    obtain w1 where p: "(if ss_vep (b_pool b ! k) \<noteq> 0
        then fb_bridge__publish_extfb_disconnected (ss_vep (b_pool b ! k)) 0 (b_fb b) w else Some w) = Some w1"
      "pub_ready (b_fb b) w1"
      using bridge_publish_returns(2)[OF Cons.prems(2), of "ss_vep (b_pool b ! k)" 0] Cons.prems(2)
      by (cases "ss_vep (b_pool b ! k) = 0") auto
    then have w1: "close_slot k 0 (b, w) = Inr (slot_closed k b, w1)" "pub_ready (b_fb b) w1"
      unfolding close_slot_busy[OF True fd] by simp_all
    have inv: "mux_inv (slot_closed k b)"
      using mux_inv_good[OF Cons.prems(1) True] slot_closed_step[OF True] by (simp add: good_def)
    have fb: "b_fb (slot_closed k b) = b_fb b" by (simp add: slot_closed_def)
    have pool: "b_pool (slot_closed k b) ! i = (if i = k then zero_slot else b_pool b ! i)" if "i < 8" for i
      using that len by (simp add: slot_closed_def nth_list_update)
    have busy: "busy i (slot_closed k b) \<longleftrightarrow> busy i b \<and> i \<noteq> k" for i
      using len k by (cases "i = k") (auto simp: busy_def slot_closed_def)
    have lt: "busy i b \<Longrightarrow> i < 8" for i using len by (simp add: busy_def)
    have sock: "sk_open (b_socks (slot_closed k b) fd) \<longleftrightarrow> sk_open (b_socks b fd) \<and> fd \<noteq> ss_fd (b_pool b ! k)" for fd
      by (auto simp: slot_closed_def)
    obtain b' w' where ih: "close_slots ks (slot_closed k b, w1) = Inr (b', w')" "mux_inv b'" "b_fb b' = b_fb b"
      "\<forall>i < 8. b_pool b' ! i = (if i \<in> set ks then zero_slot else b_pool (slot_closed k b) ! i)"
      "\<forall>fd. sk_open (b_socks b' fd) = (sk_open (b_socks (slot_closed k b) fd) \<and>
         (\<forall>i \<in> set ks. busy i (slot_closed k b) \<longrightarrow> ss_fd (b_pool (slot_closed k b) ! i) \<noteq> fd))"
      using Cons.IH[OF inv, of w1] w1(2) fb Cons.prems(3) by auto
    have "\<forall>fd. sk_open (b_socks b' fd) = (sk_open (b_socks b fd) \<and>
        (\<forall>i \<in> set (k # ks). busy i b \<longrightarrow> ss_fd (b_pool b ! i) \<noteq> fd))"
      using ih(5) sock busy pool lt True by (metis (no_types, lifting) list.set_intros set_ConsD)
    then show ?thesis using ih w1(1) pool by (intro exI[of _ b'] exI[of _ w']) auto
  qed
qed auto

text \<open>C0: \<open>bridge_exit\<close> always ends when publications return, and leaves every slot clear and the
  listening socket and every socket a slot held closed.\<close>

theorem bridge_exit_closes:
  assumes "mux_inv b" and "pub_ready (b_fb b) w" and "b_mux b"
    and "b_unix_fd b \<notin> set (fdq_items b)" and "\<not> holds b (b_unix_fd b)"
  shows "\<exists>b' w'. bridge_exit (b, w) = Inr (b', w') \<and> b_pool b' = replicate 8 zero_slot \<and> b_fdq b' = None \<and>
    b_fb b' = None \<and> (0 \<le> b_unix_fd b \<longrightarrow> \<not> sk_open (b_socks b' (b_unix_fd b))) \<and>
    (\<forall>fd. holds b fd \<longrightarrow> \<not> sk_open (b_socks b' fd))"
proof -
  define c where "c = bridge_stop b"
  have c: "b_pool c = b_pool b" "b_fdq c = b_fdq b" "b_fb c = b_fb b" "b_mux c = b_mux b" "\<not> b_running c"
    "b_socks c = (if b_unix_fd b \<ge> 0 then (b_socks b)(b_unix_fd b := (b_socks b (b_unix_fd b))\<lparr>sk_open := False\<rparr>)
       else b_socks b)"
    by (simp_all add: c_def bridge_stop_def Let_def close_fd_def update_sock_def)
  have busy: "busy i c = busy i b" and items: "fdq_items c = fdq_items b" for i
    by (simp_all add: busy_def fdq_items_def c)
  have inv: "mux_inv c"
    using assms(1,4,5) unfolding mux_inv_def busy items c holds_def by auto
  obtain b' w' where b': "close_slots [0..<8] (c, w) = Inr (b', w')" "b_fb b' = b_fb b" "mux_inv b'"
    "\<forall>i < 8. b_pool b' ! i = zero_slot"
    "\<forall>fd. sk_open (b_socks b' fd) = (sk_open (b_socks c fd) \<and> (\<forall>i \<in> {0..<8}. busy i b \<longrightarrow> ss_fd (b_pool b ! i) \<noteq> fd))"
    using close_slots_all[OF inv, of w "[0..<8]"] assms(2) unfolding busy c(1,3) by auto
  have run: "bridge_exit (b, w) = Inr (b'\<lparr>b_mux := False, b_fdq := None, b_fb := None\<rparr>, w')"
    using b'(1) assms(3) c(4) by (simp add: bridge_exit_def Let_def embediq_const flip: c_def)
  have len: "length (b_pool b') = 8" "length (b_pool b) = 8" using b'(3) assms(1) by (simp_all add: mux_inv_def)
  have "b_pool b' = replicate 8 zero_slot" using len b'(4) by (intro nth_equalityI) auto
  moreover have "0 \<le> b_unix_fd b \<longrightarrow> \<not> sk_open (b_socks b' (b_unix_fd b))" using b'(5) by (simp add: c(6))
  moreover have "\<forall>fd. holds b fd \<longrightarrow> \<not> sk_open (b_socks b' fd)"
    using b'(5) len(2) by (auto simp: holds_def busy_def)
  ultimately show ?thesis using run by (intro exI[of _ "b'\<lparr>b_mux := False, b_fdq := None, b_fb := None\<rparr>"] exI[of _ w']) simp
qed

section \<open>Concrete peers\<close>

text \<open>Slot 0 holds socket 5 in a given session state, with records to receive.\<close>

definition demo_bridge :: "u8 \<Rightarrow> u8 \<Rightarrow> bytes list \<Rightarrow> bool \<Rightarrow> bridge" where
  "demo_bridge st vep rs closed = bridge_initial\<lparr>
     b_pool := (replicate 8 zero_slot)[0 := zero_slot\<lparr>ss_fd := 5, ss_state := st, ss_vep := vep\<rparr>],
     b_socks := (b_socks bridge_initial)(5 := fresh_sock\<lparr>sk_in := rs, sk_peer_closed := closed\<rparr>)\<rparr>"

lemma demo_bridge_fields [simp]:
  "b_pool (demo_bridge st vep rs closed) ! 0 = zero_slot\<lparr>ss_fd := 5, ss_state := st, ss_vep := vep\<rparr>"
  "length (b_pool (demo_bridge st vep rs closed)) = 8" "b_fb (demo_bridge st vep rs closed) = None"
  "sk_in (b_socks (demo_bridge st vep rs closed) 5) = rs"
  "sk_peer_closed (b_socks (demo_bridge st vep rs closed) 5) = closed"
  "sk_open (b_socks (demo_bridge st vep rs closed) 5)"
  "b_heartbeat_ms (demo_bridge st vep rs closed) = 5000" "b_identify_to_ms (demo_bridge st vep rs closed) = 5000"
  "b_fdq (demo_bridge st vep rs closed) = None" "b_unix_fd (demo_bridge st vep rs closed) = -1"
  by (simp_all add: demo_bridge_def bridge_initial_def fresh_sock_def embediq_const)

lemma demo_zero [simp]: "ss_last_hb zero_slot = 0" "ss_ident_started zero_slot = 0"
  by (simp_all add: zero_slot_def)

lemma demo_slot_ok: "slot_ok 0 (zero_slot\<lparr>ss_fd := 5, ss_state := 2, ss_vep := 0x40\<rparr>)"
  "slot_ok 0 (zero_slot\<lparr>ss_fd := 5, ss_state := 1, ss_vep := 0\<rparr>)"
  by (simp_all add: slot_ok_def embediq_const)

lemma demo_busy: "busy i (demo_bridge 2 vep rs closed) \<longleftrightarrow> i = 0"
  by (cases i) (auto simp: busy_def demo_bridge_def)

lemma demo_inv: "mux_inv (demo_bridge 2 0x40 rs closed)"
proof -
  have "slot_ok i (b_pool (demo_bridge 2 0x40 rs closed) ! i)" if "i < 8" for i
    using that demo_slot_ok by (cases i) (auto simp: demo_bridge_def)
  then show ?thesis by (auto simp: mux_inv_def demo_busy fdq_items_def)
qed

lemma publish_unbooted [simp]:
  "\<exists>w'. fb_bridge__publish_extfb_connected v t n None w = Some w'"
  "\<exists>w'. fb_bridge__publish_extfb_disconnected v r None w = Some w'"
  by (simp_all add: fb_bridge__publish_extfb_connected_def fb_bridge__publish_extfb_disconnected_def)

lemma demo_conn:
  "busy 0 (demo_bridge 2 0x40 rs closed)" "ss_state (b_pool (demo_bridge 2 0x40 rs closed) ! 0) = SLOT_CONNECTED"
  "slot_ok 0 (b_pool (demo_bridge 2 0x40 rs closed) ! 0)" "5 = ss_fd (b_pool (demo_bridge 2 0x40 rs closed) ! 0)"
  "100 - ss_last_hb (b_pool (demo_bridge 2 0x40 rs closed) ! 0) < b_heartbeat_ms (demo_bridge 2 0x40 rs closed)"
  using demo_slot_ok by (simp_all add: demo_busy embediq_const word_less_nat_alt)

definition demo_bridge_env :: bridge_env where
  "demo_bridge_env = \<lparr>be_path = None, be_socket = 3, be_bind = (\<lambda>a. True), be_listen = True, be_heartbeat = None, be_watchdog = None,
     be_queue = True, be_listener = True, be_mux = True\<rparr>"

lemma bridge_session_invariant_witness:
  "\<exists>b. bridge_reach (b, demo_bus) \<and> fdq_items b = [5] \<and> sk_open (b_socks b 5)"
proof -
  let ?init = "bridge_init demo_bridge_env None bridge_initial"
  let ?b = "bridge_listener (Some 5) (update_sock 5 (\<lambda>k. fresh_sock) ?init)"
  obtain q :: "int osal_queue" where q: "embediq_osal_queue_create True 8 = Some q" "queue_inv q" "queue_items q = []" "queue_cap q = 8"
    using queue_create_inv[of True 8] by (auto simp: embediq_osal_queue_create_def queue_cap_def)
  have b0: "b_fdq ?init = Some q" "b_running ?init" "\<not> sk_open (b_socks ?init 5)"
    using q(1) by (simp_all add: bridge_init_def open_unix_listener_def demo_bridge_env_def bridge_initial_def Let_def DEFAULT_SOCK_def embediq_const)
  have r: "bridge_reach (?b, demo_bus)"
    by (rule bridge_reach.accept[OF bridge_reach.start]) (simp_all add: b0)
  have "fdq_items ?b = [5]"
    using b0 queue_send_room(1)[OF q(2), of 5 0] queue_send_room(3)[OF q(2), of 5] q(3,4)
    by (simp add: bridge_listener_def update_sock_def fdq_items_def)
  then show ?thesis using bridge_session_invariant[OF r] r by auto
qed

lemma bridge_routes_frames_witness:
  "\<exists>b w'. mux_process_slot 0 100 (replicate 88 0)
     (demo_bridge 2 0x40 [frame_bytes BRIDGE_FRAME_MSG (msg_bytes demo_msg)] False, demo_bus) = Inr (b, w') \<and>
     route_as 0x40 demo_msg demo_bus = Some w'"
proof -
  have wf: "wf_msg demo_msg" by (simp add: demo_msg_def wf_msg_def zero_msg_def embediq_const)
  obtain w' where w': "route_as 0x40 demo_msg demo_bus = Some w'"
    using route_low_returns[of None demo_bus demo_msg "0x40"]
    by (auto simp: pub_ready_def demo_bus_simps demo_msg_def route_as_def)
  show ?thesis
    using bridge_routes_frames[OF demo_conn(2,3,5,4)[of "[frame_bytes BRIDGE_FRAME_MSG (msg_bytes demo_msg)]" False], where ms = "[demo_msg]" and stale = "replicate 88 0" and w = demo_bus] wf w'
    by simp
qed

lemma bridge_identify_connects_witness:
  "\<exists>w'. mux_process_slot 0 100 (replicate 88 0)
     (demo_bridge 1 0 [frame_bytes BRIDGE_FRAME_IDENTIFY [100, 101, 118]] False, demo_bus) =
     Inr (identified 0 100 [100, 101, 118, 0] (demo_bridge 1 0 [frame_bytes BRIDGE_FRAME_IDENTIFY [100, 101, 118]] False), w')"
proof -
  let ?b = "demo_bridge 1 0 [frame_bytes BRIDGE_FRAME_IDENTIFY [100, 101, 118]] False"
  have p: "ss_state (b_pool ?b ! 0) = SLOT_IDENTIFYING" "0 < length (b_pool ?b)" "slot_ok 0 (b_pool ?b ! 0)"
    "100 - ss_ident_started (b_pool ?b ! 0) \<le> b_identify_to_ms ?b" "5 = ss_fd (b_pool ?b ! 0)"
    "sk_in (b_socks ?b 5) = [frame_bytes BRIDGE_FRAME_IDENTIFY [100, 101, 118]]"
    using demo_slot_ok by (simp_all add: embediq_const word_le_nat_alt)
  obtain w' where "fb_bridge__publish_extfb_connected 0x40 0 (Some [100, 101, 118]) None demo_bus = Some w'"
    using publish_unbooted(1) by blast
  then show ?thesis
    using bridge_identify_connects[OF p, of "replicate 88 0" demo_bus] by simp
qed

lemma demo_silent: "silent 0 (demo_bridge 2 0x40 [] False)"
  by (simp add: silent_def embediq_const)

lemma bridge_drops_silent_peer_witness:
  "\<exists>b2 b3 w'. mux_process_slot 0 15000 (replicate 88 0) (b2, demo_bus) = Inr (b3, w') \<and>
     sk_out (b_socks b3 5) = replicate 3 (frame_bytes BRIDGE_FRAME_HEALTH_REQ []) \<and> \<not> sk_open (b_socks b3 5)"
proof -
  obtain w' where w': "fb_bridge__publish_extfb_disconnected 0x40 1 None demo_bus = Some w'"
    using publish_unbooted(2) by blast
  let ?b = "demo_bridge 2 0x40 [] False"
  have p: "ss_miss (b_pool ?b ! 0) = 0" "5 = ss_fd (b_pool ?b ! 0)" "5000 - ss_last_hb (b_pool ?b ! 0) \<ge> b_heartbeat_ms ?b"
    "10000 - 5000 \<ge> b_heartbeat_ms ?b" "15000 - 10000 \<ge> b_heartbeat_ms ?b"
    "fb_bridge__publish_extfb_disconnected (ss_vep (b_pool ?b ! 0)) 1 (b_fb ?b) demo_bus = Some w'"
    using w' by simp_all
  have "sk_out (b_socks ?b 5) = []" by (simp add: demo_bridge_def fresh_sock_def)
  then have o: "sk_out (b_socks ?b 5) @ xs = xs" for xs by simp
  from bridge_drops_silent_peer[OF demo_silent p, of "replicate 88 0" "replicate 88 0" "replicate 88 0"]
  show ?thesis unfolding o by blast
qed

lemma bridge_closed_peer_witness:
  "mux_process_slot 0 5000 (replicate 88 0) (demo_bridge 2 0x40 [] True, demo_bus) = Inl Sigpipe"
  using bridge_closed_peer[OF demo_conn(1-3) _ demo_conn(4), of "[]" True 5000 "replicate 88 0" demo_bus] by simp

text \<open>A running bridge whose queue of new sockets is full with socket 6.\<close>

definition busy_bridge :: bridge where
  "busy_bridge = bridge_initial\<lparr>b_running := True, b_socks := (b_socks bridge_initial)(6 := fresh_sock),
     b_fdq := Some \<lparr>q_depth = 1, q_count = 1, q_head = 0, q_tail = 0, q_buf = [Some 6]\<rparr>\<rparr>"

lemma bridge_listener_leaks_witness:
  "sk_open (b_socks (bridge_listener (Some 7) (update_sock 7 (\<lambda>k. fresh_sock) busy_bridge)) 7)"
proof -
  let ?q = "\<lparr>q_depth = 1, q_count = 1, q_head = 0, q_tail = 0, q_buf = [Some (6::int)]\<rparr>"
  have q: "queue_inv ?q" "queue_items ?q = [6]" "queue_cap ?q = 1"
    by (simp_all add: queue_inv_def queue_items_def queue_cap_def)
  have b: "b_fdq busy_bridge = Some ?q" "b_running busy_bridge" "sk_open (b_socks busy_bridge 6)"
    "\<not> sk_open (b_socks busy_bridge 7)" "b_pool busy_bridge = replicate 8 zero_slot"
    by (simp_all add: busy_bridge_def bridge_initial_def fresh_sock_def embediq_const)
  have nb: "\<not> busy i busy_bridge" for i by (simp add: busy_def b(5))
  have inv: "mux_inv busy_bridge" using q b nb by (simp add: mux_inv_def fdq_items_def)
  show ?thesis using bridge_listener_leaks[OF inv b(2,1) _ _ b(4)] q by (simp add: Let_def)
qed

lemma bridge_exit_closes_witness:
  "\<exists>b' w'. bridge_exit ((demo_bridge 2 0x40 [] False)\<lparr>b_mux := True\<rparr>, demo_bus) = Inr (b', w') \<and>
     b_pool b' = replicate 8 zero_slot \<and> \<not> sk_open (b_socks b' 5)"
proof -
  let ?b = "(demo_bridge 2 0x40 [] False)\<lparr>b_mux := True\<rparr>"
  have "mux_inv ?b" using demo_inv[of "[]" False] by (subst mux_inv_cong[of _ "demo_bridge 2 0x40 [] False"]) simp_all
  moreover have busy: "busy i ?b \<longleftrightarrow> i = 0" for i using demo_busy[of i "0x40" "[]" False] by (simp add: busy_def)
  ultimately show ?thesis
    using bridge_exit_closes[of ?b demo_bus]
    by (auto simp: pub_ready_def demo_bus_simps fdq_items_def holds_def)
qed

end
