(* ===== verification/ExtFb.thy ===== *)
theory ExtFb
  imports Bridge
begin

text \<open>
  The client library core/src/bridge/embediq_ext_fb.c with the queue transport, the default of the
  build: a static pool of 8 external function blocks. A handle is an index of the pool (\<open>None\<close> for
  NULL). Contents: the operations; the pool as a map from slots to names and subscriptions; how a
  publication is routed; what a receiver gets.
\<close>

record ext_fb =
  xf_vep :: u8
  xf_in_use :: bool
  xf_name :: bytes
  xf_subs :: "u16 list"
  xf_sub_count :: u8
  xf_inbound :: "embediq_msg osal_queue option"
  xf_outbound :: "embediq_msg osal_queue option"

definition zero_ext_fb :: ext_fb where
  "zero_ext_fb = \<lparr>xf_vep = 0, xf_in_use = False, xf_name = replicate EMBEDIQ_BRIDGE_NAME_LEN 0,
     xf_subs = replicate EMBEDIQ_BRIDGE_MAX_SUB_PER_EXT_FB 0, xf_sub_count = 0, xf_inbound = None,
     xf_outbound = None\<rparr>"

record ext_state =
  x_pool :: "ext_fb list"
  x_initialised :: bool
  x_bridge_fb :: handle \<comment> \<open>\<open>g_bridge_fb\<close> of fb_bridge.c\<close>

definition ext_initial :: "handle \<Rightarrow> ext_state" where
  "ext_initial h = \<lparr>x_pool = replicate EMBEDIQ_BRIDGE_MAX_EXT_FBS zero_ext_fb, x_initialised = False,
     x_bridge_fb = h\<rparr>"

definition update_ext :: "nat \<Rightarrow> (ext_fb \<Rightarrow> ext_fb) \<Rightarrow> ext_state \<Rightarrow> ext_state" where
  "update_ext i f xs = xs\<lparr>x_pool := (x_pool xs)[i := f (x_pool xs ! i)]\<rparr>"

section \<open>Operations\<close>

definition pool_init_once :: "ext_state \<Rightarrow> ext_state" where
  "pool_init_once xs =
     (if x_initialised xs then xs
      else xs\<lparr>x_pool := replicate EMBEDIQ_BRIDGE_MAX_EXT_FBS zero_ext_fb, x_initialised := True\<rparr>)"

fun free_ext :: "ext_fb list \<Rightarrow> nat" where
  "free_ext [] = 0"
| "free_ext (s # ss) = (if \<not> xf_in_use s then 0 else Suc (free_ext ss))"

definition ext_name :: "bytes option \<Rightarrow> bytes \<Rightarrow> bytes" where
  "ext_name name old = (case name of None \<Rightarrow> old[0 := 0] | Some s \<Rightarrow> name_array s)"

text \<open>\<open>mi\<close> and \<open>mo\<close> say whether the two queues can be allocated.\<close>

definition embediq_ext_fb_init :: "bool \<Rightarrow> bool \<Rightarrow> bytes option \<Rightarrow> ext_state \<times> 'u world \<Rightarrow>
    (handle \<times> ext_state \<times> 'u world) option" where
  "embediq_ext_fb_init mi mo name = (\<lambda>(xs, w).
     let xs = pool_init_once xs; i = free_ext (x_pool xs)
     in if i \<ge> EMBEDIQ_BRIDGE_MAX_EXT_FBS then Some (None, xs, w)
        else let inq = embediq_osal_queue_create mi EMBEDIQ_BRIDGE_QUEUE_DEPTH;
            outq = embediq_osal_queue_create mo EMBEDIQ_BRIDGE_QUEUE_DEPTH;
            vep = word_of_nat (0x40 + i);
            xs = update_ext i (\<lambda>s. s\<lparr>xf_in_use := True, xf_vep := vep, xf_sub_count := 0,
                   xf_name := ext_name name (xf_name s), xf_inbound := inq, xf_outbound := outq\<rparr>) xs
          in if inq = None \<or> outq = None then Some (None, update_ext i (\<lambda>s. zero_ext_fb) xs, w)
             else do {
               w \<leftarrow> fb_bridge__publish_extfb_connected vep 1 (Some (xf_name (x_pool xs ! i)))
                 (x_bridge_fb xs) w;
               Some (Some i, xs, w) })"

text \<open>The loop that stores identifiers until the array is full.\<close>

fun add_ids :: "u16 list \<Rightarrow> ext_fb \<Rightarrow> ext_fb" where
  "add_ids [] s = s"
| "add_ids (d # ids) s =
     (if unat (xf_sub_count s) \<ge> EMBEDIQ_BRIDGE_MAX_SUB_PER_EXT_FB then s
      else add_ids ids (s\<lparr>xf_subs := (xf_subs s)[unat (xf_sub_count s) := d],
             xf_sub_count := xf_sub_count s + 1\<rparr>))"

definition embediq_ext_fb_subscribe ::
  "handle \<Rightarrow> u16 list option \<Rightarrow> u8 \<Rightarrow> ext_state \<Rightarrow> embediq_err \<times> ext_state" where
  "embediq_ext_fb_subscribe h ids n xs =
     (case (h, ids) of
        (Some i, Some ids) \<Rightarrow> (EMBEDIQ_OK, update_ext i (add_ids (take (unat n) ids)) xs)
      | _ \<Rightarrow> (EMBEDIQ_ERR_INVALID, xs))"

definition embediq_ext_fb_publish ::
  "handle \<Rightarrow> embediq_msg option \<Rightarrow> ext_state \<times> 'u world \<Rightarrow> (embediq_err \<times> 'u world) option" where
  "embediq_ext_fb_publish h msg = (\<lambda>(xs, w).
     (case (h, msg) of
        (Some i, Some m) \<Rightarrow> embediq_bus_bridge_route (xf_vep (x_pool xs ! i)) (Some m) w
      | _ \<Rightarrow> Some (EMBEDIQ_ERR_INVALID, w)))"

text \<open>A call that locks a queue can also wait for ever, or find that there is no queue.\<close>

datatype 'a recv_outcome = Got 'a | Waits_For_Ever | Null_Queue

definition embediq_ext_fb_recv :: "handle \<Rightarrow> bool \<Rightarrow> u32 \<Rightarrow> ext_state \<Rightarrow>
    (embediq_err \<times> embediq_msg option \<times> ext_state) recv_outcome" where
  "embediq_ext_fb_recv h buf timeout_ms xs =
     (case h of
        None \<Rightarrow> Got (EMBEDIQ_ERR_INVALID, None, xs)
      | Some i \<Rightarrow>
          if \<not> buf then Got (EMBEDIQ_ERR_INVALID, None, xs)
          else (case xf_inbound (x_pool xs ! i) of
            None \<Rightarrow> Null_Queue
          | Some q \<Rightarrow> (case embediq_osal_queue_recv q timeout_ms of
              None \<Rightarrow> Waits_For_Ever
            | Some (e, m, q) \<Rightarrow> Got (e, m, update_ext i (\<lambda>s. s\<lparr>xf_inbound := Some q\<rparr>) xs))))"

definition embediq_ext_fb_deinit :: "handle \<Rightarrow> ext_state \<times> 'u world \<Rightarrow> (ext_state \<times> 'u world) option" where
  "embediq_ext_fb_deinit h = (\<lambda>(xs, w).
     case h of
       None \<Rightarrow> Some (xs, w)
     | Some i \<Rightarrow>
         if \<not> xf_in_use (x_pool xs ! i) then Some (xs, w)
         else do {
           w \<leftarrow> fb_bridge__publish_extfb_disconnected (xf_vep (x_pool xs ! i)) 0 (x_bridge_fb xs) w;
           Some (update_ext i (\<lambda>s. zero_ext_fb) xs, w) })"

section \<open>The pool as a map\<close>

text \<open>A slot in use stands for its name and its subscriptions.\<close>

definition ext_view :: "ext_fb \<Rightarrow> (bytes \<times> u16 list) option" where
  "ext_view s = (if xf_in_use s then Some (c_str (xf_name s), take (unat (xf_sub_count s)) (xf_subs s)) else None)"

definition ext_map :: "ext_state \<Rightarrow> nat \<Rightarrow> (bytes \<times> u16 list) option" where
  "ext_map xs i = (if i < length (x_pool xs) then ext_view (x_pool xs ! i) else None)"

definition empty_queue :: "embediq_msg osal_queue option \<Rightarrow> bool" where
  "empty_queue q \<longleftrightarrow> (\<exists>q'. q = Some q' \<and> q_count q' = 0)"

definition ext_slot_ok :: "nat \<Rightarrow> ext_fb \<Rightarrow> bool" where
  "ext_slot_ok i s \<longleftrightarrow> length (xf_subs s) = 16 \<and> unat (xf_sub_count s) \<le> 16 \<and>
     length (xf_name s) = 32 \<and>
     (xf_in_use s \<longrightarrow> xf_vep s = word_of_nat (0x40 + i) \<and> empty_queue (xf_inbound s) \<and>
        empty_queue (xf_outbound s))"

definition ext_inv :: "ext_state \<Rightarrow> bool" where
  "ext_inv xs \<longleftrightarrow> length (x_pool xs) = 8 \<and> (\<forall>i < 8. ext_slot_ok i (x_pool xs ! i)) \<and>
     (\<not> x_initialised xs \<longrightarrow> x_pool xs = replicate 8 zero_ext_fb)"

lemma zero_ext_fb_ok [simp]: "ext_slot_ok i zero_ext_fb" "\<not> xf_in_use zero_ext_fb" "ext_view zero_ext_fb = None"
  by (simp_all add: ext_slot_ok_def zero_ext_fb_def ext_view_def embediq_const)

lemma update_ext_fields [simp]:
  "x_bridge_fb (update_ext i f xs) = x_bridge_fb xs" "length (x_pool (update_ext i f xs)) = length (x_pool xs)"
  "x_initialised (update_ext i f xs) = x_initialised xs"
  "i < length (x_pool xs) \<Longrightarrow> x_pool (update_ext i f xs) ! i = f (x_pool xs ! i)"
  by (simp_all add: update_ext_def)

lemma update_ext_over [simp]: "update_ext i (\<lambda>s. c) (update_ext i g xs) = update_ext i (\<lambda>s. c) xs"
  by (simp add: update_ext_def)

lemma ext_inv_update:
  "ext_inv xs \<Longrightarrow> x_initialised xs \<Longrightarrow> i < 8 \<Longrightarrow> ext_slot_ok i (f (x_pool xs ! i)) \<Longrightarrow> ext_inv (update_ext i f xs)"
  by (simp add: ext_inv_def update_ext_def nth_list_update)

lemma ext_map_update:
  "ext_inv xs \<Longrightarrow> i < 8 \<Longrightarrow> ext_map (update_ext i f xs) = (ext_map xs)(i := ext_view (f (x_pool xs ! i)))"
  by (rule ext) (simp add: ext_map_def update_ext_def nth_list_update ext_inv_def)

lemma pool_init_props:
  assumes "ext_inv xs"
  shows "ext_inv (pool_init_once xs)" "ext_map (pool_init_once xs) = ext_map xs"
    "x_initialised (pool_init_once xs)" "x_bridge_fb (pool_init_once xs) = x_bridge_fb xs"
  using assms by (auto simp: ext_inv_def pool_init_once_def ext_map_def embediq_const)

text \<open>The scan for a free slot.\<close>

lemma free_ext_Least:
  assumes "ext_inv xs"
  shows "if \<forall>i < 8. i \<in> dom (ext_map xs) then free_ext (x_pool xs) = 8
    else free_ext (x_pool xs) = (LEAST i. i \<notin> dom (ext_map xs)) \<and> free_ext (x_pool xs) < 8"
proof -
  have scan: "(\<forall>j < free_ext ss. xf_in_use (ss ! j)) \<and> free_ext ss \<le> length ss \<and>
      (free_ext ss < length ss \<longrightarrow> \<not> xf_in_use (ss ! free_ext ss))" for ss
    by (induction ss) (auto simp: nth_Cons split: nat.splits)
  have len: "length (x_pool xs) = 8" using assms by (simp add: ext_inv_def)
  have dom: "i < 8 \<Longrightarrow> i \<in> dom (ext_map xs) \<longleftrightarrow> xf_in_use (x_pool xs ! i)" for i
    by (simp add: ext_map_def len ext_view_def dom_def)
  show ?thesis
  proof (cases "free_ext (x_pool xs) < 8")
    case True
    have below: "y \<in> dom (ext_map xs)" if "y < free_ext (x_pool xs)" for y
      using that scan[of "x_pool xs"] dom[of y] True by simp
    have "(LEAST i. i \<notin> dom (ext_map xs)) = free_ext (x_pool xs)"
    proof (rule Least_equality)
      show "free_ext (x_pool xs) \<notin> dom (ext_map xs)"
        using scan[of "x_pool xs"] dom[OF True] True len by simp
      show "free_ext (x_pool xs) \<le> y" if "y \<notin> dom (ext_map xs)" for y
        using below[of y] that by (meson not_le)
    qed
    then show ?thesis using scan[of "x_pool xs"] dom True len by auto
  next
    case False
    then have "free_ext (x_pool xs) = 8" using scan[of "x_pool xs"] len by simp
    then show ?thesis using scan[of "x_pool xs"] dom by auto
  qed
qed

text \<open>The subscriptions after a call: the old ones, then the new ones, cut at 16.\<close>

lemma add_ids_view:
  assumes "length (xf_subs s) = 16" and "unat (xf_sub_count s) \<le> 16"
  shows "take (unat (xf_sub_count (add_ids ids s))) (xf_subs (add_ids ids s)) =
      take 16 (take (unat (xf_sub_count s)) (xf_subs s) @ ids) \<and>
    length (xf_subs (add_ids ids s)) = 16 \<and> unat (xf_sub_count (add_ids ids s)) \<le> 16 \<and>
    xf_in_use (add_ids ids s) = xf_in_use s \<and> xf_vep (add_ids ids s) = xf_vep s \<and>
    xf_name (add_ids ids s) = xf_name s \<and> xf_inbound (add_ids ids s) = xf_inbound s \<and>
    xf_outbound (add_ids ids s) = xf_outbound s"
  using assms
proof (induction ids arbitrary: s)
  case (Cons d ids)
  show ?case
  proof (cases "unat (xf_sub_count s) = 16")
    case True
    then show ?thesis using Cons.prems by (simp add: embediq_const)
  next
    case False
    let ?s = "s\<lparr>xf_subs := (xf_subs s)[unat (xf_sub_count s) := d], xf_sub_count := xf_sub_count s + 1\<rparr>"
    have c: "unat (xf_sub_count s + 1) = unat (xf_sub_count s) + 1"
      using False Cons.prems(2) by (intro unat_plus_one_bounded[of _ 16]) auto
    have "take (unat (xf_sub_count ?s)) (xf_subs ?s) = take (unat (xf_sub_count s)) (xf_subs s) @ [d]"
      using False Cons.prems by (simp add: c take_Suc_conv_app_nth)
    then show ?thesis
      using Cons.IH[of ?s] False Cons.prems by (simp add: c embediq_const)
  qed
qed auto

lemma length_c_str: "length (c_str bs) \<le> length bs"
  by (simp add: c_str_def length_takeWhile_le)

lemma length_name_array [simp]: "length (name_array s) = 32"
  by (simp add: name_array_def embediq_const)

lemma c_str_name_array: "c_str (name_array s) = take 31 (c_str s)"
proof -
  have nz: "\<forall>b \<in> set (take 31 (c_str s)). b \<noteq> 0"
    using set_takeWhileD[where P = "\<lambda>b. b \<noteq> 0" and xs = s] by (auto simp: c_str_def dest!: in_set_takeD)
  have zeros: "takeWhile (\<lambda>b. b \<noteq> 0) (replicate m 0 @ [0 :: u8]) = []" for m
    by (cases m) auto
  have "name_array s = take 31 (c_str s) @ replicate (31 - length (c_str s)) 0 @ [0]"
    by (simp add: name_array_def embediq_const)
  then show ?thesis
    unfolding c_str_def[of "name_array s"] using nz zeros by (simp add: takeWhile_append2)
qed

section \<open>Runs\<close>

datatype ext_op =
    X_Init bool bool "bytes option"
  | X_Subscribe handle "u16 list option" u8
  | X_Publish handle "embediq_msg option"
  | X_Deinit handle

definition ext_exec :: "ext_op \<Rightarrow> ext_state \<times> 'u world \<Rightarrow> (ext_state \<times> 'u world) option" where
  "ext_exec c = (\<lambda>(xs, w). case c of
     X_Init mi mo name \<Rightarrow> map_option snd (embediq_ext_fb_init mi mo name (xs, w))
   | X_Subscribe h ids n \<Rightarrow> Some (snd (embediq_ext_fb_subscribe h ids n xs), w)
   | X_Publish h m \<Rightarrow> map_option (\<lambda>(e, w). (xs, w)) (embediq_ext_fb_publish h m (xs, w))
   | X_Deinit h \<Rightarrow> embediq_ext_fb_deinit h (xs, w))"

text \<open>The calls the theorems are about: handles are pointers into the pool, and nothing is published
  at HIGH priority, which may wait for a subscriber.\<close>

definition handle_ok :: "handle \<Rightarrow> bool" where "handle_ok h \<longleftrightarrow> (\<forall>i. h = Some i \<longrightarrow> i < 8)"

fun ext_valid :: "ext_op \<Rightarrow> bool" where
  "ext_valid (X_Init mi mo name) = True"
| "ext_valid (X_Subscribe h ids n) = handle_ok h"
| "ext_valid (X_Publish h m) = (handle_ok h \<and> (\<forall>m'. m = Some m' \<longrightarrow> priority m' \<noteq> 0))"
| "ext_valid (X_Deinit h) = handle_ok h"

text \<open>What the calls do to the map of live function blocks.\<close>

fun ext_spec :: "ext_op \<Rightarrow> (nat \<Rightarrow> (bytes \<times> u16 list) option) \<Rightarrow> nat \<Rightarrow> (bytes \<times> u16 list) option" where
  "ext_spec (X_Init mi mo name) f =
     (if mi \<and> mo \<and> (\<exists>i < 8. i \<notin> dom f)
      then f(LEAST i. i \<notin> dom f \<mapsto> (take 31 (c_str (case name of None \<Rightarrow> [] | Some s \<Rightarrow> s)), []))
      else f)"
| "ext_spec (X_Subscribe (Some i) (Some ids) n) f =
     (case f i of None \<Rightarrow> f | Some (nm, subs) \<Rightarrow> f(i \<mapsto> (nm, take 16 (subs @ take (unat n) ids))))"
| "ext_spec (X_Deinit (Some i)) f = f(i := None)"
| "ext_spec _ f = f"

text \<open>The state between calls.\<close>

definition ext_ready :: "handle \<Rightarrow> ext_state \<times> 'u world \<Rightarrow> bool" where
  "ext_ready h = (\<lambda>(xs, w). ext_inv xs \<and> x_initialised xs \<and> x_bridge_fb xs = h \<and> pub_ready h w)"

lemma ext_init_step:
  assumes "ext_inv xs" and "x_bridge_fb xs = h" and "pub_ready h w"
  shows "\<exists>r st. embediq_ext_fb_init mi mo name (xs, w) = Some (r, st) \<and> ext_ready h st \<and>
    ext_map (fst st) = ext_spec (X_Init mi mo name) (ext_map xs) \<and>
    r = (if mi \<and> mo \<and> (\<exists>i < 8. i \<notin> dom (ext_map xs)) then Some (LEAST i. i \<notin> dom (ext_map xs)) else None)"
proof -
  define ys where "ys = pool_init_once xs"
  define i where "i = free_ext (x_pool ys)"
  have ys: "ext_inv ys" "ext_map ys = ext_map xs" "x_initialised ys" "x_bridge_fb ys = h"
    unfolding ys_def using pool_init_props[OF assms(1)] assms(2) by simp_all
  note least = free_ext_Least[OF ys(1), folded i_def, unfolded ys(2)]
  let ?q = "\<lambda>m. embediq_osal_queue_create m 32 :: embediq_msg osal_queue option"
  let ?f = "\<lambda>s. s\<lparr>xf_in_use := True, xf_vep := word_of_nat (64 + i), xf_sub_count := 0,
     xf_name := ext_name name (xf_name s), xf_inbound := ?q mi, xf_outbound := ?q mo\<rparr>"
  show ?thesis
  proof (cases "i < 8")
    case False
    have full: "\<forall>i < 8. i \<in> dom (ext_map xs)" using least False by (auto split: if_splits)
    have "embediq_ext_fb_init mi mo name (xs, w) = Some (None, ys, w)"
      using False by (simp add: embediq_ext_fb_init_def Let_def flip: ys_def i_def)
        (simp add: i_def[symmetric] embediq_const)
    then show ?thesis using full ys assms(3) by (auto simp: ext_ready_def)
  next
    case True
    have i: "i = (LEAST i. i \<notin> dom (ext_map xs))" "\<exists>i < 8. i \<notin> dom (ext_map xs)"
      using least True by (auto split: if_splits)
    have none: "ext_map xs i = None"
      using LeastI_ex[of "\<lambda>i. i \<notin> dom (ext_map xs)"] i by (auto simp: domIff simp del: not_None_eq)
    have ok: "ext_slot_ok i (x_pool ys ! i)" and len: "length (x_pool ys) = 8"
      using ys(1) True by (simp_all add: ext_inv_def)
    have q: "?q mi = None \<or> ?q mo = None \<longleftrightarrow> \<not> (mi \<and> mo)"
      by (simp add: embediq_osal_queue_create_def)
    have empty: "empty_queue (?q True)" by (simp add: empty_queue_def embediq_osal_queue_create_def)
    show ?thesis
    proof (cases "mi \<and> mo")
      case False
      let ?zs = "update_ext i (\<lambda>s. zero_ext_fb) ys"
      have "embediq_ext_fb_init mi mo name (xs, w) = Some (None, ?zs, w)"
        using True q False by (simp add: embediq_ext_fb_init_def Let_def embediq_const flip: ys_def i_def)
      moreover have "ext_map (update_ext i (\<lambda>s. zero_ext_fb) ys) = ext_map xs"
        using none True ys(1,2) by (simp add: ext_map_update fun_upd_idem)
      moreover have "ext_inv (update_ext i (\<lambda>s. zero_ext_fb) ys)"
        using True ys by (simp add: ext_inv_update)
      ultimately show ?thesis using False ys assms(3) by (auto simp: ext_ready_def)
    next
      case mem: True
      let ?zs = "update_ext i ?f ys"
      obtain w' where pub: "fb_bridge__publish_extfb_connected (word_of_nat (64 + i)) 1
          (Some (xf_name (x_pool ?zs ! i))) h w = Some w'" "pub_ready h w'"
        using bridge_publish_returns(1)[OF assms(3)] by blast
      have run: "embediq_ext_fb_init mi mo name (xs, w) = Some (Some i, ?zs, w')"
        using True q mem ys pub(1)
        by (simp add: embediq_ext_fb_init_def Let_def embediq_const flip: ys_def i_def)
      have name: "length (ext_name name (xf_name (x_pool ys ! i))) = 32 \<and>
          c_str (ext_name name (xf_name (x_pool ys ! i))) = take 31 (c_str (case name of None \<Rightarrow> [] | Some s \<Rightarrow> s))"
        using ok by (cases "xf_name (x_pool ys ! i)")
          (auto simp: ext_name_def c_str_name_array ext_slot_ok_def c_str_def c_str_name_array[unfolded c_str_def] split: option.splits)
      have "ext_slot_ok i (?f (x_pool ys ! i))"
        using ok name empty mem by (simp add: ext_slot_ok_def)
      then have "ext_inv ?zs" using True ys by (simp add: ext_inv_update)
      moreover have "ext_map ?zs = ext_spec (X_Init mi mo name) (ext_map xs)"
        using True ys i mem name by (auto simp: ext_map_update ext_view_def)
      ultimately show ?thesis using run ys pub(2) mem i by (auto simp: ext_ready_def)
    qed
  qed
qed

lemma ext_subscribe_step:
  assumes "ext_ready h (xs, w)" and "handle_ok r"
  shows "ext_ready h (snd (embediq_ext_fb_subscribe r ids n xs), w) \<and>
    ext_map (snd (embediq_ext_fb_subscribe r ids n xs)) = ext_spec (X_Subscribe r ids n) (ext_map xs)"
proof (cases "r = None \<or> ids = None")
  case True
  then show ?thesis
    using assms(1) by (cases r; cases ids) (auto simp: embediq_ext_fb_subscribe_def)
next
  case False
  then obtain i ds where r: "r = Some i" "ids = Some ds" "i < 8"
    using assms(2) by (auto simp: handle_ok_def)
  have inv: "ext_inv xs" "x_initialised xs" and ok: "ext_slot_ok i (x_pool xs ! i)"
    using assms(1) r by (auto simp: ext_ready_def ext_inv_def)
  note add = add_ids_view[of "x_pool xs ! i" "take (unat n) ds"]
  have "ext_slot_ok i (add_ids (take (unat n) ds) (x_pool xs ! i))"
    using ok add by (simp add: ext_slot_ok_def)
  moreover have "ext_map (update_ext i (add_ids (take (unat n) ds)) xs) = ext_spec (X_Subscribe r ids n) (ext_map xs)"
    using ok add inv r by (auto simp: ext_map_update ext_slot_ok_def ext_view_def ext_map_def ext_inv_def)
  ultimately show ?thesis
    using inv r assms(1) by (auto simp: embediq_ext_fb_subscribe_def ext_ready_def ext_inv_update)
qed

lemma ext_deinit_step:
  assumes "ext_ready h (xs, w)" and "handle_ok r"
  shows "\<exists>st. embediq_ext_fb_deinit r (xs, w) = Some st \<and> ext_ready h st \<and>
    ext_map (fst st) = ext_spec (X_Deinit r) (ext_map xs)"
proof (cases r)
  case None
  then show ?thesis using assms(1) by (simp add: embediq_ext_fb_deinit_def)
next
  case (Some i)
  have inv: "ext_inv xs" "x_initialised xs" "i < 8" "x_bridge_fb xs = h" "pub_ready h w"
    using assms Some by (auto simp: ext_ready_def handle_ok_def)
  have view: "ext_map xs i = ext_view (x_pool xs ! i)" using inv(1,3) by (simp add: ext_map_def ext_inv_def)
  show ?thesis
  proof (cases "xf_in_use (x_pool xs ! i)")
    case False
    then have "ext_map xs i = None" using view by (simp add: ext_view_def)
    then show ?thesis using False Some assms(1) by (simp add: embediq_ext_fb_deinit_def fun_upd_idem)
  next
    case True
    then show ?thesis
      using inv Some bridge_publish_returns(2)[OF inv(5), of "xf_vep (x_pool xs ! i)" 0]
      by (auto simp: embediq_ext_fb_deinit_def ext_ready_def ext_inv_update ext_map_update)
  qed
qed

lemma ext_exec_step:
  assumes "ext_ready h st" and "ext_valid c"
  shows "\<exists>st'. ext_exec c st = Some st' \<and> ext_ready h st' \<and> ext_map (fst st') = ext_spec c (ext_map (fst st))"
proof -
  obtain xs w where st: "st = (xs, w)" by fastforce
  have r: "ext_inv xs" "x_bridge_fb xs = h" "pub_ready h w" using assms(1) by (simp_all add: st ext_ready_def)
  show ?thesis
  proof (cases c)
    case (X_Init mi mo name)
    obtain p st' where "embediq_ext_fb_init mi mo name (xs, w) = Some (p, st')" "ext_ready h st'"
      "ext_map (fst st') = ext_spec c (ext_map xs)"
      using ext_init_step[OF r, of mi mo name] X_Init by blast
    then show ?thesis by (simp add: st ext_exec_def X_Init)
  next
    case (X_Subscribe r ids n)
    then show ?thesis using ext_subscribe_step[of h xs w r ids n] assms by (simp add: st ext_exec_def)
  next
    case (X_Publish p m)
    have id: "ext_spec (X_Publish p m) f = f" for f by simp
    show ?thesis
    proof (cases "p = None \<or> m = None")
      case True
      then show ?thesis using X_Publish assms(1) id
        by (cases p; cases m) (auto simp: st ext_exec_def embediq_ext_fb_publish_def)
    next
      case False
      then obtain i m' where p: "p = Some i" "m = Some m'" by auto
      then have "priority m' \<noteq> 0" using assms(2) X_Publish by simp
      from route_low_returns[OF r(3) this, of "xf_vep (x_pool xs ! i)"] p X_Publish show ?thesis
        using assms(1) id by (auto simp: st ext_exec_def embediq_ext_fb_publish_def ext_ready_def)
     qed
  next
    case (X_Deinit p)
    then show ?thesis using ext_deinit_step[of h xs w p] assms by (simp add: st ext_exec_def)
  qed
qed

lemma ext_run:
  assumes "ext_ready h st" and "\<forall>c \<in> set cs. ext_valid c"
  shows "\<exists>st'. run_list ext_exec cs st = Some st' \<and> ext_ready h st' \<and>
    ext_map (fst st') = fold ext_spec cs (ext_map (fst st))"
  using assms
proof (induction cs arbitrary: st)
  case (Cons c cs)
  then show ?case using ext_exec_step[of h st c] by fastforce
qed simp

lemma ext_initial_inv: "ext_inv (ext_initial h)" "ext_map (ext_initial h) = Map.empty"
  by (auto simp: ext_inv_def ext_initial_def ext_map_def embediq_const)

lemma ext_run_initial:
  assumes "pub_ready h w" and "\<forall>c \<in> set cs. ext_valid c"
  shows "\<exists>st'. run_list ext_exec (X_Init mi mo name # cs) (ext_initial h, w) = Some st' \<and> ext_ready h st' \<and>
    ext_map (fst st') = fold ext_spec (X_Init mi mo name # cs) Map.empty"
proof -
  have "\<exists>r st. embediq_ext_fb_init mi mo name (ext_initial h, w) = Some (r, st) \<and> ext_ready h st \<and>
    ext_map (fst st) = ext_spec (X_Init mi mo name) Map.empty"
    using ext_init_step[OF ext_initial_inv(1)[of h] _ assms(1), of mi mo name]
    unfolding ext_initial_inv(2) by (auto simp: ext_initial_def simp del: ext_spec.simps)
  then obtain r st where st: "embediq_ext_fb_init mi mo name (ext_initial h, w) = Some (r, st)"
    "ext_ready h st" "ext_map (fst st) = ext_spec (X_Init mi mo name) Map.empty" by blast
  then show ?thesis using ext_run[OF st(2) assms(2)] by (simp add: ext_exec_def)
qed

lemma ext_live:
  assumes "ext_ready h st" and "i \<in> dom (ext_map (fst st))"
  shows "i < 8 \<and> xf_vep (x_pool (fst st) ! i) = word_of_nat (0x40 + i) \<and>
    empty_queue (xf_inbound (x_pool (fst st) ! i))"
  using assms by (auto simp: ext_ready_def ext_inv_def ext_map_def ext_view_def ext_slot_ok_def
      split: if_splits prod.splits)

section \<open>Theorems\<close>

text \<open>C21: Every sequence of valid calls returns and leaves the map that the calls describe: an init takes
  the lowest free slot of 8 with the first 31 characters of the name and no subscription, a subscribe
  appends identifiers up to 16, a deinit frees the slot, a publication changes nothing. The live
  slots have the endpoint identifiers 0x40 + i, and the next init returns NULL exactly if no slot or
  no memory is left.\<close>

theorem ext_pool_refines_map:
  assumes "pub_ready h w" and "\<forall>c \<in> set cs. ext_valid c"
  shows "\<exists>xs' w'. run_list ext_exec (X_Init mi mo name # cs) (ext_initial h, w) = Some (xs', w') \<and>
    ext_map xs' = fold ext_spec (X_Init mi mo name # cs) Map.empty \<and> dom (ext_map xs') \<subseteq> {..<8} \<and>
    (\<forall>i \<in> dom (ext_map xs'). xf_vep (x_pool xs' ! i) = word_of_nat (0x40 + i)) \<and>
    (\<forall>ma mb nm. \<exists>st. embediq_ext_fb_init ma mb nm (xs', w') =
       Some (if ma \<and> mb \<and> dom (ext_map xs') \<noteq> {..<8} then Some (LEAST i. i \<notin> dom (ext_map xs')) else None, st))"
proof -
  obtain xs' w' where run: "run_list ext_exec (X_Init mi mo name # cs) (ext_initial h, w) = Some (xs', w')"
    and ready: "ext_ready h (xs', w')" and map: "ext_map xs' = fold ext_spec (X_Init mi mo name # cs) Map.empty"
    using ext_run_initial[OF assms] by (metis fst_conv prod.exhaust_sel)
  have r: "ext_inv xs'" "x_bridge_fb xs' = h" "pub_ready h w'" using ready by (simp_all add: ext_ready_def)
  have live: "i < 8 \<and> xf_vep (x_pool xs' ! i) = word_of_nat (0x40 + i)" if "i \<in> dom (ext_map xs')" for i
    using ext_live[OF ready] that by simp
  have sub: "dom (ext_map xs') \<subseteq> {..<8}" using live by blast
  then have full: "dom (ext_map xs') \<noteq> {..<8} \<longleftrightarrow> (\<exists>i < 8. i \<notin> dom (ext_map xs'))" by blast
  have "\<exists>st. embediq_ext_fb_init ma mb nm (xs', w') = Some (if ma \<and> mb \<and> dom (ext_map xs') \<noteq> {..<8}
      then Some (LEAST i. i \<notin> dom (ext_map xs')) else None, st)" for ma mb nm
    unfolding full using ext_init_step[OF r, of ma mb nm] by blast
  then show ?thesis using run map live sub by blast
qed

text \<open>An external function block gets no message: after any sequence of valid calls, whatever it
  subscribed to and whatever is published, receiving with a finite time-out times out, and receiving
  without one never returns.\<close>

theorem ext_recv_starves:
  assumes "pub_ready h w" and "\<forall>c \<in> set cs. ext_valid c"
    and "run_list ext_exec (X_Init mi mo name # cs) (ext_initial h, w) = Some (xs', w')"
    and "ext_map xs' i \<noteq> None"
  shows "embediq_ext_fb_recv (Some i) True t xs' =
    (if t = UINT32_MAX then Waits_For_Ever else Got (EMBEDIQ_ERR_TIMEOUT, None, xs'))"
proof -
  have ready: "ext_ready h (xs', w')" using ext_run_initial[OF assms(1,2), of mi mo name] assms(3) by simp
  have "i \<in> dom (ext_map (fst (xs', w')))" using assms(4) by (simp add: domIff)
  from ext_live[OF ready this] obtain q where q: "i < 8" "xf_inbound (x_pool xs' ! i) = Some q" "q_count q = 0"
    by (auto simp: empty_queue_def)
  moreover have "update_ext i (\<lambda>s. s\<lparr>xf_inbound := Some q\<rparr>) xs' = xs'"
    using q by (simp add: update_ext_def) (simp flip: q(2))
  ultimately show ?thesis by (simp add: embediq_ext_fb_recv_def embediq_osal_queue_recv_def)
qed

text \<open>A publication of a live external function block is delivered as one of a function block
  with the endpoint 0x40 + i, and waits exactly when that one would.\<close>

theorem ext_publish_delivers:
  assumes "ext_ready h (xs, w)" and "ext_map xs i \<noteq> None"
    and "p = unat (clamp_priority (priority m))"
    and "p = 0 \<longrightarrow> (\<forall>e < length (g_ep w). length (ep_items w e 0) + sub_count (msg_id m) e w \<le> 16)"
  shows "\<exists>w'. embediq_ext_fb_publish (Some i) (Some m) (xs, w) = Some (EMBEDIQ_OK, w') \<and>
    bus_inv w' \<and> bus_frame w w' \<and>
    (\<forall>e < length (g_ep w). \<forall>q < 3. ep_items w' e q = (if q = p
       then deliver p (sub_count (msg_id m) e w) (m\<lparr>source_endpoint_id := word_of_nat (0x40 + i)\<rparr>) (ep_items w e q)
       else ep_items w e q))"
proof -
  let ?m = "m\<lparr>source_endpoint_id := word_of_nat (0x40 + i)\<rparr>"
  have inv: "bus_inv w" using assms(1) by (simp add: ext_ready_def pub_ready_def)
  have vep: "xf_vep (x_pool xs ! i) = word_of_nat (0x40 + i)"
    using ext_live[OF assms(1)] assms(2) by (simp add: domIff)
  have "\<not> route_blocks (clamp_priority (priority ?m)) (subscribers (msg_id ?m) w) w"
    using assms(3,4) subscribers_bound [OF inv, of "msg_id m"]
    by (fastforce simp: route_blocks_def sub_count_def not_less)
  with route_message_items[OF inv, of ?m] show ?thesis
    using assms(3) by (auto simp: embediq_ext_fb_publish_def embediq_bus_bridge_route_def vep routed_all_def)
qed

section \<open>A concrete client\<close>

text \<open>The block \<open>dev\<close> subscribes to message 7; the bus is \<open>demo_bus\<close>, where FB 0 subscribes to it.\<close>

definition demo_calls :: "ext_op list" where
  "demo_calls = [X_Subscribe (Some 0) (Some [7, 8]) 1, X_Publish (Some 0) (Some demo_msg), X_Deinit None]"

lemma demo_calls_ok: "pub_ready (Some 0) demo_bus" "\<forall>c \<in> set demo_calls. ext_valid c"
  by (simp_all add: pub_ready_def demo_bus_simps demo_calls_def handle_ok_def demo_msg_def)

lemma demo_spec:
  "fold ext_spec (X_Init True True (Some [100, 101, 118]) # demo_calls) Map.empty =
     [0 \<mapsto> ([100, 101, 118], [7])]"
proof -
  have "(LEAST i :: nat. True) = 0" by (rule Least_eq_0) simp
  moreover have "\<exists>i :: nat. i < 8" by (rule exI[of _ 0]) simp
  ultimately show ?thesis by (simp add: demo_calls_def c_str_def)
qed

lemma ext_pool_refines_map_witness:
  "\<exists>xs' w'. run_list ext_exec (X_Init True True (Some [100, 101, 118]) # demo_calls)
       (ext_initial (Some 0), demo_bus) = Some (xs', w') \<and>
     ext_map xs' = [0 \<mapsto> ([100, 101, 118], [7])] \<and> xf_vep (x_pool xs' ! 0) = 0x40"
  using ext_pool_refines_map[OF demo_calls_ok, of True True "Some [100, 101, 118]"]
  unfolding demo_spec by fastforce

lemma ext_recv_starves_witness:
  "\<exists>xs' w'. run_list ext_exec (X_Init True True (Some [100, 101, 118]) # demo_calls)
       (ext_initial (Some 0), demo_bus) = Some (xs', w') \<and> snd (the (ext_map xs' 0)) = [7] \<and>
     embediq_ext_fb_recv (Some 0) True 1000 xs' = Got (EMBEDIQ_ERR_TIMEOUT, None, xs')"
proof -
  obtain xs' w' where run: "run_list ext_exec (X_Init True True (Some [100, 101, 118]) # demo_calls)
      (ext_initial (Some 0), demo_bus) = Some (xs', w')" and m: "ext_map xs' = [0 \<mapsto> ([100, 101, 118], [7])]"
    using ext_run_initial[OF demo_calls_ok, of True True "Some [100, 101, 118]"] unfolding demo_spec
    by fastforce
  show ?thesis
    using ext_recv_starves[OF demo_calls_ok run, of 0 1000] run m by (simp del: run_list.simps)
qed

lemma ext_publish_delivers_witness:
  "\<exists>xs w'. ext_map xs = [0 \<mapsto> ([100, 101, 118], [7])] \<and>
     embediq_ext_fb_publish (Some 0) (Some demo_msg) (xs, demo_bus) = Some (EMBEDIQ_OK, w') \<and>
     ep_items w' 0 1 = [demo_msg\<lparr>source_endpoint_id := 0x40\<rparr>]"
proof -
  obtain st :: "ext_state \<times> unit world" where st: "ext_ready (Some 0) st" "ext_map (fst st) = [0 \<mapsto> ([100, 101, 118], [7])]"
    using ext_run_initial[OF demo_calls_ok, of True True "Some [100, 101, 118]"] unfolding demo_spec by blast
  have r: "ext_ready (Some 0) (fst st, demo_bus)"
    using st(1) demo_calls_ok(1) by (simp add: ext_ready_def case_prod_beta)
  have p: "1 = unat (clamp_priority (priority demo_msg))" and c: "sub_count (msg_id demo_msg) 0 demo_bus = 1"
    using demo_bus_simps(7) by (simp_all add: clamp_priority_def demo_msg_def embediq_const)
  obtain w' where w': "embediq_ext_fb_publish (Some 0) (Some demo_msg) (fst st, demo_bus) = Some (EMBEDIQ_OK, w')"
    "\<forall>e < length (g_ep demo_bus). \<forall>q < 3. ep_items w' e q = (if q = 1
       then deliver 1 (sub_count (msg_id demo_msg) e demo_bus) (demo_msg\<lparr>source_endpoint_id := word_of_nat (0x40 + 0)\<rparr>)
         (ep_items demo_bus e q) else ep_items demo_bus e q)"
    using ext_publish_delivers[OF r _ p, of 0] st(2) by auto
  then have "ep_items w' 0 1 = [demo_msg\<lparr>source_endpoint_id := 0x40\<rparr>]"
    using c demo_bus_simps(3) demo_bus_simps(4)[of 1] by (simp add: deliver_def keep_newest_def prio_cap_def)
  then show ?thesis using st(2) w'(1) by blast
qed

end
