(* ===== verification/ExtFbSocket.thy ===== *)
theory ExtFbSocket
  imports BridgeMux ExtFb
begin

text \<open>
  The client library core/src/bridge/embediq_ext_fb.c with the socket transport. The calls return
  the records they send; the records they receive, the answers of the system and the stale bytes of
  buffers are arguments. Contents: the operations; what the mux of theory Bridge makes of a message
  the client publishes.
\<close>

record sock_fb =
  sx_vep :: u8
  sx_in_use :: bool
  sx_name :: bytes
  sx_subs :: "u16 list"
  sx_sub_count :: u8
  sx_fd :: int

text \<open>A slot cleared with \<open>memset\<close> and without a socket.\<close>

definition zero_sock_fb :: sock_fb where
  "zero_sock_fb = \<lparr>sx_vep = 0, sx_in_use = False, sx_name = replicate EMBEDIQ_BRIDGE_NAME_LEN 0,
     sx_subs = replicate EMBEDIQ_BRIDGE_MAX_SUB_PER_EXT_FB 0, sx_sub_count = 0, sx_fd = -1\<rparr>"

definition pool_init_socket :: "bool \<Rightarrow> sock_fb list \<Rightarrow> sock_fb list" where
  "pool_init_socket initialised pool =
     (if initialised then pool else replicate EMBEDIQ_BRIDGE_MAX_EXT_FBS zero_sock_fb)"

fun free_sock_fb :: "sock_fb list \<Rightarrow> nat" where
  "free_sock_fb [] = 0"
| "free_sock_fb (s # ss) = (if \<not> sx_in_use s then 0 else Suc (free_sock_fb ss))"

text \<open>The flag of \<open>pool_init_once\<close> is an argument of the init call. What the system answers to \<open>socket\<close>, \<open>connect\<close> and \<open>recv\<close>: a descriptor or -1, success for a
  path, and the record of the bridge (\<open>None\<close> for an error).\<close>

record client_env =
  ce_path :: "bytes option"
  ce_socket :: int
  ce_connect :: "bytes \<Rightarrow> bool"
  ce_reply :: "bytes option"

definition assigned_endpoint :: "bytes option \<Rightarrow> u8 \<Rightarrow> u8" where
  "assigned_endpoint reply vep = (case reply of
     None \<Rightarrow> vep
   | Some r \<Rightarrow> if length r \<ge> 5 \<and> of_le16 r = BRIDGE_FRAME_ENDPOINT_ASSIGN then r ! 4 else vep)"

definition ext_fb_init_socket :: "bool \<Rightarrow> client_env \<Rightarrow> bytes option \<Rightarrow> handle \<Rightarrow> sock_fb list \<Rightarrow> 'u world \<Rightarrow>
    (handle \<times> sock_fb list \<times> bytes list \<times> 'u world) option" where
  "ext_fb_init_socket initialised env name h pool w =
     (let pool = pool_init_socket initialised pool; i = free_sock_fb pool
      in if i \<ge> EMBEDIQ_BRIDGE_MAX_EXT_FBS then Some (None, pool, [], w)
         else let s = (pool ! i)\<lparr>sx_in_use := True, sx_vep := word_of_nat (0x40 + i), sx_sub_count := 0,
                  sx_name := ext_name name (sx_name (pool ! i)), sx_fd := -1\<rparr>;
             path = (case ce_path env of None \<Rightarrow> DEFAULT_SOCK | Some p \<Rightarrow> if p = [] then DEFAULT_SOCK else p)
           in if ce_socket env < 0 \<or> \<not> ce_connect env path then Some (None, pool[i := zero_sock_fb], [], w)
              else let n = c_str (sx_name s);
                  sent = frame_hdr_bytes \<lparr>frame_type = BRIDGE_FRAME_IDENTIFY,
                    frame_payload_len = word_of_nat (length n)\<rparr> # (if n \<noteq> [] then [n] else []);
                  s = s\<lparr>sx_fd := ce_socket env, sx_vep := assigned_endpoint (ce_reply env) (sx_vep s)\<rparr>
                in do {
                  w \<leftarrow> fb_bridge__publish_extfb_connected (sx_vep s) 0 (Some (sx_name s)) h w;
                  Some (Some i, pool[i := s], sent, w) })"

fun add_sock_ids :: "u16 list \<Rightarrow> sock_fb \<Rightarrow> sock_fb" where
  "add_sock_ids [] s = s"
| "add_sock_ids (d # ids) s =
     (if unat (sx_sub_count s) \<ge> EMBEDIQ_BRIDGE_MAX_SUB_PER_EXT_FB then s
      else add_sock_ids ids (s\<lparr>sx_subs := (sx_subs s)[unat (sx_sub_count s) := d],
             sx_sub_count := sx_sub_count s + 1\<rparr>))"

definition ext_fb_subscribe_socket ::
  "handle \<Rightarrow> u16 list option \<Rightarrow> u8 \<Rightarrow> sock_fb list \<Rightarrow> embediq_err \<times> sock_fb list \<times> bytes list" where
  "ext_fb_subscribe_socket h ids n pool = (case (h, ids) of
     (Some i, Some ids) \<Rightarrow>
       let ids = take (unat n) ids; s = add_sock_ids ids (pool ! i)
       in (EMBEDIQ_OK, pool[i := s],
           if sx_fd s \<ge> 0 \<and> n > 0
           then [frame_hdr_bytes \<lparr>frame_type = BRIDGE_FRAME_SUBSCRIBE, frame_payload_len = 2 * ucast n\<rparr>,
                 concat (map le16 ids)] else [])
   | _ \<Rightarrow> (EMBEDIQ_ERR_INVALID, pool, []))"

text \<open>\<open>ok1\<close> and \<open>ok2\<close> say whether the two sends succeed.\<close>

definition ext_fb_publish_socket ::
  "bool \<Rightarrow> bool \<Rightarrow> handle \<Rightarrow> embediq_msg option \<Rightarrow> sock_fb list \<Rightarrow> embediq_err \<times> bytes list" where
  "ext_fb_publish_socket ok1 ok2 h msg pool = (case (h, msg) of
     (Some i, Some m) \<Rightarrow>
       let hdr = frame_hdr_bytes \<lparr>frame_type = BRIDGE_FRAME_MSG, frame_payload_len = word_of_nat MSG_SIZE\<rparr>
       in if sx_fd (pool ! i) < 0 then (EMBEDIQ_ERR, [])
          else if \<not> ok1 then (EMBEDIQ_ERR, [])
          else if \<not> ok2 then (EMBEDIQ_ERR, [hdr])
          else (EMBEDIQ_OK, [hdr, msg_bytes m])
   | _ \<Rightarrow> (EMBEDIQ_ERR_INVALID, []))"

text \<open>\<open>rs\<close> are the records that arrive before the time-out, \<open>again\<close> whether \<open>errno\<close> reads EAGAIN when a
  \<open>recv\<close> returned nothing, \<open>stale\<close> the bytes of the header buffer. The result has the records left.\<close>

definition ext_fb_recv_socket :: "handle \<Rightarrow> bool \<Rightarrow> bool \<Rightarrow> bytes \<Rightarrow> bytes list \<Rightarrow> sock_fb list \<Rightarrow>
    embediq_err \<times> embediq_msg option \<times> bytes list" where
  "ext_fb_recv_socket h out again stale rs pool = (case h of
     None \<Rightarrow> (EMBEDIQ_ERR_INVALID, None, rs)
   | Some i \<Rightarrow>
       if \<not> out then (EMBEDIQ_ERR_INVALID, None, rs)
       else if sx_fd (pool ! i) < 0 then (EMBEDIQ_ERR, None, rs)
       else if rs = [] \<or> hd rs = [] then (if again then EMBEDIQ_ERR_TIMEOUT else EMBEDIQ_ERR, None, tl rs)
       else let hdr = frame_hdr_of (recv_into (hd rs) stale); rs = tl rs; n = unat (frame_payload_len hdr)
         in if frame_type hdr \<noteq> BRIDGE_FRAME_MSG \<or> n \<noteq> MSG_SIZE
            then (EMBEDIQ_ERR_TIMEOUT, None, if 0 < n \<and> n \<le> MSG_SIZE then tl rs else rs)
            else if rs = [] \<or> length (hd rs) < MSG_SIZE then (EMBEDIQ_ERR, None, tl rs)
            else (EMBEDIQ_OK, Some (msg_of_bytes (take MSG_SIZE (hd rs))), tl rs))"

definition ext_fb_deinit_socket :: "handle \<Rightarrow> handle \<Rightarrow> sock_fb list \<Rightarrow> 'u world \<Rightarrow>
    (sock_fb list \<times> int option \<times> 'u world) option" where
  "ext_fb_deinit_socket r h pool w = (case r of
     None \<Rightarrow> Some (pool, None, w)
   | Some i \<Rightarrow>
       if \<not> sx_in_use (pool ! i) then Some (pool, None, w)
       else do {
         w \<leftarrow> fb_bridge__publish_extfb_disconnected (sx_vep (pool ! i)) 0 h w;
         Some (pool[i := zero_sock_fb], if sx_fd (pool ! i) \<ge> 0 then Some (sx_fd (pool ! i)) else None, w) })"

section \<open>The client and the bridge\<close>

text \<open>The client publishes a message with success, and the bridge routes something else: it takes the
  client's first record for the whole frame, so it routes the bytes its receive buffer held, and
  nothing depends on the message. The slot is in every other respect in the good case: connected,
  no heartbeat due, the peer open.\<close>

theorem client_message_lost:
  assumes "ext_fb_publish_socket True True (Some j) (Some m) pool = (EMBEDIQ_OK, rs)"
    and "sk_in (b_socks b (ss_fd (b_pool b ! i))) = rs"
    and "ss_state (b_pool b ! i) = SLOT_CONNECTED" and "slot_ok i (b_pool b ! i)"
    and "now - ss_last_hb (b_pool b ! i) < b_heartbeat_ms b"
    and "wf_msg m" and "8 < msg_id m" and "\<not> sk_peer_closed (b_socks b (ss_fd (b_pool b ! i)))"
    and "length stale = 88"
  shows "mux_process_slot i now stale (b, w) =
    (case route_as (word_of_nat (0x40 + i)) (msg_of_bytes (drop 4 stale)) w of
       None \<Rightarrow> Inl Waits_On_Bus
     | Some w' \<Rightarrow> Inr (update_sock (ss_fd (b_pool b ! i)) (\<lambda>k. k\<lparr>sk_in := []\<rparr>) b, w'))"
proof -
  have "rs = [frame_hdr_bytes \<lparr>frame_type = BRIDGE_FRAME_MSG, frame_payload_len = 84\<rparr>, msg_bytes m]"
    using assms(1) by (auto simp: ext_fb_publish_socket_def Let_def embediq_const split: if_splits)
  then show ?thesis
    using two_records_lost[OF assms(3,4,5) refl _ assms(6-9)] assms(2) by simp
qed

definition demo_client :: "sock_fb list" where
  "demo_client = (replicate 8 zero_sock_fb)[0 := zero_sock_fb\<lparr>sx_in_use := True, sx_vep := 0x40, sx_fd := 9\<rparr>]"

lemma client_message_lost_witness:
  "\<exists>b w'. ext_fb_publish_socket True True (Some 0) (Some (demo_msg\<lparr>msg_id := 0x0430\<rparr>)) demo_client =
       (EMBEDIQ_OK, [frame_hdr_bytes \<lparr>frame_type = BRIDGE_FRAME_MSG, frame_payload_len = 84\<rparr>,
          msg_bytes (demo_msg\<lparr>msg_id := 0x0430\<rparr>)]) \<and>
     mux_process_slot 0 100 (replicate 88 0) (demo_bridge 2 0x40
       [frame_hdr_bytes \<lparr>frame_type = BRIDGE_FRAME_MSG, frame_payload_len = 84\<rparr>,
        msg_bytes (demo_msg\<lparr>msg_id := 0x0430\<rparr>)] False, demo_bus) = Inr (b, w') \<and>
     route_as 0x40 (msg_of_bytes (replicate 84 0)) demo_bus = Some w'"
proof -
  let ?m = "demo_msg\<lparr>msg_id := 0x0430\<rparr>"
  let ?rs = "[frame_hdr_bytes \<lparr>frame_type = BRIDGE_FRAME_MSG, frame_payload_len = 84\<rparr>, msg_bytes ?m]"
  have pub: "ext_fb_publish_socket True True (Some 0) (Some ?m) demo_client = (EMBEDIQ_OK, ?rs)"
    by (simp add: ext_fb_publish_socket_def demo_client_def Let_def embediq_const)
  have wf: "wf_msg ?m" by (simp add: demo_msg_def wf_msg_def zero_msg_def embediq_const)
  have "msg_id (msg_of_bytes (replicate 84 0)) = 0"
    by (simp add: msg_of_bytes_def of_le16_def)
  then have "subscribers (msg_id (msg_of_bytes (replicate 84 0))) demo_bus = []"
    by (simp add: subscribers_def demo_bus_simps)
  then obtain w' where w': "route_as 0x40 (msg_of_bytes (replicate 84 0)) demo_bus = Some w'"
    using route_message_items[OF demo_bus_simps(1), of "(msg_of_bytes (replicate 84 0))\<lparr>source_endpoint_id := 0x40\<rparr>"]
    by (auto simp: route_as_def embediq_bus_bridge_route_def route_blocks_def)
  have id: "8 < msg_id ?m" by (simp add: word_less_nat_alt)
  show ?thesis
    using client_message_lost[OF pub _ demo_conn(2,3,5)[of ?rs False] wf id, of "replicate 88 0" demo_bus] pub w'
    by simp
qed

end
