(* ===== verification/Program.thy ===== *)
theory Program
  imports Publish Dispatch
begin

text \<open>
  Programs of function blocks on the engine: what a main function sets up. The locale
  \<open>booting_program\<close> says what the engine needs of the FBs of a program, registered in the order of
  their phases and without dependencies, to boot it; theories ThermoBoot and GatewaySystem
  interpret it. The second part runs a booted program whose FBs publish at NORMAL priority only:
  its state is that of the FBs, the tokens of the dispatch semaphores, and the queues.
\<close>

section \<open>Booting\<close>

text \<open>An entry of the registry after \<open>embediq_fb_register\<close>, in a state and with sub-functions.\<close>

definition fb_made :: "nat \<Rightarrow> fb_config \<Rightarrow> fb_state \<Rightarrow> subfn_config list \<Rightarrow> fb" where
  "fb_made i c s sfs = \<lparr>fb_config = c, fb_state = s, fb_ep_idx = word_of_nat i,
     fb_subfn_count = word_of_nat (length sfs),
     fb_subfns = sfs @ replicate (16 - length sfs) zero_subfn, fb_registering = False\<rparr>"

lemma fb_made_simps [simp]:
  "fb_config (fb_made i c s sfs) = c" "fb_state (fb_made i c s sfs) = s"
  "fb_ep_idx (fb_made i c s sfs) = word_of_nat i"
  by (simp_all add: fb_made_def)

text \<open>The registry when the first \<open>k\<close> FBs run, and while the next one is in its init function.\<close>

definition prog_reg :: "fb_config list \<Rightarrow> (nat \<Rightarrow> subfn_config list) \<Rightarrow> nat \<Rightarrow> fb list" where
  "prog_reg cfgs sfs k = map (\<lambda>i. if i < k then fb_made i (cfgs ! i) STATE_RUNNING (sfs i)
     else fb_made i (cfgs ! i) STATE_IDLE []) [0..<length cfgs]"

definition prog_init_reg ::
  "fb_config list \<Rightarrow> (nat \<Rightarrow> subfn_config list) \<Rightarrow> nat \<Rightarrow> subfn_config list \<Rightarrow> fb list" where
  "prog_init_reg cfgs sfs k now = (prog_reg cfgs sfs k)[k :=
     (fb_made k (cfgs ! k) STATE_INITIALISING now)\<lparr>fb_registering := True\<rparr>]"

definition prog_subs :: "fb_config list \<Rightarrow> sub_entry list" where
  "prog_subs cfgs = sort_key sub_msg_id (take 512 (all_subs 0 (prog_reg cfgs (\<lambda>i. []) 0)))"

lemma prog_reg_simps [simp]:
  "length (prog_reg cfgs sfs k) = length cfgs"
  "i < length cfgs \<Longrightarrow> prog_reg cfgs sfs k ! i =
     (if i < k then fb_made i (cfgs ! i) STATE_RUNNING (sfs i) else fb_made i (cfgs ! i) STATE_IDLE [])"
  by (simp_all add: prog_reg_def)

lemma prog_reg_configs: "map fb_config (prog_reg cfgs sfs k) = cfgs"
  by (rule nth_equalityI) simp_all

lemma prog_reg_0: "prog_reg cfgs sfs 0 = prog_reg cfgs sfs' 0"
  by (simp add: prog_reg_def)

lemma prog_reg_Suc:
  "k < length cfgs \<Longrightarrow> (prog_reg cfgs sfs k)[k := fb_made k (cfgs ! k) STATE_RUNNING (sfs k)] = prog_reg cfgs sfs (Suc k)"
  by (rule nth_equalityI) (auto simp: nth_list_update less_Suc_eq)

text \<open>What is not touched by an init function that neither publishes to anybody nor boots.\<close>

definition threads_off :: "'u world \<Rightarrow> bool" where
  "threads_off w \<longleftrightarrow> g_dispatch_sem w = replicate 64 None \<and> \<not> g_dispatch_running w \<and> \<not> g_dispatch_shutdown w"

lemma fb_register_keeps:
  "user (snd (embediq_fb_register c w)) = user w" "g_booted (snd (embediq_fb_register c w)) = g_booted w"
  "g_bus_booted (snd (embediq_fb_register c w)) = g_bus_booted w"
  "threads_off (snd (embediq_fb_register c w)) = threads_off w"
  by (cases c; simp add: embediq_fb_register_def threads_off_def)+

definition boot_same :: "'u world \<Rightarrow> 'u world \<Rightarrow> bool" where
  "boot_same v v' \<longleftrightarrow> g_ep v' = g_ep v \<and> g_subs v' = g_subs v \<and> g_boot_order v' = g_boot_order v \<and>
     g_dispatch_sem v' = g_dispatch_sem v \<and> g_dispatch_running v' = g_dispatch_running v \<and>
     g_dispatch_shutdown v' = g_dispatch_shutdown v"

lemma boot_same_updates [simp]:
  "boot_same v (v\<lparr>user := u\<rparr>)" "boot_same v (v\<lparr>user := u, g_registry := r\<rparr>)"
  by (simp_all add: boot_same_def)

definition bus_idle :: "nat \<Rightarrow> sub_entry list \<Rightarrow> 'u world \<Rightarrow> bool" where
  "bus_idle n subs w \<longleftrightarrow> bus_inv w \<and> length (g_ep w) = n \<and> g_subs w = subs \<and>
     (\<forall>e < n. \<forall>p < 3. ep_items w e p = [])"

lemma bus_idle_cong:
  "g_ep w' = g_ep w \<Longrightarrow> g_subs w' = g_subs w \<Longrightarrow> bus_idle n subs w' = bus_idle n subs w"
  by (simp add: bus_idle_def bus_inv_cong [of w' w] ep_items_cong [of w' w])

definition boot_at :: "fb list \<Rightarrow> sub_entry list \<Rightarrow> 'u \<Rightarrow> nat list \<Rightarrow> 'u world \<Rightarrow> bool" where
  "boot_at reg subs u ord w \<longleftrightarrow> g_registry w = reg \<and> user w = u \<and> g_boot_order w = ord \<and>
     bus_idle (length reg) subs w \<and> threads_off w"

text \<open>One init call of the boot.\<close>

lemma boot_init_fb_eval:
  assumes "i < length (g_registry w)" and "g_registry w ! i = fb_made i c STATE_IDLE []"
    and "fc_init_fn c = Some fn"
    and "cb_init cb fn i (fc_fb_data c) (w\<lparr>g_registry := (g_registry w)[i :=
        (fb_made i c STATE_INITIALISING [])\<lparr>fb_registering := True\<rparr>],
      obs_log := obs_log w @ [Obs_Call EMBEDIQ_OBS_EVT_LIFECYCLE (word_of_nat i) 0xFF 1 0]\<rparr>) = Some w2"
    and "g_registry w2 = (g_registry w)[i := (fb_made i c STATE_INITIALISING sfs)\<lparr>fb_registering := True\<rparr>]"
  shows "boot_init_fb cb i w = Some (w2\<lparr>g_registry := (g_registry w)[i := fb_made i c STATE_RUNNING sfs],
     obs_log := obs_log w2 @ [Obs_Call EMBEDIQ_OBS_EVT_LIFECYCLE (word_of_nat i) 0xFF 2 0],
     g_boot_order := g_boot_order w2 @ [i]\<rparr>)"
proof -
  have 1: "update_fb i (\<lambda>f. f\<lparr>fb_registering := True\<rparr>) (boot_transition i STATE_INITIALISING w) =
      w\<lparr>g_registry := (g_registry w)[i := (fb_made i c STATE_INITIALISING [])\<lparr>fb_registering := True\<rparr>],
        obs_log := obs_log w @ [Obs_Call EMBEDIQ_OBS_EVT_LIFECYCLE (word_of_nat i) 0xFF 1 0]\<rparr>"
    using assms(1,2)
    by (simp add: boot_transition_def Let_def update_fb_def emit_def fb_at_def fb_made_def)
  have 2: "fc_init_fn (fb_config (fb_at (boot_transition i STATE_INITIALISING w) i)) = Some fn"
    "fc_fb_data (fb_config (fb_at (boot_transition i STATE_INITIALISING w) i)) = fc_fb_data c"
    using assms(1-3)
    by (simp_all add: boot_transition_def Let_def update_fb_def emit_def fb_at_def fb_made_def)
  have 3: "boot_transition i STATE_RUNNING (update_fb i (\<lambda>f. f\<lparr>fb_registering := False\<rparr>) w2) =
      w2\<lparr>g_registry := (g_registry w)[i := fb_made i c STATE_RUNNING sfs],
        obs_log := obs_log w2 @ [Obs_Call EMBEDIQ_OBS_EVT_LIFECYCLE (word_of_nat i) 0xFF 2 0]\<rparr>"
    using assms(1,5)
    by (simp add: boot_transition_def Let_def update_fb_def emit_def fb_at_def fb_made_def)
  show ?thesis
    by (simp add: boot_init_fb_def boot_call_init_def 1 2 3 assms(4))
qed

text \<open>The semaphores and tasks that the boot makes.\<close>

lemma create_sems:
  "n \<le> length (g_dispatch_sem w) \<Longrightarrow> e < length (g_dispatch_sem w) \<Longrightarrow>
   g_dispatch_sem (fold (create_sem (\<lambda>n. True)) [0..<n] w) ! e =
     (if e < n \<and> fc_subscription_count (fb_config (fb_at w e)) \<noteq> 0
      then Some (embediq_sem_create 0 UINT32_MAX) else g_dispatch_sem w ! e) \<and>
   length (g_dispatch_sem (fold (create_sem (\<lambda>n. True)) [0..<n] w)) = length (g_dispatch_sem w)"
proof (induction n)
  case (Suc n)
  define v where "v = fold (create_sem (\<lambda>n. True)) [0..<n] w"
  have at: "fb_at v i = fb_at w i" for i
    using create_sems_keep [of "\<lambda>n. True" "[0..<n]" w] by (simp add: fb_at_def v_def)
  have step: "fold (create_sem (\<lambda>n. True)) [0..<Suc n] w = create_sem (\<lambda>n. True) n v"
    by (simp add: v_def)
  show ?case
    using Suc [folded v_def] unfolding step by (auto simp: create_sem_def at nth_list_update less_Suc_eq)
qed simp

lemma create_sems_facts:
  "g_ep (fold (create_sem mem) is w) = g_ep w" "g_subs (fold (create_sem mem) is w) = g_subs w"
  "user (fold (create_sem mem) is w) = user w"
  "g_boot_order (fold (create_sem mem) is w) = g_boot_order w"
  "g_dispatch_running (fold (create_sem mem) is w) = g_dispatch_running w"
  "g_dispatch_shutdown (fold (create_sem mem) is w) = g_dispatch_shutdown w"
  by (induction "is" arbitrary: w) (simp_all add: create_sem_def)

lemma cfg_subs_count: "cfg_subs c \<noteq> [] \<Longrightarrow> fc_subscription_count c \<noteq> 0"
  by (auto simp: cfg_subs_def split: option.splits)

lemma missing_dep_independent:
  "\<forall>f \<in> set reg. cfg_depends (fb_config f) = [] \<Longrightarrow> missing_dep reg = None"
  by (simp add: missing_dep_iff)

text \<open>A booted program: the FBs' state, the tokens of the dispatch semaphores, the NORMAL queues.\<close>

record 'u prog =
  p_user :: 'u
  p_tokens :: "nat \<Rightarrow> u32 option"
  p_queue :: "nat \<Rightarrow> embediq_msg list"

definition prog_sem :: "u32 option \<Rightarrow> osal_sem option" where
  "prog_sem = map_option (\<lambda>c. embediq_sem_create c UINT32_MAX)"

definition prog_at :: "fb list \<Rightarrow> sub_entry list \<Rightarrow> 'u prog \<Rightarrow> 'u world \<Rightarrow> bool" where
  "prog_at reg subs s w \<longleftrightarrow> user w = p_user s \<and> g_registry w = reg \<and> bus_inv w \<and>
     length (g_ep w) = length reg \<and> g_subs w = subs \<and> g_notify_fn w \<and> g_dispatch_running w \<and>
     \<not> g_dispatch_shutdown w \<and> length (g_dispatch_sem w) = 64 \<and>
     (\<forall>e < 64. g_dispatch_sem w ! e = prog_sem (p_tokens s e)) \<and>
     (\<forall>e < length reg. \<forall>p < 3. ep_items w e p = (if p = 1 then p_queue s e else []))"

definition prog_start :: "fb_config list \<Rightarrow> 'u \<Rightarrow> 'u prog" where
  "prog_start cfgs u = \<lparr>p_user = u,
     p_tokens = (\<lambda>e. if e < length cfgs \<and> fc_subscription_count (cfgs ! e) \<noteq> 0 then Some 0 else None),
     p_queue = (\<lambda>e. [])\<rparr>"

text \<open>\<open>app k\<close> is the state of the FBs' code after the first \<open>k\<close> init functions.\<close>

locale booting_program =
  fixes cfgs :: "fb_config list"
    and sfs :: "nat \<Rightarrow> subfn_config list"
    and cb :: "'u callbacks"
    and app :: "nat \<Rightarrow> 'u"
  assumes few: "length cfgs \<le> 64"
    and independent: "c \<in> set cfgs \<Longrightarrow> cfg_depends c = []"
    and phases: "concat (map (\<lambda>p. filter (\<lambda>i. fc_boot_phase (cfgs ! i) = p) [0..<length cfgs]) k_phases) =
      [0..<length cfgs]"
    and subfns: "k < length cfgs \<Longrightarrow> length (sfs k) \<le> 16 \<and> sorted (map sf_init_order (sfs k))"
    and init: "k < length cfgs \<Longrightarrow> g_registry v = prog_init_reg cfgs sfs k [] \<Longrightarrow> user v = app k \<Longrightarrow>
      bus_idle (length cfgs) (prog_subs cfgs) v \<Longrightarrow>
      \<exists>fn v'. fc_init_fn (cfgs ! k) = Some fn \<and> cb_init cb fn k (fc_fb_data (cfgs ! k)) v = Some v' \<and>
        user v' = app (Suc k) \<and> g_registry v' = prog_init_reg cfgs sfs k (sfs k) \<and> boot_same v v'"
begin

lemma boot_step:
  assumes "boot_at (prog_reg cfgs sfs k) (prog_subs cfgs) (app k) ord w" and "k < length cfgs"
  shows "\<exists>w'. boot_init_fb cb k w = Some w' \<and>
    boot_at (prog_reg cfgs sfs (Suc k)) (prog_subs cfgs) (app (Suc k)) (ord @ [k]) w'"
proof -
  let ?v = "w\<lparr>g_registry := prog_init_reg cfgs sfs k [],
      obs_log := obs_log w @ [Obs_Call EMBEDIQ_OBS_EVT_LIFECYCLE (word_of_nat k) 0xFF 1 0]\<rparr>"
  have f: "g_registry w = prog_reg cfgs sfs k" "user w = app k" "g_boot_order w = ord"
    "bus_idle (length cfgs) (prog_subs cfgs) w" "threads_off w"
    using assms(1) by (simp_all add: boot_at_def)
  have "bus_idle (length cfgs) (prog_subs cfgs) ?v" using f(4) bus_idle_cong [of ?v w] by simp
  then obtain fn v' where v': "fc_init_fn (cfgs ! k) = Some fn"
    "cb_init cb fn k (fc_fb_data (cfgs ! k)) ?v = Some v'" "user v' = app (Suc k)"
    "g_registry v' = prog_init_reg cfgs sfs k (sfs k)" "boot_same ?v v'"
    using init [OF assms(2), of ?v] f by auto
  let ?w' = "v'\<lparr>g_registry := (g_registry w)[k := fb_made k (cfgs ! k) STATE_RUNNING (sfs k)],
     obs_log := obs_log v' @ [Obs_Call EMBEDIQ_OBS_EVT_LIFECYCLE (word_of_nat k) 0xFF 2 0],
     g_boot_order := g_boot_order v' @ [k]\<rparr>"
  have "boot_init_fb cb k w = Some ?w'"
    using assms(2) f(1) v'(2,4)
    by (intro boot_init_fb_eval [OF _ _ v'(1)]) (simp_all add: prog_init_reg_def)
  moreover have "bus_idle (length cfgs) (prog_subs cfgs) ?w'"
    using f(4) v'(5) bus_idle_cong [of ?w' w] by (simp add: boot_same_def)
  ultimately show ?thesis
    using v'(3,5) f prog_reg_Suc [OF assms(2), of sfs]
    by (simp add: boot_at_def boot_same_def threads_off_def)
qed

lemma boot_steps:
  assumes "boot_at (prog_reg cfgs sfs k) (prog_subs cfgs) (app k) [0..<k] w" and "k + m \<le> length cfgs"
  shows "\<exists>w'. boot_init_all cb [k..<k + m] w = Some w' \<and>
    boot_at (prog_reg cfgs sfs (k + m)) (prog_subs cfgs) (app (k + m)) [0..<k + m] w'"
  using assms
proof (induction m arbitrary: k w)
  case (Suc m)
  obtain w1 where w1: "boot_init_fb cb k w = Some w1"
    "boot_at (prog_reg cfgs sfs (Suc k)) (prog_subs cfgs) (app (Suc k)) [0..<Suc k] w1"
    using boot_step [OF Suc.prems(1)] Suc.prems(2) by auto
  have "[k..<k + Suc m] = k # [Suc k..<Suc k + m]" by (simp add: upt_rec)
  then show ?case using Suc.IH [OF w1(2)] Suc.prems(2) w1(1) by (simp del: upt_Suc)
qed simp

lemma phase_indices_prog:
  "phase_indices p (prog_reg cfgs sfs k) = filter (\<lambda>i. fc_boot_phase (cfgs ! i) = p) [0..<length cfgs]"
  unfolding phase_indices_def by (rule filter_cong) simp_all

lemma boot_phases_run:
  assumes "boot_at (prog_reg cfgs sfs k) (prog_subs cfgs) (app k) [0..<k] w" and "k \<le> length cfgs"
    and "concat (map (\<lambda>p. phase_indices p (prog_reg cfgs sfs k)) ps) = [k..<length cfgs]"
  shows "\<exists>w'. boot_phases cb ps w = Some (0, w') \<and>
    boot_at (prog_reg cfgs sfs (length cfgs)) (prog_subs cfgs) (app (length cfgs)) [0..<length cfgs] w'"
  using assms
proof (induction ps arbitrary: k w)
  case Nil
  have "[k..<length cfgs] = []" using Nil.prems(3) by simp
  then have "k = length cfgs" using Nil.prems(2) by (simp only: upt_eq_Nil_conv) auto
  with Nil.prems(1) show ?case by simp
next
  case (Cons p ps)
  let ?is = "phase_indices p (prog_reg cfgs sfs k)"
  define m where "m = length ?is"
  have reg: "g_registry w = prog_reg cfgs sfs k" using Cons.prems(1) by (simp add: boot_at_def)
  have split: "?is @ concat (map (\<lambda>p. phase_indices p (prog_reg cfgs sfs k)) ps) = [k..<length cfgs]"
    using Cons.prems(3) by simp
  have "m + length (concat (map (\<lambda>p. phase_indices p (prog_reg cfgs sfs k)) ps)) = length cfgs - k"
    unfolding m_def length_append [symmetric] split by simp
  then have le: "k + m \<le> length cfgs" using Cons.prems(2) by linarith
  have is_: "?is = [k..<k + m]"
    using arg_cong [OF split, of "take m"] le by (simp add: m_def)
  have rest: "concat (map (\<lambda>p. phase_indices p (prog_reg cfgs sfs (k + m))) ps) = [k + m..<length cfgs]"
    using arg_cong [OF split, of "drop m"] by (simp add: m_def phase_indices_prog)
  obtain w1 where w1: "boot_init_all cb [k..<k + m] w = Some w1"
    "boot_at (prog_reg cfgs sfs (k + m)) (prog_subs cfgs) (app (k + m)) [0..<k + m] w1"
    using boot_steps [OF Cons.prems(1) le] by blast
  have "topo_sort p (prog_reg cfgs sfs k) = Some (True, ?is)"
    using independent by (intro topo_sort_independent) (auto simp: prog_reg_def)
  then have "boot_phase cb p w = Some (0, w1)"
    using w1(1) unfolding boot_phase_def reg is_ by (cases m) auto
  then show ?case using Cons.IH [OF w1(2) le rest] by simp
qed

lemma boots:
  assumes "g_registry w = prog_reg cfgs sfs 0" and "user w = app 0" and "\<not> g_booted w"
    and "\<not> g_bus_booted w" and "threads_off w"
  shows "\<exists>w'. embediq_engine_boot (\<lambda>n. True) cb w = Some (0, w') \<and>
    prog_at (prog_reg cfgs sfs (length cfgs)) (prog_subs cfgs) (prog_start cfgs (app (length cfgs)))
      (embediq_engine_dispatch_boot (\<lambda>i. True) w') \<and>
    g_boot_order (embediq_engine_dispatch_boot (\<lambda>i. True) w') = [0..<length cfgs] \<and>
    (\<forall>e < length cfgs. fc_subscription_count (cfgs ! e) \<noteq> 0 \<longrightarrow>
       g_dispatch_task (embediq_engine_dispatch_boot (\<lambda>i. True) w') ! e)"
proof -
  let ?n = "length cfgs" and ?w0 = "w\<lparr>g_boot_order := []\<rparr>"
  let ?w1 = "message_bus_boot (\<lambda>n. True) ?w0"
  have subs: "sort_key sub_msg_id (take 512 (all_subs 0 (prog_reg cfgs sfs 0))) = prog_subs cfgs"
    by (simp add: prog_subs_def prog_reg_0 [of cfgs sfs "\<lambda>i. []"])
  have "bus_idle ?n (prog_subs cfgs) ?w1"
    using bus_boot_holds [of ?w0] assms(1,4) few subs by (simp add: bus_idle_def Let_def)
  then have "boot_at (prog_reg cfgs sfs 0) (prog_subs cfgs) (app 0) [0..<0] ?w1"
    using assms(1,2,5) by (simp add: boot_at_def threads_off_def)
  then obtain w2 where w2: "boot_phases cb k_phases ?w1 = Some (0, w2)"
    "boot_at (prog_reg cfgs sfs ?n) (prog_subs cfgs) (app ?n) [0..<?n] w2"
    using boot_phases_run [of 0 ?w1 k_phases] phases by (auto simp: phase_indices_prog)
  have "missing_dep (g_registry ?w1) = None"
    using independent assms(1) by (auto simp: prog_reg_def intro!: missing_dep_independent)
  let ?w3 = "(message_bus_set_notify_fn True
      (fold (create_sem (\<lambda>n. True)) [0..<length (g_registry w2)] w2))\<lparr>g_booted := True\<rparr>"
  have boot: "embediq_engine_boot (\<lambda>n. True) cb w = Some (0, ?w3)"
    using assms(3) w2(1) \<open>missing_dep (g_registry ?w1) = None\<close> by (simp add: embediq_engine_boot_def)
  have f: "g_registry w2 = prog_reg cfgs sfs ?n" "user w2 = app ?n" "g_boot_order w2 = [0..<?n]"
    "bus_idle ?n (prog_subs cfgs) w2" "g_dispatch_sem w2 = replicate 64 None" "\<not> g_dispatch_running w2"
    "\<not> g_dispatch_shutdown w2"
    using w2(2) by (simp_all add: boot_at_def threads_off_def)
  define w3 where "w3 = ?w3"
  have keep: "user w3 = user w2" "g_registry w3 = g_registry w2" "g_ep w3 = g_ep w2" "g_subs w3 = g_subs w2"
    "g_boot_order w3 = g_boot_order w2" "g_notify_fn w3" "\<not> g_dispatch_running w3" "\<not> g_dispatch_shutdown w3"
    using f(6,7)
    by (simp_all add: w3_def message_bus_set_notify_fn_def create_sems_keep create_sems_facts)
  have n: "length (g_registry w2) = ?n" using f(1) by simp
  have at: "fc_subscription_count (fb_config (fb_at w2 e)) = fc_subscription_count (cfgs ! e)" if "e < ?n" for e
    using that f(1) by (simp add: fb_at_def)
  have sem3: "g_dispatch_sem w3 = g_dispatch_sem (fold (create_sem (\<lambda>n. True)) [0..<?n] w2)"
    by (simp add: w3_def message_bus_set_notify_fn_def n)
  have sems: "length (g_dispatch_sem w3) = 64"
    "\<forall>e < 64. g_dispatch_sem w3 ! e = prog_sem (p_tokens (prog_start cfgs (app ?n)) e)"
    unfolding sem3 using create_sems [of ?n w2 0] create_sems [of ?n w2] f(5) few
    by (auto simp: at prog_start_def prog_sem_def)
  let ?w4 = "embediq_engine_dispatch_boot (\<lambda>i. True) w3"
  obtain t where d: "?w4 = w3\<lparr>g_dispatch_running := True, g_dispatch_task := t\<rparr>"
    "\<forall>e < ?n. fc_subscription_count (cfgs ! e) \<noteq> 0 \<longrightarrow> t ! e"
    using keep(2,7) f(1) few
    by (simp add: embediq_engine_dispatch_boot_def EMBEDIQ_MAX_ENDPOINTS_def fb_at_def)
  have inv: "bus_inv ?w4" "ep_items ?w4 = ep_items w2"
    using f(4) bus_inv_cong [of ?w4 w2] ep_items_cong [of ?w4 w2] keep
    by (simp_all add: d(1) bus_idle_def)
  have at: "prog_at (prog_reg cfgs sfs ?n) (prog_subs cfgs) (prog_start cfgs (app ?n)) ?w4"
    using f(2,4) sems keep inv f(1) unfolding d(1)
    by (simp add: prog_at_def bus_idle_def prog_start_def)
  show ?thesis
    using boot at keep(5) f(3) d(2) unfolding w3_def [symmetric]
    by (intro exI [of _ w3]) (simp add: d(1))
qed

end

end
