(* ===== verification/Machine.thy ===== *)
theory Machine
  imports Program
begin

text \<open>
  Running a booted program. Its abstract machine has the state \<open>prog\<close> of theory Program and four
  executable steps: publishing at NORMAL priority, draining the queues of a function block,
  serving its semaphore until it has to wait, and updating the FBs' own state. A step is undefined
  where a queue would overflow, a counter would saturate or a thread would not come to an end.
  The locale \<open>running_program\<close> shows once that the engine and the bus refine these steps, whatever
  the function blocks are.
\<close>

section \<open>Simulation\<close>

text \<open>Wherever the abstract step \<open>f\<close> is defined, the concrete step \<open>g\<close> returns in a related state.\<close>

definition refines :: "('s \<Rightarrow> 'w \<Rightarrow> bool) \<Rightarrow> ('s \<Rightarrow> 's option) \<Rightarrow> ('w \<Rightarrow> 'w option) \<Rightarrow> bool" where
  "refines R f g \<longleftrightarrow> (\<forall>s s' w. R s w \<longrightarrow> f s = Some s' \<longrightarrow> (\<exists>w'. g w = Some w' \<and> R s' w'))"

lemma refinesD: "refines R f g \<Longrightarrow> R s w \<Longrightarrow> f s = Some s' \<Longrightarrow> \<exists>w'. g w = Some w' \<and> R s' w'"
  by (simp add: refines_def)

lemma refines_bind:
  assumes "refines R f g" and "refines R f' g'"
  shows "refines R (\<lambda>s. Option.bind (f s) f') (\<lambda>w. Option.bind (g w) g')"
  unfolding refines_def
proof (intro allI impI)
  fix s s' w
  assume R: "R s w" and "Option.bind (f s) f' = Some s'"
  then obtain t where t: "f s = Some t" "f' t = Some s'" by (auto split: bind_splits)
  from refinesD [OF assms(1) R t(1)] obtain v where "g w = Some v" "R t v" by blast
  with refinesD [OF assms(2) _ t(2)] show "\<exists>w'. Option.bind (g w) g' = Some w' \<and> R s' w'" by fastforce
qed

lemma refines_run_list:
  assumes "\<And>m. m \<in> set ms \<Longrightarrow> refines R (f m) (g m)"
  shows "refines R (run_list f ms) (run_list g ms)"
  using assms
proof (induction ms)
  case Nil
  then show ?case by (simp add: refines_def)
next
  case (Cons m ms)
  then have "refines R (\<lambda>s. Option.bind (f m s) (run_list f ms)) (\<lambda>w. Option.bind (g m w) (run_list g ms))"
    by (intro refines_bind) auto
  then show ?case by (simp add: refines_def)
qed

section \<open>The abstract machine\<close>

definition prog_targets :: "sub_entry list \<Rightarrow> u16 \<Rightarrow> nat list" where
  "prog_targets subs t = map (\<lambda>s. unat (sub_ep_id s)) (filter (\<lambda>s. sub_msg_id s = t) subs)"

definition prog_post :: "embediq_msg \<Rightarrow> nat \<Rightarrow> 'u prog \<Rightarrow> 'u prog option" where
  "prog_post m e s =
     (if length (p_queue s e) < 32 \<and> p_tokens s e \<noteq> Some UINT32_MAX
      then Some (s\<lparr>p_tokens := (p_tokens s)(e := map_option (\<lambda>c. c + 1) (p_tokens s e)),
        p_queue := (p_queue s)(e := p_queue s e @ [m])\<rparr>)
      else None)"

definition prog_publish :: "sub_entry list \<Rightarrow> nat \<Rightarrow> embediq_msg \<Rightarrow> 'u prog \<Rightarrow> 'u prog option" where
  "prog_publish subs i m s =
     (if normal_msg m
      then run_list (prog_post (m\<lparr>source_endpoint_id := word_of_nat i\<rparr>)) (prog_targets subs (msg_id m)) s
      else None)"

text \<open>\<open>h\<close> is what the function block does with a message.\<close>

fun prog_drain ::
  "(embediq_msg \<Rightarrow> 'u prog \<Rightarrow> 'u prog option) \<Rightarrow> nat \<Rightarrow> nat \<Rightarrow> 'u prog \<Rightarrow> 'u prog option" where
  "prog_drain h e 0 s = None"
| "prog_drain h e (Suc n) s =
     (case p_queue s e of
        [] \<Rightarrow> Some s
      | m # ms \<Rightarrow> Option.bind (h m (s\<lparr>p_queue := (p_queue s)(e := ms)\<rparr>)) (prog_drain h e n))"

fun prog_serve ::
  "(embediq_msg \<Rightarrow> 'u prog \<Rightarrow> 'u prog option) \<Rightarrow> nat \<Rightarrow> nat \<Rightarrow> 'u prog \<Rightarrow> 'u prog option" where
  "prog_serve h e 0 s = None"
| "prog_serve h e (Suc n) s =
     (case p_tokens s e of
        None \<Rightarrow> None
      | Some c \<Rightarrow> if c = 0 then Some s
          else Option.bind (prog_drain h e n (s\<lparr>p_tokens := (p_tokens s)(e := Some (c - 1))\<rparr>))
            (prog_serve h e n))"

lemma prog_fuel [simp]:
  "prog_drain h e (numeral k) s = (case p_queue s e of [] \<Rightarrow> Some s
     | m # ms \<Rightarrow> Option.bind (h m (s\<lparr>p_queue := (p_queue s)(e := ms)\<rparr>)) (prog_drain h e (pred_numeral k)))"
  "prog_serve h e (numeral k) s = (case p_tokens s e of None \<Rightarrow> None
     | Some c \<Rightarrow> if c = 0 then Some s
         else Option.bind (prog_drain h e (pred_numeral k) (s\<lparr>p_tokens := (p_tokens s)(e := Some (c - 1))\<rparr>))
           (prog_serve h e (pred_numeral k)))"
  by (simp_all add: numeral_eq_Suc)

text \<open>The dispatch thread of an FB, until it waits for its semaphore or ends.\<close>

partial_function (option) dispatch_serve :: "'u callbacks \<Rightarrow> nat \<Rightarrow> 'u world \<Rightarrow> 'u world option" where
  "dispatch_serve cb i w =
     (if \<exists>s. g_dispatch_sem w ! i = Some s \<and> embediq_sem_wait s = None then Some w
      else Option.bind (dispatch_round cb i w)
        (\<lambda>r. if fst r then dispatch_serve cb i (snd r) else Some (snd r)))"

section \<open>The engine refines it\<close>

lemma prog_at_user: "prog_at reg subs s w \<Longrightarrow> prog_at reg subs (s\<lparr>p_user := v\<rparr>) (w\<lparr>user := v\<rparr>)"
  using bus_inv_cong [of "w\<lparr>user := v\<rparr>" w] ep_items_cong [of "w\<lparr>user := v\<rparr>" w]
  by (simp add: prog_at_def)

lemma prog_at_log: "prog_at reg subs s w \<Longrightarrow> prog_at reg subs s (log_calls cs w)"
  using bus_inv_cong [of "log_calls cs w" w] ep_items_cong [of "log_calls cs w" w]
  by (simp add: prog_at_def)

lemma prog_at_user_of: "prog_at reg subs s w \<Longrightarrow> user w = p_user s"
  by (simp add: prog_at_def)

text \<open>A message to an FB of the program runs the sub-functions that the FB registered.\<close>

lemma prog_dispatch:
  assumes "prog_at (prog_reg cfgs sfs n) subs s w" and "i < n" and "i < length cfgs" and "length (sfs i) \<le> 16"
  shows "dispatch_msg_to_fb cb i mid msg w = dispatch_from cb i mid msg (sfs i) w"
  using assms
  by (simp add: dispatch_msg_to_fb_def prog_at_def fb_at_def fb_subs_def fb_made_def unat_of_nat_small)

lemma prog_post_user: "prog_post m e s = Some s' \<Longrightarrow> p_user s' = p_user s"
  by (auto simp: prog_post_def split: if_splits)

lemma prog_publish_user: "prog_publish subs i m s = Some s' \<Longrightarrow> p_user s' = p_user s"
proof -
  have "run_list (prog_post m) es s = Some s' \<Longrightarrow> p_user s' = p_user s" for m es
  proof (induction es arbitrary: s)
    case (Cons e es)
    then show ?case by (auto split: bind_splits dest: prog_post_user)
  qed simp
  then show "prog_publish subs i m s = Some s' \<Longrightarrow> p_user s' = p_user s"
    by (auto simp: prog_publish_def split: if_splits)
qed

lemma prog_at_sem:
  "prog_at reg subs s w \<Longrightarrow> e < 64 \<Longrightarrow> prog_at reg subs (s\<lparr>p_tokens := (p_tokens s)(e := t)\<rparr>)
     (w\<lparr>g_dispatch_sem := (g_dispatch_sem w)[e := prog_sem t]\<rparr>)"
  using bus_inv_cong [of "w\<lparr>g_dispatch_sem := (g_dispatch_sem w)[e := prog_sem t]\<rparr>" w]
    ep_items_cong [of "w\<lparr>g_dispatch_sem := (g_dispatch_sem w)[e := prog_sem t]\<rparr>" w]
  by (simp add: prog_at_def nth_list_update)

lemma word_le_antisym_max: "UINT32_MAX \<le> c \<Longrightarrow> c = UINT32_MAX" for c :: u32
proof -
  have "unat c < 2 ^ LENGTH(32)" by (rule unsigned_less)
  then show "UINT32_MAX \<le> c \<Longrightarrow> c = UINT32_MAX" by (simp add: word_le_nat_alt word_unat_eq_iff)
qed

lemma prog_sem_post:
  "t \<noteq> Some UINT32_MAX \<Longrightarrow>
   map_option embediq_sem_post (prog_sem t) = prog_sem (map_option (\<lambda>c. c + 1) t)"
  by (cases t) (auto simp: prog_sem_def embediq_sem_post_def embediq_sem_create_def not_less
      dest: word_le_antisym_max)

lemma prog_sem_wait:
  "prog_sem (Some c) = Some s \<Longrightarrow>
   map_option Some (embediq_sem_wait s) = (if c = 0 then None else Some (prog_sem (Some (c - 1))))"
  by (auto simp: prog_sem_def embediq_sem_wait_def embediq_sem_create_def)

lemma notify_update:
  assumes "g_notify_fn w" and "unat e < 64"
  shows "g_dispatch_sem (bus_notify e w) =
    (g_dispatch_sem w)[unat e := map_option embediq_sem_post (g_dispatch_sem w ! unat e)]"
proof (cases "g_dispatch_sem w ! unat e")
  case None
  then have "(g_dispatch_sem w)[unat e := None] = g_dispatch_sem w" by (metis list_update_id)
  with None assms show ?thesis
    by (simp add: bus_notify_def embediq_engine_notify_fb_def EMBEDIQ_MAX_ENDPOINTS_def)
qed (use assms in \<open>simp add: bus_notify_def embediq_engine_notify_fb_def EMBEDIQ_MAX_ENDPOINTS_def\<close>)

lemma route_all_run: "route_all m p es w = run_list (route_one m p) es w"
  by (induction es arbitrary: w) (simp_all split: bind_splits)

lemma run_list_map: "run_list f (map g xs) s = run_list (\<lambda>x. f (g x)) xs s"
  by (induction xs arbitrary: s) (simp_all split: bind_splits)

locale running_program =
  fixes reg :: "fb list" and subs :: "sub_entry list"
  assumes registered: "length reg \<le> 64"
      "i < length reg \<Longrightarrow> fb_ep_idx (reg ! i) = word_of_nat i \<and> fb_ok (reg ! i)"
begin

lemma ready: "prog_at reg subs s w \<Longrightarrow> i < length reg \<Longrightarrow> bus_ready i w"
  using registered by (simp add: prog_at_def bus_ready_def registry_inv_def fb_at_def)

lemma post:
  assumes "unat e < length reg"
  shows "refines (prog_at reg subs) (prog_post m (unat e)) (route_one m 1 e)"
  unfolding refines_def
proof (intro allI impI)
  fix s s' w
  assume at: "prog_at reg subs s w" and "prog_post m (unat e) s = Some s'"
  then have room: "length (p_queue s (unat e)) < 32" "p_tokens s (unat e) \<noteq> Some UINT32_MAX"
    and s': "s' = s\<lparr>p_tokens := (p_tokens s)(unat e := map_option (\<lambda>c. c + 1) (p_tokens s (unat e))),
        p_queue := (p_queue s)(unat e := p_queue s (unat e) @ [m])\<rparr>"
    by (auto simp: prog_post_def split: if_splits)
  have inv: "bus_inv w" "length (g_ep w) = length reg" "ep_items w (unat e) 1 = p_queue s (unat e)"
    and it: "\<And>x p. x < length reg \<Longrightarrow> p < 3 \<Longrightarrow> ep_items w x p = (if p = 1 then p_queue s x else [])"
    using at assms by (simp_all add: prog_at_def)
  from route_one_room [OF inv(1), of e 1 m] inv assms room(1) obtain w' where
    w': "route_one m 1 e w = Some w'" "routed (unat e) 1 1 m w w'"
      "g_dispatch_sem w' = g_dispatch_sem (bus_notify e w)"
    by (auto simp: prio_cap_def)
  have "deliver 1 1 m (p_queue s (unat e)) = p_queue s (unat e) @ [m]"
    using room(1) by (simp add: deliver_def keep_newest_short prio_cap_def)
  then have "\<forall>x < length reg. \<forall>p < 3. ep_items w' x p = (if p = 1 then p_queue s' x else [])"
    using w'(2) it by (simp add: routed_def s')
  moreover have e: "unat e < 64" using assms registered(1) by simp
  then have "g_dispatch_sem w' = (g_dispatch_sem w)[unat e := prog_sem (p_tokens s' (unat e))]"
    using at w'(3) prog_sem_post [OF room(2)] notify_update [of w e] by (simp add: prog_at_def s')
  ultimately show "\<exists>w'. route_one m 1 e w = Some w' \<and> prog_at reg subs s' w'"
    using at w'(1,2) e
    by (auto simp: prog_at_def routed_def bus_frame_def s' nth_list_update)
qed

lemma publish:
  assumes "i < length reg"
  shows "refines (prog_at reg subs) (prog_publish subs i m) (publish_msg i m)"
  unfolding refines_def
proof (intro allI impI)
  fix s s' w
  let ?m = "m\<lparr>source_endpoint_id := word_of_nat i\<rparr>" and ?es = "map sub_ep_id (filter (\<lambda>s. sub_msg_id s = msg_id m) subs)"
  assume at: "prog_at reg subs s w" and p: "prog_publish subs i m s = Some s'"
  have n: "normal_msg m" using p by (simp add: prog_publish_def split: if_splits)
  then have prio: "clamp_priority (priority m) = 1" by (simp add: normal_msg_def embediq_const)
  have bus: "bus_inv w" "subscribers (msg_id m) w = ?es" "length (g_ep w) = length reg"
    using at by (simp_all add: prog_at_def subscribers_def)
  have "publish_msg i m w = route_all ?m 1 ?es w"
    unfolding publish_msg_routed(1) [OF ready [OF at assms] n]
    using bus(1,2) by (subst route_message_all) (simp_all add: bus_inv_def prio)
  also have "\<dots> = run_list (route_one ?m 1) ?es w" by (rule route_all_run)
  finally have pub: "publish_msg i m w = run_list (route_one ?m 1) ?es w" .
  have "run_list (prog_post ?m) (prog_targets subs (msg_id m)) s = run_list (\<lambda>e. prog_post ?m (unat e)) ?es s"
    by (simp add: prog_targets_def run_list_map comp_def)
  then have run: "run_list (\<lambda>e. prog_post ?m (unat e)) ?es s = Some s'"
    using p n by (simp add: prog_publish_def)
  have "unat e < length reg" if "e \<in> set ?es" for e
    using that subscribers_bound [OF bus(1), of "msg_id m"] unfolding bus(2,3) by blast
  then have "refines (prog_at reg subs) (run_list (\<lambda>e. prog_post ?m (unat e)) ?es) (run_list (route_one ?m 1) ?es)"
    by (intro refines_run_list post) blast
  from refinesD [OF this at run] show "\<exists>w'. publish_msg i m w = Some w' \<and> prog_at reg subs s' w'"
    unfolding pub .
qed

lemma publish_all:
  "i < length reg \<Longrightarrow>
   refines (prog_at reg subs) (run_list (prog_publish subs i) ms) (run_list (publish_msg i) ms)"
  by (intro refines_run_list publish)

lemma recv:
  assumes "prog_at reg subs s w" and "unat e < length reg" and "p \<le> 2"
  shows "\<exists>w'. message_bus_recv_ep e p w =
      (if p = 1 then (case p_queue s (unat e) of [] \<Rightarrow> None | m # ms \<Rightarrow> Some m) else None, w') \<and>
    prog_at reg subs (if p = 1 then s\<lparr>p_queue := (p_queue s)(unat e := tl (p_queue s (unat e)))\<rparr> else s) w'"
proof -
  obtain r w' where rw: "message_bus_recv_ep e p w = (r, w')" by fastforce
  define ne np where "ne = unat e" and "np = unat p"
  have at: "bus_inv w" "length (g_ep w) = length reg"
    and it: "\<And>x q. x < length reg \<Longrightarrow> q < 3 \<Longrightarrow> ep_items w x q = (if q = 1 then p_queue s x else [])"
    using assms(1) by (simp_all add: prog_at_def)
  have t: "bus_inv w'" "bus_frame w w'" "r = (case ep_items w ne np of [] \<Rightarrow> None | m # ms \<Rightarrow> Some m)"
    "\<forall>x q. ep_items w' x q = (if x = ne \<and> q = np then tl (ep_items w x q) else ep_items w x q)"
    using recv_ep_takes_oldest [OF at(1), of e p] assms(2,3) rw at(2)
    by (auto simp: case_prod_beta ne_def np_def)
  have p: "p = 1 \<longleftrightarrow> np = 1" "np < 3" "ne < length reg"
    using unat_prio(1) [OF assms(3)] assms(2) by (simp_all add: np_def ne_def word_unat_eq_iff)
  have sem: "g_dispatch_sem w' = g_dispatch_sem w"
    using rw by (auto simp: message_bus_recv_ep_def split: option.splits if_splits)
  have "ep_items w' x q = (if q = 1
      then p_queue (if p = 1 then s\<lparr>p_queue := (p_queue s)(ne := tl (p_queue s ne))\<rparr> else s) x else [])"
    if "x < length reg" "q < 3" for x q
    unfolding t(4) [rule_format] it [OF that] p(1) by simp
  then have "prog_at reg subs (if p = 1 then s\<lparr>p_queue := (p_queue s)(ne := tl (p_queue s ne))\<rparr> else s) w'"
    using assms(1) t(1,2) sem by (simp add: prog_at_def bus_frame_def)
  moreover have "r = (if p = 1 then (case p_queue s ne of [] \<Rightarrow> None | m # ms \<Rightarrow> Some m) else None)"
    unfolding t(3) it [OF p(3,2)] p(1) by simp
  ultimately show ?thesis using rw unfolding ne_def by blast
qed

lemma recv_any:
  assumes "prog_at reg subs s w" and "i < length reg"
  shows "\<exists>w'. recv_any (fb_ep_idx (fb_at w i)) w =
      (case p_queue s i of [] \<Rightarrow> None | m # ms \<Rightarrow> Some m, w') \<and>
    prog_at reg subs (s\<lparr>p_queue := (p_queue s)(i := tl (p_queue s i))\<rparr>) w'"
proof -
  let ?e = "fb_ep_idx (fb_at w i)"
  have e: "unat ?e = i"
    using assms registered(2) [of i] registered(1) by (simp add: prog_at_def fb_at_def unat_of_nat_small)
  then have l: "unat ?e < length reg" using assms(2) by simp
  obtain w1 where w1: "message_bus_recv_ep ?e 0 w = (None, w1)" "prog_at reg subs s w1"
    using recv [OF assms(1) l, of 0] by auto
  obtain w2 where w2: "message_bus_recv_ep ?e 1 w1 = (case p_queue s i of [] \<Rightarrow> None | m # ms \<Rightarrow> Some m, w2)"
    "prog_at reg subs (s\<lparr>p_queue := (p_queue s)(i := tl (p_queue s i))\<rparr>) w2"
    using recv [OF w1(2) l, of 1] by (auto simp: e)
  obtain w3 where w3: "message_bus_recv_ep ?e 2 w2 = (None, w3)"
    "prog_at reg subs (s\<lparr>p_queue := (p_queue s)(i := tl (p_queue s i))\<rparr>) w3"
    using recv [OF w2(2) l, of 2] by auto
  show ?thesis
    using w1(1) w2 w3 by (cases "p_queue s i") (simp_all add: recv_any_def)
qed

lemma drain:
  assumes "i < length reg"
    and "\<And>m. refines (prog_at reg subs) (h m) (dispatch_msg_to_fb cb i (msg_id m) (payload m))"
  shows "refines (prog_at reg subs) (prog_drain h i n) (dispatch_drain cb i)"
proof (induction n)
  case 0
  show ?case by (simp add: refines_def)
next
  case (Suc n)
  show ?case
    unfolding refines_def
  proof (intro allI impI)
    fix s s' w
    assume at: "prog_at reg subs s w" and d: "prog_drain h i (Suc n) s = Some s'"
    obtain w1 where w1: "recv_any (fb_ep_idx (fb_at w i)) w =
        (case p_queue s i of [] \<Rightarrow> None | m # ms \<Rightarrow> Some m, w1)"
      "prog_at reg subs (s\<lparr>p_queue := (p_queue s)(i := tl (p_queue s i))\<rparr>) w1"
      using recv_any [OF at assms(1)] by blast
    show "\<exists>w'. dispatch_drain cb i w = Some w' \<and> prog_at reg subs s' w'"
    proof (cases "p_queue s i")
      case Nil
      then have "(p_queue s)(i := tl (p_queue s i)) = p_queue s" by (simp add: fun_eq_iff)
      then have "s\<lparr>p_queue := (p_queue s)(i := tl (p_queue s i))\<rparr> = s'" using d Nil by simp
      with w1 Nil show ?thesis by (subst dispatch_drain.simps) simp
    next
      case (Cons m ms)
      then obtain s1 where s1: "h m (s\<lparr>p_queue := (p_queue s)(i := ms)\<rparr>) = Some s1" "prog_drain h i n s1 = Some s'"
        using d by (auto split: bind_splits)
      obtain w2 where w2: "dispatch_msg_to_fb cb i (msg_id m) (payload m) w1 = Some w2" "prog_at reg subs s1 w2"
        using refinesD [OF assms(2) _ s1(1), of w1] w1(2) Cons by auto
      from refinesD [OF Suc.IH w2(2) s1(2)] w1(1) w2(1) Cons show ?thesis
        by (subst dispatch_drain.simps) simp
    qed
  qed
qed

lemma serve:
  assumes "i < length reg"
    and "\<And>m. refines (prog_at reg subs) (h m) (dispatch_msg_to_fb cb i (msg_id m) (payload m))"
  shows "refines (prog_at reg subs) (prog_serve h i n) (dispatch_serve cb i)"
proof (induction n)
  case 0
  show ?case by (simp add: refines_def)
next
  case (Suc n)
  have i: "i < 64" using assms(1) registered(1) by simp
  show ?case
    unfolding refines_def
  proof (intro allI impI)
    fix s s' w
    assume at: "prog_at reg subs s w" and "prog_serve h i (Suc n) s = Some s'"
    then obtain c where c: "p_tokens s i = Some c" and step: "if c = 0 then s = s' else
        Option.bind (prog_drain h i n (s\<lparr>p_tokens := (p_tokens s)(i := Some (c - 1))\<rparr>)) (prog_serve h i n) = Some s'"
      by (auto split: option.splits if_splits)
    have f: "g_dispatch_running w" "\<not> g_dispatch_shutdown w"
      "g_dispatch_sem w ! i = Some (embediq_sem_create c UINT32_MAX)"
      using at i c by (simp_all add: prog_at_def prog_sem_def)
    show "\<exists>w'. dispatch_serve cb i w = Some w' \<and> prog_at reg subs s' w'"
    proof (cases "c = 0")
      case True
      with at step f show ?thesis
        by (subst dispatch_serve.simps) (simp add: embediq_sem_wait_def embediq_sem_create_def)
    next
      case False
      let ?s = "s\<lparr>p_tokens := (p_tokens s)(i := Some (c - 1))\<rparr>"
      let ?w = "w\<lparr>g_dispatch_sem := (g_dispatch_sem w)[i := prog_sem (Some (c - 1))]\<rparr>"
      have v: "prog_at reg subs ?s ?w" by (rule prog_at_sem [OF at i])
      obtain t where t: "prog_drain h i n ?s = Some t" "prog_serve h i n t = Some s'"
        using step False by (auto split: bind_splits)
      obtain w1 where w1: "dispatch_drain cb i ?w = Some w1" "prog_at reg subs t w1"
        using refinesD [OF drain [OF assms] v t(1)] by blast
      have "dispatch_round cb i w = Some (True, w1)"
        using f w1(1) False
        by (simp add: dispatch_round_def embediq_sem_wait_def embediq_sem_create_def prog_sem_def)
      with refinesD [OF Suc.IH w1(2) t(2)] f(3) False show ?thesis
        by (subst dispatch_serve.simps) (simp add: embediq_sem_wait_def embediq_sem_create_def)
    qed
  qed
qed

end

text \<open>A program that the engine can boot can then be run.\<close>

sublocale booting_program \<subseteq> running: running_program "prog_reg cfgs sfs (length cfgs)" "prog_subs cfgs"
proof
  show "length (prog_reg cfgs sfs (length cfgs)) \<le> 64" using few by simp
next
  fix i assume "i < length (prog_reg cfgs sfs (length cfgs))"
  then show "fb_ep_idx (prog_reg cfgs sfs (length cfgs) ! i) = word_of_nat i \<and>
      fb_ok (prog_reg cfgs sfs (length cfgs) ! i)"
    using subfns [of i] by (simp add: fb_ok_def fb_made_def fb_subs_def unat_of_nat_small)
qed

end
