(* ===== verification/Drivers.thy ===== *)
theory Drivers
  imports Machine Timer Watchdog Nvm
begin

text \<open>
  The driver function blocks that both example programs start with: the timer, the NVM store and
  the watchdog, in this order of registration. Their static variables, what their init functions
  do while the engine boots, and what the timer thread and the watchdog's monitor do in a second of
  the running program.
\<close>

section \<open>State and functions\<close>

record driver_app =
  da_timer :: timer_state
  da_nvm :: nvm_state
  da_wdg :: wdg_state

definition FN_nvm_init :: nat where "FN_nvm_init = 62"
definition FN_nvm_exit :: nat where "FN_nvm_exit = 65"

definition nvm_config :: fb_config where
  "nvm_config = \<lparr>fc_name = Some ''fb_nvm'', fc_priority = 0, fc_stack_size = 0,
     fc_init_fn = Some FN_nvm_init, fc_run_fn = None, fc_exit_fn = Some FN_nvm_exit,
     fc_fault_fn = None, fc_fb_data = 0, fc_subscriptions = None, fc_subscription_count = 0,
     fc_publications = None, fc_publication_count = 0, fc_depends_on = [], fc_depends_count = 0,
     fc_boot_phase = EMBEDIQ_BOOT_PHASE_INFRASTRUCTURE\<rparr>"

definition fb_nvm_register :: "'u world \<Rightarrow> handle \<times> 'u world" where
  "fb_nvm_register = embediq_fb_register (Some nvm_config)"

text \<open>What their init pointers do. \<open>thr\<close> and \<open>mem\<close> say whether threads and mutexes can be created.\<close>

definition driver_init ::
  "bool \<Rightarrow> bool \<Rightarrow> nat \<Rightarrow> nat \<Rightarrow> 'a driver_app_scheme world \<Rightarrow> 'a driver_app_scheme world option" where
  "driver_init thr mem fn i w =
     (let a = user w in
      if fn = FN_timer_init
      then let (ts, w) = timer_init thr (Some i) (da_timer a, w) in Some (w\<lparr>user := a\<lparr>da_timer := ts\<rparr>\<rparr>)
      else if fn = FN_nvm_init
      then Some (w\<lparr>user := a\<lparr>da_nvm := nvm_init mem (Some i) (da_nvm a)\<rparr>\<rparr>)
      else if fn = FN_wdg_init
      then map_option (\<lambda>(ws, w). w\<lparr>user := a\<lparr>da_wdg := ws\<rparr>\<rparr>) (wdg_init mem thr (Some i) (da_wdg a, w))
      else Some w)"

text \<open>The static variables as the program loader leaves them.\<close>

definition wdg_off :: wdg_state where
  "wdg_off = \<lparr>w_slots = [], w_mutex = None, w_task = False, w_fb = None, w_running = False,
     w_kick_seq = 0, w_fault_count = 0, hw_inited = False, hw_timeout_ms = 0, hw_kicks = 0\<rparr>"

text \<open>The states after the init functions; the watchdog with \<open>k\<close> kicks and the slots \<open>ss\<close>.\<close>

definition timer_started :: timer_state where
  "timer_started = timer_off\<lparr>t_fb := Some 0, t_running := True, t_hal :=
     \<lparr>ht_cb = True, ht_period_us = 1000, ht_thread = True, ht_running = True, ht_inited = True\<rparr>\<rparr>"

definition wdg_at :: "nat \<Rightarrow> (nat \<times> u32 \<times> u32) list \<Rightarrow> wdg_state" where
  "wdg_at k ss = \<lparr>w_slots = map (\<lambda>(h, tm, t). \<lparr>sl_handle = h, sl_timeout_ms = tm,
       sl_last_checkin_us = t, sl_active = True\<rparr>) ss,
     w_mutex = Some False, w_task = True, w_fb = Some 2, w_running = True, w_kick_seq = word_of_nat k,
     w_fault_count = 0, hw_inited = True, hw_timeout_ms = 5000, hw_kicks = k\<rparr>"

section \<open>The init functions\<close>

lemma driver_fn_ids: "FN_timer_init = 61" "FN_nvm_init = 62" "FN_wdg_init = 63"
  by (simp_all add: FN_timer_init_def FN_nvm_init_def FN_wdg_init_def)

lemma driver_config_simps [simp]:
  "fc_init_fn timer_config = Some FN_timer_init" "fc_init_fn nvm_config = Some FN_nvm_init"
  "fc_init_fn wdg_config = Some FN_wdg_init"
  "cfg_depends timer_config = []" "cfg_depends nvm_config = []" "cfg_depends wdg_config = []"
  "fc_boot_phase timer_config = 1" "fc_boot_phase nvm_config = 2" "fc_boot_phase wdg_config = 2"
  "cfg_subs timer_config = []" "cfg_subs nvm_config = []" "cfg_subs wdg_config = []"
  "fc_subscription_count timer_config = 0" "fc_subscription_count nvm_config = 0"
  "fc_subscription_count wdg_config = 0"
  by (simp_all add: timer_config_def nvm_config_def wdg_config_def cfg_depends_def cfg_subs_def embediq_const)

lemma init_reg_configs: "k < length cfgs \<Longrightarrow> map fb_config (prog_init_reg cfgs sfs k now) = cfgs"
  by (rule nth_equalityI) (simp_all add: prog_init_reg_def nth_list_update)

lemma no_1ms_subscriber:
  assumes "g_registry v = prog_init_reg cfgs sfs k now" and "k < length cfgs"
    and "\<forall>c \<in> set cfgs. MSG_TIMER_1MS \<notin> set (cfg_subs c)"
  shows "\<not> has_1ms_subscriber v"
proof -
  have "fb_config ` set (g_registry v) = set cfgs"
    using init_reg_configs [OF assms(2)] assms(1) by (metis list.set_map)
  then show ?thesis using assms(3) by (auto simp: has_1ms_subscriber_def list_ex_iff)
qed

lemma driver_init_timer:
  assumes "\<not> has_1ms_subscriber v" and "da_timer (user v) = timer_off"
  shows "driver_init True mem FN_timer_init 0 v = Some (v\<lparr>user := (user v)\<lparr>da_timer := timer_started\<rparr>\<rparr>)"
  using assms
  by (simp add: driver_init_def timer_init_def timer_hal_def hal_timer_init_def hal_timer_start_def
      timer_started_def timer_off_def hal_timer_off_def log_calls_def)

lemma driver_init_nvm:
  "driver_init thr mem FN_nvm_init i v = Some (v\<lparr>user := (user v)\<lparr>da_nvm := nvm_init mem (Some i) (da_nvm (user v))\<rparr>\<rparr>)"
  by (simp add: driver_init_def driver_fn_ids Let_def)

text \<open>The watchdog publishes the reset reason, to nobody.\<close>

lemma driver_init_wdg:
  assumes "bus_idle n subs v" and "\<forall>s \<in> set subs. sub_msg_id s \<noteq> msg_id reset_reason_msg"
    and "da_wdg (user v) = wdg_off"
  shows "driver_init True True FN_wdg_init 2 v = Some (v\<lparr>user := (user v)\<lparr>da_wdg := wdg_at 0 []\<rparr>\<rparr>)"
proof -
  have "embediq_publish (Some 2) (Some reset_reason_msg) v =
      Some (Some (reset_reason_msg\<lparr>source_endpoint_id := fb_engine__get_ep_id (Some 2) v\<rparr>), v)"
    using assms(1,2) by (intro publish_unsubscribed) (simp_all add: bus_idle_def)
  then show ?thesis
    using assms(3)
    by (simp add: driver_init_def driver_fn_ids wdg_init_def wdg_create_mutex_def hal_wdg_init_def wdg_off_def
        wdg_at_def)
qed

text \<open>An init function that registers a sub-function behind those it has registered.\<close>

lemma init_subfn:
  assumes "g_registry v = prog_init_reg cfgs sfs k now" and "k < length cfgs" and "length now < 16"
    and "sorted (map sf_init_order now)" and "\<forall>x \<in> set now. sf_init_order x \<le> sf_init_order sf"
  shows "snd (embediq_subfn_register (Some k) (Some sf) v) = v\<lparr>g_registry := prog_init_reg cfgs sfs k (now @ [sf])\<rparr>"
proof -
  have n: "unat (word_of_nat (length now) :: u8) = length now" using assms(3) by (simp add: unat_of_nat_small)
  have r: "replicate (16 - length now) zero_subfn = zero_subfn # replicate (15 - length now) zero_subfn"
    using assms(3) by (simp add: Suc_diff_Suc [symmetric] flip: replicate_Suc)
  have "shift_insert sf_init_order (now @ replicate (16 - length now) zero_subfn) (length now) sf =
      (now @ [sf]) @ replicate (15 - length now) zero_subfn"
    using assms(3,4) by (simp add: shift_insert_correct insert_after_all [OF assms(5)] r)
  then show ?thesis
    using assms(1-3) n
    by (simp add: embediq_subfn_register_def fb_at_def update_fb_def prog_init_reg_def fb_made_def
        EMBEDIQ_MAX_SUBFNS_PER_FB_def add.commute)
qed

section \<open>A second of the timer and the monitor\<close>

text \<open>A monitor round of the program at the clock \<open>t\<close>, and the rounds at the clocks \<open>chk\<close> followed by a
  thousand rounds of the timer thread.\<close>

definition driver_monitor ::
  "'a driver_app_scheme callbacks \<Rightarrow> u32 \<Rightarrow> 'a driver_app_scheme world \<Rightarrow> 'a driver_app_scheme world option" where
  "driver_monitor cb t w =
     (case monitor_round cb t (da_wdg (user w), w) of
        Done (ws, w) \<Rightarrow> Some (w\<lparr>user := (user w)\<lparr>da_wdg := ws\<rparr>\<rparr>)
      | _ \<Rightarrow> None)"

definition driver_second ::
  "'a driver_app_scheme callbacks \<Rightarrow> u32 list \<Rightarrow> 'a driver_app_scheme world \<Rightarrow> 'a driver_app_scheme world option" where
  "driver_second cb chk w = do {
     w \<leftarrow> run_list (driver_monitor cb) chk w;
     (ts, w) \<leftarrow> timer_run 1000 (da_timer (user w), w);
     Some (w\<lparr>user := (user w)\<lparr>da_timer := ts\<rparr>\<rparr>) }"

definition in_time :: "u32 \<Rightarrow> (nat \<times> u32 \<times> u32) list \<Rightarrow> bool" where
  "in_time t ss \<longleftrightarrow> (\<forall>(h, tm, t0) \<in> set ss. t - t0 \<le> tm * 1000)"

lemma scan_all_ok:
  "\<forall>s \<in> set ss. \<not> overdue t s \<Longrightarrow> scan_slots cb t ss ok st = Inr (ok, st)"
  by (induction ss) (cases st; auto)+

lemma monitor_content:
  assumes "in_time t ss"
  shows "monitor_round cb t (wdg_at k ss, w) = Done (wdg_at (Suc k) ss, w)"
proof -
  have "\<forall>s \<in> set (w_slots (wdg_at k ss)). \<not> overdue t s"
    using assms by (auto simp: wdg_at_def in_time_def overdue_def not_less)
  from scan_all_ok [OF this] have
    "scan_slots cb t (map (\<lambda>(h, tm, t). \<lparr>sl_handle = h, sl_timeout_ms = tm, sl_last_checkin_us = t,
       sl_active = True\<rparr>) ss) True st = Inr (True, st)" for st
    by (simp add: wdg_at_def)
  then show ?thesis
    by (simp add: monitor_round_def monitor_scan_def wdg_at_def wdg_kick_def hal_wdg_kick_def
        EMBEDIQ_TRACE_LEVEL_def add.commute)
qed

lemma count_list_one:
  assumes "count_list xs y = 1"
  obtains as bs where "xs = as @ y # bs" and "y \<notin> set as" and "y \<notin> set bs"
proof -
  have "y \<in> set xs" using assms by (metis count_list_0_iff zero_neq_one)
  then obtain as bs where xs: "xs = as @ y # bs" "y \<notin> set as" using split_list_first by metis
  then have "count_list bs y = 0" using assms by simp
  then show ?thesis using that xs by (simp add: count_list_0_iff)
qed

lemma second_ticks:
  "count_list (concat (map (tick_msgs False) [Suc (1000 * n)..<Suc (1000 * n + 1000)])) MSG_TIMER_1SEC = 1"
proof -
  have "timer_trace False (1000 * n + 1000) = timer_trace False (1000 * n) @
      concat (map (tick_msgs False) [Suc (1000 * n)..<Suc (1000 * n + 1000)])"
    using upt_add_eq_append [of 1 "Suc (1000 * n)" 1000] by (simp add: timer_trace_def del: upt_Suc)
  then have "count_list (timer_trace False (1000 * n + 1000)) MSG_TIMER_1SEC =
      count_list (timer_trace False (1000 * n)) MSG_TIMER_1SEC +
      count_list (concat (map (tick_msgs False) [Suc (1000 * n)..<Suc (1000 * n + 1000)])) MSG_TIMER_1SEC"
    by (simp only: count_list_append)
  then show ?thesis by (simp only: timer_trace_counts)
qed

text \<open>On the abstract machine: only the tick of the second has subscribers.\<close>

lemma prog_unsubscribed:
  "prog_targets subs (msg_id m) = [] \<Longrightarrow> normal_msg m \<Longrightarrow> prog_publish subs i m s = Some s"
  by (simp add: prog_publish_def)

lemma prog_silent:
  "\<forall>t \<in> set ids. prog_targets subs t = [] \<Longrightarrow> run_list (prog_publish subs i) (map plain_msg ids) s = Some s"
  by (induction ids) (simp_all add: prog_unsubscribed)

lemma prog_ticks:
  assumes "count_list ids t = 1" and "\<forall>x \<in> set ids. x \<noteq> t \<longrightarrow> prog_targets subs x = []"
  shows "run_list (prog_publish subs i) (map plain_msg ids) s = prog_publish subs i (plain_msg t) s"
proof -
  obtain as bs where ids: "ids = as @ t # bs" "t \<notin> set as" "t \<notin> set bs" using count_list_one [OF assms(1)] .
  have "\<forall>x \<in> set as. prog_targets subs x = []" "\<forall>x \<in> set bs. prog_targets subs x = []"
    using assms(2) ids by auto
  then have "run_list (prog_publish subs i) (map plain_msg as) s = Some s"
    "\<And>v. run_list (prog_publish subs i) (map plain_msg bs) v = Some v"
    by (blast intro: prog_silent)+
  then show ?thesis
    by (cases "prog_publish subs i (plain_msg t) s") (simp_all add: ids(1) run_list_append)
qed

lemma timer_started_live: "timer_live 0 timer_started" "\<not> t_has_1ms_sub timer_started"
  by (simp_all add: timer_live_def timer_started_def hal_timer_fires_def timer_off_def)

lemma tick_msgs_ids: "t \<in> set (tick_msgs False n) \<Longrightarrow> t \<in> {MSG_TIMER_10MS, MSG_TIMER_100MS, MSG_TIMER_1SEC}"
  by (auto simp: tick_msgs_def split: if_splits)

context running_program
begin

lemma monitors:
  assumes "prog_at reg subs s w" and "da_wdg (p_user s) = wdg_at k ss" and "\<forall>t \<in> set chk. in_time t ss"
  shows "\<exists>w'. run_list (driver_monitor cb) chk w = Some w' \<and>
    prog_at reg subs (s\<lparr>p_user := (p_user s)\<lparr>da_wdg := wdg_at (k + length chk) ss\<rparr>\<rparr>) w'"
  using assms
proof (induction chk arbitrary: s k w)
  case Nil
  then have "s\<lparr>p_user := (p_user s)\<lparr>da_wdg := wdg_at k ss\<rparr>\<rparr> = s" by simp
  then show ?case using Nil.prems(1) by simp
next
  case (Cons t chk)
  let ?u = "(p_user s)\<lparr>da_wdg := wdg_at (Suc k) ss\<rparr>"
  have "driver_monitor cb t w = Some (w\<lparr>user := ?u\<rparr>)"
    using Cons.prems(2,3) monitor_content [of t ss cb k w]
    by (simp add: driver_monitor_def prog_at_user_of [OF Cons.prems(1)])
  moreover have "prog_at reg subs (s\<lparr>p_user := ?u\<rparr>) (w\<lparr>user := ?u\<rparr>)" by (rule prog_at_user [OF Cons.prems(1)])
  ultimately show ?case using Cons.IH [of "s\<lparr>p_user := ?u\<rparr>" "w\<lparr>user := ?u\<rparr>" "Suc k"] Cons.prems(3) by simp
qed

text \<open>The effect of a second on a program of the engine: the tick.\<close>

lemma second:
  assumes "prog_at reg subs s w" and "0 < length reg"
    and "da_wdg (p_user s) = wdg_at k ss" and "\<forall>t \<in> set chk. in_time t ss"
    and "da_timer (p_user s) = counts_at (1000 * n) timer_started" and "1000 * Suc n < 2 ^ 32"
    and "prog_targets subs MSG_TIMER_10MS = []" and "prog_targets subs MSG_TIMER_100MS = []"
    and "prog_publish subs 0 (plain_msg MSG_TIMER_1SEC)
      (s\<lparr>p_user := (p_user s)\<lparr>da_wdg := wdg_at (k + length chk) ss\<rparr>\<rparr>) = Some s1"
  shows "\<exists>w'. driver_second cb chk w = Some w' \<and>
    prog_at reg subs (s1\<lparr>p_user := (p_user s1)\<lparr>da_timer := counts_at (1000 * Suc n) timer_started\<rparr>\<rparr>) w'"
proof -
  let ?s = "s\<lparr>p_user := (p_user s)\<lparr>da_wdg := wdg_at (k + length chk) ss\<rparr>\<rparr>"
  let ?ids = "concat (map (tick_msgs False) [Suc (1000 * n)..<Suc (1000 * n + 1000)])"
  obtain w1 where w1: "run_list (driver_monitor cb) chk w = Some w1" "prog_at reg subs ?s w1"
    using monitors [OF assms(1,3,4)] by blast
  have "run_list (prog_publish subs 0) (map plain_msg ?ids) ?s = Some s1"
    unfolding assms(9) [symmetric]
    by (rule prog_ticks [OF second_ticks]) (use assms(7,8) in \<open>auto dest!: tick_msgs_ids\<close>)
  then obtain w2 where w2: "run_list (publish_msg 0) (map plain_msg ?ids) w1 = Some w2" "prog_at reg subs s1 w2"
    using refinesD [OF publish_all [OF assms(2)] w1(2)] by blast
  have "timer_run 1000 (counts_at (1000 * n) timer_started, w1) = Some (counts_at (1000 * Suc n) timer_started, w2)"
    using timer_run_from [OF timer_started_live(1), of "1000 * n" 1000 w1] assms(6) w2(1) timer_started_live(2)
    by (simp del: upt_Suc add: add.commute)
  then show ?thesis
    using w1 assms(5) prog_at_user [OF w2(2)]
    by (simp add: driver_second_def prog_at_user_of [OF w1(2)] prog_at_user_of [OF w2(2)])
qed

end

end
