(* ===== verification/ThermoBoot.thy ===== *)
theory ThermoBoot
  imports Thermostat Drivers
begin

text \<open>
  The thermostat program examples/thermostat/main.c as a whole, up to its boot: the static
  variables of its five function blocks, what their function pointers do, the registrations,
  and the boot by the engine on the message bus, as an instance of \<open>booting_program\<close>. Theory
  ThermoSystem runs it.
\<close>

section \<open>The program's state and functions\<close>

text \<open>The static variables of the five function blocks.\<close>

record thermo_app = driver_app +
  ta_sensor :: sensor_state
  ta_ctrl :: ctrl_state

text \<open>
  What the function pointers do. \<open>thr\<close> and \<open>mem\<close> say whether threads and mutexes can be
  created, \<open>now\<close> is the clock in microseconds.
\<close>

definition thermo_init ::
  "bool \<Rightarrow> bool \<Rightarrow> u32 \<Rightarrow> nat \<Rightarrow> nat \<Rightarrow> nat \<Rightarrow> thermo_app world \<Rightarrow> thermo_app world option" where
  "thermo_init thr mem now fn i d w =
     (let a = user w in
      if fn = FN_sensor_init then Some (sensor_init (Some i) w)
      else if fn = FN_ctrl_init
      then (case ctrl_init mem now (Some i) (ta_ctrl a, da_wdg a, w) of
          Done (cs, ws, w) \<Rightarrow> Some (w\<lparr>user := a\<lparr>ta_ctrl := cs, da_wdg := ws\<rparr>\<rparr>)
        | _ \<Rightarrow> None)
      else driver_init thr mem fn i w)"

definition thermo_handler ::
  "u32 \<Rightarrow> nat \<Rightarrow> nat \<Rightarrow> bytes \<Rightarrow> nat \<Rightarrow> nat \<Rightarrow> thermo_app world \<Rightarrow> thermo_app world option" where
  "thermo_handler now fn i msg d sd w =
     (let a = user w in
      if fn = FN_sensor_tick
      then map_option (\<lambda>(s, w). w\<lparr>user := a\<lparr>ta_sensor := s\<rparr>\<rparr>) (sensor_tick (Some i) (ta_sensor a, w))
      else if fn = FN_ctrl_run
      then (case ctrl_run now (Some i) msg (ta_ctrl a, da_wdg a, w) of
          Some (Done (cs, ws, w)) \<Rightarrow> Some (w\<lparr>user := a\<lparr>ta_ctrl := cs, da_wdg := ws\<rparr>\<rparr>)
        | _ \<Rightarrow> None)
      else Some w)"

definition thermo_callbacks :: "bool \<Rightarrow> bool \<Rightarrow> u32 \<Rightarrow> thermo_app callbacks" where
  "thermo_callbacks thr mem now = \<lparr>cb_init = thermo_init thr mem now,
     cb_fault = (\<lambda>fn i d r w. Some w), cb_run = thermo_handler now\<rparr>"

text \<open>\<open>main\<close>, from the registrations to the boot.\<close>

definition thermo_register :: "thermo_app world \<Rightarrow> thermo_app world" where
  "thermo_register w = snd (fb_temp_controller_register (snd (fb_temp_sensor_register
     (snd (fb_watchdog_register (snd (fb_nvm_register (snd (fb_timer_register w)))))))))"

definition thermo_main :: "u32 \<Rightarrow> thermo_app world \<Rightarrow> (int \<times> thermo_app world) option" where
  "thermo_main now w =
     (case embediq_engine_boot (\<lambda>n. True) (thermo_callbacks True True now) (thermo_register w) of
        None \<Rightarrow> None
      | Some (r, w) \<Rightarrow> Some (if r \<noteq> 0 then (1, w) else (0, embediq_engine_dispatch_boot (\<lambda>i. True) w)))"

text \<open>The static variables as the program loader leaves them; the flash is arbitrary.\<close>

definition thermo_cold :: "nvm_state \<Rightarrow> thermo_app world" where
  "thermo_cold nvm = world_initial \<lparr>da_timer = timer_off, da_nvm = nvm, da_wdg = wdg_off,
     ta_sensor = sensor_initial, ta_ctrl = ctrl_initial\<rparr>"

section \<open>The boot\<close>

definition thermo_cfgs :: "fb_config list" where
  "thermo_cfgs = [timer_config, nvm_config, wdg_config, sensor_config, ctrl_config]"

lemma thermo_five [simp]: "length thermo_cfgs = 5"
  by (simp add: thermo_cfgs_def)

definition thermo_sfs :: "nat \<Rightarrow> subfn_config list" where
  "thermo_sfs i = (if i = 3 then [sensor_subfn] else if i = 4 then [ctrl_subfn] else [])"

definition thermo_subs :: "sub_entry list" where
  "thermo_subs = [\<lparr>sub_msg_id = MSG_TIMER_1SEC, sub_ep_id = 3\<rparr>,
     \<lparr>sub_msg_id = MSG_TEMP_READING, sub_ep_id = 4\<rparr>]"

text \<open>The program's state after the first \<open>k\<close> init functions.\<close>

definition app_at :: "nat \<Rightarrow> u32 \<Rightarrow> nvm_state \<Rightarrow> thermo_app" where
  "app_at k now nvm = \<lparr>
     da_timer = (if k \<ge> 1 then timer_started else timer_off),
     da_nvm = (if k \<ge> 2 then nvm_init True (Some 1) nvm else nvm),
     da_wdg = (if k \<ge> 5 then wdg_at 0 [(4, CTRL_WDG_TIMEOUT_MS, now)]
               else if k \<ge> 3 then wdg_at 0 [] else wdg_off),
     ta_sensor = sensor_initial,
     ta_ctrl = (if k \<ge> 5 then ctrl_initial\<lparr>g_ctrl_fb := Some 4\<rparr> else ctrl_initial)\<rparr>"

lemma thermo_config_simps [simp]:
  "fc_init_fn sensor_config = Some FN_sensor_init" "fc_init_fn ctrl_config = Some FN_ctrl_init"
  "cfg_depends sensor_config = []" "cfg_depends ctrl_config = []"
  "fc_boot_phase sensor_config = 3" "fc_boot_phase ctrl_config = 3"
  "cfg_subs sensor_config = [MSG_TIMER_1SEC]" "cfg_subs ctrl_config = [MSG_TEMP_READING]"
  "fc_subscription_count sensor_config = 1" "fc_subscription_count ctrl_config = 1"
  by (simp_all add: sensor_config_def ctrl_config_def cfg_depends_def cfg_subs_def embediq_const)

lemma thermo_fn_ids: "FN_sensor_init = 52" "FN_ctrl_init = 54" "FN_sensor_tick = 51" "FN_ctrl_run = 53"
  by (simp_all add: FN_sensor_init_def FN_ctrl_init_def FN_sensor_tick_def FN_ctrl_run_def)

lemma thermo_registry: "g_registry (thermo_register (thermo_cold nvm)) = prog_reg thermo_cfgs sfs 0"
  by (simp add: thermo_register_def thermo_cold_def world_initial_def fb_timer_register_def
      fb_nvm_register_def fb_watchdog_register_def fb_temp_sensor_register_def
      fb_temp_controller_register_def embediq_fb_register_def fb_made_def EMBEDIQ_MAX_ENDPOINTS_def
      EMBEDIQ_MAX_SUBFNS_PER_FB_def prog_reg_def thermo_cfgs_def)

lemma thermo_register_keeps:
  "user (thermo_register w) = user w" "g_booted (thermo_register w) = g_booted w"
  "g_bus_booted (thermo_register w) = g_bus_booted w" "threads_off (thermo_register w) = threads_off w"
  by (simp_all add: thermo_register_def fb_timer_register_def fb_nvm_register_def fb_watchdog_register_def
      fb_temp_sensor_register_def fb_temp_controller_register_def fb_register_keeps)

lemma thermo_prog_subs: "prog_subs thermo_cfgs = thermo_subs"
  by (simp add: prog_subs_def prog_reg_def thermo_cfgs_def thermo_subs_def embediq_const)

lemma ctrl_init_fresh:
  "ctrl_init True now (Some 4) (ctrl_initial, wdg_at 0 [], w) =
     Done (ctrl_initial\<lparr>g_ctrl_fb := Some 4\<rparr>, wdg_at 0 [(4, CTRL_WDG_TIMEOUT_MS, now)],
       snd (embediq_subfn_register (Some 4) (Some ctrl_subfn) w))"
  by (simp add: ctrl_init_def embediq_wdg_register_def wdg_create_mutex_def wdg_locked_def
      wdg_at_def CTRL_WDG_TIMEOUT_MS_def WDG_MAX_SLOTS_def EMBEDIQ_MAX_ENDPOINTS_def)

lemma thermo_init_drivers:
  "fn \<in> {FN_timer_init, FN_nvm_init, FN_wdg_init} \<Longrightarrow> thermo_init thr mem now fn i d w = driver_init thr mem fn i w"
  by (auto simp: thermo_init_def driver_fn_ids thermo_fn_ids Let_def)

text \<open>The five init calls.\<close>

lemma thermo_inits:
  fixes v :: "thermo_app world"
  assumes "k < 5" and r: "g_registry v = prog_init_reg thermo_cfgs thermo_sfs k []"
    and u: "user v = app_at k now nvm" and b: "bus_idle 5 thermo_subs v"
  shows "\<exists>fn v'. fc_init_fn (thermo_cfgs ! k) = Some fn \<and> thermo_init True True now fn k d v = Some v' \<and>
    user v' = app_at (Suc k) now nvm \<and> g_registry v' = prog_init_reg thermo_cfgs thermo_sfs k (thermo_sfs k) \<and>
    boot_same v v'"
proof -
  have len: "k < length thermo_cfgs" using assms(1) by (simp add: thermo_cfgs_def)
  from assms(1) consider "k = 0" | "k = 1" | "k = 2" | "k = 3" | "k = 4" by linarith
  then show ?thesis
  proof cases
    case 1
    have "\<not> has_1ms_subscriber v"
      using no_1ms_subscriber [OF r len] by (auto simp: thermo_cfgs_def embediq_const)
    then show ?thesis
      using r u 1 by (simp add: thermo_cfgs_def thermo_sfs_def thermo_init_drivers driver_init_timer app_at_def)
  next
    case 2
    then show ?thesis
      using r u by (simp add: thermo_cfgs_def thermo_sfs_def thermo_init_drivers driver_init_nvm app_at_def)
  next
    case 3
    have "\<forall>s \<in> set thermo_subs. sub_msg_id s \<noteq> msg_id reset_reason_msg"
      by (auto simp: thermo_subs_def reset_reason_msg_def embediq_const)
    from driver_init_wdg [OF b this] show ?thesis
      using r u 3 by (simp add: thermo_cfgs_def thermo_sfs_def thermo_init_drivers app_at_def)
  next
    case 4
    have "thermo_init True True now FN_sensor_init k d v =
        Some (v\<lparr>g_registry := prog_init_reg thermo_cfgs thermo_sfs k (thermo_sfs k)\<rparr>)"
      using init_subfn [OF r len, of sensor_subfn] 4 by (simp add: thermo_init_def sensor_init_def thermo_sfs_def)
    then show ?thesis using u 4 by (simp add: thermo_cfgs_def app_at_def boot_same_def)
  next
    case 5
    have "thermo_init True True now FN_ctrl_init k d v = Some (v\<lparr>user := app_at (Suc k) now nvm,
        g_registry := prog_init_reg thermo_cfgs thermo_sfs k (thermo_sfs k)\<rparr>)"
      using init_subfn [OF r len, of ctrl_subfn] u 5
      by (simp add: thermo_init_def thermo_fn_ids thermo_sfs_def app_at_def ctrl_init_fresh)
    then show ?thesis using 5 by (simp add: thermo_cfgs_def)
  qed
qed

interpretation thermo: booting_program thermo_cfgs thermo_sfs "thermo_callbacks True True now"
  "\<lambda>k. app_at k now nvm" for now nvm
proof
  show "length thermo_cfgs \<le> 64" by simp
  show "\<And>c. c \<in> set thermo_cfgs \<Longrightarrow> cfg_depends c = []" by (auto simp: thermo_cfgs_def)
  have five: "[0..<5] = [0, 1, 2, 3, 4::nat]" by (simp add: upt_rec)
  show "concat (map (\<lambda>p. filter (\<lambda>i. fc_boot_phase (thermo_cfgs ! i) = p) [0..<length thermo_cfgs]) k_phases) =
      [0..<length thermo_cfgs]"
    unfolding thermo_five five by (simp add: thermo_cfgs_def k_phases_def embediq_const)
  show "\<And>k. k < length thermo_cfgs \<Longrightarrow> length (thermo_sfs k) \<le> 16 \<and> sorted (map sf_init_order (thermo_sfs k))"
    by (simp add: thermo_sfs_def)
  show "\<exists>fn v'. fc_init_fn (thermo_cfgs ! k) = Some fn \<and>
      cb_init (thermo_callbacks True True now) fn k (fc_fb_data (thermo_cfgs ! k)) v = Some v' \<and>
      user v' = app_at (Suc k) now nvm \<and> g_registry v' = prog_init_reg thermo_cfgs thermo_sfs k (thermo_sfs k) \<and>
      boot_same v v'"
    if "k < length thermo_cfgs" "g_registry v = prog_init_reg thermo_cfgs thermo_sfs k []"
      "user v = app_at k now nvm" "bus_idle (length thermo_cfgs) (prog_subs thermo_cfgs) v" for k v
    using thermo_inits [of k v now nvm "fc_fb_data (thermo_cfgs ! k)"] that
    by (simp add: thermo_callbacks_def thermo_prog_subs)
qed

abbreviation (input) thermo_reg :: "fb list" where
  "thermo_reg \<equiv> prog_reg thermo_cfgs thermo_sfs (length thermo_cfgs)"

lemma thermo_boots:
  "\<exists>w. thermo_main now (thermo_cold nvm) = Some (0, w) \<and>
     prog_at thermo_reg thermo_subs (prog_start thermo_cfgs (app_at 5 now nvm)) w \<and>
     g_boot_order w = [0, 1, 2, 3, 4] \<and> g_dispatch_task w ! 3 \<and> g_dispatch_task w ! 4"
proof -
  let ?w = "thermo_register (thermo_cold nvm)"
  have cold: "user ?w = app_at 0 now nvm" "\<not> g_booted ?w" "\<not> g_bus_booted ?w" "threads_off ?w"
    by (simp_all add: thermo_register_keeps)
      (simp_all add: thermo_cold_def world_initial_def app_at_def threads_off_def EMBEDIQ_MAX_ENDPOINTS_def)
  have n: "fc_subscription_count (thermo_cfgs ! 3) \<noteq> 0"
    "fc_subscription_count (thermo_cfgs ! 4) \<noteq> 0"
    by (simp_all add: thermo_cfgs_def)
  have five: "[0..<5] = [0, 1, 2, 3, 4::nat]" by (simp add: upt_rec)
  from thermo.boots [OF thermo_registry cold] show ?thesis
    unfolding thermo_five five thermo_prog_subs using n by (auto simp: thermo_main_def)
qed

text \<open>The program boots. From the load state, with any contents of the flash, main reaches its
  delay with return code 0: the five function blocks are RUNNING, initialised in the order of
  their phases and registrations; the table sends the second's tick to the sensor and the readings
  to the controller, who each have a dispatch thread; the watchdog is armed and watches the
  controller from now on; nothing is queued.\<close>

theorem thermostat_boots:
  "\<exists>w. thermo_main now (thermo_cold nvm) = Some (0, w) \<and>
     map fb_state (g_registry w) = replicate 5 STATE_RUNNING \<and> g_boot_order w = [0, 1, 2, 3, 4] \<and>
     g_subs w = [\<lparr>sub_msg_id = MSG_TIMER_1SEC, sub_ep_id = 3\<rparr>,
       \<lparr>sub_msg_id = MSG_TEMP_READING, sub_ep_id = 4\<rparr>] \<and>
     g_dispatch_task w ! 3 \<and> g_dispatch_task w ! 4 \<and> w_running (da_wdg (user w)) \<and>
     slots_map (w_slots (da_wdg (user w))) = [4 \<mapsto> (CTRL_WDG_TIMEOUT_MS, now)] \<and>
     (\<forall>e < 5. \<forall>p < 3. ep_items w e p = [])"
proof -
  obtain w where w: "thermo_main now (thermo_cold nvm) = Some (0, w)"
    "prog_at thermo_reg thermo_subs (prog_start thermo_cfgs (app_at 5 now nvm)) w"
    "g_boot_order w = [0, 1, 2, 3, 4]" "g_dispatch_task w ! 3" "g_dispatch_task w ! 4"
    using thermo_boots by blast
  then have "user w = app_at 5 now nvm" "g_subs w = thermo_subs" "\<forall>e < 5. \<forall>p < 3. ep_items w e p = []"
    "map fb_state (g_registry w) = replicate 5 STATE_RUNNING"
    by (simp_all add: prog_at_def prog_start_def prog_reg_def numeral_eq_Suc)
  with w show ?thesis
    by (intro exI [of _ w]) (simp add: thermo_subs_def app_at_def wdg_at_def)
qed

lemma thermostat_boots_witness:
  "\<exists>w. thermo_main 7 (thermo_cold (demo_nvm (disk None Io_Ok))) = Some (0, w) \<and>
     g_boot_order w = [0, 1, 2, 3, 4] \<and> ep_items w 3 1 = []"
  using thermostat_boots [of 7 "demo_nvm (disk None Io_Ok)"] by fastforce

end
