(* ===== verification/ThermoSystem.thy ===== *)
theory ThermoSystem
  imports ThermoBoot
begin

text \<open>
  The thermostat program of theory ThermoBoot after its boot. One second of the program is some
  rounds of the watchdog's monitor, a thousand rounds of the timer thread, and then the dispatch
  threads of the sensor and of the controller, each until it has to wait: the schedule in which
  every thread keeps up with the timer. The abstract machine of theory Machine carries it out, with
  the two handlers below.
\<close>

lemmas thermo_publish = thermo.running.publish [unfolded thermo_prog_subs]
  and thermo_serve = thermo.running.serve [unfolded thermo_prog_subs]
  and thermo_drivers = thermo.running.second [unfolded thermo_prog_subs]

section \<open>The handlers\<close>

definition sensor_step :: "embediq_msg \<Rightarrow> thermo_app prog \<Rightarrow> thermo_app prog option" where
  "sensor_step m s =
     (if msg_id m = MSG_TIMER_1SEC
      then let st = sensor_advance (ta_sensor (p_user s))
        in map_option (\<lambda>s'. s'\<lparr>p_user := (p_user s)\<lparr>ta_sensor := st\<rparr>\<rparr>)
             (prog_publish thermo_subs 3 (reading_msg (g_temp st)) s)
      else None)"

definition ctrl_step :: "u32 \<Rightarrow> embediq_msg \<Rightarrow> thermo_app prog \<Rightarrow> thermo_app prog option" where
  "ctrl_step now m s =
     (if msg_id m = MSG_TEMP_READING
      then case (ctrl_process (payload m) (ta_ctrl (p_user s)),
              embediq_wdg_checkin now (Some 4) (da_wdg (p_user s))) of
          (Some (cs, ev), Done ws) \<Rightarrow>
            Some (s\<lparr>p_user := (p_user s)\<lparr>ta_ctrl := cs\<lparr>g_reading_count := g_reading_count cs + 1\<rparr>, da_wdg := ws\<rparr>\<rparr>)
        | _ \<Rightarrow> None
      else None)"

lemma sensor_tick_publishes:
  "sensor_tick (Some i) (s, w) = map_option (Pair (sensor_advance s)) (publish_msg i (reading_msg (g_temp (sensor_advance s))) w)"
  by (cases "embediq_publish (Some i) (Some (reading_msg (g_temp (sensor_advance s)))) w")
    (auto simp: sensor_tick_def publish_msg_def Let_def)

lemma sensor_refines:
  "refines (prog_at thermo_reg thermo_subs) (sensor_step m)
     (dispatch_msg_to_fb (thermo_callbacks thr mem now) 3 (msg_id m) (payload m))"
  unfolding refines_def
proof (intro allI impI)
  fix s s' :: "thermo_app prog" and w
  let ?st = "sensor_advance (ta_sensor (p_user s))"
  assume at: "prog_at thermo_reg thermo_subs s w" and "sensor_step m s = Some s'"
  then obtain s1 where t: "msg_id m = MSG_TIMER_1SEC"
    and s1: "prog_publish thermo_subs 3 (reading_msg (g_temp ?st)) s = Some s1"
      "s' = s1\<lparr>p_user := (p_user s)\<lparr>ta_sensor := ?st\<rparr>\<rparr>"
    by (auto simp: sensor_step_def Let_def split: if_splits)
  obtain w1 where w1: "publish_msg 3 (reading_msg (g_temp ?st)) w = Some w1" "prog_at thermo_reg thermo_subs s1 w1"
    using refinesD [OF thermo_publish at s1(1)] by auto
  have "dispatch_msg_to_fb (thermo_callbacks thr mem now) 3 (msg_id m) (payload m) w =
      Some (w1\<lparr>user := (p_user s)\<lparr>ta_sensor := ?st\<rparr>\<rparr>)"
    using w1(1) prog_at_user_of [OF at]
    by (simp add: prog_dispatch [OF at] thermo_sfs_def t sensor_subfn_def subfn_subs_def thermo_callbacks_def
        thermo_handler_def sensor_tick_publishes Let_def)
  then show "\<exists>w'. dispatch_msg_to_fb (thermo_callbacks thr mem now) 3 (msg_id m) (payload m) w = Some w' \<and>
      prog_at thermo_reg thermo_subs s' w'"
    using prog_at_user [OF w1(2)] s1(2) by blast
qed

lemma ctrl_refines:
  "refines (prog_at thermo_reg thermo_subs) (ctrl_step now m)
     (dispatch_msg_to_fb (thermo_callbacks thr mem now) 4 (msg_id m) (payload m))"
  unfolding refines_def
proof (intro allI impI)
  fix s s' :: "thermo_app prog" and w
  assume at: "prog_at thermo_reg thermo_subs s w" and "ctrl_step now m s = Some s'"
  then obtain cs ev ws where t: "msg_id m = MSG_TEMP_READING"
    and c: "ctrl_process (payload m) (ta_ctrl (p_user s)) = Some (cs, ev)"
      "embediq_wdg_checkin now (Some 4) (da_wdg (p_user s)) = Done ws"
    and s': "s' = s\<lparr>p_user := (p_user s)\<lparr>ta_ctrl := cs\<lparr>g_reading_count := g_reading_count cs + 1\<rparr>, da_wdg := ws\<rparr>\<rparr>"
    by (auto simp: ctrl_step_def split: if_splits option.splits outcome.splits)
  have "dispatch_msg_to_fb (thermo_callbacks thr mem now) 4 (msg_id m) (payload m) w =
      Some ((log_calls ev w)\<lparr>user := p_user s'\<rparr>)"
    using c prog_at_user_of [OF at]
    by (simp add: prog_dispatch [OF at] thermo_sfs_def t ctrl_subfn_def subfn_subs_def thermo_callbacks_def
        thermo_handler_def ctrl_run_def thermo_fn_ids s')
  then show "\<exists>w'. dispatch_msg_to_fb (thermo_callbacks thr mem now) 4 (msg_id m) (payload m) w = Some w' \<and>
      prog_at thermo_reg thermo_subs s' w'"
    using prog_at_user [OF prog_at_log [OF at]] s' by auto
qed

section \<open>A second\<close>

text \<open>The monitor's rounds at the clocks \<open>chk\<close>, the timer's thousand rounds, and the two dispatch
  threads, with the controller's handler at the clock \<open>now\<close>.\<close>

definition thermo_second :: "u32 list \<times> u32 \<Rightarrow> thermo_app world \<Rightarrow> thermo_app world option" where
  "thermo_second = (\<lambda>(chk, now) w. do {
     w \<leftarrow> driver_second (thermo_callbacks True True now) chk w;
     w \<leftarrow> dispatch_serve (thermo_callbacks True True now) 3 w;
     dispatch_serve (thermo_callbacks True True now) 4 w })"

text \<open>The clocks of a run of the program: every monitor round is at most five seconds after the latest
  check-in.\<close>

fun clocks_ok :: "u32 \<Rightarrow> (u32 list \<times> u32) list \<Rightarrow> bool" where
  "clocks_ok t0 [] = True"
| "clocks_ok t0 ((chk, now) # cs) = (list_all (\<lambda>t. t - t0 \<le> 5000000) chk \<and> clocks_ok now cs)"

text \<open>The state of the controller after \<open>n\<close> readings, and that of the program after \<open>n\<close> seconds.\<close>

definition ctrl_at :: "nat \<Rightarrow> ctrl_state" where
  "ctrl_at n = ctrl_initial\<lparr>g_ctrl_fb := Some 4, g_reading_count := word_of_nat n,
     g_ctrl_sm := (g_ctrl_sm ctrl_initial)\<lparr>sm_current_state := thermo_phase n\<rparr>\<rparr>"

definition watched :: "u32 \<Rightarrow> (nat \<times> u32 \<times> u32) list" where
  "watched t = [(4, CTRL_WDG_TIMEOUT_MS, t)]"

definition app_after :: "nat \<Rightarrow> nat \<Rightarrow> u32 \<Rightarrow> u32 \<Rightarrow> nvm_state \<Rightarrow> thermo_app" where
  "app_after n k t now nvm = (app_at 5 now nvm)\<lparr>da_timer := counts_at (1000 * n) timer_started,
     da_wdg := wdg_at k (watched t), ta_sensor := sensor_at n, ta_ctrl := ctrl_at n\<rparr>"

lemma app_after_start: "app_after 0 0 now now nvm = app_at 5 now nvm"
  by (simp add: app_after_def app_at_def counts_at_def timer_started_def timer_off_def watched_def
      sensor_at_def sensor_initial_def wave_def wave_step_def ctrl_at_def ctrl_initial_def thermo_phase_def
      embediq_const)

lemma thermo_phase_le: "thermo_phase n \<le> 2"
  by (simp add: thermo_phase_def Let_def embediq_const)

lemma ctrl_step_at:
  assumes "ta_ctrl (p_user s) = ctrl_at n" and "da_wdg (p_user s) = wdg_at k (watched t)"
    and "msg_id m = MSG_TEMP_READING" and "payload m = le32 (f32_of_int (wave (Suc n))) @ rest"
  shows "ctrl_step now m s =
    Some (s\<lparr>p_user := (p_user s)\<lparr>ta_ctrl := ctrl_at (Suc n), da_wdg := wdg_at k (watched now)\<rparr>\<rparr>)"
proof -
  have ok: "ctrl_ok (ctrl_at n)"
    using thermo_phase_le by (simp add: ctrl_ok_def ctrl_at_def ctrl_initial_def)
  have st: "sm_current_state (g_ctrl_sm (ctrl_at n)) = thermo_phase n" by (simp add: ctrl_at_def)
  have "embediq_wdg_checkin now (Some 4) (wdg_at k (watched t)) = Done (wdg_at k (watched now))"
    by (simp add: embediq_wdg_checkin_def wdg_at_def watched_def wdg_locked_def is_slot_of_def)
  moreover have "(ctrl_at n)\<lparr>g_ctrl_sm := (g_ctrl_sm (ctrl_at n))\<lparr>sm_current_state := thermo_phase (Suc n)\<rparr>,
      g_reading_count := g_reading_count (ctrl_at n) + 1\<rparr> = ctrl_at (Suc n)"
    by (simp add: ctrl_at_def add.commute)
  ultimately show ?thesis
    using ctrl_process_step [OF ok assms(4)] assms(1-3) unfolding st thermo_phase_Suc [symmetric]
    by (simp add: ctrl_step_def)
qed

text \<open>The machine in a second of the program.\<close>

lemma thermo_targets:
  "prog_targets thermo_subs MSG_TIMER_1SEC = [3]" "prog_targets thermo_subs MSG_TEMP_READING = [4]"
  "prog_targets thermo_subs MSG_TIMER_10MS = []" "prog_targets thermo_subs MSG_TIMER_100MS = []"
  by (simp_all add: prog_targets_def thermo_subs_def embediq_const)

definition thermo_point :: "thermo_app \<Rightarrow> u32 \<Rightarrow> u32 \<Rightarrow> embediq_msg list \<Rightarrow> embediq_msg list \<Rightarrow> thermo_app prog" where
  "thermo_point u x y a b = \<lparr>p_user = u, p_tokens = (p_tokens (prog_start thermo_cfgs u))(3 := Some x, 4 := Some y),
     p_queue = (\<lambda>e. [])(3 := a, 4 := b)\<rparr>"

lemma thermo_point_simps [simp]:
  "p_user (thermo_point u x y a b) = u"
  "p_tokens (thermo_point u x y a b) 3 = Some x" "p_tokens (thermo_point u x y a b) 4 = Some y"
  "p_queue (thermo_point u x y a b) 3 = a" "p_queue (thermo_point u x y a b) 4 = b"
  "(thermo_point u x y a b)\<lparr>p_user := v\<rparr> = thermo_point v x y a b"
  "(thermo_point u x y a b)\<lparr>p_tokens := (p_tokens (thermo_point u x y a b))(3 := Some x')\<rparr> = thermo_point u x' y a b"
  "(thermo_point u x y a b)\<lparr>p_tokens := (p_tokens (thermo_point u x y a b))(4 := Some y')\<rparr> = thermo_point u x y' a b"
  "(thermo_point u x y a b)\<lparr>p_queue := (p_queue (thermo_point u x y a b))(3 := a')\<rparr> = thermo_point u x y a' b"
  "(thermo_point u x y a b)\<lparr>p_queue := (p_queue (thermo_point u x y a b))(4 := b')\<rparr> = thermo_point u x y a b'"
  "length a < 32 \<Longrightarrow> x \<noteq> UINT32_MAX \<Longrightarrow> prog_post m 3 (thermo_point u x y a b) = Some (thermo_point u (x + 1) y (a @ [m]) b)"
  "length b < 32 \<Longrightarrow> y \<noteq> UINT32_MAX \<Longrightarrow> prog_post m 4 (thermo_point u x y a b) = Some (thermo_point u x (y + 1) a (b @ [m]))"
  by (simp_all add: thermo_point_def prog_start_def prog_post_def fun_eq_iff)

lemma thermo_point_start: "prog_start thermo_cfgs u = thermo_point u 0 0 [] []"
  by (simp add: thermo_point_def prog_start_def fun_eq_iff thermo_cfgs_def)

lemma sensor_serves:
  assumes "ta_sensor u = sensor_at n" and "msg_id m = MSG_TIMER_1SEC"
  shows "prog_serve sensor_step 3 3 (thermo_point u 1 0 [m] []) =
    Some (thermo_point (u\<lparr>ta_sensor := sensor_at (Suc n)\<rparr>) 0 1 []
      [(reading_msg (f32_of_int (wave (Suc n))))\<lparr>source_endpoint_id := 3\<rparr>])"
proof -
  have r: "msg_id (reading_msg t) = MSG_TEMP_READING" for t by (simp add: reading_msg_def)
  have "sensor_step m (thermo_point u 0 0 [] []) =
    Some (thermo_point (u\<lparr>ta_sensor := sensor_at (Suc n)\<rparr>) 0 1 []
      [(reading_msg (f32_of_int (wave (Suc n))))\<lparr>source_endpoint_id := 3\<rparr>])"
    by (simp add: sensor_step_def assms sensor_advance_wave prog_publish_def reading_msg_normal r thermo_targets
        Let_def) (simp add: sensor_at_def)
  then show ?thesis by simp
qed

lemma ctrl_serves:
  assumes "ta_ctrl u = ctrl_at n" and "da_wdg u = wdg_at k (watched t)"
  shows "prog_serve (ctrl_step now) 4 3
      (thermo_point u 0 1 [] [(reading_msg (f32_of_int (wave (Suc n))))\<lparr>source_endpoint_id := 3\<rparr>]) =
    Some (thermo_point (u\<lparr>ta_ctrl := ctrl_at (Suc n), da_wdg := wdg_at k (watched now)\<rparr>) 0 0 [] [])"
  using assms
  by (simp add: ctrl_step_at [where n = n and k = k and t = t] reading_msg_def)

lemma thermo_second_step:
  assumes "prog_at thermo_reg thermo_subs (thermo_point (app_after n k t start nvm) 0 0 [] []) w"
    and "1000 * Suc n < 2 ^ 32" and "list_all (\<lambda>s. s - t \<le> 5000000) chk"
  shows "\<exists>w'. thermo_second (chk, now) w = Some w' \<and> prog_at thermo_reg thermo_subs
    (thermo_point (app_after (Suc n) (k + length chk) now start nvm) 0 0 [] []) w'"
proof -
  let ?cb = "thermo_callbacks True True now" and ?k = "k + length chk"
  let ?tick = "(plain_msg MSG_TIMER_1SEC)\<lparr>source_endpoint_id := 0\<rparr>"
  let ?r = "(reading_msg (f32_of_int (wave (Suc n))))\<lparr>source_endpoint_id := 3\<rparr>"
  let ?u1 = "(app_after n ?k t start nvm)\<lparr>da_timer := counts_at (1000 * Suc n) timer_started\<rparr>"
  let ?u2 = "?u1\<lparr>ta_sensor := sensor_at (Suc n)\<rparr>"
  have u: "(app_after n k t start nvm)\<lparr>da_wdg := wdg_at ?k (watched t)\<rparr> = app_after n ?k t start nvm"
    by (simp add: app_after_def)
  have tick: "prog_publish thermo_subs 0 (plain_msg MSG_TIMER_1SEC) (thermo_point v 0 0 [] []) =
      Some (thermo_point v 1 0 [?tick] [])" for v
    by (simp add: prog_publish_def thermo_targets)
  let ?s = "thermo_point (app_after n k t start nvm) 0 0 [] []"
  have da: "da_wdg (p_user ?s) = wdg_at k (watched t)" "da_timer (p_user ?s) = counts_at (1000 * n) timer_started"
    by (simp_all add: app_after_def)
  have ok: "\<forall>s \<in> set chk. in_time s (watched t)"
    using assms(3) by (auto simp: in_time_def watched_def list_all_iff CTRL_WDG_TIMEOUT_MS_def)
  have "prog_publish thermo_subs 0 (plain_msg MSG_TIMER_1SEC)
      (?s\<lparr>p_user := (p_user ?s)\<lparr>da_wdg := wdg_at ?k (watched t)\<rparr>\<rparr>) =
      Some (thermo_point (app_after n ?k t start nvm) 1 0 [?tick] [])"
    by (simp only: thermo_point_simps u tick)
  from thermo_drivers [OF assms(1) _ da(1) ok da(2) assms(2) thermo_targets(3,4) this, of ?cb] obtain w1 where
    w1: "driver_second ?cb chk w = Some w1" "prog_at thermo_reg thermo_subs (thermo_point ?u1 1 0 [?tick] []) w1"
    by auto
  have "prog_serve sensor_step 3 3 (thermo_point ?u1 1 0 [?tick] []) = Some (thermo_point ?u2 0 1 [] [?r])"
    by (rule sensor_serves) (simp_all add: app_after_def)
  from refinesD [OF thermo_serve [OF _ sensor_refines [of _ True True now]] w1(2) this] obtain w2 where
    w2: "dispatch_serve ?cb 3 w1 = Some w2" "prog_at thermo_reg thermo_subs (thermo_point ?u2 0 1 [] [?r]) w2"
    by auto
  have "prog_serve (ctrl_step now) 4 3 (thermo_point ?u2 0 1 [] [?r]) =
      Some (thermo_point (?u2\<lparr>ta_ctrl := ctrl_at (Suc n), da_wdg := wdg_at ?k (watched now)\<rparr>) 0 0 [] [])"
    by (rule ctrl_serves) (simp_all add: app_after_def)
  also have "?u2\<lparr>ta_ctrl := ctrl_at (Suc n), da_wdg := wdg_at ?k (watched now)\<rparr> = app_after (Suc n) ?k now start nvm"
    by (simp add: app_after_def)
  finally have "prog_serve (ctrl_step now) 4 3 (thermo_point ?u2 0 1 [] [?r]) =
      Some (thermo_point (app_after (Suc n) ?k now start nvm) 0 0 [] [])" .
  from refinesD [OF thermo_serve [OF _ ctrl_refines [of now _ True True]] w2(2) this] obtain w3 where
    "dispatch_serve ?cb 4 w2 = Some w3"
    "prog_at thermo_reg thermo_subs (thermo_point (app_after (Suc n) ?k now start nvm) 0 0 [] []) w3"
    by auto
  then show ?thesis using w1(1) w2(1) by (simp add: thermo_second_def)
qed

lemma thermo_seconds:
  assumes "prog_at thermo_reg thermo_subs (thermo_point (app_after n k t start nvm) 0 0 [] []) w"
    and "1000 * (n + length clk) < 2 ^ 32" and "clocks_ok t clk"
  shows "\<exists>w' t'. run_list thermo_second clk w = Some w' \<and> prog_at thermo_reg thermo_subs
      (thermo_point (app_after (n + length clk) (k + sum_list (map (length \<circ> fst) clk)) t' start nvm) 0 0 [] []) w' \<and>
    t' = last (t # map snd clk)"
  using assms
proof (induction clk arbitrary: n k t w)
  case (Cons c clk)
  obtain chk now where c: "c = (chk, now)" by fastforce
  obtain w1 where w1: "thermo_second (chk, now) w = Some w1" "prog_at thermo_reg thermo_subs
      (thermo_point (app_after (Suc n) (k + length chk) now start nvm) 0 0 [] []) w1"
    using thermo_second_step [OF Cons.prems(1), of chk now] Cons.prems(2,3) by (auto simp: c)
  from Cons.IH [OF w1(2)] Cons.prems(2,3) w1(1) show ?case by (auto simp: c add.assoc)
qed simp

text \<open>C5: the program as a whole, from its load state. For any number n of seconds up to the wrap of
  the tick counter and any clock readings with every monitor round at most five seconds after the
  latest check-in: main boots, and in the n seconds every thread comes back to its wait. Then the
  sensor is at the n-th point of its wave; the controller has handled the n readings and is NORMAL,
  WARNING or CRITICAL by n mod 28, entering WARNING at 12, CRITICAL at 14 and NORMAL at 19; the
  watchdog was kicked in each of its rounds, counted no fault, and knows the latest check-in; no
  message was left in any queue.\<close>

theorem thermostat_end_to_end:
  assumes "length clk = n" and "n < 4294967" and "clocks_ok start clk"
  shows "\<exists>booted w. thermo_main start (thermo_cold nvm) = Some (0, booted) \<and>
    run_list thermo_second clk booted = Some w \<and>
    g_temp (ta_sensor (user w)) = f32_of_int (wave n) \<and>
    ctrl__reading_count (ta_ctrl (user w)) = word_of_nat n \<and>
    sm_current_state (g_ctrl_sm (ta_ctrl (user w))) =
      (let r = n mod 28 in if r < 12 then CTRL_NORMAL else if r < 14 then CTRL_WARNING
       else if r < 19 then CTRL_CRITICAL else CTRL_NORMAL) \<and>
    wdg__fault_count (da_wdg (user w)) = 0 \<and>
    w_kick_seq (da_wdg (user w)) = word_of_nat (sum_list (map (length \<circ> fst) clk)) \<and>
    slots_map (w_slots (da_wdg (user w))) = [4 \<mapsto> (5000, last (start # map snd clk))] \<and>
    fb_timer__count_1sec (da_timer (user w)) = word_of_nat n \<and>
    (\<forall>e < 5. \<forall>p < 3. ep_items w e p = [])"
proof -
  obtain booted where b: "thermo_main start (thermo_cold nvm) = Some (0, booted)"
    "prog_at thermo_reg thermo_subs (thermo_point (app_after 0 0 start start nvm) 0 0 [] []) booted"
    using thermo_boots thermo_point_start app_after_start by metis
  let ?u = "app_after n (sum_list (map (length \<circ> fst) clk)) (last (start # map snd clk)) start nvm"
  obtain w where w: "run_list thermo_second clk booted = Some w"
    "prog_at thermo_reg thermo_subs (thermo_point ?u 0 0 [] []) w"
    using thermo_seconds [OF b(2), of clk] assms by auto
  then have "user w = ?u" "\<forall>e < 5. \<forall>p < 3. ep_items w e p = []"
    by (simp_all add: prog_at_def thermo_point_def)
  with b(1) w(1) show ?thesis
    by (intro exI [of _ booted] exI [of _ w])
      (simp add: app_after_def counts_at_def wdg_at_def watched_def sensor_at_def ctrl_at_def
        thermo_phase_def ctrl__reading_count_def wdg__fault_count_def fb_timer__count_1sec_def
        CTRL_WDG_TIMEOUT_MS_def del: last.simps)
qed

text \<open>Fifteen seconds with a monitor round at each half: the controller is CRITICAL.\<close>

lemma thermostat_end_to_end_witness:
  "\<exists>booted w. thermo_main 0 (thermo_cold (demo_nvm (disk None Io_Ok))) = Some (0, booted) \<and>
     run_list thermo_second (map (\<lambda>k. ([word_of_nat k * 1000000 + 500000], word_of_nat (Suc k) * 1000000)) [0..<15]) booted = Some w \<and>
     sm_current_state (g_ctrl_sm (ta_ctrl (user w))) = CTRL_CRITICAL"
  using thermostat_end_to_end [of "map (\<lambda>k. ([word_of_nat k * 1000000 + 500000], word_of_nat (Suc k) * 1000000)) [0..<15]"
      15 0 "demo_nvm (disk None Io_Ok)"]
  by (auto simp: upt_rec Let_def)

end
