(* ===== verification/GatewaySystem.thy ===== *)
theory GatewaySystem
  imports Gateway Drivers
begin

text \<open>
  The gateway program examples/gateway/main.c as a whole: its six function blocks, their registration,
  the boot as an instance of \<open>booting_program\<close>, and its run second by second under the dispatcher,
  on the abstract machine of theory Machine.
\<close>

section \<open>The program\<close>

record gw_app = driver_app +
  ga_tick :: u32
  ga_policy :: policy_state
  ga_sm :: north_sm
  ga_north :: north_state

definition gw_init ::
  "bool \<Rightarrow> bool \<Rightarrow> nat \<Rightarrow> nat \<Rightarrow> nat \<Rightarrow> gw_app world \<Rightarrow> gw_app world option" where
  "gw_init thr mem fn i d w =
     (if fn = FN_field_receiver_init then Some (field_receiver_init (Some i) w)
      else if fn = FN_policy_engine_init then Some (policy_engine_init (Some i) w)
      else if fn = FN_north_bridge_init then Some (north_bridge_init (Some i) w)
      else driver_init thr mem fn i w)"

definition gw_handler ::
  "u16 \<Rightarrow> nat \<Rightarrow> nat \<Rightarrow> bytes \<Rightarrow> nat \<Rightarrow> nat \<Rightarrow> gw_app world \<Rightarrow> gw_app world option" where
  "gw_handler pad fn i msg d sd w =
     (let a = user w in
      if fn = FN_field_poll
      then map_option (\<lambda>(t, w). w\<lparr>user := a\<lparr>ga_tick := t\<rparr>\<rparr>) (field_poll pad (Some i) (ga_tick a, w))
      else if fn = FN_policy_run
      then map_option (\<lambda>(ps, w). w\<lparr>user := a\<lparr>ga_policy := ps\<rparr>\<rparr>) (policy_run pad (Some i) msg (ga_policy a, w))
      else if fn = FN_north_timer
      then map_option (\<lambda>(sm, ns, ev). (log_calls ev w)\<lparr>user := a\<lparr>ga_sm := sm, ga_north := ns\<rparr>\<rparr>)
             (north_timer msg (ga_sm a, ga_north a))
      else if fn = FN_north_rx then Some (w\<lparr>user := a\<lparr>ga_north := north_rx msg (ga_north a)\<rparr>\<rparr>)
      else Some w)"

definition gw_callbacks :: "bool \<Rightarrow> bool \<Rightarrow> u16 \<Rightarrow> gw_app callbacks" where
  "gw_callbacks thr mem pad = \<lparr>cb_init = gw_init thr mem, cb_fault = (\<lambda>fn i d r w. Some w), cb_run = gw_handler pad\<rparr>"

text \<open>\<open>main\<close>, from the registrations to the boot.\<close>

definition gw_register :: "gw_app world \<Rightarrow> gw_app world" where
  "gw_register w = snd (fb_north_bridge_register (snd (fb_policy_engine_register
     (snd (fb_field_receiver_register (snd (fb_watchdog_register (snd (fb_nvm_register
     (snd (fb_timer_register w)))))))))))"

definition gw_main :: "u16 \<Rightarrow> gw_app world \<Rightarrow> (int \<times> gw_app world) option" where
  "gw_main pad w =
     (case embediq_engine_boot (\<lambda>n. True) (gw_callbacks True True pad) (gw_register w) of
        None \<Rightarrow> None
      | Some (r, w) \<Rightarrow> Some (if r \<noteq> 0 then (1, w) else (0, embediq_engine_dispatch_boot (\<lambda>i. True) w)))"

definition gw_cold :: "nvm_state \<Rightarrow> gw_app world" where
  "gw_cold nvm = world_initial \<lparr>da_timer = timer_off, da_nvm = nvm, da_wdg = wdg_off, ga_tick = 0,
     ga_policy = \<lparr>g_alert_active = replicate 3 False, g_telem_counter = replicate 3 0, g_telem_seq = replicate 3 0\<rparr>,
     ga_sm = fst north_initial, ga_north = snd north_initial\<rparr>"

section \<open>The boot\<close>

definition field_config :: fb_config where
  "field_config = gw_config ''fb_field_receiver'' FN_field_receiver_init [MSG_TIMER_1SEC] [MSG_FIELD_READING]"

definition policy_config :: fb_config where
  "policy_config = gw_config ''fb_policy_engine'' FN_policy_engine_init [MSG_FIELD_READING] [MSG_ALERT, MSG_TELEMETRY]"

definition north_config :: fb_config where
  "north_config = gw_config ''fb_north_bridge'' FN_north_bridge_init [MSG_TIMER_1SEC, MSG_TELEMETRY, MSG_ALERT] []"

definition gw_cfgs :: "fb_config list" where
  "gw_cfgs = [timer_config, nvm_config, wdg_config, field_config, policy_config, north_config]"

lemma gw_six [simp]: "length gw_cfgs = 6"
  by (simp add: gw_cfgs_def)

definition gw_sfs :: "nat \<Rightarrow> subfn_config list" where
  "gw_sfs i = (if i = 3 then [gw_subfn ''field_poll'' 1 FN_field_poll [MSG_TIMER_1SEC] 0]
     else if i = 4 then [gw_subfn ''policy_run'' 1 FN_policy_run [MSG_FIELD_READING] 0]
     else if i = 5 then [gw_subfn ''north_timer'' 1 FN_north_timer [MSG_TIMER_1SEC] 1,
        gw_subfn ''north_rx'' 2 FN_north_rx [MSG_TELEMETRY, MSG_ALERT] 0]
     else [])"

definition gw_subs :: "sub_entry list" where
  "gw_subs = [\<lparr>sub_msg_id = MSG_TIMER_1SEC, sub_ep_id = 3\<rparr>, \<lparr>sub_msg_id = MSG_TIMER_1SEC, sub_ep_id = 5\<rparr>,
     \<lparr>sub_msg_id = MSG_FIELD_READING, sub_ep_id = 4\<rparr>, \<lparr>sub_msg_id = MSG_ALERT, sub_ep_id = 5\<rparr>,
     \<lparr>sub_msg_id = MSG_TELEMETRY, sub_ep_id = 5\<rparr>]"

text \<open>The policy engine after \<open>j\<close> readings of value 0, and the north bridge after \<open>n\<close> ticks without data.\<close>

definition policy_after :: "nat \<Rightarrow> policy_state" where
  "policy_after j = \<lparr>g_alert_active = [False, False, False],
     g_telem_counter = [of_bool (odd j), 0, 0], g_telem_seq = [word_of_nat (j div 2), 0, 0]\<rparr>"

definition links :: "nat \<Rightarrow> north_out list" where
  "links n = (if n < 12 then [] else if n < 22 then [Link_Down 12]
     else if n < 23 then [Link_Down 12, Link_Reconnecting 22]
     else [Link_Down 12, Link_Reconnecting 22, Link_Restored 23 0])"

definition north_after :: "nat \<Rightarrow> north_sm \<times> north_state" where
  "north_after n = ((fst north_initial)\<lparr>sm_current_state := north_at n\<rparr>,
     \<lparr>n_tick = word_of_nat n, g_conn_state = north_at n, g_buffer = [], n_out = links n\<rparr>)"

definition gw_after :: "nat \<Rightarrow> nat \<Rightarrow> nvm_state \<Rightarrow> gw_app" where
  "gw_after n k nvm = \<lparr>da_timer = counts_at (1000 * n) timer_started, da_nvm = nvm_init True (Some 1) nvm,
     da_wdg = wdg_at k [], ga_tick = word_of_nat n, ga_policy = policy_after (3 * n),
     ga_sm = fst (north_after n), ga_north = snd (north_after n)\<rparr>"

definition gw_app_at :: "nat \<Rightarrow> nvm_state \<Rightarrow> gw_app" where
  "gw_app_at k nvm = (gw_after 0 0 nvm)\<lparr>da_timer := (if k \<ge> 1 then timer_started else timer_off),
     da_nvm := (if k \<ge> 2 then nvm_init True (Some 1) nvm else nvm),
     da_wdg := (if k \<ge> 3 then wdg_at 0 [] else wdg_off)\<rparr>"

lemma gw_config_simps [simp]:
  "fc_init_fn field_config = Some FN_field_receiver_init" "fc_init_fn policy_config = Some FN_policy_engine_init"
  "fc_init_fn north_config = Some FN_north_bridge_init"
  "cfg_depends field_config = []" "cfg_depends policy_config = []" "cfg_depends north_config = []"
  "fc_boot_phase field_config = 3" "fc_boot_phase policy_config = 3" "fc_boot_phase north_config = 3"
  "cfg_subs field_config = [MSG_TIMER_1SEC]" "cfg_subs policy_config = [MSG_FIELD_READING]"
  "cfg_subs north_config = [MSG_TIMER_1SEC, MSG_TELEMETRY, MSG_ALERT]"
  "fc_subscription_count field_config = 1" "fc_subscription_count policy_config = 1"
  "fc_subscription_count north_config = 3"
  by (simp_all add: field_config_def policy_config_def north_config_def gw_config_def cfg_depends_def cfg_subs_def
      embediq_const)

lemma gw_fn_ids: "FN_field_poll = 81" "FN_field_receiver_init = 82" "FN_policy_run = 83"
  "FN_policy_engine_init = 84" "FN_north_timer = 85" "FN_north_rx = 86" "FN_north_bridge_init = 87"
  by (simp_all add: FN_field_poll_def FN_field_receiver_init_def FN_policy_run_def FN_policy_engine_init_def
      FN_north_timer_def FN_north_rx_def FN_north_bridge_init_def)

lemma gw_registry: "g_registry (gw_register (gw_cold nvm)) = prog_reg gw_cfgs sfs 0"
  by (simp add: gw_register_def gw_cold_def world_initial_def fb_timer_register_def fb_nvm_register_def
      fb_watchdog_register_def fb_field_receiver_register_def fb_policy_engine_register_def
      fb_north_bridge_register_def embediq_fb_register_def fb_made_def EMBEDIQ_MAX_ENDPOINTS_def
      EMBEDIQ_MAX_SUBFNS_PER_FB_def prog_reg_def gw_cfgs_def field_config_def policy_config_def north_config_def)

lemma gw_register_keeps:
  "user (gw_register w) = user w" "g_booted (gw_register w) = g_booted w"
  "g_bus_booted (gw_register w) = g_bus_booted w" "threads_off (gw_register w) = threads_off w"
  by (simp_all add: gw_register_def fb_timer_register_def fb_nvm_register_def fb_watchdog_register_def
      fb_field_receiver_register_def fb_policy_engine_register_def fb_north_bridge_register_def fb_register_keeps)

lemma gw_prog_subs: "prog_subs gw_cfgs = gw_subs"
  by (simp add: prog_subs_def prog_reg_def gw_cfgs_def gw_subs_def embediq_const)

lemma gw_init_drivers:
  "fn \<in> {FN_timer_init, FN_nvm_init, FN_wdg_init} \<Longrightarrow> gw_init thr mem fn i d w = driver_init thr mem fn i w"
  by (auto simp: gw_init_def driver_fn_ids gw_fn_ids)

lemma gw_inits:
  fixes v :: "gw_app world"
  assumes "k < 6" and r: "g_registry v = prog_init_reg gw_cfgs gw_sfs k []"
    and u: "user v = gw_app_at k nvm" and b: "bus_idle 6 gw_subs v"
  shows "\<exists>fn v'. fc_init_fn (gw_cfgs ! k) = Some fn \<and> gw_init True True fn k d v = Some v' \<and>
    user v' = gw_app_at (Suc k) nvm \<and> g_registry v' = prog_init_reg gw_cfgs gw_sfs k (gw_sfs k) \<and> boot_same v v'"
proof -
  have len: "k < length gw_cfgs" using assms(1) by simp
  have late: "user v = gw_app_at (Suc k) nvm" if "3 \<le> k" using u that by (simp add: gw_app_at_def)
  from assms(1) consider "k = 0" | "k = 1" | "k = 2" | "k = 3" | "k = 4" | "k = 5" by linarith
  then show ?thesis
  proof cases
    case 1
    have "\<not> has_1ms_subscriber v"
      using no_1ms_subscriber [OF r len] by (auto simp: gw_cfgs_def embediq_const)
    then show ?thesis
      using r u 1 by (simp add: gw_cfgs_def gw_sfs_def gw_init_drivers driver_init_timer gw_app_at_def)
  next
    case 2
    then show ?thesis
      using r u by (simp add: gw_cfgs_def gw_sfs_def gw_init_drivers driver_init_nvm gw_app_at_def)
  next
    case 3
    have "\<forall>s \<in> set gw_subs. sub_msg_id s \<noteq> msg_id reset_reason_msg"
      by (auto simp: gw_subs_def reset_reason_msg_def embediq_const)
    from driver_init_wdg [OF b this] show ?thesis
      using r u 3 by (simp add: gw_cfgs_def gw_sfs_def gw_init_drivers gw_app_at_def)
  next
    case 4
    then show ?thesis
      using init_subfn [OF r len, of "hd (gw_sfs 3)"] late
      by (simp add: gw_init_def field_receiver_init_def gw_sfs_def boot_same_def nth_Cons' gw_cfgs_def)
  next
    case 5
    then show ?thesis
      using init_subfn [OF r len, of "hd (gw_sfs 4)"] late
      by (simp add: gw_init_def gw_fn_ids policy_engine_init_def gw_sfs_def boot_same_def gw_cfgs_def)
  next
    case 6
    have o: "sf_init_order (gw_subfn a x f b c) = x" for a x f b c by (simp add: gw_subfn_def)
    let ?v = "v\<lparr>g_registry := prog_init_reg gw_cfgs gw_sfs k [hd (gw_sfs 5)]\<rparr>"
    have "snd (embediq_subfn_register (Some k) (Some (hd (gw_sfs 5))) v) = ?v"
      using init_subfn [OF r len, of "hd (gw_sfs 5)"] by simp
    moreover have "snd (embediq_subfn_register (Some k) (Some (last (gw_sfs 5))) ?v) =
        v\<lparr>g_registry := prog_init_reg gw_cfgs gw_sfs k (gw_sfs 5)\<rparr>"
      using init_subfn [of ?v gw_cfgs gw_sfs k "[hd (gw_sfs 5)]" "last (gw_sfs 5)"] len
      by (simp add: gw_sfs_def o)
    ultimately have "north_bridge_init (Some k) v = v\<lparr>g_registry := prog_init_reg gw_cfgs gw_sfs k (gw_sfs 5)\<rparr>"
      by (simp add: north_bridge_init_def gw_sfs_def)
    then show ?thesis
      using late 6 by (simp add: gw_init_def gw_fn_ids boot_same_def gw_cfgs_def)
  qed
qed

interpretation gw: booting_program gw_cfgs gw_sfs "gw_callbacks True True pad" "\<lambda>k. gw_app_at k nvm" for pad nvm
proof
  show "length gw_cfgs \<le> 64" by simp
  show "\<And>c. c \<in> set gw_cfgs \<Longrightarrow> cfg_depends c = []" by (auto simp: gw_cfgs_def)
  have six: "[0..<6] = [0, 1, 2, 3, 4, 5::nat]" by (simp add: upt_rec)
  show "concat (map (\<lambda>p. filter (\<lambda>i. fc_boot_phase (gw_cfgs ! i) = p) [0..<length gw_cfgs]) k_phases) =
      [0..<length gw_cfgs]"
    unfolding gw_six six by (simp add: gw_cfgs_def k_phases_def embediq_const)
  show "\<And>k. k < length gw_cfgs \<Longrightarrow> length (gw_sfs k) \<le> 16 \<and> sorted (map sf_init_order (gw_sfs k))"
    by (simp add: gw_sfs_def gw_subfn_def)
  show "\<exists>fn v'. fc_init_fn (gw_cfgs ! k) = Some fn \<and>
      cb_init (gw_callbacks True True pad) fn k (fc_fb_data (gw_cfgs ! k)) v = Some v' \<and>
      user v' = gw_app_at (Suc k) nvm \<and> g_registry v' = prog_init_reg gw_cfgs gw_sfs k (gw_sfs k) \<and> boot_same v v'"
    if "k < length gw_cfgs" "g_registry v = prog_init_reg gw_cfgs gw_sfs k []"
      "user v = gw_app_at k nvm" "bus_idle (length gw_cfgs) (prog_subs gw_cfgs) v" for k v
    using gw_inits [of k v nvm "fc_fb_data (gw_cfgs ! k)"] that by (simp add: gw_callbacks_def gw_prog_subs)
qed

abbreviation (input) gw_reg :: "fb list" where
  "gw_reg \<equiv> prog_reg gw_cfgs gw_sfs (length gw_cfgs)"

lemma gw_boots:
  "\<exists>w. gw_main pad (gw_cold nvm) = Some (0, w) \<and>
     prog_at gw_reg gw_subs (prog_start gw_cfgs (gw_after 0 0 nvm)) w \<and> g_boot_order w = [0, 1, 2, 3, 4, 5]"
proof -
  let ?w = "gw_register (gw_cold nvm)"
  have cold: "user ?w = gw_app_at 0 nvm" "\<not> g_booted ?w" "\<not> g_bus_booted ?w" "threads_off ?w"
    by (simp_all add: gw_register_keeps)
      (simp_all add: gw_cold_def world_initial_def gw_app_at_def gw_after_def policy_after_def north_after_def
        north_initial_def north_at_def links_def threads_off_def EMBEDIQ_MAX_ENDPOINTS_def numeral_3_eq_3 embediq_const)
  have app: "gw_app_at 6 nvm = gw_after 0 0 nvm"
    by (simp add: gw_app_at_def gw_after_def counts_at_def timer_started_def timer_off_def)
  have six: "[0..<6] = [0, 1, 2, 3, 4, 5::nat]" by (simp add: upt_rec)
  from gw.boots [where pad = pad, OF gw_registry cold] show ?thesis
    unfolding gw_six six gw_prog_subs app by (auto simp: gw_main_def)
qed

section \<open>The handlers\<close>

lemmas gw_publish_all = gw.running.publish_all [unfolded gw_prog_subs]
  and gw_serve = gw.running.serve [unfolded gw_prog_subs]
  and gw_drivers = gw.running.second [unfolded gw_prog_subs]

definition field_msgs :: "u16 \<Rightarrow> u32 \<Rightarrow> embediq_msg list" where
  "field_msgs pad tick = (case k_frames ! (unat tick mod length k_frames) of (temp, pressure, flow) \<Rightarrow>
     [field_msg pad SENSOR_TANK_TEMP UNIT_CELSIUS temp, field_msg pad SENSOR_TANK_PRESSURE UNIT_BAR pressure,
      field_msg pad SENSOR_PUMP_FLOW UNIT_LPM flow])"

definition field_step :: "u16 \<Rightarrow> embediq_msg \<Rightarrow> gw_app prog \<Rightarrow> gw_app prog option" where
  "field_step pad m s =
     (if msg_id m = MSG_TIMER_1SEC
      then map_option (\<lambda>s'. s'\<lparr>p_user := (p_user s)\<lparr>ga_tick := ga_tick (p_user s) + 1\<rparr>\<rparr>)
             (run_list (prog_publish gw_subs 3) (field_msgs pad (ga_tick (p_user s))) s)
      else None)"

definition policy_step :: "u16 \<Rightarrow> embediq_msg \<Rightarrow> gw_app prog \<Rightarrow> gw_app prog option" where
  "policy_step pad m s =
     (let ps = ga_policy (p_user s) in
      if msg_id m = MSG_FIELD_READING \<and> drop 20 (payload m) = replicate 44 0 \<and> policy_ok ps \<and>
        \<not> g_alert_active ps ! 0
      then map_option (\<lambda>s'. s'\<lparr>p_user := (p_user s)\<lparr>ga_policy := policy_next 0 0 ps\<rparr>\<rparr>)
             (run_list (prog_publish gw_subs 4) (if g_telem_counter ps ! 0 = 1
                then [telem_msg pad 0 (g_telem_seq ps ! 0) 0] else []) s)
      else None)"

definition north_handler :: "embediq_msg \<Rightarrow> gw_app prog \<Rightarrow> gw_app prog option" where
  "north_handler m s =
     (if msg_id m = MSG_TIMER_1SEC
      then map_option (\<lambda>(sm, ns, ev). s\<lparr>p_user := (p_user s)\<lparr>ga_sm := sm, ga_north := ns\<rparr>\<rparr>)
             (north_timer (payload m) (ga_sm (p_user s), ga_north (p_user s)))
      else if msg_id m = MSG_TELEMETRY
      then Some (s\<lparr>p_user := (p_user s)\<lparr>ga_north := north_rx (payload m) (ga_north (p_user s))\<rparr>\<rparr>)
      else None)"

lemma field_poll_msgs:
  "field_poll pad (Some i) (tick, w) = map_option (Pair (tick + 1)) (run_list (publish_msg i) (field_msgs pad tick) w)"
  by (auto simp: field_poll_def field_msgs_def publish_reading_def Let_def split: prod.split bind_splits)

lemma gw_dispatch:
  "prog_at gw_reg subs s w \<Longrightarrow> i < 6 \<Longrightarrow> dispatch_msg_to_fb cb i mid msg w = dispatch_from cb i mid msg (gw_sfs i) w"
  by (rule prog_dispatch, assumption) (simp_all add: gw_sfs_def)

lemma gw_subfn_simps [simp]:
  "sf_run_fn (gw_subfn a x f b c) = Some f" "subfn_subs (gw_subfn a x f b c) = b" if "length b \<le> 16"
  using that by (simp_all add: gw_subfn_def subfn_subs_def take_bit_nat_eq_self unsigned_of_nat)

lemma gw_handler_cases:
  "gw_handler pad FN_field_poll i msg d sd w =
     map_option (\<lambda>(t, v). v\<lparr>user := (user w)\<lparr>ga_tick := t\<rparr>\<rparr>) (field_poll pad (Some i) (ga_tick (user w), w))"
  "gw_handler pad FN_policy_run i msg d sd w =
     map_option (\<lambda>(ps, v). v\<lparr>user := (user w)\<lparr>ga_policy := ps\<rparr>\<rparr>) (policy_run pad (Some i) msg (ga_policy (user w), w))"
  "gw_handler pad FN_north_timer i msg d sd w =
     map_option (\<lambda>(sm, ns, ev). (log_calls ev w)\<lparr>user := (user w)\<lparr>ga_sm := sm, ga_north := ns\<rparr>\<rparr>)
       (north_timer msg (ga_sm (user w), ga_north (user w)))"
  "gw_handler pad FN_north_rx i msg d sd w = Some (w\<lparr>user := (user w)\<lparr>ga_north := north_rx msg (ga_north (user w))\<rparr>\<rparr>)"
  by (simp_all add: gw_handler_def gw_fn_ids Let_def)

lemma gw_run_fn: "cb_run (gw_callbacks thr mem pad) = gw_handler pad"
  by (simp add: gw_callbacks_def)

lemma field_refines:
  "refines (prog_at gw_reg gw_subs) (field_step pad m)
     (dispatch_msg_to_fb (gw_callbacks thr mem pad) 3 (msg_id m) (payload m))"
  unfolding refines_def
proof (intro allI impI)
  fix s s' :: "gw_app prog" and w
  assume at: "prog_at gw_reg gw_subs s w" and "field_step pad m s = Some s'"
  then obtain s1 where t: "msg_id m = MSG_TIMER_1SEC"
    and s1: "run_list (prog_publish gw_subs 3) (field_msgs pad (ga_tick (p_user s))) s = Some s1"
      "s' = s1\<lparr>p_user := (p_user s)\<lparr>ga_tick := ga_tick (p_user s) + 1\<rparr>\<rparr>"
    by (auto simp: field_step_def split: if_splits)
  obtain w1 where w1: "run_list (publish_msg 3) (field_msgs pad (ga_tick (p_user s))) w = Some w1"
    "prog_at gw_reg gw_subs s1 w1"
    using refinesD [OF gw_publish_all at s1(1)] by auto
  have "dispatch_msg_to_fb (gw_callbacks thr mem pad) 3 (msg_id m) (payload m) w = Some (w1\<lparr>user := p_user s'\<rparr>)"
    using w1(1) by (simp add: gw_dispatch [OF at] gw_sfs_def t gw_run_fn gw_handler_cases field_poll_msgs
        prog_at_user_of [OF at] s1(2))
  then show "\<exists>w'. dispatch_msg_to_fb (gw_callbacks thr mem pad) 3 (msg_id m) (payload m) w = Some w' \<and>
      prog_at gw_reg gw_subs s' w'"
    using prog_at_user [OF w1(2)] s1(2) by auto
qed

lemma policy_refines:
  "refines (prog_at gw_reg gw_subs) (policy_step pad m)
     (dispatch_msg_to_fb (gw_callbacks thr mem pad) 4 (msg_id m) (payload m))"
  unfolding refines_def
proof (intro allI impI)
  fix s s' :: "gw_app prog" and w
  let ?ps = "ga_policy (p_user s)"
  let ?ms = "if g_telem_counter ?ps ! 0 = 1 then [telem_msg pad 0 (g_telem_seq ?ps ! 0) 0] else []"
  assume at: "prog_at gw_reg gw_subs s w" and "policy_step pad m s = Some s'"
  then obtain s1 where t: "msg_id m = MSG_FIELD_READING" and ok: "policy_ok ?ps" "\<not> g_alert_active ?ps ! 0"
      "drop 20 (payload m) = replicate 44 0"
    and s1: "run_list (prog_publish gw_subs 4) ?ms s = Some s1"
      "s' = s1\<lparr>p_user := (p_user s)\<lparr>ga_policy := policy_next 0 0 ?ps\<rparr>\<rparr>"
    unfolding policy_step_def Let_def by (simp split: if_split_asm) blast
  obtain w1 where w1: "run_list (publish_msg 4) ?ms w = Some w1" "prog_at gw_reg gw_subs s1 w1"
    using refinesD [OF gw_publish_all at s1(1)] by auto
  have "dispatch_msg_to_fb (gw_callbacks thr mem pad) 4 (msg_id m) (payload m) w = Some (w1\<lparr>user := p_user s'\<rparr>)"
    using w1(1) by (simp add: gw_dispatch [OF at] gw_sfs_def t gw_run_fn gw_handler_cases policy_run_payload [OF ok]
        prog_at_user_of [OF at] s1(2) del: run_list.simps)
  then show "\<exists>w'. dispatch_msg_to_fb (gw_callbacks thr mem pad) 4 (msg_id m) (payload m) w = Some w' \<and>
      prog_at gw_reg gw_subs s' w'"
    using prog_at_user [OF w1(2)] s1(2) by auto
qed

lemma north_refines:
  "refines (prog_at gw_reg gw_subs) (north_handler m)
     (dispatch_msg_to_fb (gw_callbacks thr mem pad) 5 (msg_id m) (payload m))"
  unfolding refines_def
proof (intro allI impI)
  fix s s' :: "gw_app prog" and w
  assume at: "prog_at gw_reg gw_subs s w" and h: "north_handler m s = Some s'"
  note run = gw_dispatch [OF at] gw_sfs_def gw_run_fn gw_handler_cases prog_at_user_of [OF at]
  have ids: "MSG_TELEMETRY \<noteq> MSG_TIMER_1SEC" "MSG_ALERT \<noteq> MSG_TIMER_1SEC" by (simp_all add: embediq_const)
  show "\<exists>w'. dispatch_msg_to_fb (gw_callbacks thr mem pad) 5 (msg_id m) (payload m) w = Some w' \<and>
      prog_at gw_reg gw_subs s' w'"
  proof (cases "msg_id m = MSG_TIMER_1SEC")
    case True
    with h obtain sm ns ev where n: "north_timer (payload m) (ga_sm (p_user s), ga_north (p_user s)) = Some (sm, ns, ev)"
      "s' = s\<lparr>p_user := (p_user s)\<lparr>ga_sm := sm, ga_north := ns\<rparr>\<rparr>"
      by (auto simp: north_handler_def)
    have "dispatch_msg_to_fb (gw_callbacks thr mem pad) 5 (msg_id m) (payload m) w =
        Some ((log_calls ev w)\<lparr>user := p_user s'\<rparr>)"
      using True ids n by (simp add: run)
    then show ?thesis using prog_at_user [OF prog_at_log [OF at]] n(2) by auto
  next
    case False
    with h have n: "msg_id m = MSG_TELEMETRY"
      "s' = s\<lparr>p_user := (p_user s)\<lparr>ga_north := north_rx (payload m) (ga_north (p_user s))\<rparr>\<rparr>"
      by (auto simp: north_handler_def split: if_splits)
    have "dispatch_msg_to_fb (gw_callbacks thr mem pad) 5 (msg_id m) (payload m) w = Some (w\<lparr>user := p_user s'\<rparr>)"
      using ids n by (simp add: run)
    then show ?thesis using prog_at_user [OF at] n(2) by auto
  qed
qed

section \<open>A second\<close>

text \<open>The monitor at the clocks \<open>chk\<close>, the timer, and the three dispatch threads in the order of the data
  path. \<open>pad\<close> is what the padding of the second's structs holds.\<close>

definition gw_second :: "u32 list \<times> u16 \<Rightarrow> gw_app world \<Rightarrow> gw_app world option" where
  "gw_second = (\<lambda>(chk, pad) w. do {
     w \<leftarrow> driver_second (gw_callbacks True True pad) chk w;
     w \<leftarrow> dispatch_serve (gw_callbacks True True pad) 3 w;
     w \<leftarrow> dispatch_serve (gw_callbacks True True pad) 4 w;
     dispatch_serve (gw_callbacks True True pad) 5 w })"

lemma gw_targets:
  "prog_targets gw_subs MSG_TIMER_1SEC = [3, 5]" "prog_targets gw_subs MSG_FIELD_READING = [4]"
  "prog_targets gw_subs MSG_TELEMETRY = [5]"
  "prog_targets gw_subs MSG_TIMER_10MS = []" "prog_targets gw_subs MSG_TIMER_100MS = []"
  by (simp_all add: prog_targets_def gw_subs_def embediq_const)

text \<open>The program with \<open>x\<close>, \<open>y\<close>, \<open>z\<close> tokens and the queues \<open>a\<close>, \<open>b\<close>, \<open>c\<close> of its three FBs.\<close>

definition gw_point :: "gw_app \<Rightarrow> u32 \<Rightarrow> u32 \<Rightarrow> u32 \<Rightarrow>
    embediq_msg list \<Rightarrow> embediq_msg list \<Rightarrow> embediq_msg list \<Rightarrow> gw_app prog" where
  "gw_point u x y z a b c = \<lparr>p_user = u,
     p_tokens = (p_tokens (prog_start gw_cfgs u))(3 := Some x, 4 := Some y, 5 := Some z),
     p_queue = (\<lambda>e. [])(3 := a, 4 := b, 5 := c)\<rparr>"

lemma gw_point_simps [simp]:
  "p_user (gw_point u x y z a b c) = u"
  "p_tokens (gw_point u x y z a b c) 3 = Some x" "p_tokens (gw_point u x y z a b c) 4 = Some y"
  "p_tokens (gw_point u x y z a b c) 5 = Some z"
  "p_queue (gw_point u x y z a b c) 3 = a" "p_queue (gw_point u x y z a b c) 4 = b"
  "p_queue (gw_point u x y z a b c) 5 = c"
  "(gw_point u x y z a b c)\<lparr>p_user := v\<rparr> = gw_point v x y z a b c"
  "(gw_point u x y z a b c)\<lparr>p_tokens := (p_tokens (gw_point u x y z a b c))(3 := Some x')\<rparr> = gw_point u x' y z a b c"
  "(gw_point u x y z a b c)\<lparr>p_tokens := (p_tokens (gw_point u x y z a b c))(4 := Some x')\<rparr> = gw_point u x x' z a b c"
  "(gw_point u x y z a b c)\<lparr>p_tokens := (p_tokens (gw_point u x y z a b c))(5 := Some x')\<rparr> = gw_point u x y x' a b c"
  "(gw_point u x y z a b c)\<lparr>p_queue := (p_queue (gw_point u x y z a b c))(3 := a')\<rparr> = gw_point u x y z a' b c"
  "(gw_point u x y z a b c)\<lparr>p_queue := (p_queue (gw_point u x y z a b c))(4 := a')\<rparr> = gw_point u x y z a a' c"
  "(gw_point u x y z a b c)\<lparr>p_queue := (p_queue (gw_point u x y z a b c))(5 := a')\<rparr> = gw_point u x y z a b a'"
  by (simp_all add: gw_point_def prog_start_def fun_eq_iff)

lemma gw_post [simp]:
  "length a < 32 \<Longrightarrow> x \<noteq> UINT32_MAX \<Longrightarrow>
     prog_post m 3 (gw_point u x y z a b c) = Some (gw_point u (x + 1) y z (a @ [m]) b c)"
  "length b < 32 \<Longrightarrow> y \<noteq> UINT32_MAX \<Longrightarrow>
     prog_post m 4 (gw_point u x y z a b c) = Some (gw_point u x (y + 1) z a (b @ [m]) c)"
  "length c < 32 \<Longrightarrow> z \<noteq> UINT32_MAX \<Longrightarrow>
     prog_post m 5 (gw_point u x y z a b c) = Some (gw_point u x y (z + 1) a b (c @ [m]))"
  by (simp_all add: gw_point_def prog_start_def prog_post_def fun_eq_iff)

lemma gw_point_start: "prog_start gw_cfgs u = gw_point u 0 0 0 [] [] []"
  by (simp add: gw_point_def prog_start_def fun_eq_iff gw_cfgs_def)

text \<open>The field receiver: three readings for one tick.\<close>

definition polled :: "u16 \<Rightarrow> u32 \<Rightarrow> embediq_msg list" where
  "polled pad tick = map (\<lambda>m. m\<lparr>source_endpoint_id := 3\<rparr>) (field_msgs pad tick)"

lemma field_msg_id: "msg_id (field_msg pad sid uid v) = MSG_FIELD_READING" "normal_msg (field_msg pad sid uid v)"
  by (simp_all add: field_msg_def with_payload_def normal_msg_def plain_msg_def clamp_priority_def embediq_const)

lemma field_serves:
  assumes "msg_id m = MSG_TIMER_1SEC"
  shows "prog_serve (field_step pad) 3 3 (gw_point u 1 0 1 [m] [] c) =
    Some (gw_point (u\<lparr>ga_tick := ga_tick u + 1\<rparr>) 0 3 1 [] (polled pad (ga_tick u)) c)"
proof -
  obtain t p f where f: "k_frames ! (unat (ga_tick u) mod length k_frames) = (t, p, f)" by (metis prod_cases3)
  have "field_step pad m (gw_point u 0 0 1 [] [] c) =
      Some (gw_point (u\<lparr>ga_tick := ga_tick u + 1\<rparr>) 0 3 1 [] (polled pad (ga_tick u)) c)"
    by (simp add: field_step_def assms field_msgs_def polled_def f prog_publish_def field_msg_id gw_targets)
  then show ?thesis by simp
qed

lemma polled_payload: "m \<in> set (polled pad t) \<Longrightarrow> msg_id m = MSG_FIELD_READING \<and> drop 20 (payload m) = replicate 44 0"
  by (auto simp: polled_def field_msgs_def field_msg_id field_msg_payload split: prod.splits)

lemma polled_three: "\<exists>m1 m2 m3. polled pad t = [m1, m2, m3]"
  by (auto simp: polled_def field_msgs_def split: prod.split)

text \<open>The policy engine: every second reading is reported as value 0 of sensor 0.\<close>

definition report :: "u16 \<Rightarrow> nat \<Rightarrow> embediq_msg" where
  "report pad j = (telem_msg pad 0 (word_of_nat (j div 2)) 0)\<lparr>source_endpoint_id := 4\<rparr>"

lemma telem_msg_id: "msg_id (telem_msg pad sid sq v) = MSG_TELEMETRY" "normal_msg (telem_msg pad sid sq v)"
  by (simp_all add: telem_msg_def with_payload_def normal_msg_def plain_msg_def clamp_priority_def embediq_const)

lemma policy_after_ok: "policy_ok (policy_after j)" "\<not> g_alert_active (policy_after j) ! 0"
  "g_telem_counter (policy_after j) ! 0 = 1 \<longleftrightarrow> odd j" "g_telem_seq (policy_after j) ! 0 = word_of_nat (j div 2)"
  by (simp_all add: policy_ok_def policy_after_def)

lemma policy_after_next: "policy_next 0 0 (policy_after j) = policy_after (Suc j)"
  using breached_zero by (simp add: policy_next_def policy_after_def Let_def)

lemma policy_step_at:
  assumes "msg_id m = MSG_FIELD_READING" and "drop 20 (payload m) = replicate 44 0"
    and "ga_policy u = policy_after j" and "length c < 32" and "z \<noteq> UINT32_MAX"
  shows "policy_step pad m (gw_point u x y z a b c) = Some (gw_point (u\<lparr>ga_policy := policy_after (Suc j)\<rparr>) x y
      (if odd j then z + 1 else z) a b (if odd j then c @ [report pad j] else c))"
  using assms
  by (simp add: policy_step_def policy_after_ok policy_after_next prog_publish_def telem_msg_id gw_targets report_def)

definition reports :: "u16 \<Rightarrow> nat \<Rightarrow> embediq_msg list" where
  "reports pad j = map (report pad) (filter odd [j, Suc j, Suc (Suc j)])"

lemma policy_serves:
  assumes "ga_policy u = policy_after j"
  shows "prog_serve (policy_step pad) 4 6 (gw_point u 0 3 1 [] (polled pad' t) [m]) =
    Some (gw_point (u\<lparr>ga_policy := policy_after (Suc (Suc (Suc j)))\<rparr>) 0 0 (1 + word_of_nat (length (reports pad j)))
      [] [] (m # reports pad j))"
proof -
  obtain m1 m2 m3 where p: "polled pad' t = [m1, m2, m3]" using polled_three by blast
  have q: "msg_id x = MSG_FIELD_READING" "drop 20 (payload x) = replicate 44 0" if "x \<in> {m1, m2, m3}" for x
    using polled_payload [of x pad' t] that unfolding p by (simp_all only: set_simps)
  let ?u = "\<lambda>i. u\<lparr>ga_policy := policy_after i\<rparr>" and ?z = "\<lambda>i. if odd i then 2 else 1 :: u32"
  let ?r = "\<lambda>i. if odd i then [report pad i] else []"
  have 1: "policy_step pad m1 (gw_point u 0 2 1 [] [m2, m3] [m]) = Some (gw_point (?u (Suc j)) 0 2 (?z j) [] [m2, m3] (m # ?r j))"
    by (simp add: policy_step_at [OF q assms])
  have 2: "policy_step pad m2 (gw_point (?u (Suc j)) 0 2 (?z j) [] [m3] (m # ?r j)) =
      Some (gw_point (?u (Suc (Suc j))) 0 2 2 [] [m3] (m # ?r j @ ?r (Suc j)))"
    by (simp add: policy_step_at [OF q])
  have 3: "policy_step pad m3 (gw_point (?u (Suc (Suc j))) 0 2 2 [] [] (m # ?r j @ ?r (Suc j))) =
      Some (gw_point (?u (Suc (Suc (Suc j)))) 0 2 (2 + of_bool (odd j)) [] [] (m # reports pad j))"
    by (simp add: policy_step_at [OF q] reports_def)
  have "1 + word_of_nat (length (reports pad j)) = (2 + of_bool (odd j) :: u32)"
    by (simp add: reports_def)
  then show ?thesis using 1 2 3 by (cases "odd j") (simp_all add: p)
qed

text \<open>The north bridge: a tick, and reports that it drops.\<close>

lemma north_after_tick:
  assumes "Suc n < 2 ^ 32"
  shows "\<exists>ev. north_timer m (north_after n) = Some (fst (north_after (Suc n)), snd (north_after (Suc n)), ev)"
proof -
  define T where "T = (word_of_nat n :: u32) + 1"
  have g: "T = 12 \<longleftrightarrow> n = 11" "T = 22 \<longleftrightarrow> n = 21" "T = 23 \<longleftrightarrow> n = 22"
    using assms by (simp_all add: T_def word_unat_eq_iff unat_word_ariths unat_of_nat take_bit_nat_eq_self)
  have t: "word_of_nat n + 1 = T" "word_of_nat (Suc n) = T" "word_of_nat n = (11::u32) \<longleftrightarrow> T = 12"
    "word_of_nat n = (21::u32) \<longleftrightarrow> T = 22" "word_of_nat n = (22::u32) \<longleftrightarrow> T = 23"
    by (auto simp: T_def)
  consider "n < 11" | "n = 11" | "11 < n" "n < 21" | "n = 21" | "n = 22" | "22 < n" by linarith
  then show ?thesis
    using g
    by cases (simp_all add: t north_timer_def Let_def north_after_def north_initial_def embediq_sm_process_def
        s_north_table_def north_at_def links_def EMBEDIQ_SM_TABLE_END_def guard_passes_def run_action_def
        guard_go_offline_def guard_go_reconnecting_def guard_link_restored_def action_go_offline_def
        action_go_reconnecting_def action_link_restored_def embediq_const del: of_nat_Suc)
qed

lemma north_tick_at:
  assumes "msg_id m = MSG_TIMER_1SEC" and "(ga_sm (p_user s), ga_north (p_user s)) = north_after n" and "Suc n < 2 ^ 32"
  shows "north_handler m s =
    Some (s\<lparr>p_user := (p_user s)\<lparr>ga_sm := fst (north_after (Suc n)), ga_north := snd (north_after (Suc n))\<rparr>\<rparr>)"
  using north_after_tick [OF assms(3), of "payload m"] assms(1,2) by (auto simp: north_handler_def)

lemma north_report_at: "north_handler (report pad j) s = Some s"
proof -
  have "MSG_TELEMETRY \<noteq> MSG_TIMER_1SEC" by (simp add: embediq_const)
  then show ?thesis
    using north_rx_drops(2) [of 0] by (simp add: north_handler_def report_def telem_msg_id)
qed

lemma north_serves:
  assumes "msg_id m = MSG_TIMER_1SEC" and "(ga_sm u, ga_north u) = north_after n" and "Suc n < 2 ^ 32"
  shows "prog_serve north_handler 5 6 (gw_point u 0 0 (1 + word_of_nat (length (reports pad j))) [] [] (m # reports pad j)) =
    Some (gw_point (u\<lparr>ga_sm := fst (north_after (Suc n)), ga_north := snd (north_after (Suc n))\<rparr>) 0 0 0 [] [] [])"
proof -
  let ?u = "u\<lparr>ga_sm := fst (north_after (Suc n)), ga_north := snd (north_after (Suc n))\<rparr>"
  have "north_handler m (gw_point u x y z a b c) = Some (gw_point ?u x y z a b c)" for x y z a b c
    using north_tick_at [OF assms(1) _ assms(3), of "gw_point u x y z a b c"] assms(2) by simp
  then show ?thesis by (cases "odd j") (simp_all add: reports_def north_report_at)
qed

lemma gw_second_step:
  assumes "prog_at gw_reg gw_subs (gw_point (gw_after n k nvm) 0 0 0 [] [] []) w" and "1000 * Suc n < 2 ^ 32"
  shows "\<exists>w'. gw_second (chk, pad) w = Some w' \<and>
    prog_at gw_reg gw_subs (gw_point (gw_after (Suc n) (k + length chk) nvm) 0 0 0 [] [] []) w'"
proof -
  let ?cb = "gw_callbacks True True pad" and ?k = "k + length chk"
  let ?tick = "(plain_msg MSG_TIMER_1SEC)\<lparr>source_endpoint_id := 0\<rparr>"
  let ?s = "gw_point (gw_after n k nvm) 0 0 0 [] [] []"
  let ?u1 = "(gw_after n ?k nvm)\<lparr>da_timer := counts_at (1000 * Suc n) timer_started\<rparr>"
  let ?u2 = "?u1\<lparr>ga_tick := ga_tick ?u1 + 1\<rparr>"
  let ?u3 = "?u2\<lparr>ga_policy := policy_after (Suc (Suc (Suc (3 * n))))\<rparr>"
  have da: "da_wdg (p_user ?s) = wdg_at k []" "da_timer (p_user ?s) = counts_at (1000 * n) timer_started"
    and u: "(gw_after n k nvm)\<lparr>da_wdg := wdg_at ?k []\<rparr> = gw_after n ?k nvm"
    by (simp_all add: gw_after_def)
  have ok: "\<forall>t \<in> set chk. in_time t []" by (simp add: in_time_def)
  have "prog_publish gw_subs 0 (plain_msg MSG_TIMER_1SEC) (?s\<lparr>p_user := (p_user ?s)\<lparr>da_wdg := wdg_at ?k []\<rparr>\<rparr>) =
      Some (gw_point (gw_after n ?k nvm) 1 0 1 [?tick] [] [?tick])"
    by (simp add: u prog_publish_def gw_targets)
  from gw_drivers [OF assms(1) _ da(1) ok da(2) assms(2) gw_targets(4,5) this, of ?cb] obtain w1 where
    w1: "driver_second ?cb chk w = Some w1" "prog_at gw_reg gw_subs (gw_point ?u1 1 0 1 [?tick] [] [?tick]) w1"
    by auto
  have tick: "msg_id ?tick = MSG_TIMER_1SEC" by simp
  from refinesD [OF gw_serve [OF _ field_refines [of pad _ True True]] w1(2) field_serves [OF tick]] obtain w2 where
    w2: "dispatch_serve ?cb 3 w1 = Some w2"
      "prog_at gw_reg gw_subs (gw_point ?u2 0 3 1 [] (polled pad (ga_tick ?u1)) [?tick]) w2"
    by auto
  have "ga_policy ?u2 = policy_after (3 * n)" by (simp add: gw_after_def)
  from refinesD [OF gw_serve [OF _ policy_refines [of pad _ True True]] w2(2) policy_serves [OF this]] obtain w3 where
    w3: "dispatch_serve ?cb 4 w2 = Some w3" "prog_at gw_reg gw_subs (gw_point ?u3 0 0
      (1 + word_of_nat (length (reports pad (3 * n)))) [] [] (?tick # reports pad (3 * n))) w3"
    by auto
  have north: "(ga_sm ?u3, ga_north ?u3) = north_after n" by (simp add: gw_after_def)
  from assms(2) have bound: "Suc n < 2 ^ 32" by simp
  from refinesD [OF gw_serve [OF _ north_refines [of _ True True pad]] w3(2) north_serves [OF tick north bound]]
  obtain w4 where w4: "dispatch_serve ?cb 5 w3 = Some w4" "prog_at gw_reg gw_subs
      (gw_point (?u3\<lparr>ga_sm := fst (north_after (Suc n)), ga_north := snd (north_after (Suc n))\<rparr>) 0 0 0 [] [] []) w4"
    by auto
  have "?u3\<lparr>ga_sm := fst (north_after (Suc n)), ga_north := snd (north_after (Suc n))\<rparr> = gw_after (Suc n) ?k nvm"
    by (simp add: gw_after_def add.commute numeral_3_eq_3)
  then show ?thesis using w1(1) w2(1) w3(1) w4 by (simp add: gw_second_def)
qed

section \<open>The whole program\<close>

lemma gw_seconds:
  assumes "prog_at gw_reg gw_subs (gw_point (gw_after n k nvm) 0 0 0 [] [] []) w"
    and "1000 * (n + length cs) < 2 ^ 32"
  shows "\<exists>w' k'. run_list gw_second cs w = Some w' \<and>
    prog_at gw_reg gw_subs (gw_point (gw_after (n + length cs) k' nvm) 0 0 0 [] [] []) w'"
  using assms
proof (induction cs arbitrary: n k w)
  case (Cons c cs)
  obtain chk pad where c: "c = (chk, pad)" by fastforce
  obtain w1 where w1: "gw_second (chk, pad) w = Some w1"
    "prog_at gw_reg gw_subs (gw_point (gw_after (Suc n) (k + length chk) nvm) 0 0 0 [] [] []) w1"
    using gw_second_step [OF Cons.prems(1), of chk pad] Cons.prems(2) by auto
  from Cons.IH [OF w1(2)] Cons.prems(2) w1(1) show ?case by (auto simp: c)
qed auto

text \<open>C6: the gateway as a whole, from its load state, under the real dispatcher. For any number n of
  seconds up to the wrap of the tick counter: main boots its six function blocks in order, every
  thread comes back to its wait in each second, and the field receiver has taken n frames of its
  script. But nothing of it reaches the cloud: no alert was ever raised, although the script holds a
  pressure of 9.2 bar and a flow of 3.2 litres, the policy engine having counted all 3n readings
  as readings of sensor 0; and the north bridge printed its link changes and nothing else, without
  an alert, a telemetry message or a buffered value.\<close>

theorem gateway_end_to_end:
  assumes "length cs = n" and "n < 4294967"
  shows "\<exists>booted w. gw_main pad (gw_cold nvm) = Some (0, booted) \<and> g_boot_order booted = [0, 1, 2, 3, 4, 5] \<and>
    run_list gw_second cs booted = Some w \<and> ga_tick (user w) = word_of_nat n \<and>
    g_alert_active (ga_policy (user w)) = [False, False, False] \<and>
    g_telem_seq (ga_policy (user w)) = [word_of_nat (3 * n div 2), 0, 0] \<and>
    g_conn_state (ga_north (user w)) = north_at n \<and> g_buffer (ga_north (user w)) = [] \<and>
    n_out (ga_north (user w)) = take (if n < 12 then 0 else if n < 22 then 1 else if n < 23 then 2 else 3)
      [Link_Down 12, Link_Reconnecting 22, Link_Restored 23 0] \<and>
    (\<forall>e < 6. \<forall>p < 3. ep_items w e p = [])"
proof -
  obtain booted where b: "gw_main pad (gw_cold nvm) = Some (0, booted)" "g_boot_order booted = [0, 1, 2, 3, 4, 5]"
    "prog_at gw_reg gw_subs (gw_point (gw_after 0 0 nvm) 0 0 0 [] [] []) booted"
    using gw_boots gw_point_start by metis
  obtain w k where w: "run_list gw_second cs booted = Some w"
    "prog_at gw_reg gw_subs (gw_point (gw_after n k nvm) 0 0 0 [] [] []) w"
    using gw_seconds [OF b(3), of cs] assms by auto
  then have "user w = gw_after n k nvm" "\<forall>e < 6. \<forall>p < 3. ep_items w e p = []"
    by (simp_all add: prog_at_def gw_point_def)
  moreover have "links n = take (if n < 12 then 0 else if n < 22 then 1 else if n < 23 then 2 else 3)
      [Link_Down 12, Link_Reconnecting 22, Link_Restored 23 0]"
    by (simp add: links_def)
  ultimately show ?thesis
    using b(1,2) w(1) by (auto simp: gw_after_def policy_after_def north_after_def)
qed

text \<open>The thirty seconds of the demonstration.\<close>

lemma gateway_end_to_end_witness:
  "\<exists>booted w. gw_main 0 (gw_cold (demo_nvm (disk None Io_Ok))) = Some (0, booted) \<and>
     run_list gw_second (replicate 30 ([], 0)) booted = Some w \<and>
     n_out (ga_north (user w)) = [Link_Down 12, Link_Reconnecting 22, Link_Restored 23 0]"
  using gateway_end_to_end [of "replicate 30 ([], 0)" 30 0 "demo_nvm (disk None Io_Ok)"] by auto

end
