(* ===== verification/Logger.thy ===== *)
theory Logger
  imports Bridge
begin

text \<open>
  The service template examples/service_fb_template/fb_logger.c: a function block that forwards log
  messages to a backend, given as a table of function pointers (fb_logger_ops.h). Of a pointer
  the model keeps whether it is NULL; the calls made through it are recorded.
\<close>

definition MSG_LOG_ENTRY :: u16 where [embediq_const]: "MSG_LOG_ENTRY = 0x1600"
definition LOGGER_LINE_MAX :: u16 where [embediq_const]: "LOGGER_LINE_MAX = 64"
definition EMBEDIQ_LOGGER_OPS_VERSION :: u32 where [embediq_const]: "EMBEDIQ_LOGGER_OPS_VERSION = 1"

record logger_ops =
  lo_version :: u32
  lo_open :: bool
  lo_write :: bool
  lo_flush :: bool
  lo_close :: bool

datatype logger_call = Log_Open | Log_Write bytes u16 | Log_Flush | Log_Close

record logger_state =
  g_ops :: "logger_ops option"
  backend_calls :: "logger_call list"

definition logger_initial :: logger_state where
  "logger_initial = \<lparr>g_ops = None, backend_calls = []\<rparr>"

definition backend :: "logger_call \<Rightarrow> logger_state \<Rightarrow> logger_state" where
  "backend c ls = ls\<lparr>backend_calls := backend_calls ls @ [c]\<rparr>"

text \<open>The handler. \<open>msg\<close> is the memory from the message pointer to the end of the object it points
  into; \<open>None\<close> as the result: the handler reads beyond it.\<close>

definition logger_run :: "bytes option \<Rightarrow> logger_state \<Rightarrow> logger_state option" where
  "logger_run msg ls = (case (g_ops ls, msg) of
     (Some ops, Some m) \<Rightarrow>
       if \<not> lo_write ops then Some ls
       else if length m < 8 then None
       else let n = of_le16 (drop 6 m); n = (if n \<ge> LOGGER_LINE_MAX then LOGGER_LINE_MAX - 1 else n)
            in if length m < 20 + unat n then None
               else Some (backend (Log_Write (take (unat n) (drop 20 m) @ [0]) n) ls)
   | _ \<Rightarrow> Some ls)"

definition FN_logger_run :: nat where "FN_logger_run = 71"
definition FN_logger_init :: nat where "FN_logger_init = 72"
definition FN_logger_exit :: nat where "FN_logger_exit = 73"

definition logger_subfn :: subfn_config where
  "logger_subfn = zero_subfn\<lparr>sf_name := Some ''logger_run'', sf_init_order := 1,
     sf_run_fn := Some FN_logger_run, sf_subscriptions := [MSG_LOG_ENTRY], sf_subscription_count := 1\<rparr>"

definition logger_init :: "handle \<Rightarrow> logger_state \<times> 'u world \<Rightarrow> logger_state \<times> 'u world" where
  "logger_init fb = (\<lambda>(ls, w).
     (case g_ops ls of Some ops \<Rightarrow> (if lo_open ops then backend Log_Open ls else ls) | None \<Rightarrow> ls,
      snd (embediq_subfn_register fb (Some logger_subfn) w)))"

definition logger_exit :: "logger_state \<Rightarrow> logger_state" where
  "logger_exit ls = (case g_ops ls of
     None \<Rightarrow> ls
   | Some ops \<Rightarrow>
       let ls = (if lo_flush ops then backend Log_Flush ls else ls)
       in if lo_close ops then backend Log_Close ls else ls)"

definition logger_config :: fb_config where
  "logger_config = \<lparr>fc_name = Some ''fb_logger'', fc_priority = 0, fc_stack_size = 0,
     fc_init_fn = Some FN_logger_init, fc_run_fn = None, fc_exit_fn = Some FN_logger_exit,
     fc_fault_fn = None, fc_fb_data = 0, fc_subscriptions = Some [MSG_LOG_ENTRY],
     fc_subscription_count = 1, fc_publications = None, fc_publication_count = 0,
     fc_depends_on = [], fc_depends_count = 0, fc_boot_phase = EMBEDIQ_BOOT_PHASE_INFRASTRUCTURE\<rparr>"

definition fb_logger_register ::
  "logger_ops option \<Rightarrow> logger_state \<times> 'u world \<Rightarrow> handle \<times> logger_state \<times> 'u world" where
  "fb_logger_register ops = (\<lambda>(ls, w).
     if ops = None \<or> lo_version (the ops) < EMBEDIQ_LOGGER_OPS_VERSION then (None, ls, w)
     else let (h, w) = embediq_fb_register (Some logger_config) w in (h, ls\<lparr>g_ops := ops\<rparr>, w))"

section \<open>What is logged\<close>

lemma msg_bytes_parts:
  assumes "wf_msg m"
  shows "length (msg_bytes m) = 84" and "drop 20 (msg_bytes m) = payload m"
    and "of_le16 (drop 6 (msg_bytes m)) = payload_len m"
  using assms by (simp_all add: msg_bytes_def wf_msg_def EMBEDIQ_MSG_MAX_PAYLOAD_def)

text \<open>On a whole message the handler forwards a line of its own: the first bytes of the payload,
  as many as the length field says but at most 63, with a zero behind them; and it reads nothing
  outside the message.\<close>

theorem logger_line:
  assumes "wf_msg m" and "g_ops ls = Some ops" and "lo_write ops"
  shows "logger_run (Some (msg_bytes m)) ls =
    (let n = min (unat (payload_len m)) 63
     in Some (backend (Log_Write (take n (payload m) @ [0]) (word_of_nat n)) ls))"
proof -
  let ?n = "if payload_len m \<ge> LOGGER_LINE_MAX then LOGGER_LINE_MAX - 1 else payload_len m"
  have n: "unat ?n = min (unat (payload_len m)) 63"
    by (simp add: LOGGER_LINE_MAX_def word_le_nat_alt)
  have "?n = word_of_nat (unat ?n)" by (simp only: of_nat_unat ucast_id)
  then have "?n = word_of_nat (min (unat (payload_len m)) 63)" by (simp only: n)
  with n show ?thesis
    using assms msg_bytes_parts [OF assms(1)] by (simp add: logger_run_def Let_def)
qed

text \<open>But the dispatcher hands a sub-function the payload, not the message. The handler then takes
  the bytes 6 and 7 of the text for the length, and for every text whose eighth byte is not zero it
  copies 63 bytes from the twentieth on, 19 bytes beyond the end of the message.\<close>

theorem logger_reads_beyond:
  assumes "wf_msg m" and "g_ops ls = Some ops" and "lo_write ops" and "payload m ! 7 \<noteq> 0"
  shows "logger_run (Some (payload m)) ls = None"
proof -
  have len: "length (payload m) = 64" using assms(1) by (simp add: wf_msg_def EMBEDIQ_MSG_MAX_PAYLOAD_def)
  let ?a = "payload m ! 6" and ?b = "payload m ! 7" and ?n = "of_le16 (drop 6 (payload m))"
  have n: "?n = ucast ?a OR push_bit 8 (ucast ?b)"
    using len by (simp add: of_le16_def)
  have "drop_bit 8 ?n = ucast ?b"
    unfolding n by (rule bit_eqI) (auto simp: bit_simps dest: bit_imp_le_length)
  moreover have "ucast ?b \<noteq> (0::u16)"
    using assms(4) unat_ucast_up [of ?b, where 'b = 16] by (simp add: word_unat_eq_iff)
  ultimately have "unat (drop_bit 8 ?n) \<noteq> 0" by (simp add: unat_eq_zero)
  then have "unat ?n div 256 \<noteq> 0" unfolding unat_drop_bit_eq by (simp add: drop_bit_eq_div)
  then have "?n \<ge> LOGGER_LINE_MAX"
    by (auto simp: LOGGER_LINE_MAX_def word_le_nat_alt)
  then show ?thesis
    using assms len by (simp add: logger_run_def LOGGER_LINE_MAX_def)
qed

text \<open>A table with an older version is refused, and then nothing is registered.\<close>

lemma logger_register_cases:
  "fst (fb_logger_register ops (ls, w)) \<noteq> None \<Longrightarrow>
     \<exists>t. ops = Some t \<and> lo_version t \<ge> EMBEDIQ_LOGGER_OPS_VERSION \<and>
       fb_logger_register ops (ls, w) = (fst (embediq_fb_register (Some logger_config) w),
         ls\<lparr>g_ops := Some t\<rparr>, snd (embediq_fb_register (Some logger_config) w))"
  by (cases ops) (auto simp: fb_logger_register_def case_prod_beta Let_def split: if_splits)

section \<open>Witnesses\<close>

definition demo_logger :: logger_state where
  "demo_logger = logger_initial\<lparr>g_ops := Some \<lparr>lo_version = 1, lo_open = False, lo_write = True,
     lo_flush = False, lo_close = False\<rparr>\<rparr>"

definition demo_line :: embediq_msg where
  "demo_line = zero_msg\<lparr>msg_id := MSG_LOG_ENTRY, payload := replicate 9 0x61 @ replicate 55 0, payload_len := 9\<rparr>"

lemma demo_line_wf: "wf_msg demo_line"
  by (simp add: demo_line_def wf_msg_def zero_msg_def EMBEDIQ_MSG_MAX_PAYLOAD_def)

lemma logger_line_witness:
  "logger_run (Some (msg_bytes demo_line)) demo_logger =
     Some (backend (Log_Write (replicate 9 0x61 @ [0]) 9) demo_logger)"
  using logger_line [OF demo_line_wf, of demo_logger] by (simp add: demo_logger_def demo_line_def Let_def)

lemma logger_reads_beyond_witness: "logger_run (Some (payload demo_line)) demo_logger = None"
  using logger_reads_beyond [OF demo_line_wf, of demo_logger]
  by (simp add: demo_logger_def demo_line_def nth_append)

end
