(* ===== verification/Spec2Isabelle.thy ===== *)
theory Spec2Isabelle
  imports Prelude Osal OsalTime Monitor OsalThreads Fsm Obs Registry Bus Topo Engine Dispatch Crc Flash
    Schema Store Nvm Cfg Publish Timer Watchdog Platform Float32 Telemetry Thermostat Gateway Bridge
    BridgeMux ExtFb ExtFbSocket Program Machine Drivers ThermoBoot
    ThermoSystem GatewaySystem Logger
begin

text \<open>
  \<^bold>\<open>EmbedIQ\<close>: a framework of message-passing function blocks (FBs) for embedded systems, as
  compiled for the POSIX host (\<open>EMBEDIQ_PLATFORM_HOST\<close>, default values of
  core/include/embediq_config.h).

  \<^bold>\<open>How the program works.\<close> An application registers FBs with the engine
  (core/src/registry/fb_engine.c). A boot checks the declared dependencies, gives every FB an
  endpoint with three bounded queues on the message bus (core/src/bus/message_bus.c), and calls
  the init functions phase by phase in the order of a topological sort. Each FB then has a
  dispatch thread that sleeps on a semaphore, drains the three queues in the order of their
  priority and runs the sub-functions subscribed to each message. Publishing copies the message
  into the queues of all subscribers; a full queue blocks a HIGH publisher, loses its oldest
  NORMAL message, or refuses a LOW one. Queues, semaphores, signals, mutexes and clocks come from
  the OS layer (osal/posix/embediq_osal_posix.c). Every component reports to the Observatory
  (core/src/observatory/obs.c): a ring buffer of events, an optional trace line on stdout and an
  optional capture file. On top stand a state machine engine, drivers and services that are FBs
  themselves (timer, watchdog, non-volatile memory, telemetry, bridge), a typed configuration, a
  table of library initialisers, and two example applications.

  \<^bold>\<open>Theories and files.\<close>
  Prelude: types, constants, error codes, the message envelope, byte encodings, generic lemmas.
  Osal, OsalTime: osal/posix/embediq_osal_posix.c as sequential functions (queue ring buffer,
  semaphore; clocks, deadlines, polling mutex, signal, tasks). Monitor, OsalThreads: the same
  blocking calls executed by any number of threads on a mutex and condition variables.
  Fsm: core/src/fsm/fsm_engine.c. Obs: core/src/observatory/obs.c and
  hal/posix/peripherals/hal_obs_stream_posix.c. Registry: the data of engine and bus and the
  registration calls; Topo, Engine, Dispatch: the sort, the boot, the dispatch thread of
  fb_engine.c; Bus, Publish: message_bus.c. Crc: components/embediq_crc/embediq_crc.c. Flash, Nvm:
  hal/posix/peripherals/hal_flash_posix.c and fbs/drivers/fb_nvm.c. Schema, Store, Cfg: the
  generated schema and accessors and core/src/cfg/embediq_cfg.c. Timer, Watchdog:
  fbs/drivers/fb_timer.c and fb_watchdog.c with their POSIX drivers. Platform:
  core/src/embediq_platform.c. Float32, Telemetry: fbs/services/fb_telemetry.c and the floats it
  computes with. Bridge, BridgeMux: fbs/bridge/fb_bridge.c. ExtFb, ExtFbSocket:
  core/src/bridge/embediq_ext_fb.c with either transport. Thermostat, Gateway: the FBs under
  examples/, and Logger: the template examples/service_fb_template/fb_logger.c. Program, Machine:
  booting and running a program of FBs on the engine and the bus, by refinement of an abstract
  machine. Drivers: the three driver FBs that both example programs start with. ThermoBoot,
  ThermoSystem: the program examples/thermostat/main.c; GatewaySystem: the program
  examples/gateway/main.c. Each is composed of the models of its FBs, the engine, the bus and the
  timer; one value of \<open>callbacks\<close> says what its function pointers do.

  \<^bold>\<open>How code becomes definitions.\<close> A definition has the name of its C function; loops and blocks
  that need a name of their own have one that says what they do. The static variables of a file
  are a record that its functions take and return; fields keep the names of the variables. Engine
  and bus share the record \<open>world\<close> of theory Registry, which is parametric in the state of the FBs'
  own code. Integers keep their width and wrap as in C. A function pointer is an identifier, and
  a parameter \<open>callbacks\<close> says what it does; \<open>None\<close> is NULL. A handle is an index. Observatory
  calls of other components are recorded in the field \<open>obs_log\<close>, and theory Obs runs such calls.
  Clock readings, results of system calls and of \<open>malloc\<close>, struct padding and stale buffer
  contents are arguments. \<open>None\<close> as the result of an operation means that the calling thread waits
  and does not return, or that the code's behaviour is undefined there, as each definition says;
  a HIGH publication on a full queue is the usual case.

  \<^bold>\<open>Interfaces.\<close> \<open>bounded_fifo\<close> (Osal): a bounded queue with its two overflow policies, interpreted
  on the ring buffer, used by Bus. \<open>token_monitor\<close> and \<open>call_history\<close> (Monitor): no lost wakeup and
  linearisation of calls on a condition variable, interpreted on queue and semaphore
  (OsalThreads). \<open>ring_invariant\<close> (Obs): what every Observatory call keeps. \<open>kv_store\<close> (Store):
  what the configuration needs of the non-volatile store, interpreted in Nvm, used by Cfg.
  \<open>bus_client\<close> (Publish): what a periodic publisher needs of the bus, interpreted on the bus
  model, used by the FBs. \<open>crc_engine\<close> (Crc): linearity and burst detection of a CRC register,
  interpreted on the three polynomials. \<open>booting_program\<close>
  (Program): what the engine needs of a program's FBs to boot it, interpreted on both example
  programs. \<open>running_program\<close> (Machine): what the abstract machine needs of a booted program; a
  sublocale of \<open>booting_program\<close>, used by Drivers and by both programs.

  \<^bold>\<open>What is proved.\<close>
  OSAL: the ring buffer is a bounded FIFO; the calls of any number of threads are a run of the
  sequential functions, under mutual exclusion and without a lost wakeup as long as no wait has
  a finite timeout; timed locks return; clock differences survive the wrap.
  Bus and engine: routing delivers one copy per subscription under the policy of the priority and
  changes nothing else; publishing blocks exactly when a HIGH copy has no room; queues keep
  well-formed messages; a boot fails exactly on a missing dependency or on a cycle inside a
  phase and otherwise calls the init function of every FB of the phases 1 to 4 once and in order; a
  message runs the registered sub-functions in the order of their init_order; no queued
  message is left without a wakeup; shutdown makes progress. (That a function pointer is called is
  stated by a log that the functions of the program are assumed to keep.)
  Observatory: the ring holds the newest 256 events with consecutive numbers; a capture file
  decodes to what was emitted; an emit ends when its stream is open.
  Persistence: the store refines a map; a power cycle keeps the old or the new table as a whole;
  the CRCs are polynomial division and detect every burst up to four bytes; typed values round
  trip.
  Services: schedule of the timer; verdict, map and deadlock of the watchdog; aggregation and
  batching of telemetry; order of library initialisation; the session invariant of the bridge in
  every interleaving, the frames it routes and the peers it drops; the pool of external FBs.
  Examples: the thermostat program boots, and in every second of its run the timer, the sensor and
  the controller each wake the next, the controller's state follows a cycle of 28 seconds and the
  watchdog stays content. The handlers of the gateway, on whatever bytes they are called with, raise
  alerts on the edges of the thresholds and lose no telemetry that found room, if these bytes hold
  whole messages; the gateway program boots and polls its devices, but since the
  dispatcher passes a payload and the handlers take it for a whole message, no reading reaches the
  cloud (\<open>gateway_end_to_end\<close>).
  Several theorems state defects: the handlers of telemetry and gateway read behind the payload
  that the dispatcher hands them (\<open>tel_handlers_misread\<close>, \<open>gateway_data_lost\<close>,
  \<open>logger_reads_beyond\<close>), a write whose loss nobody reports empties the store
  (\<open>nvm_lost_write_empties\<close>), the watchdog can lock out its clients (\<open>wdg_scan_deadlock\<close>),
  the two ends of the socket bridge disagree about the records of a frame
  (\<open>client_message_lost\<close>), an external FB receives nothing (\<open>ext_recv_starves\<close>), a failing capture recurses for ever (\<open>obs_emit_diverges\<close>,
  \<open>obs_capture_end_diverges\<close>), a timed wait can swallow a wakeup
  (\<open>queue_timed_wait_loses_wakeup\<close>).

  \<^bold>\<open>Fuel and bounds.\<close> \<open>topo_dfs\<close> takes fuel, and \<open>topo_sort\<close> passes enough for every registry: each
  call colours a white FB grey. \<open>embediq_obs_emit\<close> takes one unit of fuel for each nested emit; two
  are enough while the stream is open, and no amount is enough in the diverging cases.
  \<open>mutex_poll\<close> takes one unit for each round; timeout plus one suffices when a round sleeps at
  least a millisecond. \<open>dispatch_drain\<close> and \<open>dispatch_serve\<close> are partial functions, since a handler
  may keep its own queue full. The steps \<open>prog_drain\<close> and \<open>prog_serve\<close> of the abstract machine take
  fuel, enough for the messages and tokens that a second of the example programs queues; that they
  return is proved there, and by refinement the partial functions return too. All other
  recursions are structural or have a measure. The table sizes (64
  endpoints, 512 subscriptions, 256 events, 64 keys, 64 watched FBs, 32 metrics, 8 external FBs, 16
  libraries) are those of the default configuration.

  \<^bold>\<open>Not modelled.\<close> The FreeRTOS and ESP ports, the TLS, MQTT and OTA interfaces and the remaining HAL
  headers (declarations or stubs); the generators and tools, tests and third-party code; the main
  function of the bridge example (calls in sequence and a wait for a signal) and the printing and
  capture options of the other two; schedules of either program in which a dispatch thread falls
  behind the timer by more than a second; \<open>pthread_mutex_t\<close> itself
  (a component that owns a mutex has a field for its locked state); what a kick does to a hardware
  watchdog beyond a count of the kicks; the warning of the bus about reserved identifiers on
  stdout; what arrives at the bridge's mux during a round (it is seen in the next one); task priorities and stack
  sizes, which the POSIX port ignores; removal of the bridge's socket path; the memory model below
  the locks: shared variables that the code accesses without a lock are read and written in
  the steps of the model.
\<close>

end
